(* ===== verification/Prelude.thy ===== *)
theory Prelude
  imports Main "HOL-Library.Word" "HOL-Library.List_Lexorder" "HOL-Library.Sublist"
begin

text \<open>
  What every component shares: the result type of code that can panic, the reads and the
  \<open>copy\<close> of Go's arrays and slices, keys and the byte order on them, and the generic facts
  about the 256 byte values that the four node types rest on.

  A Go function that can panic is modelled with a result in \<open>panic + 'a\<close>, \<open>Inl\<close> for the panic.
  A nil pointer is \<open>None\<close>, and following it is \<open>deref\<close>.
\<close>

named_theorems art_simps \<open>rewrites of the node representation\<close>

section \<open>Results\<close>

datatype panic =
    NilDereference
  | IndexOutOfRange
  | PanicMessage string

type_synonym 'a res = "panic + 'a"

text \<open>The error is \<open>panic\<close> here, and also the errors of a stream where the code reads or writes one.\<close>

definition rbind :: "'e + 'a \<Rightarrow> ('a \<Rightarrow> 'e + 'b) \<Rightarrow> 'e + 'b" where
  "rbind m f = (case m of Inl e \<Rightarrow> Inl e | Inr x \<Rightarrow> f x)"

lemma rbind_Inl [simp]: "rbind (Inl e) f = Inl e"
  by (simp add: rbind_def)

lemma rbind_Inr [simp]: "rbind (Inr x) f = f x"
  by (simp add: rbind_def)

lemma rbind_eq_Inr: "rbind m f = Inr y \<longleftrightarrow> (\<exists>x. m = Inr x \<and> f x = Inr y)"
  by (cases m) auto

lemma rbind_cong [fundef_cong]:
  "m = m' \<Longrightarrow> (\<And>x. m' = Inr x \<Longrightarrow> f x = g x) \<Longrightarrow> rbind m f = rbind m' g"
  by (cases m') auto

definition deref :: "'a option \<Rightarrow> 'a res" where
  "deref p = (case p of None \<Rightarrow> Inl NilDereference | Some x \<Rightarrow> Inr x)"

lemma deref_simps [simp]: "deref None = Inl NilDereference" "deref (Some x) = Inr x"
  by (simp_all add: deref_def)

lemma deref_eq_Inr [simp]: "deref p = Inr x \<longleftrightarrow> p = Some x"
  by (cases p) auto

section \<open>Arrays and slices\<close>

text \<open>Reading \<open>xs[i]\<close> panics out of range.\<close>

definition at_idx :: "'a list \<Rightarrow> int \<Rightarrow> 'a res" where
  "at_idx xs i = (if 0 \<le> i \<and> i < int (length xs) then Inr (xs ! nat i) else Inl IndexOutOfRange)"

lemma at_idx_ok: "i < length xs \<Longrightarrow> at_idx xs (int i) = Inr (xs ! i)"
  by (simp add: at_idx_def)

text \<open>
  Reading an array of pointers at an index that its type keeps in range: the result is the
  pointer at the index (\<open>slot_nth\<close>); the other branch is never taken on arrays of full length.
\<close>

definition slot :: "'a option list \<Rightarrow> nat \<Rightarrow> 'a option" where
  "slot cs i = (if i < length cs then cs ! i else None)"

lemma slot_nth: "i < length cs \<Longrightarrow> slot cs i = cs ! i"
  by (simp add: slot_def)

lemma slot_mem: "slot cs i = Some c \<Longrightarrow> Some c \<in> set cs"
  by (auto simp: slot_def split: if_splits) (metis nth_mem)

lemma at_idx_mem: "at_idx xs i = Inr x \<Longrightarrow> x \<in> set xs"
  by (auto simp: at_idx_def split: if_splits)

text \<open>
  \<open>copy(dst[lo:], src)\<close>: as many elements as fit, from position \<open>lo\<close> of \<open>dst\<close> on. The source
  is read before anything is written, also where it is a part of the same array.
\<close>

definition go_copy :: "nat \<Rightarrow> 'a list \<Rightarrow> 'a list \<Rightarrow> 'a list" where
  "go_copy lo src dst = take lo dst @ take (length dst - lo) src @ drop (lo + length src) dst"

lemma length_go_copy [simp]: "lo \<le> length dst \<Longrightarrow> length (go_copy lo src dst) = length dst"
  by (simp add: go_copy_def min_def)

lemma nth_go_copy:
  assumes "lo \<le> length dst" and "i < length dst"
  shows "go_copy lo src dst ! i =
    (if lo \<le> i \<and> i < lo + length src then src ! (i - lo) else dst ! i)"
proof (cases "i < lo")
  case True
  with assms show ?thesis by (simp add: go_copy_def nth_append)
next
  case False
  then show ?thesis using assms
    by (auto simp: go_copy_def nth_append min_def not_less)
qed

text \<open>An index loop with an early return is a search through the indexes it visits.\<close>

lemma find_cong_pred: "(\<And>x. x \<in> set xs \<Longrightarrow> P x = Q x) \<Longrightarrow> find P xs = find Q xs"
  by (induction xs) auto

lemma find_append: "find P (xs @ ys) = (case find P xs of None \<Rightarrow> find P ys | Some x \<Rightarrow> Some x)"
  by (induction xs) auto

lemma find_map: "find P (map f xs) = map_option f (find (P \<circ> f) xs)"
  by (induction xs) auto

lemma find_SomeD: "find P xs = Some x \<Longrightarrow> x \<in> set xs \<and> P x"
  by (metis find_Some_iff nth_mem)

lemma find_filter: "find P (filter Q xs) = find (\<lambda>x. Q x \<and> P x) xs"
  by (induction xs) auto

lemma find_sorted_min:
  assumes "sorted_wrt (<) (xs :: 'a :: linorder list)" and "find P xs = Some x" and "y \<in> set xs" and "P y"
  shows "x \<le> y"
  using assms by (induction xs) (auto split: if_splits dest: find_SomeD)

lemma find_rev_sorted_max:
  assumes "sorted_wrt (<) (xs :: 'a :: linorder list)" and "find P (rev xs) = Some x" and "y \<in> set xs" and "P y"
  shows "y \<le> x"
  using assms
proof (induction xs)
  case Nil
  then show ?case by simp
next
  case (Cons a xs)
  show ?case
  proof (cases "find P (rev xs)")
    case None
    then have "\<forall>z \<in> set xs. \<not> P z" by (auto simp: find_None_iff)
    with Cons.prems None show ?thesis by (auto simp: find_append split: if_splits)
  next
    case (Some z)
    with find_SomeD [OF Some] Cons.prems Cons.IH show ?thesis
      by (auto simp: find_append)
  qed
qed

text \<open>In a list whose elements that satisfy a test are distinct, such an element has one index.\<close>

lemma distinct_filter_nth_eq:
  assumes "distinct (filter P xs)" and "i < length xs" and "j < length xs" and "xs ! i = xs ! j" and "P (xs ! i)"
  shows "i = j"
  using assms
proof (induction xs arbitrary: i j)
  case Nil
  then show ?case by simp
next
  case (Cons x xs)
  have "x \<notin> set xs" if "P x" using Cons.prems(1) that by (auto split: if_splits)
  with Cons show ?case
    by (auto simp: nth_Cons' split: if_splits) (metis nth_mem One_nat_def diff_Suc_less less_Suc_eq_0_disj Suc_pred less_SucE
      Suc_less_eq not_less_eq zero_less_iff_neq_zero)+
qed

lemma find_upt_SomeI:
  "i < n \<Longrightarrow> P i \<Longrightarrow> (\<And>j. j < i \<Longrightarrow> \<not> P j) \<Longrightarrow> find P [0..<n] = Some i"
  by (auto simp: find_Some_iff intro!: exI [of _ i])

lemma find_upt_NoneI: "(\<And>j. j < n \<Longrightarrow> \<not> P j) \<Longrightarrow> find P [0..<n] = None"
  by (auto simp: find_None_iff)

section \<open>Bytes and keys\<close>

type_synonym byte = "8 word"
type_synonym key = "byte list"

text \<open>\<open>bytes.Compare\<close> of Go's standard library.\<close>

fun Compare :: "key \<Rightarrow> key \<Rightarrow> int" where
  "Compare [] [] = 0"
| "Compare [] (_ # _) = - 1"
| "Compare (_ # _) [] = 1"
| "Compare (a # as) (b # bs) = (if a < b then - 1 else if b < a then 1 else Compare as bs)"

lemma Compare_eq_0 [simp]: "Compare a b = 0 \<longleftrightarrow> a = b"
  by (induction a b rule: Compare.induct) auto

lemma Compare_lt [simp]: "Compare a b < 0 \<longleftrightarrow> a < b"
  by (induction a b rule: Compare.induct) auto

lemma Compare_gt [simp]: "0 < Compare a b \<longleftrightarrow> b < a"
  by (induction a b rule: Compare.induct) auto

lemma Compare_range: "Compare a b \<in> {- 1, 0, 1}"
  by (induction a b rule: Compare.induct) auto

subsection \<open>The bytes in order\<close>

text \<open>The indexes of an array of 256 elements.\<close>

definition range256 :: "nat list" where
  "range256 = [0..<256]"

lemma set_range256 [simp]: "set range256 = {0..<256}"
  unfolding range256_def by (rule set_upt)

lemma nth_range256: "i < 256 \<Longrightarrow> range256 ! i = i"
  unfolding range256_def by (simp del: upt_rec_numeral)

lemma map_nth_range256: "length xs = 256 \<Longrightarrow> map ((!) xs) range256 = xs"
  unfolding range256_def by (metis map_nth)

lemma unat_inj: "unat v = unat w \<Longrightarrow> v = w"
  by (rule unsigned_word_eqI)

lemma length_filter_range256:
  assumes "length xs = 256"
  shows "length (filter (\<lambda>i. P (xs ! i)) range256) = length (filter P xs)"
proof -
  have "filter P (map ((!) xs) range256) = map ((!) xs) (filter (\<lambda>i. P (xs ! i)) range256)"
    by (simp add: filter_map comp_def)
  then show ?thesis using map_nth_range256 [OF assms] by (metis length_map)
qed

definition all_bytes :: "byte list" where
  "all_bytes = map of_nat range256"

lemma unat_of_nat_byte: "n < 256 \<Longrightarrow> unat (of_nat n :: byte) = n"
  by (simp add: unat_of_nat)

lemma byte_unat_lt [simp]: "unat (b :: byte) < 256"
  by (rule order_less_le_trans [OF unsigned_less]) simp

lemma of_nat_byte_less: "m < 256 \<Longrightarrow> n < 256 \<Longrightarrow> (of_nat m :: byte) < of_nat n \<longleftrightarrow> m < n"
  by (simp add: word_less_nat_alt unat_of_nat_byte)

lemma of_nat_byte_le: "m < 256 \<Longrightarrow> n < 256 \<Longrightarrow> (of_nat m :: byte) \<le> of_nat n \<longleftrightarrow> m \<le> n"
  by (simp add: word_le_nat_alt unat_of_nat_byte)

lemma of_nat_byte_eq: "m < 256 \<Longrightarrow> n < 256 \<Longrightarrow> (of_nat m :: byte) = of_nat n \<longleftrightarrow> m = n"
  by (metis unat_of_nat_byte)

lemma set_all_bytes [simp]: "set all_bytes = UNIV"
proof -
  have "b \<in> set all_bytes" for b :: byte
    by (auto simp: all_bytes_def image_iff intro!: bexI [of _ "unat b"])
  then show ?thesis by auto
qed

lemma sorted_all_bytes: "sorted_wrt (<) all_bytes"
  unfolding all_bytes_def sorted_wrt_map range256_def
  by (rule sorted_wrt_mono_rel [OF _ sorted_wrt_upt]) (simp add: of_nat_byte_less)

lemma distinct_all_bytes: "distinct all_bytes"
  using sorted_all_bytes strict_sorted_iff by blast

text \<open>Two strictly sorted lists with the same elements are the same list.\<close>

lemma strict_sorted_unique:
  "sorted_wrt (<) (xs :: 'a :: linorder list) \<Longrightarrow> sorted_wrt (<) ys \<Longrightarrow> set xs = set ys \<Longrightarrow> xs = ys"
  using strict_sorted_equal by blast

end
