(* ===== verification/Types.thy ===== *)
theory Types
  imports Prelude
begin

text \<open>
  The data of the tree: leaves, the four node structs, the inner node and the \<open>bnode\<close> that a
  parent points to (\<open>leaf.go\<close>, \<open>node.go\<close>, \<open>n4.go\<close>, \<open>n16.go\<close>, \<open>n48.go\<close>, \<open>n256.go\<close>).

  A tree is a value: a pointer to a node is the node, and a method that mutates its receiver
  returns the new receiver. The code keeps one pointer to each node, in its parent, so nothing
  is lost. The identity of a leaf matters in one place (\<open>lf == other\<close> in \<open>Leaf.insert\<close>), so a
  leaf carries its address.
\<close>

section \<open>Leaves\<close>

text \<open>The dynamic values of a Go \<open>any\<close> that the code distinguishes by a type switch.\<close>

datatype any =
    AnyNil
  | AnyBytes "byte list"
  | AnyByteSliceValue "byte list"
  | AnyInt int
  | AnyTestBytes "byte list"
  | AnyOther nat

record leaf =
  lf_addr :: nat
  Key :: key
  Value :: any
  XTyp :: int
  Xdata :: "byte list"
  Keybyte :: byte

section \<open>Nodes\<close>

text \<open>The arrays of a node are lists; their lengths are part of each node's invariant.\<close>

datatype Kind = Leafy | Node4 | Node16 | Node48 | Node256

datatype 'c node4 = Mk4 (lth4: int) (keys4: "byte list") (children4: "'c option list")

datatype 'c node16 = Mk16 (lth16: int) (keys16: "byte list") (children16: "'c option list")

datatype 'c node48 = Mk48 (lth48: int) (keys48: "16 word list") (children48: "'c option list")

datatype 'c node256 = Mk256 (lth256: int) (children256: "'c option list")

text \<open>The interface \<open>Inode\<close>, with its four implementations.\<close>

datatype 'c inode = N4 "'c node4" | N16 "'c node16" | N48 "'c node48" | N256 "'c node256"

datatype 'c inner =
  Inner (compressed: "byte list") (SubN: int) (Node: "'c inode") (innerKeybyte: byte)

datatype bnode =
  BNode (bleaf: "leaf option") (binner: "bnode inner option") (isLeaf: bool) (pren: int)

definition bnodeLeaf :: "leaf \<Rightarrow> bnode" where
  "bnodeLeaf lf = BNode (Some lf) None True 0"

definition bnodeInner :: "bnode inner \<Rightarrow> bnode" where
  "bnodeInner n = BNode None (Some n) False 0"

lemma bnodeLeaf_sel [simp]:
  "bleaf (bnodeLeaf lf) = Some lf" "isLeaf (bnodeLeaf lf)" "pren (bnodeLeaf lf) = 0"
  by (simp_all add: bnodeLeaf_def)

lemma bnodeInner_sel [simp]:
  "binner (bnodeInner n) = Some n" "\<not> isLeaf (bnodeInner n)" "pren (bnodeInner n) = 0"
  by (simp_all add: bnodeInner_def)

text \<open>\<open>a.subn()\<close>: the leaves below a child.\<close>

definition subn :: "bnode \<Rightarrow> int" where
  "subn a = (if isLeaf a then 1 else case binner a of None \<Rightarrow> 0 | Some n \<Rightarrow> SubN n)"

text \<open>Writes to the fields of a \<open>bnode\<close>.\<close>

definition set_pren :: "int \<Rightarrow> bnode \<Rightarrow> bnode" where
  "set_pren p b = BNode (bleaf b) (binner b) (isLeaf b) p"

definition set_inner :: "bnode \<Rightarrow> bnode inner \<Rightarrow> bnode" where
  "set_inner b n = BNode (bleaf b) (Some n) (isLeaf b) (pren b)"

lemma set_pren_sel [simp]:
  "bleaf (set_pren p b) = bleaf b" "binner (set_pren p b) = binner b"
  "isLeaf (set_pren p b) = isLeaf b" "pren (set_pren p b) = p"
  by (simp_all add: set_pren_def)

lemma set_pren_set_pren [simp]: "set_pren p (set_pren q b) = set_pren p b"
  by (simp add: set_pren_def)

lemma set_pren_self [simp]: "set_pren (pren b) b = b"
  by (simp add: set_pren_def)

lemma subn_set_pren [simp]: "subn (set_pren p b) = subn b"
  by (simp add: subn_def)

lemma set_inner_sel [simp]:
  "bleaf (set_inner b n) = bleaf b" "binner (set_inner b n) = Some n"
  "isLeaf (set_inner b n) = isLeaf b" "pren (set_inner b n) = pren b"
  by (simp_all add: set_inner_def)

section \<open>Sizes, for the termination of the tree walks\<close>

lemma size_option_list_less:
  "Some c \<in> set cs \<Longrightarrow> f c < size_list (size_option f) cs"
  by (induction cs) auto

lemma size_child4 [termination_simp]: "Some c \<in> set (children4 n) \<Longrightarrow> f c < size_node4 f n"
  using size_option_list_less [of c "children4 n" f] by (cases n) auto

lemma size_child16 [termination_simp]: "Some c \<in> set (children16 n) \<Longrightarrow> f c < size_node16 f n"
  using size_option_list_less [of c "children16 n" f] by (cases n) auto

lemma size_child48 [termination_simp]: "Some c \<in> set (children48 n) \<Longrightarrow> f c < size_node48 f n"
  using size_option_list_less [of c "children48 n" f] by (cases n) auto

lemma size_child256 [termination_simp]: "Some c \<in> set (children256 n) \<Longrightarrow> f c < size_node256 f n"
  using size_option_list_less [of c "children256 n" f] by (cases n) auto

lemma size_inner_of_inode: "x < size_inode f (Node n) \<Longrightarrow> x < size_inner f n"
  by (cases n) auto

lemma size_binner [termination_simp]: "binner b = Some n \<Longrightarrow> size_inner size n < size b"
  by (cases b) auto

end
