(* ===== verification/Children.thy ===== *)
theory Children
  imports Types
begin

text \<open>
  The contents of a node, whatever its layout, is a map from bytes to children. This theory
  holds what the specifications of the node operations are stated with: the first and the last
  child that satisfies a test, the children in byte order, and the cache \<open>pren\<close> that gives each
  child the number of leaves before it.
\<close>

section \<open>Searching the children in byte order\<close>

definition first_kid :: "(byte \<Rightarrow> bool) \<Rightarrow> (byte \<Rightarrow> 'c option) \<Rightarrow> byte \<times> 'c option" where
  "first_kid P f = (case find (\<lambda>b. f b \<noteq> None \<and> P b) all_bytes of
     None \<Rightarrow> (0, None) | Some b \<Rightarrow> (b, f b))"

definition last_kid :: "(byte \<Rightarrow> bool) \<Rightarrow> (byte \<Rightarrow> 'c option) \<Rightarrow> byte \<times> 'c option" where
  "last_kid P f = (case find (\<lambda>b. f b \<noteq> None \<and> P b) (rev all_bytes) of
     None \<Rightarrow> (0, None) | Some b \<Rightarrow> (b, f b))"

lemma first_kid_None_iff: "snd (first_kid P f) = None \<longleftrightarrow> (\<forall>b. P b \<longrightarrow> f b = None)"
  by (auto simp: first_kid_def find_None_iff split: option.split dest!: find_SomeD)

lemma last_kid_None_iff: "snd (last_kid P f) = None \<longleftrightarrow> (\<forall>b. P b \<longrightarrow> f b = None)"
  by (auto simp: last_kid_def find_None_iff split: option.split dest!: find_SomeD)

lemma first_kid_SomeD:
  assumes "first_kid P f = (b, Some c)"
  shows "f b = Some c" and "P b" and "\<And>x. P x \<Longrightarrow> f x \<noteq> None \<Longrightarrow> b \<le> x"
proof -
  from assms have *: "find (\<lambda>b. f b \<noteq> None \<and> P b) all_bytes = Some b" and "f b = Some c"
    by (auto simp: first_kid_def split: option.splits)
  then show "f b = Some c" and "P b" by (auto dest: find_SomeD)
  show "b \<le> x" if "P x" "f x \<noteq> None" for x
    using find_sorted_min [OF sorted_all_bytes *, of x] that by simp
qed

lemma last_kid_SomeD:
  assumes "last_kid P f = (b, Some c)"
  shows "f b = Some c" and "P b" and "\<And>x. P x \<Longrightarrow> f x \<noteq> None \<Longrightarrow> x \<le> b"
proof -
  from assms have *: "find (\<lambda>b. f b \<noteq> None \<and> P b) (rev all_bytes) = Some b" and "f b = Some c"
    by (auto simp: last_kid_def split: option.splits)
  then show "f b = Some c" and "P b" by (auto dest: find_SomeD)
  show "x \<le> b" if "P x" "f x \<noteq> None" for x
    using find_rev_sorted_max [OF sorted_all_bytes *, of x] that by simp
qed

lemma first_kidI:
  assumes "f b \<noteq> None" and "P b" and "\<And>x. P x \<Longrightarrow> f x \<noteq> None \<Longrightarrow> b \<le> x"
  shows "first_kid P f = (b, f b)"
proof (cases "first_kid P f")
  case (Pair b' c')
  from assms(1,2) have "snd (first_kid P f) \<noteq> None" by (auto simp: first_kid_None_iff)
  with Pair obtain c where c: "first_kid P f = (b', Some c)" by auto
  from first_kid_SomeD [OF c] assms have "b' = b"
    by (metis option.distinct(1) order_antisym)
  with c first_kid_SomeD(1) [OF c] show ?thesis by simp
qed

lemma last_kidI:
  assumes "f b \<noteq> None" and "P b" and "\<And>x. P x \<Longrightarrow> f x \<noteq> None \<Longrightarrow> x \<le> b"
  shows "last_kid P f = (b, f b)"
proof (cases "last_kid P f")
  case (Pair b' c')
  from assms(1,2) have "snd (last_kid P f) \<noteq> None" by (auto simp: last_kid_None_iff)
  with Pair obtain c where c: "last_kid P f = (b', Some c)" by auto
  from last_kid_SomeD [OF c] assms have "b' = b"
    by (metis option.distinct(1) order_antisym)
  with c last_kid_SomeD(1) [OF c] show ?thesis by simp
qed

lemma first_kid_none: "(\<And>b. P b \<Longrightarrow> f b = None) \<Longrightarrow> first_kid P f = (0, None)"
  using first_kid_None_iff [of P f]
  by (auto simp: first_kid_def split: option.splits dest!: find_SomeD)

lemma last_kid_none: "(\<And>b. P b \<Longrightarrow> f b = None) \<Longrightarrow> last_kid P f = (0, None)"
  using last_kid_None_iff [of P f]
  by (auto simp: last_kid_def split: option.splits dest!: find_SomeD)

section \<open>The children in byte order\<close>

definition entries_of :: "(byte \<Rightarrow> 'c option) \<Rightarrow> (byte \<times> 'c) list" where
  "entries_of f = map (\<lambda>b. (b, the (f b))) (filter (\<lambda>b. f b \<noteq> None) all_bytes)"

lemma map_fst_entries: "map fst (entries_of f) = filter (\<lambda>b. f b \<noteq> None) all_bytes"
  by (simp add: entries_of_def comp_def)

lemma sorted_entries: "sorted_wrt (<) (map fst (entries_of f))"
  by (simp add: map_fst_entries sorted_wrt_filter sorted_all_bytes)

lemma distinct_entries: "distinct (map fst (entries_of f))"
  by (simp add: map_fst_entries distinct_all_bytes)

lemma set_entries: "set (entries_of f) = {(b, c). f b = Some c}"
  by (auto simp: entries_of_def image_iff)

lemma mem_entries [simp]: "(b, c) \<in> set (entries_of f) \<longleftrightarrow> f b = Some c"
  by (simp add: set_entries)

lemma entries_eq_Nil: "entries_of f = [] \<longleftrightarrow> (\<forall>b. f b = None)"
  by (auto simp: entries_of_def filter_empty_conv)

lemma map_of_entries: "map_of (entries_of f) = f"
proof
  fix b
  show "map_of (entries_of f) b = f b"
  proof (cases "f b")
    case None
    then show ?thesis by (auto simp: map_of_eq_None_iff image_iff)
  next
    case (Some c)
    then show ?thesis by (simp add: distinct_entries map_of_eq_Some_iff)
  qed
qed

lemma entries_of_map_of:
  assumes "sorted_wrt (<) (map fst es)"
  shows "entries_of (map_of es) = es"
proof -
  have d: "distinct (map fst es)"
    using assms strict_sorted_iff by blast
  have "set (map fst (entries_of (map_of es))) = set (map fst es)"
    by (auto simp: map_fst_entries map_of_eq_None_iff)
  then have k: "map fst (entries_of (map_of es)) = map fst es"
    by (rule strict_sorted_unique [OF sorted_entries assms])
  show ?thesis
  proof (rule nth_equalityI)
    show l: "length (entries_of (map_of es)) = length es"
      using k map_eq_imp_length_eq by blast
    fix i
    assume i: "i < length (entries_of (map_of es))"
    with k l have f: "fst (entries_of (map_of es) ! i) = fst (es ! i)"
      by (metis nth_map)
    from i have "map_of es (fst (entries_of (map_of es) ! i)) = Some (snd (entries_of (map_of es) ! i))"
      using mem_entries [of _ _ "map_of es"] nth_mem by (metis prod.collapse)
    moreover have "map_of es (fst (es ! i)) = Some (snd (es ! i))"
      using d i l by (simp add: map_of_eq_Some_iff)
    ultimately show "entries_of (map_of es) ! i = es ! i"
      using f by (simp add: prod_eq_iff)
  qed
qed

text \<open>The first entry that satisfies a test, and the entries after it.\<close>

lemma first_kid_filter:
  "first_kid P f = (case filter (\<lambda>(b, _). P b) (entries_of f) of [] \<Rightarrow> (0, None) | (b, c) # _ \<Rightarrow> (b, Some c))"
proof (cases "filter (\<lambda>(b, _). P b) (entries_of f)")
  case Nil
  then have "\<And>b. P b \<Longrightarrow> f b = None"
    using set_entries [of f] by (auto simp: filter_empty_conv)
  then show ?thesis using Nil by (simp add: first_kid_none)
next
  case (Cons e es)
  obtain b c where e: "e = (b, c)" by force
  have "(b, c) \<in> set (filter (\<lambda>(b, _). P b) (entries_of f))" unfolding Cons e by simp
  then have bc: "f b = Some c" "P b" by auto
  have s: "sorted_wrt (<) (map fst (e # es))"
    using sorted_entries [of f] unfolding Cons [symmetric] sorted_wrt_map by (rule sorted_wrt_filter)
  have "b \<le> x" if "P x" "f x \<noteq> None" for x
  proof -
    from that obtain d where "(x, d) \<in> set (filter (\<lambda>(b, _). P b) (entries_of f))" by auto
    then have "x = b \<or> x \<in> fst ` set es" unfolding Cons e by force
    with s e show ?thesis by auto
  qed
  with bc have "first_kid P f = (b, f b)" by (intro first_kidI) auto
  with bc Cons e show ?thesis by simp
qed

lemma last_kid_filter:
  "last_kid P f = (case rev (filter (\<lambda>(b, _). P b) (entries_of f)) of [] \<Rightarrow> (0, None) | (b, c) # _ \<Rightarrow> (b, Some c))"
proof (cases "rev (filter (\<lambda>(b, _). P b) (entries_of f))")
  case Nil
  then have "\<And>b. P b \<Longrightarrow> f b = None"
    using set_entries [of f] by (auto simp: filter_empty_conv)
  then show ?thesis using Nil by (simp add: last_kid_none)
next
  case (Cons e es)
  obtain b c where e: "e = (b, c)" by force
  from Cons have fl: "filter (\<lambda>(b, _). P b) (entries_of f) = rev es @ [e]" by simp
  have "(b, c) \<in> set (filter (\<lambda>(b, _). P b) (entries_of f))" unfolding fl e by simp
  then have bc: "f b = Some c" "P b" by auto
  have s: "sorted_wrt (<) (map fst (rev es @ [e]))"
    using sorted_entries [of f] unfolding fl [symmetric] sorted_wrt_map by (rule sorted_wrt_filter)
  have "x \<le> b" if "P x" "f x \<noteq> None" for x
  proof -
    from that obtain d where "(x, d) \<in> set (filter (\<lambda>(b, _). P b) (entries_of f))" by auto
    then have "x = b \<or> x \<in> fst ` set es" unfolding fl e by force
    with s e show ?thesis by (auto simp: sorted_wrt_append)
  qed
  with bc have "last_kid P f = (b, f b)" by (intro last_kidI) auto
  with bc Cons e show ?thesis by simp
qed

lemma filter_after:
  assumes "sorted_wrt (<) (map fst es)" and "filter (\<lambda>(x, _). P x) es = (b, c) # r"
    and "\<And>x y. P x \<Longrightarrow> x < (y :: byte) \<Longrightarrow> P y"
  shows "filter (\<lambda>(x, _). b < x) es = r"
  using assms(1,2)
proof (induction es)
  case (Cons e es)
  obtain x d where e: "e = (x, d)" by force
  show ?case
  proof (cases "P x")
    case True
    have gt: "\<forall>(y, _) \<in> set es. x < y" using Cons.prems(1) e by auto
    then have "\<forall>(y, _) \<in> set es. P y" using assms(3) True by blast
    then have "filter (\<lambda>(x, _). P x) es = es" by (simp add: filter_id_conv split_def)
    moreover have "filter (\<lambda>(y, _). x < y) es = es" using gt by (simp add: filter_id_conv split_def)
    ultimately show ?thesis using Cons.prems(2) e True by auto
  next
    case False
    with Cons.prems e have r: "filter (\<lambda>(x, _). P x) es = (b, c) # r" by simp
    then have "(b, c) \<in> set (filter (\<lambda>(x, _). P x) es)" by simp
    then have "x < b" using Cons.prems(1) e by force
    with Cons e r show ?thesis by auto
  qed
qed simp

text \<open>The entries below a byte, at it and above it.\<close>

definition kids_below :: "byte \<Rightarrow> (byte \<Rightarrow> 'c option) \<Rightarrow> (byte \<times> 'c) list" where
  "kids_below k f = filter (\<lambda>(b, _). b < k) (entries_of f)"

definition kids_above :: "byte \<Rightarrow> (byte \<Rightarrow> 'c option) \<Rightarrow> (byte \<times> 'c) list" where
  "kids_above k f = filter (\<lambda>(b, _). k < b) (entries_of f)"

lemma mem_kids_below [simp]: "(b, c) \<in> set (kids_below k f) \<longleftrightarrow> f b = Some c \<and> b < k"
  by (auto simp: kids_below_def)

lemma mem_kids_above [simp]: "(b, c) \<in> set (kids_above k f) \<longleftrightarrow> f b = Some c \<and> k < b"
  by (auto simp: kids_above_def)

lemma sorted_split_at:
  "sorted_wrt (<) (map fst es) \<Longrightarrow>
   es = filter (\<lambda>(b, _). b < k) es @ filter (\<lambda>(b, _). b = k) es @ filter (\<lambda>(b, _). (k :: byte) < b) es"
proof (induction es)
  case Nil
  then show ?case by simp
next
  case (Cons e es)
  obtain b c where e: "e = (b, c)" by force
  from Cons.prems e have gt: "\<And>x. x \<in> set es \<Longrightarrow> b < fst x" by auto
  have "b \<ge> k \<Longrightarrow> filter (\<lambda>(b, _). b < k) es = []"
    using gt by (fastforce simp: filter_empty_conv)
  moreover have "b > k \<Longrightarrow> filter (\<lambda>(b, _). b = k) es = []"
    using gt by (fastforce simp: filter_empty_conv)
  ultimately show ?case
    using Cons e by (cases b k rule: linorder_cases) auto
qed

lemma filter_eq_entries:
  "filter (\<lambda>(b, _). b = k) (entries_of f) = (case f k of None \<Rightarrow> [] | Some c \<Rightarrow> [(k, c)])"
proof -
  have "filter (\<lambda>b. b = k) all_bytes = [k]"
    using distinct_all_bytes distinct_filter [of all_bytes "\<lambda>b. b = k"]
    by (intro strict_sorted_unique) (auto simp: sorted_wrt_filter sorted_all_bytes)
  then have *: "filter (\<lambda>b. f b \<noteq> None) (filter (\<lambda>b. b = k) all_bytes) = (if f k = None then [] else [k])"
    by simp
  then have "filter (\<lambda>b. b = k \<and> f b \<noteq> None) all_bytes = (if f k = None then [] else [k])"
    by (simp add: conj_commute)
  then show ?thesis
    by (auto simp: entries_of_def filter_map comp_def conj_commute split: option.split if_splits)
qed

lemma entries_split:
  "entries_of f = kids_below k f @ (case f k of None \<Rightarrow> [] | Some c \<Rightarrow> [(k, c)]) @ kids_above k f"
  using sorted_split_at [OF sorted_entries, of f k] by (simp add: kids_below_def kids_above_def filter_eq_entries)

lemma kids_below_cong: "(\<And>b. b < k \<Longrightarrow> f b = g b) \<Longrightarrow> kids_below k f = kids_below k g"
  unfolding kids_below_def entries_of_def filter_map comp_def filter_filter
  by (auto intro!: map_cong filter_cong)

lemma kids_above_cong: "(\<And>b. k < b \<Longrightarrow> f b = g b) \<Longrightarrow> kids_above k f = kids_above k g"
  unfolding kids_above_def entries_of_def filter_map comp_def filter_filter
  by (auto intro!: map_cong filter_cong)

lemma kids_below_upd [simp]: "kids_below k (f(k := x)) = kids_below k f"
  by (rule kids_below_cong) auto

lemma kids_above_upd [simp]: "kids_above k (f(k := x)) = kids_above k f"
  by (rule kids_above_cong) auto

lemma entries_upd: "entries_of (f(k \<mapsto> c)) = kids_below k f @ (k, c) # kids_above k f"
  by (subst entries_split [of _ k]) simp

lemma entries_del: "entries_of (f(k := None)) = kids_below k f @ kids_above k f"
  by (subst entries_split [of _ k]) simp

section \<open>The cache of the leaves before a child\<close>

text \<open>Two maps that agree but for the \<open>pren\<close> of the children.\<close>

definition erase :: "(byte \<Rightarrow> bnode option) \<Rightarrow> byte \<Rightarrow> bnode option" where
  "erase f b = map_option (set_pren 0) (f b)"

lemma erase_upd [simp]: "erase (f(k \<mapsto> c)) = (erase f)(k \<mapsto> set_pren 0 c)"
  by (auto simp: erase_def fun_eq_iff)

lemma erase_del [simp]: "erase (f(k := None)) = (erase f)(k := None)"
  by (auto simp: erase_def fun_eq_iff)

lemma erase_None [simp]: "erase f b = None \<longleftrightarrow> f b = None"
  by (simp add: erase_def)

lemma erase_eq_None: "erase f = erase g \<Longrightarrow> f b = None \<longleftrightarrow> g b = None"
  by (metis erase_None)

lemma erase_eq_Some:
  "erase f = erase g \<Longrightarrow> f b = Some c \<Longrightarrow> \<exists>p. g b = Some (set_pren p c)"
proof -
  assume e: "erase f = erase g" and f: "f b = Some c"
  then obtain d where d: "g b = Some d" by (metis erase_eq_None not_None_eq)
  from e f d have "set_pren 0 c = set_pren 0 d" by (metis erase_def option.map(2) option.inject)
  then have "d = set_pren (pren d) c" by (metis set_pren_self set_pren_set_pren)
  with d show "\<exists>p. g b = Some (set_pren p c)" by metis
qed

definition presum :: "(byte \<Rightarrow> bnode option) \<Rightarrow> byte \<Rightarrow> int" where
  "presum f k = (\<Sum>b \<leftarrow> filter (\<lambda>b. b < k) all_bytes. case f b of None \<Rightarrow> 0 | Some c \<Rightarrow> subn c)"

definition prens_ok :: "(byte \<Rightarrow> bnode option) \<Rightarrow> bool" where
  "prens_ok f \<longleftrightarrow> (\<forall>b c. f b = Some c \<longrightarrow> pren c = presum f b)"

lemma presum_erase: "presum (erase f) = presum f"
  by (auto simp: presum_def fun_eq_iff erase_def intro!: arg_cong [where f = sum_list] split: option.split)

lemma presum_erase_eq: "erase f = erase g \<Longrightarrow> presum f = presum g"
  by (metis presum_erase)

lemma presum_cong:
  "(\<And>b. b < k \<Longrightarrow> map_option subn (f b) = map_option subn (g b)) \<Longrightarrow> presum f k = presum g k"
proof -
  assume *: "\<And>b. b < k \<Longrightarrow> map_option subn (f b) = map_option subn (g b)"
  have "(case f b of None \<Rightarrow> 0 | Some c \<Rightarrow> subn c) = (case g b of None \<Rightarrow> 0 | Some c \<Rightarrow> subn c)"
    if "b < k" for b
    using * [OF that] by (cases "f b"; cases "g b") auto
  then show ?thesis by (auto simp: presum_def intro!: arg_cong [where f = sum_list])
qed

lemma presum_kids_below: "presum f k = (\<Sum>(b, c) \<leftarrow> kids_below k f. subn c)"
proof -
  have "(\<Sum>b \<leftarrow> xs. case f b of None \<Rightarrow> 0 | Some c \<Rightarrow> subn c)
      = (\<Sum>(b, c) \<leftarrow> map (\<lambda>b. (b, the (f b))) (filter (\<lambda>b. f b \<noteq> None) xs). subn c)" for xs
    by (induction xs) (auto split: option.split)
  then show ?thesis
    by (simp add: presum_def kids_below_def entries_of_def filter_map comp_def filter_filter conj_commute)
qed

section \<open>The same by index\<close>

text \<open>A loop over the 256 byte values is a search through the bytes in order.\<close>

lemma find_all_bytes: "find P all_bytes = map_option of_nat (find (\<lambda>i. P (of_nat i)) range256)"
  by (simp add: all_bytes_def find_map comp_def)

lemma find_all_bytes_rev: "find P (rev all_bytes) = map_option of_nat (find (\<lambda>i. P (of_nat i)) (rev range256))"
  by (simp only: all_bytes_def rev_map find_map comp_def)

lemma first_kid_index:
  "first_kid P f = (case find (\<lambda>i. f (of_nat i) \<noteq> None \<and> P (of_nat i)) range256 of
     None \<Rightarrow> (0, None) | Some i \<Rightarrow> (of_nat i, f (of_nat i)))"
  by (simp add: first_kid_def find_all_bytes split: option.split)

lemma last_kid_index:
  "last_kid P f = (case find (\<lambda>i. f (of_nat i) \<noteq> None \<and> P (of_nat i)) (rev range256) of
     None \<Rightarrow> (0, None) | Some i \<Rightarrow> (of_nat i, f (of_nat i)))"
  by (simp add: last_kid_def find_all_bytes_rev split: option.split)

lemma length_entries: "length (entries_of f) = length (filter (\<lambda>i. f (of_nat i) \<noteq> None) range256)"
  by (simp add: entries_of_def all_bytes_def filter_map comp_def)

lemma bytes_below: "filter (\<lambda>x. x < b) all_bytes = map of_nat [0..<unat b]"
proof (rule strict_sorted_unique)
  show "sorted_wrt (<) (filter (\<lambda>x. x < b) all_bytes)"
    by (simp add: sorted_wrt_filter sorted_all_bytes)
  have "x < 256" if "x < unat b" for x
    using that byte_unat_lt [of b] by linarith
  then show "sorted_wrt (<) (map of_nat [0..<unat b] :: byte list)"
    by (auto simp: sorted_wrt_map of_nat_byte_less intro!: sorted_wrt_mono_rel [OF _ sorted_wrt_upt])
  show "set (filter (\<lambda>x. x < b) all_bytes) = set (map of_nat [0..<unat b])"
  proof (intro set_eqI iffI)
    fix x
    assume "x \<in> set (filter (\<lambda>x. x < b) all_bytes)"
    then have "unat x < unat b" by (simp add: word_less_nat_alt)
    then show "x \<in> set (map of_nat [0..<unat b])"
      by (auto simp: image_iff intro!: bexI [of _ "unat x"])
  next
    fix x
    assume "x \<in> set (map of_nat [0..<unat b] :: byte list)"
    then obtain i where i: "x = of_nat i" "i < unat b" by auto
    then have "i < 256" using byte_unat_lt [of b] by linarith
    with i show "x \<in> set (filter (\<lambda>x. x < b) all_bytes)"
      by (simp add: word_less_nat_alt unat_of_nat_byte)
  qed
qed

lemma presum_index:
  "presum f b = (\<Sum>i \<leftarrow> [0..<unat b]. case f (of_nat i) of None \<Rightarrow> 0 | Some c \<Rightarrow> subn c)"
  by (simp add: presum_def bytes_below comp_def)

end
