(* ===== verification/SortedArray.thy ===== *)
theory SortedArray
  imports Children
begin

text \<open>
  \<open>node4\<close> and \<open>node16\<close> keep their children in two parallel arrays, sorted by key byte, filled
  from the left, the rest zero. This theory holds the representation both share, as a list of
  entries, and what the array code of both does to it.
\<close>

section \<open>The representation\<close>

definition arr_rep :: "nat \<Rightarrow> (byte \<times> 'c) list \<Rightarrow> int \<Rightarrow> byte list \<Rightarrow> 'c option list \<Rightarrow> bool" where
  "arr_rep N es lth ks cs \<longleftrightarrow>
     sorted_wrt (<) (map fst es) \<and> length es \<le> N \<and> lth = int (length es) \<and>
     ks = map fst es @ replicate (N - length es) 0 \<and>
     cs = map (\<lambda>e. Some (snd e)) es @ replicate (N - length es) None"

definition arr_entries :: "int \<Rightarrow> byte list \<Rightarrow> 'c option list \<Rightarrow> (byte \<times> 'c) list" where
  "arr_entries lth ks cs = zip (take (nat lth) ks) (map the (take (nat lth) cs))"

definition arr_ok :: "nat \<Rightarrow> int \<Rightarrow> byte list \<Rightarrow> 'c option list \<Rightarrow> bool" where
  "arr_ok N lth ks cs \<longleftrightarrow> arr_rep N (arr_entries lth ks cs) lth ks cs"

definition arr_kid :: "byte list \<Rightarrow> 'c option list \<Rightarrow> byte \<Rightarrow> 'c option" where
  "arr_kid ks cs k = (case find (\<lambda>i. k = ks ! i) [0..<length ks] of None \<Rightarrow> None | Some i \<Rightarrow> slot cs i)"

lemma arr_rep_entries: "arr_rep N es lth ks cs \<Longrightarrow> arr_entries lth ks cs = es"
  by (auto simp: arr_rep_def arr_entries_def zip_map_fst_snd comp_def)

lemma arr_ok_iff: "arr_ok N lth ks cs \<longleftrightarrow> (\<exists>es. arr_rep N es lth ks cs)"
  using arr_rep_entries unfolding arr_ok_def by metis

lemma arr_repD:
  assumes "arr_rep N es lth ks cs"
  shows "length ks = N" "length cs = N" "nat lth = length es" "length es \<le> N"
    "\<And>i. i < length es \<Longrightarrow> ks ! i = fst (es ! i)" "\<And>i. i < length es \<Longrightarrow> slot cs i = Some (snd (es ! i))"
    "\<And>i. length es \<le> i \<Longrightarrow> i < N \<Longrightarrow> ks ! i = 0" "\<And>i. length es \<le> i \<Longrightarrow> i < N \<Longrightarrow> slot cs i = None"
  using assms by (auto simp: arr_rep_def nth_append slot_def)

lemma arr_rep_sorted: "arr_rep N es lth ks cs \<Longrightarrow> sorted_wrt (<) (map fst es)"
  by (simp add: arr_rep_def)

lemma arr_rep_empty: "arr_rep N [] 0 (replicate N 0) (replicate N None)"
  by (simp add: arr_rep_def)

section \<open>Searching\<close>

text \<open>A loop over the first indexes is a search in the entries.\<close>

lemma find_index_entries:
  assumes "\<And>i. i < length es \<Longrightarrow> ks ! i = fst (es ! i)"
  shows "map_option (\<lambda>i. es ! i) (find (\<lambda>i. P (ks ! i)) [0..<length es]) = find (\<lambda>e. P (fst e)) es"
proof -
  have "find (\<lambda>e. P (fst e)) (map (\<lambda>i. es ! i) [0..<length es])
      = map_option (\<lambda>i. es ! i) (find ((\<lambda>e. P (fst e)) \<circ> (\<lambda>i. es ! i)) [0..<length es])"
    by (rule find_map)
  moreover have "find ((\<lambda>e. P (fst e)) \<circ> (\<lambda>i. es ! i)) [0..<length es] = find (\<lambda>i. P (ks ! i)) [0..<length es]"
    using assms by (intro find_cong_pred) auto
  ultimately show ?thesis by (simp add: map_nth)
qed

lemma find_index_rev_entries:
  assumes "\<And>i. i < length es \<Longrightarrow> ks ! i = fst (es ! i)"
  shows "map_option (\<lambda>i. es ! i) (find (\<lambda>i. P (ks ! i)) (rev [0..<length es])) = find (\<lambda>e. P (fst e)) (rev es)"
proof -
  have "find (\<lambda>e. P (fst e)) (rev (map (\<lambda>i. es ! i) [0..<length es]))
      = map_option (\<lambda>i. es ! i) (find ((\<lambda>e. P (fst e)) \<circ> (\<lambda>i. es ! i)) (rev [0..<length es]))"
    unfolding rev_map by (rule find_map)
  moreover have "find ((\<lambda>e. P (fst e)) \<circ> (\<lambda>i. es ! i)) (rev [0..<length es])
      = find (\<lambda>i. P (ks ! i)) (rev [0..<length es])"
    using assms by (intro find_cong_pred) auto
  ultimately show ?thesis by (simp add: map_nth)
qed

lemma find_entries_first_kid:
  assumes "sorted_wrt (<) (map fst es)"
  shows "(case find (\<lambda>e. P (fst e)) es of None \<Rightarrow> (0, None) | Some (b, c) \<Rightarrow> (b, Some c)) = first_kid P (map_of es)"
proof (cases "find (\<lambda>e. P (fst e)) es")
  case None
  then have "\<And>b. P b \<Longrightarrow> map_of es b = None"
    by (auto simp: find_None_iff map_of_eq_None_iff)
  with None show ?thesis by (simp add: first_kid_none)
next
  case (Some e)
  obtain b c where e: "e = (b, c)" by force
  have d: "distinct (map fst es)" using assms strict_sorted_iff by blast
  from find_SomeD [OF Some] e have b: "(b, c) \<in> set es" "P b" by auto
  then have m: "map_of es b = Some c" using d by simp
  have f: "find P (map fst es) = Some b" using Some e by (simp add: find_map comp_def)
  have "b \<le> x" if "P x" "map_of es x \<noteq> None" for x
    using find_sorted_min [OF assms f] that by (auto simp: map_of_eq_None_iff)
  then have "first_kid P (map_of es) = (b, map_of es b)"
    using m b by (intro first_kidI) auto
  with m Some e show ?thesis by simp
qed

lemma find_entries_last_kid:
  assumes "sorted_wrt (<) (map fst es)"
  shows "(case find (\<lambda>e. P (fst e)) (rev es) of None \<Rightarrow> (0, None) | Some (b, c) \<Rightarrow> (b, Some c))
    = last_kid P (map_of es)"
proof (cases "find (\<lambda>e. P (fst e)) (rev es)")
  case None
  then have "\<And>b. P b \<Longrightarrow> map_of es b = None"
    by (auto simp: find_None_iff map_of_eq_None_iff)
  with None show ?thesis by (simp add: last_kid_none)
next
  case (Some e)
  obtain b c where e: "e = (b, c)" by force
  have d: "distinct (map fst es)" using assms strict_sorted_iff by blast
  from find_SomeD [OF Some] e have b: "(b, c) \<in> set es" "P b" by auto
  then have m: "map_of es b = Some c" using d by simp
  have f: "find P (rev (map fst es)) = Some b" using Some e by (simp add: rev_map find_map comp_def)
  have "x \<le> b" if "P x" "map_of es x \<noteq> None" for x
    using find_rev_sorted_max [OF assms f] that by (auto simp: map_of_eq_None_iff)
  then have "last_kid P (map_of es) = (b, map_of es b)"
    using m b by (intro last_kidI) auto
  with m Some e show ?thesis by simp
qed

text \<open>
  The upward loops run over the whole array, past \<open>lth\<close>: a zero key found there has no child,
  so the result is the same as that of a loop that ends at \<open>lth\<close>.
\<close>

lemma arr_find_up:
  assumes rep: "arr_rep N es lth ks cs"
  shows "(case find (\<lambda>i. P (ks ! i)) [0..<length ks] of None \<Rightarrow> (0, None) | Some i \<Rightarrow> (ks ! i, slot cs i))
    = first_kid P (map_of es)"
proof -
  note r = arr_repD [OF rep]
  have up: "[0..<length ks] = [0..<length es] @ [length es..<N]"
    using r(1,4) by (metis le0 le_add_diff_inverse upt_add_eq_append)
  have e1: "map_option (\<lambda>i. es ! i) (find (\<lambda>i. P (ks ! i)) [0..<length es]) = find (\<lambda>e. P (fst e)) es"
    using r(5) by (rule find_index_entries)
  show ?thesis
  proof (cases "find (\<lambda>i. P (ks ! i)) [0..<length es]")
    case (Some i)
    then have "i < length es" by (auto dest: find_SomeD)
    moreover from Some e1 have "find (\<lambda>e. P (fst e)) es = Some (es ! i)" by simp
    ultimately show ?thesis
      using find_entries_first_kid [OF arr_rep_sorted [OF rep], of P] Some up r(5,6)
      by (auto simp: find_append case_prod_beta)
  next
    case None
    with e1 have n: "find (\<lambda>e. P (fst e)) es = None" by simp
    then have first: "first_kid P (map_of es) = (0, None)"
      using find_entries_first_kid [OF arr_rep_sorted [OF rep], of P] by simp
    show ?thesis
    proof (cases "find (\<lambda>i. P (ks ! i)) [length es..<N]")
      case None
      with \<open>find (\<lambda>i. P (ks ! i)) [0..<length es] = None\<close> up first show ?thesis
        by (simp add: find_append)
    next
      case (Some i)
      then have "length es \<le> i" "i < N" by (auto dest: find_SomeD)
      with Some None up first r(7,8) show ?thesis by (simp add: find_append)
    qed
  qed
qed

lemma arr_kid_map_of:
  assumes "arr_rep N es lth ks cs"
  shows "arr_kid ks cs = map_of es"
proof
  fix k
  note r = arr_repD [OF assms]
  have up: "[0..<length ks] = [0..<length es] @ [length es..<N]"
    using r(1,4) by (metis le0 le_add_diff_inverse upt_add_eq_append)
  have e1: "map_option (\<lambda>i. es ! i) (find (\<lambda>i. k = ks ! i) [0..<length es]) = find (\<lambda>e. k = fst e) es"
    using r(5) by (rule find_index_entries)
  have mo: "find (\<lambda>e. k = fst e) xs = map_option (Pair k) (map_of xs k)" for xs :: "(byte \<times> 'a) list"
    by (induction xs) auto
  show "arr_kid ks cs k = map_of es k"
  proof (cases "find (\<lambda>i. k = ks ! i) [0..<length es]")
    case (Some i)
    then have "i < length es" by (auto dest: find_SomeD)
    moreover from Some e1 mo [of es] have "Some (es ! i) = map_option (Pair k) (map_of es k)" by simp
    then have "map_of es k = Some (snd (es ! i))" by (cases "map_of es k") auto
    ultimately show ?thesis using Some r(6) up by (simp add: arr_kid_def find_append)
  next
    case None
    with e1 mo [of es] have m: "map_of es k = None" by simp
    show ?thesis
    proof (cases "find (\<lambda>i. k = ks ! i) [length es..<N]")
      case None
      with \<open>find (\<lambda>i. k = ks ! i) [0..<length es] = None\<close> up m show ?thesis
        by (simp add: arr_kid_def find_append)
    next
      case (Some i)
      then have "length es \<le> i" "i < N" by (auto dest: find_SomeD)
      with Some None up m r(8) show ?thesis by (simp add: arr_kid_def find_append)
    qed
  qed
qed

lemma arr_find_down:
  assumes rep: "arr_rep N es lth ks cs"
  shows "(case find (\<lambda>i. P (ks ! i)) (rev [0..<nat lth]) of None \<Rightarrow> (0, None) | Some i \<Rightarrow> (ks ! i, slot cs i))
    = last_kid P (map_of es)"
proof -
  note r = arr_repD [OF rep]
  have e1: "map_option (\<lambda>i. es ! i) (find (\<lambda>i. P (ks ! i)) (rev [0..<length es])) = find (\<lambda>e. P (fst e)) (rev es)"
    using r(5) by (rule find_index_rev_entries)
  show ?thesis
  proof (cases "find (\<lambda>i. P (ks ! i)) (rev [0..<length es])")
    case (Some i)
    then have "i < length es" by (auto dest: find_SomeD)
    moreover from Some e1 have "find (\<lambda>e. P (fst e)) (rev es) = Some (es ! i)" by simp
    ultimately show ?thesis
      using find_entries_last_kid [OF arr_rep_sorted [OF rep], of P] Some r(3,5,6)
      by (auto simp: case_prod_beta)
  next
    case None
    with e1 have n: "find (\<lambda>e. P (fst e)) (rev es) = None" by simp
    with None r(3) show ?thesis
      using find_entries_last_kid [OF arr_rep_sorted [OF rep], of P] by simp
  qed
qed

text \<open>An entry splits the list; removing or replacing it is an update of the map.\<close>

lemma map_of_split:
  assumes "map_of es (k :: byte) = Some c" and "sorted_wrt (<) (map fst es)"
  obtains xs ys where "es = xs @ (k, c) # ys" and "map_of (xs @ ys) = (map_of es)(k := None)"
    and "\<And>c'. map_of (xs @ (k, c') # ys) = (map_of es)(k \<mapsto> c')"
proof -
  from map_of_SomeD [OF assms(1)] obtain xs ys where es: "es = xs @ (k, c) # ys" by (meson split_list)
  from assms(2) have "distinct (map fst es)" using strict_sorted_iff by blast
  then have "k \<notin> fst ` set xs" "k \<notin> fst ` set ys" unfolding es by auto
  then have n: "map_of xs k = None" "map_of ys k = None" by (simp_all add: map_of_eq_None_iff)
  have "map_of (xs @ ys) = (map_of es)(k := None)"
    unfolding es using n by (simp add: fun_eq_iff map_add_def split: option.split)
  moreover have "\<And>c'. map_of (xs @ (k, c') # ys) = (map_of es)(k \<mapsto> c')"
    unfolding es using n by (simp add: fun_eq_iff map_add_def split: option.split)
  ultimately show thesis using es that by blast
qed

lemma map_of_insert:
  assumes "map_of es (k :: byte) = None" and "sorted_wrt (<) (map fst es)"
  shows "map_of (filter (\<lambda>(b, _). b < k) es @ (k, c) # filter (\<lambda>(b, _). k < b) es) = (map_of es)(k \<mapsto> c)"
proof -
  have "filter (\<lambda>(b, _). b = k) es = []"
    using assms(1) by (force simp: filter_empty_conv map_of_eq_None_iff)
  then have "es = filter (\<lambda>(b, _). b < k) es @ filter (\<lambda>(b, _). k < b) es"
    using sorted_split_at [OF assms(2), of k] by simp
  then have es: "map_of es = map_of (filter (\<lambda>(b, _). k < b) es) ++ map_of (filter (\<lambda>(b, _). b < k) es)"
    by (metis map_of_append)
  have "map_of (filter (\<lambda>(b, _). b < k) es) k = None" by (force simp: map_of_eq_None_iff)
  then show ?thesis by (subst es) (auto simp: fun_eq_iff map_add_def split: option.split)
qed

section \<open>Insertion\<close>

text \<open>The insertion point: the number of keys below the new one.\<close>

lemma arr_index:
  assumes rep: "arr_rep N es lth ks cs" and new: "map_of es k = None" and room: "length es < N"
  shows "(case find (\<lambda>i. k \<le> ks ! i) [0..<length ks] of None \<Rightarrow> lth | Some i \<Rightarrow> int i)
    = int (length (filter (\<lambda>(b, _). b < k) es))"
proof -
  note r = arr_repD [OF rep]
  let ?lo = "filter (\<lambda>(b, _). b < k) es" and ?hi = "filter (\<lambda>(b, _). k < b) es"
  have "filter (\<lambda>(b, _). b = k) es = []"
    using new by (force simp: filter_empty_conv map_of_eq_None_iff)
  then have es: "es = ?lo @ ?hi"
    using sorted_split_at [OF arr_rep_sorted [OF rep], of k] by simp
  have lo: "\<not> k \<le> ks ! j" if "j < length ?lo" for j
  proof -
    from that have "es ! j = ?lo ! j" by (metis es nth_append)
    moreover from that have "fst (?lo ! j) < k" using nth_mem [of j ?lo] by (auto simp: case_prod_beta)
    moreover from that have "j < length es" by (metis es length_append trans_less_add1)
    ultimately show ?thesis using r(5) by (simp add: not_le)
  qed
  show ?thesis
  proof (cases ?hi)
    case Nil
    with es have l: "length es = length ?lo" by (metis append_Nil2)
    show ?thesis
    proof (cases "k = 0")
      case True
      then have "?lo = []" by (auto simp: filter_empty_conv)
      with True r(1) room have "find (\<lambda>i. k \<le> ks ! i) [0..<length ks] = Some 0"
        by (intro find_upt_SomeI) auto
      with \<open>?lo = []\<close> show ?thesis by simp
    next
      case False
      have "\<not> k \<le> ks ! j" if "j < length ks" for j
        using lo [of j] r(7) [of j] l that r(1) False by (cases "j < length ?lo") auto
      then have "find (\<lambda>i. k \<le> ks ! i) [0..<length ks] = None" by (intro find_upt_NoneI)
      with l rep show ?thesis by (simp add: arr_rep_def)
    qed
  next
    case (Cons e hs)
    then have "e \<in> set ?hi" by (metis list.set_intros(1))
    then have e: "k < fst e" by auto
    have "es ! length ?lo = e" by (metis Cons es nth_append_length)
    moreover have l: "length ?lo < length es"
      by (metis Cons es length_append length_greater_0_conv less_add_same_cancel1 list.distinct(1))
    ultimately have "k \<le> ks ! length ?lo" using r(5) e by simp
    then have "find (\<lambda>i. k \<le> ks ! i) [0..<length ks] = Some (length ?lo)"
      using l r(1,4) lo by (intro find_upt_SomeI) auto
    then show ?thesis by simp
  qed
qed

lemma arr_shift_in:
  assumes "length xs = i" and "length (xs @ ys) < N"
  shows "(go_copy (Suc i) (drop i (xs @ ys @ replicate (N - length (xs @ ys)) z)) (xs @ ys @ replicate (N - length (xs @ ys)) z))[i := x]
    = xs @ x # ys @ replicate (N - Suc (length (xs @ ys))) z"
proof -
  obtain m where m: "N - length (xs @ ys) = Suc m" using assms(2) by (metis Suc_diff_Suc)
  then have n: "N = length xs + length ys + Suc m" using assms(2) by simp
  have "take (length ys + m) (ys @ replicate (Suc m) z) = ys @ replicate m z"
    by (simp flip: replicate_append_same)
  then have "go_copy (Suc i) (ys @ replicate (Suc m) z) (xs @ ys @ replicate (Suc m) z)
      = take (Suc i) (xs @ ys @ replicate (Suc m) z) @ ys @ replicate m z"
    using assms(1) n by (simp add: go_copy_def)
  moreover have "take (Suc i) (xs @ ys @ replicate (Suc m) z) = xs @ [(ys @ replicate (Suc m) z) ! 0]"
    using assms(1) by (cases ys) (simp_all add: take_Suc_conv_app_nth nth_append)
  moreover have "drop i (xs @ ys @ replicate (Suc m) z) = ys @ replicate (Suc m) z"
    using assms(1) by simp
  moreover have "N - Suc (length (xs @ ys)) = m" using m by simp
  ultimately show ?thesis using assms(1) m by (cases ys) (simp_all add: list_update_append)
qed

lemma arr_add:
  assumes rep: "arr_rep N es lth ks cs" and new: "map_of es k = None" and room: "length es < N"
    and i: "i = length (filter (\<lambda>(b, _). b < k) es)"
  shows "arr_rep N (filter (\<lambda>(b, _). b < k) es @ (k, c) # filter (\<lambda>(b, _). k < b) es) (lth + 1)
      ((go_copy (Suc i) (drop i ks) ks)[i := k]) ((go_copy (Suc i) (drop i cs) cs)[i := Some c])"
proof -
  obtain lo hi where lo: "lo = filter (\<lambda>(b, _). b < k) es" and hi: "hi = filter (\<lambda>(b, _). k < b) es"
    by blast
  have "filter (\<lambda>(b, _). b = k) es = []"
    using new by (force simp: filter_empty_conv map_of_eq_None_iff)
  then have es: "es = lo @ hi"
    using sorted_split_at [OF arr_rep_sorted [OF rep], of k] by (simp add: lo hi)
  have bounds: "\<And>x. x \<in> set lo \<Longrightarrow> fst x < k" "\<And>x. x \<in> set hi \<Longrightarrow> k < fst x"
    by (auto simp: lo hi)
  have sorted: "sorted_wrt (<) (map fst (lo @ (k, c) # hi))"
    using arr_rep_sorted [OF rep] bounds es by (auto simp: sorted_wrt_append)
  let ?v = "map (\<lambda>e. Some (snd e))"
  have ks: "ks = map fst lo @ map fst hi @ replicate (N - length (map fst lo @ map fst hi)) 0"
    and cs: "cs = ?v lo @ ?v hi @ replicate (N - length (?v lo @ ?v hi)) None"
    using rep es by (simp_all add: arr_rep_def)
  have i': "i = length lo" using i lo by simp
  have k': "(go_copy (Suc i) (drop i ks) ks)[i := k]
      = map fst lo @ k # map fst hi @ replicate (N - Suc (length (map fst lo @ map fst hi))) 0"
    unfolding ks by (rule arr_shift_in) (use i' es room in auto)
  have c': "(go_copy (Suc i) (drop i cs) cs)[i := Some c]
      = ?v lo @ Some c # ?v hi @ replicate (N - Suc (length (?v lo @ ?v hi))) None"
    unfolding cs by (rule arr_shift_in) (use i' es room in auto)
  have "arr_rep N (lo @ (k, c) # hi) (lth + 1)
      ((go_copy (Suc i) (drop i ks) ks)[i := k]) ((go_copy (Suc i) (drop i cs) cs)[i := Some c])"
    using sorted es room rep k' c' by (simp add: arr_rep_def)
  then show ?thesis by (simp add: lo hi)
qed

section \<open>Removal and replacement\<close>

lemma arr_shift_out:
  assumes "length xs = i" and "length (xs @ y # ys) = l" and "l \<le> N"
  shows "(go_copy i (drop (Suc i) (xs @ y # ys @ replicate (N - l) z)) (xs @ y # ys @ replicate (N - l) z))[l - 1 := z]
    = xs @ ys @ replicate (N - (l - 1)) z"
proof -
  let ?all = "xs @ y # ys @ replicate (N - l) z"
  have len: "length ?all = N" using assms by simp
  have "go_copy i (drop (Suc i) ?all) ?all = xs @ (ys @ replicate (N - l) z) @ drop (N - 1) ?all"
    using assms by (auto simp: go_copy_def)
  moreover have "drop (N - 1) ?all = [last ?all]"
    using len by (metis Cons_nth_drop_Suc Suc_diff_1 Suc_pred append_is_Nil_conv diff_less drop_all last_conv_nth
        length_greater_0_conv less_Suc_eq_0_disj less_or_eq_imp_le list.distinct(1) zero_less_one)
  ultimately have g: "go_copy i (drop (Suc i) ?all) ?all = (xs @ ys) @ replicate (N - l) z @ [last ?all]" by simp
  have l1: "l - 1 = length (xs @ ys)" using assms by simp
  show ?thesis
  proof (cases "N = l")
    case True
    moreover have "N - (l - 1) = Suc 0" using True assms(2) by auto
    ultimately show ?thesis using g l1 by (simp add: list_update_append)
  next
    case False
    then obtain m where m: "N - l = Suc m" using assms(3) by (metis Suc_diff_Suc le_neq_implies_less)
    have "last ?all = z" using m by simp
    moreover have "N - (l - 1) = Suc (Suc m)" using m assms(2) by auto
    ultimately show ?thesis using g l1 m by (simp add: list_update_append replicate_append_same)
  qed
qed

lemma arr_remove:
  assumes rep: "arr_rep N (xs @ (k, c) # ys) lth ks cs" and i: "i = length xs"
  shows "arr_rep N (xs @ ys) (lth - 1)
      ((go_copy i (drop (Suc i) ks) ks)[nat (lth - 1) := 0]) ((go_copy i (drop (Suc i) cs) cs)[nat (lth - 1) := None])"
proof -
  let ?l = "length (xs @ (k, c) # ys)" and ?v = "map (\<lambda>e. Some (snd e))"
  from rep have b: "sorted_wrt (<) (map fst (xs @ ys))" "?l \<le> N" "lth = int ?l"
    by (auto simp: arr_rep_def sorted_wrt_append)
  have l: "nat (lth - 1) = ?l - 1" using b(3) by simp
  have "ks = map fst xs @ k # map fst ys @ replicate (N - ?l) 0"
    using rep by (simp add: arr_rep_def)
  then have k': "(go_copy i (drop (Suc i) ks) ks)[nat (lth - 1) := 0]
      = map fst xs @ map fst ys @ replicate (N - (?l - 1)) 0"
    using arr_shift_out [of "map fst xs" i k "map fst ys" ?l N 0] b(2) l i by simp
  have "cs = ?v xs @ Some c # ?v ys @ replicate (N - ?l) None"
    using rep by (simp add: arr_rep_def)
  then have c': "(go_copy i (drop (Suc i) cs) cs)[nat (lth - 1) := None]
      = ?v xs @ ?v ys @ replicate (N - (?l - 1)) None"
    using arr_shift_out [of "?v xs" i "Some c" "?v ys" ?l N None] b(2) l i by simp
  show ?thesis using b k' c' by (simp add: arr_rep_def)
qed

lemma arr_update:
  assumes rep: "arr_rep N (xs @ (k, c) # ys) lth ks cs" and i: "i = length xs"
  shows "arr_rep N (xs @ (k, c') # ys) lth ks (cs[i := Some c'])"
  using assms by (simp add: arr_rep_def list_update_append)

section \<open>The cached sums\<close>

text \<open>The loop of \<open>redoPren\<close> over the array of children.\<close>

fun redo_loop :: "int \<Rightarrow> int \<Rightarrow> int \<Rightarrow> bnode option list \<Rightarrow> bnode option list res" where
  "redo_loop lth i tot [] = Inr []"
| "redo_loop lth i tot (ch # cs) =
     (if lth \<le> i then Inr (ch # cs)
      else rbind (deref ch) (\<lambda>c.
        rbind (redo_loop lth (i + 1) (tot + subn c) cs) (\<lambda>cs'.
          Inr (Some (set_pren tot c) # cs'))))"

fun repren :: "int \<Rightarrow> (byte \<times> bnode) list \<Rightarrow> (byte \<times> bnode) list" where
  "repren tot [] = []"
| "repren tot ((b, c) # es) = (b, set_pren tot c) # repren (tot + subn c) es"

lemma map_fst_repren [simp]: "map fst (repren tot es) = map fst es"
  by (induction tot es rule: repren.induct) auto

lemma length_repren [simp]: "length (repren tot es) = length es"
  by (induction tot es rule: repren.induct) auto

lemma erase_repren: "erase (map_of (repren tot es)) = erase (map_of es)"
  by (induction tot es rule: repren.induct) (auto simp: erase_def fun_eq_iff)

lemma redo_loop_entries:
  "lth = i + int (length es) \<Longrightarrow>
   redo_loop lth i tot (map (\<lambda>e. Some (snd e)) es @ replicate m None)
     = Inr (map (\<lambda>e. Some (snd e)) (repren tot es) @ replicate m None)"
proof (induction tot es arbitrary: i rule: repren.induct)
  case (1 tot)
  then show ?case by (cases m) auto
next
  case (2 tot b c es)
  then show ?case by simp
qed

lemma arr_redo:
  assumes "arr_rep N es lth ks cs"
  shows "\<exists>cs'. redo_loop lth 0 0 cs = Inr cs' \<and> arr_rep N (repren 0 es) lth ks cs'"
  using assms redo_loop_entries [of lth 0 es 0 "N - length es"] by (auto simp: arr_rep_def)

lemma pren_repren:
  "(b, c) \<in> set (repren tot es) \<Longrightarrow> sorted_wrt (<) (map fst es) \<Longrightarrow>
   pren c = tot + (\<Sum>(x, d) \<leftarrow> filter (\<lambda>(x, _). x < b) es. subn d)"
proof (induction tot es rule: repren.induct)
  case (1 tot)
  then show ?case by simp
next
  case (2 tot b' c' es)
  have gt: "\<And>x d. (x, d) \<in> set es \<Longrightarrow> b' < x" using 2(3) by force
  show ?case
  proof (cases "(b, c) = (b', set_pren tot c')")
    case True
    then have "filter (\<lambda>(x, _). x < b) es = []"
      using gt by (auto simp: filter_empty_conv dest: order_less_trans)
    with True show ?thesis by simp
  next
    case False
    with 2(2) have m: "(b, c) \<in> set (repren (tot + subn c') es)" by auto
    then have "b \<in> fst ` set es"
      by (metis fst_conv image_eqI list.set_map map_fst_repren)
    then have "b' < b" using gt by force
    with 2(1) [OF m] 2(3) show ?thesis by simp
  qed
qed

lemma prens_ok_repren:
  assumes "sorted_wrt (<) (map fst es)"
  shows "prens_ok (map_of (repren 0 es))"
  unfolding prens_ok_def
proof (intro allI impI)
  fix b c
  assume "map_of (repren 0 es) b = Some c"
  then have "(b, c) \<in> set (repren 0 es)" by (rule map_of_SomeD)
  from pren_repren [OF this assms] show "pren c = presum (map_of (repren 0 es)) b"
    by (simp add: presum_erase_eq [OF erase_repren] presum_kids_below kids_below_def
        entries_of_map_of [OF assms])
qed

section \<open>The laws of the array code\<close>

lemma arr_okE:
  assumes "arr_ok N lth ks cs"
  obtains es where "arr_rep N es lth ks cs" and "arr_kid ks cs = map_of es" and "entries_of (arr_kid ks cs) = es"
proof -
  from assms obtain es where r: "arr_rep N es lth ks cs" by (auto simp: arr_ok_iff)
  with that arr_kid_map_of [OF r] entries_of_map_of [OF arr_rep_sorted [OF r]] show thesis by simp
qed

lemma arr_okI:
  assumes "arr_rep N es lth ks cs"
  shows "arr_ok N lth ks cs" and "arr_kid ks cs = map_of es"
  using assms arr_kid_map_of by (auto simp: arr_ok_iff)

lemma arr_bounds:
  assumes "arr_ok N lth ks cs"
  shows "length ks = N" "length cs = N" "0 \<le> lth" "lth \<le> int N"
    "lth = int (length (entries_of (arr_kid ks cs)))"
proof -
  from assms obtain es where r: "arr_rep N es lth ks cs" and e: "entries_of (arr_kid ks cs) = es" by (elim arr_okE)
  show "length ks = N" "length cs = N" "0 \<le> lth" "lth \<le> int N"
    "lth = int (length (entries_of (arr_kid ks cs)))"
    unfolding e using arr_repD(1,2) [OF r] r by (auto simp: arr_rep_def)
qed

lemma arr_up:
  assumes "arr_ok N lth ks cs"
  shows "(case find (\<lambda>i. P (ks ! i)) [0..<length ks] of
      Some i \<Rightarrow> Inr (ks ! i, slot cs i) | None \<Rightarrow> Inr (0, None)) = Inr (first_kid P (arr_kid ks cs))"
proof -
  from assms obtain es where r: "arr_rep N es lth ks cs" and k: "arr_kid ks cs = map_of es" by (elim arr_okE)
  show ?thesis using arr_find_up [OF r, of P] k by (auto split: option.splits)
qed

lemma arr_down:
  assumes "arr_ok N lth ks cs"
  shows "(case find (\<lambda>i. P (ks ! i)) (rev [0..<nat lth]) of
      Some i \<Rightarrow> Inr (ks ! i, slot cs i) | None \<Rightarrow> Inr (0, None)) = Inr (last_kid P (arr_kid ks cs))"
proof -
  from assms obtain es where r: "arr_rep N es lth ks cs" and k: "arr_kid ks cs = map_of es" by (elim arr_okE)
  show ?thesis using arr_find_down [OF r, of P] k by (auto split: option.splits)
qed

text \<open>The first and the last child are where the arrays begin and end.\<close>

lemma arr_head:
  assumes "arr_ok N lth ks cs" and "0 < N"
  shows "(ks ! 0, slot cs 0) = first_kid (\<lambda>_. True) (arr_kid ks cs)"
  using arr_up [OF assms(1), of "\<lambda>_. True"] arr_bounds(1) [OF assms(1)] assms(2) by (simp add: upt_rec)

lemma arr_end:
  assumes "arr_ok N lth ks cs" and "0 < lth"
  shows "rbind (at_idx ks (lth - 1)) (\<lambda>b. rbind (at_idx cs (lth - 1)) (\<lambda>ch. Inr (b, ch)))
    = Inr (last_kid (\<lambda>_. True) (arr_kid ks cs))"
proof -
  note b = arr_bounds [OF assms(1)]
  obtain m where m: "lth = 1 + int m" using assms(2) by (metis zero_less_imp_eq_int gr0_implies_Suc of_nat_Suc add.commute)
  then have "nat lth = Suc m" "m < N" using b(4) by auto
  then show ?thesis
    using arr_down [OF assms(1), of "\<lambda>_. True"] b(1,2) m by (simp add: at_idx_def slot_def)
qed

lemma arr_child_split:
  assumes ok: "arr_ok N lth ks cs" and f: "find (\<lambda>i. k = ks ! i) [0..<length ks] = Some j" and c: "slot cs j = Some c"
  obtains xs ys where "arr_rep N (xs @ (k, c) # ys) lth ks cs" and "j = length xs"
    and "arr_kid ks cs = map_of (xs @ (k, c) # ys)"
    and "map_of (xs @ ys) = (arr_kid ks cs)(k := None)"
    and "\<And>c'. map_of (xs @ (k, c') # ys) = (arr_kid ks cs)(k \<mapsto> c')"
proof -
  from ok obtain es where r: "arr_rep N es lth ks cs" and kid: "arr_kid ks cs = map_of es" by (elim arr_okE)
  note b = arr_repD [OF r]
  from find_SomeD [OF f] have jk: "k = ks ! j" "j < N" using b(1) by auto
  have jl: "j < length es"
    using b(8) [OF _ jk(2)] c by (cases "length es \<le> j") auto
  have e: "es ! j = (k, c)" using b(5,6) [OF jl] jk(1) c by (simp add: prod_eq_iff)
  have "arr_kid ks cs k = Some c" using f c by (simp add: arr_kid_def)
  then have m: "map_of es k = Some c" using kid by simp
  obtain xs ys where s: "es = xs @ (k, c) # ys" "map_of (xs @ ys) = (map_of es)(k := None)"
    "\<And>c'. map_of (xs @ (k, c') # ys) = (map_of es)(k \<mapsto> c')"
    using map_of_split [OF m arr_rep_sorted [OF r]] by metis
  have d: "distinct (map fst es)" using arr_rep_sorted [OF r] strict_sorted_iff by blast
  have "map fst es ! length xs = k" unfolding s(1) by (simp add: nth_append)
  moreover have "map fst es ! j = k" using e jl by simp
  moreover have "length xs < length (map fst es)" unfolding s(1) by simp
  ultimately have "j = length xs" using d jl by (metis length_map nth_eq_iff_index_eq)
  moreover have "map_of (xs @ ys) = (arr_kid ks cs)(k := None)" unfolding kid by (rule s(2))
  moreover have "\<And>c'. map_of (xs @ (k, c') # ys) = (arr_kid ks cs)(k \<mapsto> c')" unfolding kid by (rule s(3))
  ultimately show thesis using that [OF r [unfolded s(1)] _ kid [unfolded s(1)]] by blast
qed

lemma arr_redo_law:
  assumes "arr_ok N lth ks cs"
  shows "\<exists>cs'. redo_loop lth 0 0 cs = Inr cs' \<and> arr_ok N lth ks cs' \<and>
    erase (arr_kid ks cs') = erase (arr_kid ks cs) \<and> prens_ok (arr_kid ks cs')"
proof -
  from assms obtain es where r: "arr_rep N es lth ks cs" and kid: "arr_kid ks cs = map_of es" by (elim arr_okE)
  from arr_redo [OF r] obtain cs' where "redo_loop lth 0 0 cs = Inr cs'" "arr_rep N (repren 0 es) lth ks cs'" by blast
  with kid arr_okI erase_repren prens_ok_repren [OF arr_rep_sorted [OF r]] show ?thesis by metis
qed

lemma arr_add_law:
  assumes ok: "arr_ok N lth ks cs" and new: "arr_kid ks cs k = None" and room: "lth \<noteq> int N"
    and i: "i = nat (case find (\<lambda>i. k \<le> ks ! i) [0..<length ks] of Some i \<Rightarrow> int i | None \<Rightarrow> lth)"
  shows "\<not> length cs < Suc i"
    and "arr_ok N (lth + 1) ((go_copy (Suc i) (drop i ks) ks)[i := k]) ((go_copy (Suc i) (drop i cs) cs)[i := Some c])"
    and "arr_kid ((go_copy (Suc i) (drop i ks) ks)[i := k]) ((go_copy (Suc i) (drop i cs) cs)[i := Some c])
      = (arr_kid ks cs)(k \<mapsto> c)"
proof -
  from ok obtain es where r: "arr_rep N es lth ks cs" and kid: "arr_kid ks cs = map_of es" by (elim arr_okE)
  from room r have len: "length es < N" by (auto simp: arr_rep_def)
  have new': "map_of es k = None" using new kid by simp
  have i': "i = length (filter (\<lambda>(b, _). b < k) es)"
    using arr_index [OF r new' len] i by (simp add: option.case_eq_if)
  then have "i \<le> length es" by simp
  then show "\<not> length cs < Suc i" using len arr_repD(2) [OF r] by simp
  note a = arr_add [OF r new' len i', of c]
  show "arr_ok N (lth + 1) ((go_copy (Suc i) (drop i ks) ks)[i := k]) ((go_copy (Suc i) (drop i cs) cs)[i := Some c])"
    using a by (rule arr_okI)
  show "arr_kid ((go_copy (Suc i) (drop i ks) ks)[i := k]) ((go_copy (Suc i) (drop i cs) cs)[i := Some c])
      = (arr_kid ks cs)(k \<mapsto> c)"
    using arr_okI(2) [OF a] map_of_insert [OF new' arr_rep_sorted [OF r]] kid by simp
qed

lemma arr_set_law:
  assumes ok: "arr_ok N lth ks cs" and f: "find (\<lambda>i. k = ks ! i) [0..<length ks] = Some j" and c: "slot cs j = Some c"
  shows "at_idx cs (int j) = Inr (Some c)"
    and "arr_ok N lth ks (cs[j := Some c'])"
    and "arr_kid ks (cs[j := Some c']) = (arr_kid ks cs)(k \<mapsto> c')"
proof -
  obtain xs ys where s: "arr_rep N (xs @ (k, c) # ys) lth ks cs" "j = length xs"
    "\<And>c'. map_of (xs @ (k, c') # ys) = (arr_kid ks cs)(k \<mapsto> c')"
    using arr_child_split [OF ok f c] by metis
  show "at_idx cs (int j) = Inr (Some c)"
    using arr_repD(2,4) [OF s(1)] s(2) c by (auto simp: at_idx_def slot_def split: if_splits)
  note u = arr_update [OF s(1,2), of c']
  show "arr_ok N lth ks (cs[j := Some c'])" using u by (rule arr_okI)
  show "arr_kid ks (cs[j := Some c']) = (arr_kid ks cs)(k \<mapsto> c')" using arr_okI(2) [OF u] s(3) by simp
qed

lemma arr_del_law:
  fixes cs :: "bnode option list"
  assumes ok: "arr_ok N lth ks cs" and f: "find (\<lambda>i. k = ks ! i) [0..<length ks] = Some j" and c: "slot cs j = Some c"
  defines "ks' \<equiv> (go_copy j (drop (Suc j) ks) ks)[nat (lth - 1) := 0]"
    and "cs' \<equiv> (go_copy j (drop (Suc j) cs) cs)[nat (lth - 1) := None]"
  shows "1 \<le> lth" and "lth \<le> int N"
    and "arr_ok N (lth - 1) ks' cs'"
    and "arr_kid ks' cs' = (arr_kid ks cs)(k := None)"
    and "\<not> int j < lth - 1 \<Longrightarrow> prens_ok (arr_kid ks cs) \<Longrightarrow> prens_ok (arr_kid ks' cs')"
proof -
  obtain xs ys where s: "arr_rep N (xs @ (k, c) # ys) lth ks cs" "j = length xs"
    "arr_kid ks cs = map_of (xs @ (k, c) # ys)" "map_of (xs @ ys) = (arr_kid ks cs)(k := None)"
    using arr_child_split [OF ok f c] by metis
  then show "1 \<le> lth" "lth \<le> int N" by (auto simp: arr_rep_def)
  have r: "arr_rep N (xs @ ys) (lth - 1) ks' cs'"
    unfolding ks'_def cs'_def by (rule arr_remove [OF s(1,2)])
  then show "arr_ok N (lth - 1) ks' cs'" by (rule arr_okI)
  show kid': "arr_kid ks' cs' = (arr_kid ks cs)(k := None)" using arr_okI(2) [OF r] s(4) by simp
  assume last: "\<not> int j < lth - 1" and pre: "prens_ok (arr_kid ks cs)"
  from last s(1,2) have "ys = []" by (auto simp: arr_rep_def)
  show "prens_ok (arr_kid ks' cs')"
    unfolding prens_ok_def
  proof (intro allI impI)
    fix b d
    assume d: "arr_kid ks' cs' b = Some d"
    then have bd: "arr_kid ks cs b = Some d" "b \<noteq> k" using kid' by (auto split: if_splits)
    then have "(b, d) \<in> set xs" using s(3) \<open>ys = []\<close> by (auto simp: map_add_def split: option.splits if_splits dest: map_of_SomeD)
    then have "b < k" using arr_rep_sorted [OF s(1)] by (force simp: sorted_wrt_append)
    then have "presum (arr_kid ks' cs') b = presum (arr_kid ks cs) b"
      using kid' by (intro presum_cong) auto
    with pre bd show "pren d = presum (arr_kid ks' cs') b" by (simp add: prens_ok_def)
  qed
qed

end
