(* ===== verification/Interface.thy ===== *)
theory Interface
  imports SortedArray
begin

text \<open>
  The contract of the Go interface \<open>Inode\<close> (\<open>node.go\<close>), which \<open>Inner\<close> relies on and the four
  node structs implement. The abstract state of a node is the map \<open>kid n\<close> from key bytes to
  children, \<open>ok n\<close> is the representation invariant of the node type.

  \<open>inode_reads\<close> states the lookups; \<open>inode_prev\<close> adds \<open>prev\<close>, which one of the four types does
  not provide in full; \<open>inode_writes\<close> states the updates. The byte that \<open>first\<close> and \<open>last\<close> return
  is not part of the contract: no caller uses it.
\<close>

definition from_byte :: "byte option \<Rightarrow> (byte \<Rightarrow> byte \<Rightarrow> bool) \<Rightarrow> byte \<Rightarrow> bool" where
  "from_byte k R b = (case k of None \<Rightarrow> True | Some x \<Rightarrow> R x b)"

lemma from_byte_simps [simp]: "from_byte None R = (\<lambda>_. True)" "from_byte (Some x) R = R x"
  by (auto simp: from_byte_def fun_eq_iff)

section \<open>Lookups\<close>

locale inode_reads =
  fixes ok :: "'n \<Rightarrow> bool"
    and kid :: "'n \<Rightarrow> byte \<Rightarrow> 'c option"
    and nchild :: "'n \<Rightarrow> int"
    and child :: "'n \<Rightarrow> byte \<Rightarrow> (int \<times> 'c option) res"
    and first :: "'n \<Rightarrow> (byte \<times> 'c option) res"
    and last :: "'n \<Rightarrow> (byte \<times> 'c option) res"
    and nxt :: "'n \<Rightarrow> byte option \<Rightarrow> (byte \<times> 'c option) res"
    and gt :: "'n \<Rightarrow> byte option \<Rightarrow> (byte \<times> 'c option) res"
    and gte :: "'n \<Rightarrow> byte option \<Rightarrow> (byte \<times> 'c option) res"
    and lt :: "'n \<Rightarrow> byte option \<Rightarrow> (byte \<times> 'c option) res"
    and lte :: "'n \<Rightarrow> byte option \<Rightarrow> (byte \<times> 'c option) res"
  assumes nchild_law: "ok n \<Longrightarrow> nchild n = int (length (entries_of (kid n)))"
    and child_law: "ok n \<Longrightarrow> \<exists>i. child n k = Inr (i, kid n k)"
    and first_law: "ok n \<Longrightarrow> \<exists>b. first n = Inr (b, snd (first_kid (\<lambda>_. True) (kid n)))"
    and last_law: "ok n \<Longrightarrow> 0 < nchild n \<Longrightarrow> \<exists>b. last n = Inr (b, snd (last_kid (\<lambda>_. True) (kid n)))"
    and next_law: "ok n \<Longrightarrow> nxt n q = Inr (first_kid (from_byte q (<)) (kid n))"
    and gt_law: "ok n \<Longrightarrow> gt n q = Inr (first_kid (from_byte q (<)) (kid n))"
    and gte_law: "ok n \<Longrightarrow> gte n q = Inr (first_kid (from_byte q (\<le>)) (kid n))"
    and lt_law: "ok n \<Longrightarrow> 0 < nchild n \<Longrightarrow> lt n q = Inr (last_kid (from_byte q (>)) (kid n))"
    and lte_law: "ok n \<Longrightarrow> 0 < nchild n \<Longrightarrow> lte n q = Inr (last_kid (from_byte q (\<ge>)) (kid n))"
begin

lemma nonempty_iff: "ok n \<Longrightarrow> 0 < nchild n \<longleftrightarrow> (\<exists>b. kid n b \<noteq> None)"
  using entries_eq_Nil [of "kid n"] by (simp add: nchild_law)

lemma first_some:
  assumes "ok n" and "0 < nchild n"
  shows "\<exists>b' b c. first n = Inr (b', Some c) \<and> kid n b = Some c \<and> (\<forall>x. kid n x \<noteq> None \<longrightarrow> b \<le> x)"
proof -
  obtain x where "kid n x \<noteq> None" using assms nonempty_iff by blast
  then have "snd (first_kid (\<lambda>_. True) (kid n)) \<noteq> None" by (auto simp: first_kid_None_iff)
  then obtain b c where k: "first_kid (\<lambda>_. True) (kid n) = (b, Some c)" by (metis not_None_eq prod.collapse)
  from first_law [OF assms(1)] k first_kid_SomeD [OF k] show ?thesis by auto
qed

lemma last_some:
  assumes "ok n" and "0 < nchild n"
  shows "\<exists>b' b c. last n = Inr (b', Some c) \<and> kid n b = Some c \<and> (\<forall>x. kid n x \<noteq> None \<longrightarrow> x \<le> b)"
proof -
  obtain x where "kid n x \<noteq> None" using assms nonempty_iff by blast
  then have "snd (last_kid (\<lambda>_. True) (kid n)) \<noteq> None" by (auto simp: last_kid_None_iff)
  then obtain b c where k: "last_kid (\<lambda>_. True) (kid n) = (b, Some c)" by (metis not_None_eq prod.collapse)
  from last_law [OF assms] k last_kid_SomeD [OF k] show ?thesis by auto
qed

lemma gte_present: "ok n \<Longrightarrow> kid n k = Some c \<Longrightarrow> gte n (Some k) = Inr (k, Some c)"
  using first_kidI [of "kid n" k "(\<le>) k"] by (simp add: gte_law)

lemma lte_present: "ok n \<Longrightarrow> kid n k = Some c \<Longrightarrow> lte n (Some k) = Inr (k, Some c)"
  using last_kidI [of "kid n" k "\<lambda>x. x \<le> k"] nonempty_iff [of n] by (auto simp: lte_law)

lemma gt_is_next: "ok n \<Longrightarrow> gt n k = nxt n k"
  by (simp add: gt_law next_law)

end

section \<open>The predecessor\<close>

locale inode_prev = inode_reads +
  fixes prev :: "'n \<Rightarrow> byte option \<Rightarrow> (byte \<times> 'c option) res"
  assumes prev_law: "ok n \<Longrightarrow> 0 < nchild n \<Longrightarrow> prev n q = Inr (last_kid (from_byte q (>)) (kid n))"
begin

lemma lt_is_prev: "ok n \<Longrightarrow> 0 < nchild n \<Longrightarrow> lt n k = prev n k"
  by (simp add: lt_law prev_law)

text \<open>The successor of the predecessor of a child is that child.\<close>

lemma next_prev:
  assumes "ok n" and "0 < nchild n" and "kid n k = Some c" and "prev n (Some k) = Inr (p, Some d)"
  shows "nxt n (Some p) = Inr (k, Some c)"
proof -
  from assms have l: "last_kid (\<lambda>x. x < k) (kid n) = (p, Some d)" by (simp add: prev_law)
  note p = last_kid_SomeD [OF l]
  have "first_kid ((<) p) (kid n) = (k, kid n k)"
    using assms(3) p by (intro first_kidI) (auto simp: not_less [symmetric])
  with assms show ?thesis by (simp add: next_law)
qed

end

section \<open>Updates\<close>

locale inode_writes =
  fixes ok :: "'n \<Rightarrow> bool"
    and kid :: "'n \<Rightarrow> byte \<Rightarrow> bnode option"
    and child :: "'n \<Rightarrow> byte \<Rightarrow> (int \<times> bnode option) res"
    and full :: "'n \<Rightarrow> bool"
    and addChild :: "'n \<Rightarrow> byte \<Rightarrow> bnode \<Rightarrow> 'n res"
    and replace :: "'n \<Rightarrow> int \<Rightarrow> bnode option \<Rightarrow> bool \<Rightarrow> ('n \<times> bnode option) res"
    and redoPren :: "'n \<Rightarrow> 'n res"
  assumes add_law: "ok n \<Longrightarrow> kid n k = None \<Longrightarrow> \<not> full n \<Longrightarrow>
      \<exists>n'. addChild n k c = Inr n' \<and> ok n' \<and> erase (kid n') = erase ((kid n)(k \<mapsto> c)) \<and> prens_ok (kid n')"
    and set_law: "ok n \<Longrightarrow> child n k = Inr (i, Some c) \<Longrightarrow>
      \<exists>n'. replace n i (Some c') del = Inr (n', Some c) \<and> ok n' \<and> erase (kid n') = erase ((kid n)(k \<mapsto> c')) \<and>
        (if del \<and> pren c' \<noteq> pren c then prens_ok (kid n') else kid n' = (kid n)(k \<mapsto> c'))"
    and del_law: "ok n \<Longrightarrow> child n k = Inr (i, Some c) \<Longrightarrow>
      \<exists>n'. replace n i None True = Inr (n', Some c) \<and> ok n' \<and> erase (kid n') = erase ((kid n)(k := None)) \<and>
        (prens_ok (kid n) \<longrightarrow> prens_ok (kid n'))"
    and redo_law: "ok n \<Longrightarrow> \<exists>n'. redoPren n = Inr n' \<and> ok n' \<and> erase (kid n') = erase (kid n) \<and> prens_ok (kid n')"
begin

text \<open>What the updates do to the children as a list, up to the cached sums.\<close>

lemma add_entries:
  assumes "ok n" "kid n k = None" "\<not> full n" "addChild n k c = Inr n'"
  shows "entries_of (erase (kid n')) = kids_below k (erase (kid n)) @ (k, set_pren 0 c) # kids_above k (erase (kid n))"
  using add_law [OF assms(1-3), of c] assms(4) by (auto simp: entries_upd)

lemma del_entries:
  assumes "ok n" "child n k = Inr (i, Some c)" "replace n i None True = Inr (n', old)"
  shows "entries_of (erase (kid n')) = kids_below k (erase (kid n)) @ kids_above k (erase (kid n))"
  using del_law [OF assms(1,2)] assms(3) by (auto simp: entries_del)

lemma write_through:
  assumes "ok n" "child n k = Inr (i, Some c)"
  shows "\<exists>n'. replace n i (Some c') False = Inr (n', Some c) \<and> ok n' \<and> kid n' = (kid n)(k \<mapsto> c')"
  using set_law [OF assms, of c' False] by auto

end

end
