(* ===== verification/NodeFour.thy ===== *)
theory NodeFour
  imports Interface
begin

text \<open>
  \<open>node4\<close> (\<open>n4.go\<close>): at most four children in sorted arrays. The definitions follow the methods
  of the struct in the order of the file; a method that writes the struct returns it.
\<close>

section \<open>The methods\<close>

definition node4_nchild :: "'c node4 \<Rightarrow> int" where
  "node4_nchild n = lth4 n"

definition node4_index :: "'c node4 \<Rightarrow> byte \<Rightarrow> int" where
  "node4_index n k = (case find (\<lambda>i. k \<le> keys4 n ! i) [0..<length (keys4 n)] of
     Some i \<Rightarrow> int i | None \<Rightarrow> lth4 n)"

text \<open>Reading \<open>keys\<close> and \<open>children\<close> at \<open>lth - 1\<close> panics when the node is empty.\<close>

definition node4_last :: "'c node4 \<Rightarrow> (byte \<times> 'c option) res" where
  "node4_last n =
     rbind (at_idx (keys4 n) (lth4 n - 1)) (\<lambda>b.
     rbind (at_idx (children4 n) (lth4 n - 1)) (\<lambda>ch. Inr (b, ch)))"

definition node4_first :: "'c node4 \<Rightarrow> (byte \<times> 'c option) res" where
  "node4_first n = Inr (keys4 n ! 0, slot (children4 n) 0)"

definition node4_next :: "'c node4 \<Rightarrow> byte option \<Rightarrow> (byte \<times> 'c option) res" where
  "node4_next n k = (case k of
     None \<Rightarrow> Inr (keys4 n ! 0, slot (children4 n) 0)
   | Some kb \<Rightarrow>
      (case find (\<lambda>i. kb < keys4 n ! i) [0..<length (keys4 n)] of
         Some i \<Rightarrow> Inr (keys4 n ! i, slot (children4 n) i)
       | None \<Rightarrow> Inr (0, None)))"

definition node4_gt :: "'c node4 \<Rightarrow> byte option \<Rightarrow> (byte \<times> 'c option) res" where
  "node4_gt n k = (case k of
     None \<Rightarrow> Inr (keys4 n ! 0, slot (children4 n) 0)
   | Some kb \<Rightarrow>
      (case find (\<lambda>i. kb < keys4 n ! i) [0..<length (keys4 n)] of
         Some i \<Rightarrow> Inr (keys4 n ! i, slot (children4 n) i)
       | None \<Rightarrow> Inr (0, None)))"

definition node4_gte :: "'c node4 \<Rightarrow> byte option \<Rightarrow> (byte \<times> 'c option) res" where
  "node4_gte n k = (case k of
     None \<Rightarrow> Inr (keys4 n ! 0, slot (children4 n) 0)
   | Some kb \<Rightarrow>
      (case find (\<lambda>i. kb \<le> keys4 n ! i) [0..<length (keys4 n)] of
         Some i \<Rightarrow> Inr (keys4 n ! i, slot (children4 n) i)
       | None \<Rightarrow> Inr (0, None)))"

text \<open>The downward loops start at \<open>lth - 1\<close>, out of range when \<open>lth\<close> exceeds the array.\<close>

definition node4_prev :: "'c node4 \<Rightarrow> byte option \<Rightarrow> (byte \<times> 'c option) res" where
  "node4_prev n k =
     (if lth4 n = 0 then Inr (0, None)
      else case k of
        None \<Rightarrow>
          rbind (at_idx (keys4 n) (lth4 n - 1)) (\<lambda>b.
          rbind (at_idx (children4 n) (lth4 n - 1)) (\<lambda>ch. Inr (b, ch)))
      | Some kb \<Rightarrow>
          if int (length (keys4 n)) < lth4 n then Inl IndexOutOfRange
          else (case find (\<lambda>i. keys4 n ! i < kb) (rev [0..<nat (lth4 n)]) of
             Some i \<Rightarrow> Inr (keys4 n ! i, slot (children4 n) i)
           | None \<Rightarrow> Inr (0, None)))"

definition node4_child :: "'c node4 \<Rightarrow> byte \<Rightarrow> (int \<times> 'c option) res" where
  "node4_child n k = (case find (\<lambda>i. k = keys4 n ! i) [0..<length (keys4 n)] of
     Some i \<Rightarrow> Inr (int i, slot (children4 n) i) | None \<Rightarrow> Inr (0, None))"

definition node4_redoPren :: "bnode node4 \<Rightarrow> bnode node4 res" where
  "node4_redoPren n = rbind (redo_loop (lth4 n) 0 0 (children4 n)) (\<lambda>cs. Inr (Mk4 (lth4 n) (keys4 n) cs))"

text \<open>The slice \<open>children[idx+1:]\<close> panics when \<open>idx + 1\<close> exceeds the array.\<close>

definition node4_addChild :: "bnode node4 \<Rightarrow> byte \<Rightarrow> bnode \<Rightarrow> bnode node4 res" where
  "node4_addChild n k ch = (let i = nat (node4_index n k) in
     if length (children4 n) < Suc i then Inl IndexOutOfRange
     else node4_redoPren (Mk4 (lth4 n + 1)
       ((go_copy (Suc i) (drop i (keys4 n)) (keys4 n))[i := k])
       ((go_copy (Suc i) (drop i (children4 n)) (children4 n))[i := Some ch])))"

definition node4_replace :: "bnode node4 \<Rightarrow> int \<Rightarrow> bnode option \<Rightarrow> bool \<Rightarrow> (bnode node4 \<times> bnode option) res" where
  "node4_replace n idx ch del =
     rbind (at_idx (children4 n) idx) (\<lambda>old. let i = nat idx in
     case ch of
       None \<Rightarrow>
         (if lth4 n < 1 \<or> int (length (keys4 n)) < lth4 n then Inl IndexOutOfRange
          else let l = nat (lth4 n - 1); n' = Mk4 (lth4 n - 1)
                 ((go_copy i (drop (Suc i) (keys4 n)) (keys4 n))[l := 0])
                 ((go_copy i (drop (Suc i) (children4 n)) (children4 n))[l := None])
           in if del \<and> idx < lth4 n' then rbind (node4_redoPren n') (\<lambda>n''. Inr (n'', old))
              else Inr (n', old))
     | Some c \<Rightarrow>
         let n' = Mk4 (lth4 n) (keys4 n) ((children4 n)[i := Some c]) in
         if del then
           rbind (deref old) (\<lambda>o'.
             if pren c \<noteq> pren o' then rbind (node4_redoPren n') (\<lambda>n''. Inr (n'', old))
             else Inr (n', old))
         else Inr (n', old))"

definition node4_full :: "'c node4 \<Rightarrow> bool" where
  "node4_full n \<longleftrightarrow> lth4 n = 4"

definition node4_min :: "'c node4 \<Rightarrow> bool" where
  "node4_min n \<longleftrightarrow> lth4 n \<le> 2"

definition node4_lt :: "'c node4 \<Rightarrow> byte option \<Rightarrow> (byte \<times> 'c option) res" where
  "node4_lt n k = (case k of
     None \<Rightarrow>
       rbind (at_idx (keys4 n) (lth4 n - 1)) (\<lambda>b.
       rbind (at_idx (children4 n) (lth4 n - 1)) (\<lambda>ch. Inr (b, ch)))
   | Some kb \<Rightarrow>
       if int (length (keys4 n)) < lth4 n then Inl IndexOutOfRange
       else (case find (\<lambda>i. keys4 n ! i < kb) (rev [0..<nat (lth4 n)]) of
          Some i \<Rightarrow> Inr (keys4 n ! i, slot (children4 n) i)
        | None \<Rightarrow> Inr (0, None)))"

definition node4_lte :: "'c node4 \<Rightarrow> byte option \<Rightarrow> (byte \<times> 'c option) res" where
  "node4_lte n k = (case k of
     None \<Rightarrow>
       rbind (at_idx (keys4 n) (lth4 n - 1)) (\<lambda>b.
       rbind (at_idx (children4 n) (lth4 n - 1)) (\<lambda>ch. Inr (b, ch)))
   | Some kb \<Rightarrow>
       if int (length (keys4 n)) < lth4 n then Inl IndexOutOfRange
       else (case find (\<lambda>i. keys4 n ! i \<le> kb) (rev [0..<nat (lth4 n)]) of
          Some i \<Rightarrow> Inr (keys4 n ! i, slot (children4 n) i)
        | None \<Rightarrow> Inr (0, None)))"

text \<open>\<open>&node4{}\<close>.\<close>

definition node4_new :: "'c node4" where
  "node4_new = Mk4 0 (replicate 4 0) (replicate 4 None)"

section \<open>The representation invariant and the contract\<close>

definition node4_ok :: "'c node4 \<Rightarrow> bool" where
  "node4_ok n \<longleftrightarrow> arr_ok 4 (lth4 n) (keys4 n) (children4 n)"

definition node4_kid :: "'c node4 \<Rightarrow> byte \<Rightarrow> 'c option" where
  "node4_kid n = arr_kid (keys4 n) (children4 n)"

lemma node4_new_ok: "node4_ok node4_new" "node4_kid node4_new = Map.empty"
  using arr_okI [OF arr_rep_empty [of 4]] by (simp_all add: node4_new_def node4_ok_def node4_kid_def)

interpretation n4: inode_prev node4_ok node4_kid node4_nchild node4_child node4_first node4_last
  node4_next node4_gt node4_gte node4_lt node4_lte node4_prev
proof unfold_locales
  fix n :: "'c node4" and k q
  assume "node4_ok n"
  then have ok: "arr_ok 4 (lth4 n) (keys4 n) (children4 n)" by (simp add: node4_ok_def)
  note b = arr_bounds [OF ok] and head = arr_head [OF ok] and up = arr_up [OF ok]
  show "node4_nchild n = int (length (entries_of (node4_kid n)))"
    using b(5) by (simp add: node4_nchild_def node4_kid_def)
  show "\<exists>i. node4_child n k = Inr (i, node4_kid n k)"
    by (auto simp: node4_child_def node4_kid_def arr_kid_def split: option.split)
  show "\<exists>b. node4_first n = Inr (b, snd (first_kid (\<lambda>_. True) (node4_kid n)))"
    using head by (simp, metis node4_first_def node4_kid_def prod.collapse)
  show "node4_next n q = Inr (first_kid (from_byte q (<)) (node4_kid n))"
    using head up by (cases q) (simp_all add: node4_next_def node4_kid_def)
  show "node4_gt n q = Inr (first_kid (from_byte q (<)) (node4_kid n))"
    using head up by (cases q) (simp_all add: node4_gt_def node4_kid_def)
  show "node4_gte n q = Inr (first_kid (from_byte q (\<le>)) (node4_kid n))"
    using head up by (cases q) (simp_all add: node4_gte_def node4_kid_def)
next
  fix n :: "'c node4" and q
  assume "node4_ok n" and pos: "0 < node4_nchild n"
  then have ok: "arr_ok 4 (lth4 n) (keys4 n) (children4 n)" by (simp add: node4_ok_def)
  from pos have p: "0 < lth4 n" by (simp add: node4_nchild_def)
  note b = arr_bounds [OF ok] and end' = arr_end [OF ok p] and down = arr_down [OF ok]
  show "\<exists>b. node4_last n = Inr (b, snd (last_kid (\<lambda>_. True) (node4_kid n)))"
    using end' by (metis node4_last_def node4_kid_def prod.collapse)
  show "node4_lt n q = Inr (last_kid (from_byte q (>)) (node4_kid n))"
    using end' down b by (cases q) (simp_all add: node4_lt_def node4_kid_def)
  show "node4_lte n q = Inr (last_kid (from_byte q (\<ge>)) (node4_kid n))"
    using end' down b by (cases q) (simp_all add: node4_lte_def node4_kid_def)
  show "node4_prev n q = Inr (last_kid (from_byte q (>)) (node4_kid n))"
    using end' down b p by (cases q) (simp_all add: node4_prev_def node4_kid_def)
qed

lemma node4_redo_law:
  assumes "node4_ok n"
  shows "\<exists>n'. node4_redoPren n = Inr n' \<and> node4_ok n' \<and> erase (node4_kid n') = erase (node4_kid n) \<and>
    prens_ok (node4_kid n')"
  using arr_redo_law [of 4 "lth4 n" "keys4 n" "children4 n"] assms
  by (auto simp: node4_redoPren_def node4_ok_def node4_kid_def)

lemma node4_child_find:
  "node4_child n k = Inr (i, Some c) \<Longrightarrow>
   \<exists>j. i = int j \<and> find (\<lambda>i. k = keys4 n ! i) [0..<length (keys4 n)] = Some j \<and> slot (children4 n) j = Some c"
  by (auto simp: node4_child_def split: option.splits)

interpretation n4w: inode_writes node4_ok node4_kid node4_child node4_full node4_addChild
  node4_replace node4_redoPren
proof unfold_locales
  fix n :: "bnode node4" and k c
  assume "node4_ok n" and new: "node4_kid n k = None" and "\<not> node4_full n"
  then have ok: "arr_ok 4 (lth4 n) (keys4 n) (children4 n)" and room: "lth4 n \<noteq> int 4"
    by (simp_all add: node4_ok_def node4_full_def)
  note a = arr_add_law [OF ok new [unfolded node4_kid_def] room refl, folded node4_index_def]
  let ?i = "nat (node4_index n k)"
  let ?n = "Mk4 (lth4 n + 1) ((go_copy (Suc ?i) (drop ?i (keys4 n)) (keys4 n))[?i := k])
       ((go_copy (Suc ?i) (drop ?i (children4 n)) (children4 n))[?i := Some c])"
  have "node4_ok ?n" and "node4_kid ?n = (node4_kid n)(k \<mapsto> c)"
    using a by (simp_all add: node4_ok_def node4_kid_def)
  with node4_redo_law [of ?n] a(1) show "\<exists>n'. node4_addChild n k c = Inr n' \<and> node4_ok n' \<and>
      erase (node4_kid n') = erase ((node4_kid n)(k \<mapsto> c)) \<and> prens_ok (node4_kid n')"
    by (simp add: node4_addChild_def Let_def del: erase_upd)
next
  fix n :: "bnode node4" and k i c c' del
  assume "node4_ok n" and "node4_child n k = Inr (i, Some c)"
  then obtain j where ok: "arr_ok 4 (lth4 n) (keys4 n) (children4 n)" and j: "i = int j"
    and f: "find (\<lambda>i. k = keys4 n ! i) [0..<length (keys4 n)] = Some j" "slot (children4 n) j = Some c"
    using node4_child_find unfolding node4_ok_def by metis
  note s = arr_set_law(1) [OF ok f] arr_set_law(2,3) [OF ok f, of c']
  let ?n = "Mk4 (lth4 n) (keys4 n) ((children4 n)[j := Some c'])"
  have "node4_ok ?n" and "node4_kid ?n = (node4_kid n)(k \<mapsto> c')"
    using s by (simp_all add: node4_ok_def node4_kid_def)
  with node4_redo_law [of ?n] s(1) j show "\<exists>n'. node4_replace n i (Some c') del = Inr (n', Some c) \<and> node4_ok n' \<and>
      erase (node4_kid n') = erase ((node4_kid n)(k \<mapsto> c')) \<and>
      (if del \<and> pren c' \<noteq> pren c then prens_ok (node4_kid n') else node4_kid n' = (node4_kid n)(k \<mapsto> c'))"
    by (auto simp: node4_replace_def Let_def simp del: erase_upd)
next
  fix n :: "bnode node4" and k i c
  assume "node4_ok n" and "node4_child n k = Inr (i, Some c)"
  then obtain j where ok: "arr_ok 4 (lth4 n) (keys4 n) (children4 n)" and j: "i = int j"
    and f: "find (\<lambda>i. k = keys4 n ! i) [0..<length (keys4 n)] = Some j" "slot (children4 n) j = Some c"
    using node4_child_find unfolding node4_ok_def by metis
  note d = arr_del_law [OF ok f] and at = arr_set_law(1) [OF ok f]
  let ?n = "Mk4 (lth4 n - 1) ((go_copy j (drop (Suc j) (keys4 n)) (keys4 n))[nat (lth4 n - 1) := 0])
     ((go_copy j (drop (Suc j) (children4 n)) (children4 n))[nat (lth4 n - 1) := None])"
  have "node4_ok ?n" and "node4_kid ?n = (node4_kid n)(k := None)"
    using d by (simp_all add: node4_ok_def node4_kid_def)
  with node4_redo_law [of ?n] d(1,2,5) at j arr_bounds(1) [OF ok]
  show "\<exists>n'. node4_replace n i None True = Inr (n', Some c) \<and> node4_ok n' \<and>
      erase (node4_kid n') = erase ((node4_kid n)(k := None)) \<and> (prens_ok (node4_kid n) \<longrightarrow> prens_ok (node4_kid n'))"
    by (cases "int j < lth4 n - 1") (auto simp: node4_replace_def Let_def node4_kid_def simp del: erase_del)
qed (rule node4_redo_law)

end
