(* ===== verification/NodeSixteen.thy ===== *)
theory NodeSixteen
  imports Interface
begin

text \<open>
  \<open>node16\<close> (\<open>n16.go\<close>): at most sixteen children in sorted arrays. The definitions follow the methods
  of the struct in the order of the file; a method that writes the struct returns it.
\<close>

section \<open>The methods\<close>

definition node16_nchild :: "'c node16 \<Rightarrow> int" where
  "node16_nchild n = lth16 n"

definition node16_index :: "'c node16 \<Rightarrow> byte \<Rightarrow> int" where
  "node16_index n k = (case find (\<lambda>i. k \<le> keys16 n ! i) [0..<length (keys16 n)] of
     Some i \<Rightarrow> int i | None \<Rightarrow> lth16 n)"

text \<open>Reading \<open>keys\<close> and \<open>children\<close> at \<open>lth - 1\<close> panics when the node is empty.\<close>

text \<open>The function \<open>index\<close> of the same file: the position of a key in the array.\<close>

definition go_index :: "byte \<Rightarrow> byte list \<Rightarrow> int \<times> bool" where
  "go_index key nkey = (case find (\<lambda>i. nkey ! i = key) [0..<length nkey] of
     Some i \<Rightarrow> (int i, True) | None \<Rightarrow> (0, False))"

definition node16_last :: "'c node16 \<Rightarrow> (byte \<times> 'c option) res" where
  "node16_last n =
     rbind (at_idx (keys16 n) (lth16 n - 1)) (\<lambda>b.
     rbind (at_idx (children16 n) (lth16 n - 1)) (\<lambda>ch. Inr (b, ch)))"

definition node16_first :: "'c node16 \<Rightarrow> (byte \<times> 'c option) res" where
  "node16_first n = Inr (keys16 n ! 0, slot (children16 n) 0)"

definition node16_next :: "'c node16 \<Rightarrow> byte option \<Rightarrow> (byte \<times> 'c option) res" where
  "node16_next n k = (case k of
     None \<Rightarrow> Inr (keys16 n ! 0, slot (children16 n) 0)
   | Some kb \<Rightarrow>
      (case find (\<lambda>i. kb < keys16 n ! i) [0..<length (keys16 n)] of
         Some i \<Rightarrow> Inr (keys16 n ! i, slot (children16 n) i)
       | None \<Rightarrow> Inr (0, None)))"

definition node16_gt :: "'c node16 \<Rightarrow> byte option \<Rightarrow> (byte \<times> 'c option) res" where
  "node16_gt n k = (case k of
     None \<Rightarrow> Inr (keys16 n ! 0, slot (children16 n) 0)
   | Some kb \<Rightarrow>
      (case find (\<lambda>i. kb < keys16 n ! i) [0..<length (keys16 n)] of
         Some i \<Rightarrow> Inr (keys16 n ! i, slot (children16 n) i)
       | None \<Rightarrow> Inr (0, None)))"

definition node16_gte :: "'c node16 \<Rightarrow> byte option \<Rightarrow> (byte \<times> 'c option) res" where
  "node16_gte n k = (case k of
     None \<Rightarrow> Inr (keys16 n ! 0, slot (children16 n) 0)
   | Some kb \<Rightarrow>
      (case find (\<lambda>i. kb \<le> keys16 n ! i) [0..<length (keys16 n)] of
         Some i \<Rightarrow> Inr (keys16 n ! i, slot (children16 n) i)
       | None \<Rightarrow> Inr (0, None)))"

text \<open>The downward loops start at \<open>lth - 1\<close>, out of range when \<open>lth\<close> exceeds the array.\<close>

definition node16_prev :: "'c node16 \<Rightarrow> byte option \<Rightarrow> (byte \<times> 'c option) res" where
  "node16_prev n k = (case k of
     None \<Rightarrow>
       rbind (at_idx (keys16 n) (lth16 n - 1)) (\<lambda>b.
       rbind (at_idx (children16 n) (lth16 n - 1)) (\<lambda>ch. Inr (b, ch)))
   | Some kb \<Rightarrow>
       if int (length (keys16 n)) < lth16 n then Inl IndexOutOfRange
       else (case find (\<lambda>i. keys16 n ! i < kb) (rev [0..<nat (lth16 n)]) of
          Some i \<Rightarrow> Inr (keys16 n ! i, slot (children16 n) i)
        | None \<Rightarrow> Inr (0, None)))"

text \<open>The named result \<open>idx\<close> keeps its last value, 15, when no key matches.\<close>

definition node16_child :: "'c node16 \<Rightarrow> byte \<Rightarrow> (int \<times> 'c option) res" where
  "node16_child n k = (case find (\<lambda>i. k = keys16 n ! i) [0..<length (keys16 n)] of
     Some i \<Rightarrow> Inr (int i, slot (children16 n) i) | None \<Rightarrow> Inr (15, None))"

definition node16_redoPren :: "bnode node16 \<Rightarrow> bnode node16 res" where
  "node16_redoPren n = rbind (redo_loop (lth16 n) 0 0 (children16 n)) (\<lambda>cs. Inr (Mk16 (lth16 n) (keys16 n) cs))"

text \<open>The slice \<open>children[idx+1:]\<close> panics when \<open>idx + 1\<close> exceeds the array.\<close>

definition node16_addChild :: "bnode node16 \<Rightarrow> byte \<Rightarrow> bnode \<Rightarrow> bnode node16 res" where
  "node16_addChild n k ch = (let i = nat (node16_index n k) in
     if length (children16 n) < Suc i then Inl IndexOutOfRange
     else node16_redoPren (Mk16 (lth16 n + 1)
       ((go_copy (Suc i) (drop i (keys16 n)) (keys16 n))[i := k])
       ((go_copy (Suc i) (drop i (children16 n)) (children16 n))[i := Some ch])))"

definition node16_replace :: "bnode node16 \<Rightarrow> int \<Rightarrow> bnode option \<Rightarrow> bool \<Rightarrow> (bnode node16 \<times> bnode option) res" where
  "node16_replace n idx ch del =
     rbind (at_idx (children16 n) idx) (\<lambda>old. let i = nat idx in
     case ch of
       None \<Rightarrow>
         (if lth16 n < 1 \<or> int (length (keys16 n)) < lth16 n then Inl IndexOutOfRange
          else let l = nat (lth16 n - 1); n' = Mk16 (lth16 n - 1)
                 ((go_copy i (drop (Suc i) (keys16 n)) (keys16 n))[l := 0])
                 ((go_copy i (drop (Suc i) (children16 n)) (children16 n))[l := None])
           in if del \<and> idx < lth16 n' then rbind (node16_redoPren n') (\<lambda>n''. Inr (n'', old))
              else Inr (n', old))
     | Some c \<Rightarrow>
         let n' = Mk16 (lth16 n) (keys16 n) ((children16 n)[i := Some c]) in
         if del then
           rbind (deref old) (\<lambda>o'.
             if pren c \<noteq> pren o' then rbind (node16_redoPren n') (\<lambda>n''. Inr (n'', old))
             else Inr (n', old))
         else Inr (n', old))"

definition node16_full :: "'c node16 \<Rightarrow> bool" where
  "node16_full n \<longleftrightarrow> lth16 n = 16"

definition node16_min :: "'c node16 \<Rightarrow> bool" where
  "node16_min n \<longleftrightarrow> lth16 n \<le> 5"

definition node16_lt :: "'c node16 \<Rightarrow> byte option \<Rightarrow> (byte \<times> 'c option) res" where
  "node16_lt n k = (case k of
     None \<Rightarrow>
       rbind (at_idx (keys16 n) (lth16 n - 1)) (\<lambda>b.
       rbind (at_idx (children16 n) (lth16 n - 1)) (\<lambda>ch. Inr (b, ch)))
   | Some kb \<Rightarrow>
       if int (length (keys16 n)) < lth16 n then Inl IndexOutOfRange
       else (case find (\<lambda>i. keys16 n ! i < kb) (rev [0..<nat (lth16 n)]) of
          Some i \<Rightarrow> Inr (keys16 n ! i, slot (children16 n) i)
        | None \<Rightarrow> Inr (0, None)))"

definition node16_lte :: "'c node16 \<Rightarrow> byte option \<Rightarrow> (byte \<times> 'c option) res" where
  "node16_lte n k = (case k of
     None \<Rightarrow>
       rbind (at_idx (keys16 n) (lth16 n - 1)) (\<lambda>b.
       rbind (at_idx (children16 n) (lth16 n - 1)) (\<lambda>ch. Inr (b, ch)))
   | Some kb \<Rightarrow>
       if int (length (keys16 n)) < lth16 n then Inl IndexOutOfRange
       else (case find (\<lambda>i. keys16 n ! i \<le> kb) (rev [0..<nat (lth16 n)]) of
          Some i \<Rightarrow> Inr (keys16 n ! i, slot (children16 n) i)
        | None \<Rightarrow> Inr (0, None)))"

text \<open>\<open>&node16{}\<close>.\<close>

definition node16_new :: "'c node16" where
  "node16_new = Mk16 0 (replicate 16 0) (replicate 16 None)"

section \<open>The representation invariant and the contract\<close>

definition node16_ok :: "'c node16 \<Rightarrow> bool" where
  "node16_ok n \<longleftrightarrow> arr_ok 16 (lth16 n) (keys16 n) (children16 n)"

definition node16_kid :: "'c node16 \<Rightarrow> byte \<Rightarrow> 'c option" where
  "node16_kid n = arr_kid (keys16 n) (children16 n)"

lemma node16_new_ok: "node16_ok node16_new" "node16_kid node16_new = Map.empty"
  using arr_okI [OF arr_rep_empty [of 16]] by (simp_all add: node16_new_def node16_ok_def node16_kid_def)

interpretation n16: inode_prev node16_ok node16_kid node16_nchild node16_child node16_first node16_last
  node16_next node16_gt node16_gte node16_lt node16_lte node16_prev
proof unfold_locales
  fix n :: "'c node16" and k q
  assume "node16_ok n"
  then have ok: "arr_ok 16 (lth16 n) (keys16 n) (children16 n)" by (simp add: node16_ok_def)
  note b = arr_bounds [OF ok] and head = arr_head [OF ok] and up = arr_up [OF ok]
  show "node16_nchild n = int (length (entries_of (node16_kid n)))"
    using b(5) by (simp add: node16_nchild_def node16_kid_def)
  show "\<exists>i. node16_child n k = Inr (i, node16_kid n k)"
    by (auto simp: node16_child_def node16_kid_def arr_kid_def split: option.split)
  show "\<exists>b. node16_first n = Inr (b, snd (first_kid (\<lambda>_. True) (node16_kid n)))"
    using head by (simp, metis node16_first_def node16_kid_def prod.collapse)
  show "node16_next n q = Inr (first_kid (from_byte q (<)) (node16_kid n))"
    using head up by (cases q) (simp_all add: node16_next_def node16_kid_def)
  show "node16_gt n q = Inr (first_kid (from_byte q (<)) (node16_kid n))"
    using head up by (cases q) (simp_all add: node16_gt_def node16_kid_def)
  show "node16_gte n q = Inr (first_kid (from_byte q (\<le>)) (node16_kid n))"
    using head up by (cases q) (simp_all add: node16_gte_def node16_kid_def)
next
  fix n :: "'c node16" and q
  assume "node16_ok n" and pos: "0 < node16_nchild n"
  then have ok: "arr_ok 16 (lth16 n) (keys16 n) (children16 n)" by (simp add: node16_ok_def)
  from pos have p: "0 < lth16 n" by (simp add: node16_nchild_def)
  note b = arr_bounds [OF ok] and end' = arr_end [OF ok p] and down = arr_down [OF ok]
  show "\<exists>b. node16_last n = Inr (b, snd (last_kid (\<lambda>_. True) (node16_kid n)))"
    using end' by (metis node16_last_def node16_kid_def prod.collapse)
  show "node16_lt n q = Inr (last_kid (from_byte q (>)) (node16_kid n))"
    using end' down b by (cases q) (simp_all add: node16_lt_def node16_kid_def)
  show "node16_lte n q = Inr (last_kid (from_byte q (\<ge>)) (node16_kid n))"
    using end' down b by (cases q) (simp_all add: node16_lte_def node16_kid_def)
  show "node16_prev n q = Inr (last_kid (from_byte q (>)) (node16_kid n))"
    using end' down b p by (cases q) (simp_all add: node16_prev_def node16_kid_def)
qed

lemma node16_redo_law:
  assumes "node16_ok n"
  shows "\<exists>n'. node16_redoPren n = Inr n' \<and> node16_ok n' \<and> erase (node16_kid n') = erase (node16_kid n) \<and>
    prens_ok (node16_kid n')"
  using arr_redo_law [of 16 "lth16 n" "keys16 n" "children16 n"] assms
  by (auto simp: node16_redoPren_def node16_ok_def node16_kid_def)

lemma node16_child_find:
  "node16_child n k = Inr (i, Some c) \<Longrightarrow>
   \<exists>j. i = int j \<and> find (\<lambda>i. k = keys16 n ! i) [0..<length (keys16 n)] = Some j \<and> slot (children16 n) j = Some c"
  by (auto simp: node16_child_def split: option.splits)

interpretation n16w: inode_writes node16_ok node16_kid node16_child node16_full node16_addChild
  node16_replace node16_redoPren
proof unfold_locales
  fix n :: "bnode node16" and k c
  assume "node16_ok n" and new: "node16_kid n k = None" and "\<not> node16_full n"
  then have ok: "arr_ok 16 (lth16 n) (keys16 n) (children16 n)" and room: "lth16 n \<noteq> int 16"
    by (simp_all add: node16_ok_def node16_full_def)
  note a = arr_add_law [OF ok new [unfolded node16_kid_def] room refl, folded node16_index_def]
  let ?i = "nat (node16_index n k)"
  let ?n = "Mk16 (lth16 n + 1) ((go_copy (Suc ?i) (drop ?i (keys16 n)) (keys16 n))[?i := k])
       ((go_copy (Suc ?i) (drop ?i (children16 n)) (children16 n))[?i := Some c])"
  have "node16_ok ?n" and "node16_kid ?n = (node16_kid n)(k \<mapsto> c)"
    using a by (simp_all add: node16_ok_def node16_kid_def)
  with node16_redo_law [of ?n] a(1) show "\<exists>n'. node16_addChild n k c = Inr n' \<and> node16_ok n' \<and>
      erase (node16_kid n') = erase ((node16_kid n)(k \<mapsto> c)) \<and> prens_ok (node16_kid n')"
    by (simp add: node16_addChild_def Let_def del: erase_upd)
next
  fix n :: "bnode node16" and k i c c' del
  assume "node16_ok n" and "node16_child n k = Inr (i, Some c)"
  then obtain j where ok: "arr_ok 16 (lth16 n) (keys16 n) (children16 n)" and j: "i = int j"
    and f: "find (\<lambda>i. k = keys16 n ! i) [0..<length (keys16 n)] = Some j" "slot (children16 n) j = Some c"
    using node16_child_find unfolding node16_ok_def by metis
  note s = arr_set_law(1) [OF ok f] arr_set_law(2,3) [OF ok f, of c']
  let ?n = "Mk16 (lth16 n) (keys16 n) ((children16 n)[j := Some c'])"
  have "node16_ok ?n" and "node16_kid ?n = (node16_kid n)(k \<mapsto> c')"
    using s by (simp_all add: node16_ok_def node16_kid_def)
  with node16_redo_law [of ?n] s(1) j show "\<exists>n'. node16_replace n i (Some c') del = Inr (n', Some c) \<and> node16_ok n' \<and>
      erase (node16_kid n') = erase ((node16_kid n)(k \<mapsto> c')) \<and>
      (if del \<and> pren c' \<noteq> pren c then prens_ok (node16_kid n') else node16_kid n' = (node16_kid n)(k \<mapsto> c'))"
    by (auto simp: node16_replace_def Let_def simp del: erase_upd)
next
  fix n :: "bnode node16" and k i c
  assume "node16_ok n" and "node16_child n k = Inr (i, Some c)"
  then obtain j where ok: "arr_ok 16 (lth16 n) (keys16 n) (children16 n)" and j: "i = int j"
    and f: "find (\<lambda>i. k = keys16 n ! i) [0..<length (keys16 n)] = Some j" "slot (children16 n) j = Some c"
    using node16_child_find unfolding node16_ok_def by metis
  note d = arr_del_law [OF ok f] and at = arr_set_law(1) [OF ok f]
  let ?n = "Mk16 (lth16 n - 1) ((go_copy j (drop (Suc j) (keys16 n)) (keys16 n))[nat (lth16 n - 1) := 0])
     ((go_copy j (drop (Suc j) (children16 n)) (children16 n))[nat (lth16 n - 1) := None])"
  have "node16_ok ?n" and "node16_kid ?n = (node16_kid n)(k := None)"
    using d by (simp_all add: node16_ok_def node16_kid_def)
  with node16_redo_law [of ?n] d(1,2,5) at j arr_bounds(1) [OF ok]
  show "\<exists>n'. node16_replace n i None True = Inr (n', Some c) \<and> node16_ok n' \<and>
      erase (node16_kid n') = erase ((node16_kid n)(k := None)) \<and> (prens_ok (node16_kid n) \<longrightarrow> prens_ok (node16_kid n'))"
    by (cases "int j < lth16 n - 1") (auto simp: node16_replace_def Let_def node16_kid_def simp del: erase_del)
qed (rule node16_redo_law)

end
