(* ===== verification/NodeFortyEight.thy ===== *)
theory NodeFortyEight
  imports Interface
begin

text \<open>
  \<open>node48\<close> (\<open>n48.go\<close>): at most 48 children in slots, and for each of the 256 bytes the number of
  its slot plus one, or zero.
\<close>

section \<open>The methods\<close>

text \<open>
  The byte that \<open>last\<close> and \<open>first\<close> return is computed from the slot number, as in the source:
  it is not the key byte of the child.
\<close>

definition node48_last :: "'c node48 \<Rightarrow> (byte \<times> 'c option) res" where
  "node48_last n = (case find (\<lambda>i. keys48 n ! i \<noteq> 0) (rev range256) of
     Some i \<Rightarrow> let k = keys48 n ! i in
       rbind (at_idx (children48 n) (uint k - 1)) (\<lambda>ch. Inr (ucast (k - 1), ch))
   | None \<Rightarrow> Inr (0, None))"

definition node48_first :: "'c node48 \<Rightarrow> (byte \<times> 'c option) res" where
  "node48_first n = (case find (\<lambda>i. keys48 n ! i \<noteq> 0) range256 of
     Some i \<Rightarrow> let k = keys48 n ! i in
       rbind (at_idx (children48 n) (uint k - 1)) (\<lambda>ch. Inr (ucast (k - 1), ch))
   | None \<Rightarrow> Inr (0, None))"

definition node48_nchild :: "'c node48 \<Rightarrow> int" where
  "node48_nchild n = lth48 n"

definition node48_child :: "'c node48 \<Rightarrow> byte \<Rightarrow> (int \<times> 'c option) res" where
  "node48_child n k = (let idx = keys48 n ! unat k in
     if idx = 0 then Inr (0, None)
     else rbind (at_idx (children48 n) (uint idx - 1)) (\<lambda>ch. Inr (uint k, ch)))"

text \<open>The loops return the key byte and the child of the slot of the first match.\<close>

definition node48_hit :: "'c node48 \<Rightarrow> nat option \<Rightarrow> (byte \<times> 'c option) res" where
  "node48_hit n r = (case r of
     Some b \<Rightarrow> rbind (at_idx (children48 n) (uint (keys48 n ! b) - 1)) (\<lambda>ch. Inr (of_nat b, ch))
   | None \<Rightarrow> Inr (0, None))"

definition node48_next :: "'c node48 \<Rightarrow> byte option \<Rightarrow> (byte \<times> 'c option) res" where
  "node48_next n k = node48_hit n
     (find (\<lambda>b. (case k of None \<Rightarrow> True | Some kb \<Rightarrow> kb < of_nat b) \<and> keys48 n ! b \<noteq> 0) range256)"

definition node48_gte :: "'c node48 \<Rightarrow> byte option \<Rightarrow> (byte \<times> 'c option) res" where
  "node48_gte n k = node48_hit n
     (find (\<lambda>b. (case k of None \<Rightarrow> True | Some kb \<Rightarrow> kb \<le> of_nat b) \<and> keys48 n ! b \<noteq> 0) range256)"

definition node48_gt :: "'c node48 \<Rightarrow> byte option \<Rightarrow> (byte \<times> 'c option) res" where
  "node48_gt n k = (case k of
     None \<Rightarrow> node48_gte n None
   | Some kb \<Rightarrow> node48_hit n (find (\<lambda>b. kb < of_nat b \<and> keys48 n ! b \<noteq> 0) range256))"

definition node48_prev :: "'c node48 \<Rightarrow> byte option \<Rightarrow> (byte \<times> 'c option) res" where
  "node48_prev n k = node48_hit n
     (find (\<lambda>b. keys48 n ! b \<noteq> 0 \<and> (case k of None \<Rightarrow> True | Some kb \<Rightarrow> of_nat b < kb)) (rev range256))"

definition node48_full :: "'c node48 \<Rightarrow> bool" where
  "node48_full n \<longleftrightarrow> lth48 n = 48"

fun node48_redo_loop :: "16 word list \<Rightarrow> int \<Rightarrow> bnode option list \<Rightarrow> bnode option list res" where
  "node48_redo_loop [] tot cs = Inr cs"
| "node48_redo_loop (idx # ks) tot cs =
     (if idx = 0 then node48_redo_loop ks tot cs
      else rbind (at_idx cs (uint idx - 1)) (\<lambda>p. rbind (deref p) (\<lambda>ch.
        node48_redo_loop ks (tot + subn ch) (cs[unat idx - 1 := Some (set_pren tot ch)]))))"

definition node48_redoPren :: "bnode node48 \<Rightarrow> bnode node48 res" where
  "node48_redoPren n = rbind (node48_redo_loop (keys48 n) 0 (children48 n))
     (\<lambda>cs. Inr (Mk48 (lth48 n) (keys48 n) cs))"

definition node48_addChild :: "bnode node48 \<Rightarrow> byte \<Rightarrow> bnode \<Rightarrow> bnode node48 res" where
  "node48_addChild n k ch = (case find (\<lambda>i. children48 n ! i = None) [0..<length (children48 n)] of
     Some i \<Rightarrow> node48_redoPren (Mk48 (lth48 n + 1) ((keys48 n)[unat k := of_nat (i + 1)])
       ((children48 n)[i := Some ch]))
   | None \<Rightarrow> Inl (PanicMessage ''no empty slots''))"

definition node48_replace :: "bnode node48 \<Rightarrow> int \<Rightarrow> bnode option \<Rightarrow> bool \<Rightarrow> (bnode node48 \<times> bnode option) res" where
  "node48_replace n k ch del =
     rbind (at_idx (keys48 n) k) (\<lambda>idx.
       if idx = 0 then Inl (PanicMessage ''replace can't be called for idx=0'')
       else rbind (at_idx (children48 n) (uint idx - 1)) (\<lambda>old.
         let cs = (children48 n)[unat idx - 1 := ch] in
         case ch of
           None \<Rightarrow>
             let n' = Mk48 (lth48 n - 1) ((keys48 n)[nat k := 0]) cs in
             if del then rbind (node48_redoPren n') (\<lambda>n''. Inr (n'', old)) else Inr (n', old)
         | Some c \<Rightarrow>
             let n' = Mk48 (lth48 n) (keys48 n) cs in
             if del then
               rbind (deref old) (\<lambda>o'.
                 if pren c \<noteq> pren o' then rbind (node48_redoPren n') (\<lambda>n''. Inr (n'', old))
                 else Inr (n', old))
             else Inr (n', old)))"

definition node48_min :: "'c node48 \<Rightarrow> bool" where
  "node48_min n \<longleftrightarrow> lth48 n \<le> 17"

definition node48_lte :: "'c node48 \<Rightarrow> byte option \<Rightarrow> (byte \<times> 'c option) res" where
  "node48_lte n k = node48_hit n
     (find (\<lambda>i. keys48 n ! i \<noteq> 0 \<and> (case k of None \<Rightarrow> True | Some kb \<Rightarrow> of_nat i \<le> kb)) (rev range256))"

definition node48_lt :: "'c node48 \<Rightarrow> byte option \<Rightarrow> (byte \<times> 'c option) res" where
  "node48_lt n k = node48_hit n
     (find (\<lambda>i. keys48 n ! i \<noteq> 0 \<and> (case k of None \<Rightarrow> True | Some kb \<Rightarrow> of_nat i < kb)) (rev range256))"

section \<open>The representation invariant and the contract\<close>

definition node48_ok :: "'c node48 \<Rightarrow> bool" where
  "node48_ok n \<longleftrightarrow> length (keys48 n) = 256 \<and> length (children48 n) = 48 \<and>
     distinct (filter (\<lambda>k. k \<noteq> 0) (keys48 n)) \<and>
     (\<forall>k \<in> set (keys48 n). unat k \<le> 48) \<and>
     (\<forall>j \<in> {0..<48}. children48 n ! j \<noteq> None \<longleftrightarrow> of_nat (Suc j) \<in> set (keys48 n)) \<and>
     lth48 n = int (length (filter (\<lambda>k. k \<noteq> 0) (keys48 n)))"

definition node48_kid :: "'c node48 \<Rightarrow> byte \<Rightarrow> 'c option" where
  "node48_kid n k = (if keys48 n ! unat k = 0 then None else slot (children48 n) (unat (keys48 n ! unat k) - 1))"

lemma uint_minus_1: "(w :: 16 word) \<noteq> 0 \<Longrightarrow> uint w - 1 = int (unat w - 1)"
proof -
  assume "w \<noteq> 0"
  then have "0 < unat w" by (simp add: unat_gt_0)
  then show ?thesis by (simp add: of_nat_diff)
qed

lemma node48_slot:
  assumes ok: "node48_ok n" and i: "i < 256" and nz: "keys48 n ! i \<noteq> 0"
  shows "unat (keys48 n ! i) - 1 < 48" and "\<exists>c. children48 n ! (unat (keys48 n ! i) - 1) = Some c"
    and "at_idx (children48 n) (uint (keys48 n ! i) - 1) = Inr (children48 n ! (unat (keys48 n ! i) - 1))"
proof -
  let ?k = "keys48 n ! i"
  have m: "?k \<in> set (keys48 n)" using ok i by (simp add: node48_ok_def)
  with ok have "unat ?k \<le> 48" by (simp add: node48_ok_def)
  moreover have p: "0 < unat ?k" using nz by (simp add: unat_gt_0)
  ultimately show l: "unat ?k - 1 < 48" by simp
  have "of_nat (Suc (unat ?k - 1)) = ?k" using p by simp
  with m l ok show "\<exists>c. children48 n ! (unat ?k - 1) = Some c" by (simp add: node48_ok_def)
  show "at_idx (children48 n) (uint ?k - 1) = Inr (children48 n ! (unat ?k - 1))"
    using l ok uint_minus_1 [OF nz] by (simp add: at_idx_def node48_ok_def)
qed

lemma node48_kid_eq:
  assumes ok: "node48_ok n" and i: "i < 256"
  shows "node48_kid n (of_nat i) = (if keys48 n ! i = 0 then None else children48 n ! (unat (keys48 n ! i) - 1))"
    and "node48_kid n (of_nat i) = None \<longleftrightarrow> keys48 n ! i = 0"
  using node48_slot [OF assms] ok i by (auto simp: node48_kid_def unat_of_nat_byte slot_def node48_ok_def)

lemma node48_hit_up:
  assumes ok: "node48_ok n"
  shows "node48_hit n (find (\<lambda>b. P (of_nat b) \<and> keys48 n ! b \<noteq> 0) range256) = Inr (first_kid P (node48_kid n))"
proof -
  have f: "find (\<lambda>i. node48_kid n (of_nat i) \<noteq> None \<and> P (of_nat i)) range256
      = find (\<lambda>b. P (of_nat b) \<and> keys48 n ! b \<noteq> 0) range256"
    using node48_kid_eq(2) [OF ok] by (intro find_cong_pred) auto
  show ?thesis
    unfolding first_kid_index f
    using node48_slot(3) [OF ok] node48_kid_eq(1) [OF ok]
    by (auto simp: node48_hit_def split: option.split dest!: find_SomeD)
qed

lemma node48_hit_down:
  assumes ok: "node48_ok n"
  shows "node48_hit n (find (\<lambda>b. keys48 n ! b \<noteq> 0 \<and> P (of_nat b)) (rev range256)) = Inr (last_kid P (node48_kid n))"
proof -
  have f: "find (\<lambda>i. node48_kid n (of_nat i) \<noteq> None \<and> P (of_nat i)) (rev range256)
      = find (\<lambda>b. keys48 n ! b \<noteq> 0 \<and> P (of_nat b)) (rev range256)"
    using node48_kid_eq(2) [OF ok] by (intro find_cong_pred) auto
  show ?thesis
    unfolding last_kid_index f
    using node48_slot(3) [OF ok] node48_kid_eq(1) [OF ok]
    by (auto simp: node48_hit_def split: option.split dest!: find_SomeD)
qed

lemma node48_ends:
  assumes ok: "node48_ok n" and h: "node48_hit n (find (\<lambda>i. keys48 n ! i \<noteq> 0) xs) = Inr r" and xs: "set xs \<subseteq> {0..<256}"
  shows "\<exists>b. (case find (\<lambda>i. keys48 n ! i \<noteq> 0) xs of
     Some i \<Rightarrow> let k = keys48 n ! i in
       rbind (at_idx (children48 n) (uint k - 1)) (\<lambda>ch. Inr (ucast (k - 1), ch))
   | None \<Rightarrow> Inr (0, None)) = Inr (b :: byte, snd r)"
proof (cases "find (\<lambda>i. keys48 n ! i \<noteq> 0) xs")
  case None
  with h show ?thesis by (auto simp: node48_hit_def)
next
  case (Some i)
  from find_SomeD [OF Some] xs have "i < 256" "keys48 n ! i \<noteq> 0" by auto
  from node48_slot(3) [OF ok this] Some h show ?thesis by (auto simp: node48_hit_def Let_def)
qed

lemma node48_nonzero:
  "length (keys48 n) = 256 \<Longrightarrow>
   length (filter (\<lambda>k. k \<noteq> 0) (keys48 n)) = length (filter (\<lambda>i. keys48 n ! i \<noteq> 0) range256)"
  using map_nth_range256 [of "keys48 n"] by (metis (no_types, lifting) comp_apply filter_cong filter_map length_map)

interpretation n48: inode_prev node48_ok node48_kid node48_nchild node48_child node48_first node48_last
  node48_next node48_gt node48_gte node48_lt node48_lte node48_prev
proof unfold_locales
  fix n :: "'c node48" and k :: byte and q
  assume ok: "node48_ok n"
  have "filter (\<lambda>i. node48_kid n (of_nat i) \<noteq> None) range256 = filter (\<lambda>i. keys48 n ! i \<noteq> 0) range256"
    using node48_kid_eq(2) [OF ok] by (intro filter_cong) auto
  then show "node48_nchild n = int (length (entries_of (node48_kid n)))"
    using ok node48_nonzero [of n] by (simp add: node48_nchild_def node48_ok_def length_entries)
  show "\<exists>i. node48_child n k = Inr (i, node48_kid n k)"
    using node48_slot(3) [OF ok, of "unat k"] node48_kid_eq(1) [OF ok, of "unat k"]
    by (auto simp: node48_child_def Let_def)
  show "\<exists>b. node48_first n = Inr (b, snd (first_kid (\<lambda>_. True) (node48_kid n)))"
    unfolding node48_first_def
    using node48_hit_up [OF ok, of "\<lambda>_. True"] by (intro node48_ends [OF ok]) simp_all
  show "node48_next n q = Inr (first_kid (from_byte q (<)) (node48_kid n))"
    using node48_hit_up [OF ok, of "from_byte q (<)"] by (cases q) (simp_all add: node48_next_def)
  show "node48_gte n q = Inr (first_kid (from_byte q (\<le>)) (node48_kid n))"
    using node48_hit_up [OF ok, of "from_byte q (\<le>)"] by (cases q) (simp_all add: node48_gte_def)
  show "node48_gt n q = Inr (first_kid (from_byte q (<)) (node48_kid n))"
    using node48_hit_up [OF ok, of "from_byte q (<)"] by (cases q) (simp_all add: node48_gt_def node48_gte_def)
next
  fix n :: "'c node48" and q
  assume ok: "node48_ok n"
  show "\<exists>b. node48_last n = Inr (b, snd (last_kid (\<lambda>_. True) (node48_kid n)))"
    unfolding node48_last_def
    using node48_hit_down [OF ok, of "\<lambda>_. True"] by (intro node48_ends [OF ok]) simp_all
  show "node48_lt n q = Inr (last_kid (from_byte q (>)) (node48_kid n))"
    using node48_hit_down [OF ok, of "from_byte q (>)"] by (cases q) (simp_all add: node48_lt_def)
  show "node48_lte n q = Inr (last_kid (from_byte q (\<ge>)) (node48_kid n))"
    using node48_hit_down [OF ok, of "from_byte q (\<ge>)"] by (cases q) (simp_all add: node48_lte_def)
  show "node48_prev n q = Inr (last_kid (from_byte q (>)) (node48_kid n))"
    using node48_hit_down [OF ok, of "from_byte q (>)"] by (cases q) (simp_all add: node48_prev_def)
qed

section \<open>The updates\<close>

text \<open>What one pass over the keys does to the slots: the running total of the children so far.\<close>

definition slot_subn :: "bnode option list \<Rightarrow> 16 word \<Rightarrow> int" where
  "slot_subn cs w = (if w = 0 then 0 else subn (the (cs ! (unat w - 1))))"

lemma redo48:
  assumes "\<And>w. w \<in> set ks \<Longrightarrow> w \<noteq> 0 \<Longrightarrow> unat w \<le> length cs \<and> cs ! (unat w - 1) \<noteq> None"
    and "distinct (filter (\<lambda>k. k \<noteq> 0) ks)"
  shows "\<exists>cs'. node48_redo_loop ks tot cs = Inr cs' \<and> length cs' = length cs \<and>
    (\<forall>j < length cs. map_option (set_pren 0) (cs' ! j) = map_option (set_pren 0) (cs ! j)) \<and>
    (\<forall>j < length cs. (\<forall>w \<in> set ks. w \<noteq> 0 \<longrightarrow> j \<noteq> unat w - 1) \<longrightarrow> cs' ! j = cs ! j) \<and>
    (\<forall>i < length ks. ks ! i \<noteq> 0 \<longrightarrow>
      (\<exists>c. cs' ! (unat (ks ! i) - 1) = Some c \<and> pren c = tot + (\<Sum>w \<leftarrow> take i ks. slot_subn cs w)))"
  using assms
proof (induction ks arbitrary: tot cs)
  case Nil
  then show ?case by simp
next
  case (Cons idx ks)
  show ?case
  proof (cases "idx = 0")
    case True
    from Cons.IH [of cs tot] Cons.prems True obtain cs' where c: "node48_redo_loop ks tot cs = Inr cs'" "length cs' = length cs"
      "\<forall>j < length cs. map_option (set_pren 0) (cs' ! j) = map_option (set_pren 0) (cs ! j)"
      "\<forall>j < length cs. (\<forall>w \<in> set ks. w \<noteq> 0 \<longrightarrow> j \<noteq> unat w - 1) \<longrightarrow> cs' ! j = cs ! j"
      "\<forall>i < length ks. ks ! i \<noteq> 0 \<longrightarrow>
        (\<exists>c. cs' ! (unat (ks ! i) - 1) = Some c \<and> pren c = tot + (\<Sum>w \<leftarrow> take i ks. slot_subn cs w))"
      by auto
    with True show ?thesis
      by (intro exI [of _ cs']) (auto simp: nth_Cons' slot_subn_def take_Cons')
  next
    case False
    let ?j = "unat idx - 1"
    from Cons.prems(1) [of idx] False obtain d where d: "cs ! ?j = Some d" and l: "unat idx \<le> length cs" by auto
    have p: "0 < unat idx" using False by (simp add: unat_gt_0)
    then have j: "?j < length cs" using l by simp
    have at: "at_idx cs (uint idx - 1) = Inr (Some d)"
      using uint_minus_1 [OF False] j d by (simp add: at_idx_def)
    let ?cs = "cs[?j := Some (set_pren tot d)]"
    have neq: "?j \<noteq> unat w - 1" if "w \<in> set ks" "w \<noteq> 0" for w
    proof
      assume "?j = unat w - 1"
      moreover have "0 < unat w" using that(2) by (simp add: unat_gt_0)
      ultimately have "unat w = unat idx" using p by linarith
      then have "w = idx" by (rule unat_inj)
      with Cons.prems(2) that False show False by simp
    qed
    have pre: "unat w \<le> length ?cs \<and> ?cs ! (unat w - 1) \<noteq> None" if "w \<in> set ks" "w \<noteq> 0" for w
      using Cons.prems(1) [of w] that neq [OF that] by simp
    have dis: "distinct (filter (\<lambda>k. k \<noteq> 0) ks)" using Cons.prems(2) by (auto split: if_splits)
    from Cons.IH [OF pre dis, of "tot + subn d"] obtain cs' where c:
      "node48_redo_loop ks (tot + subn d) ?cs = Inr cs'" "length cs' = length cs"
      "\<forall>j < length cs. map_option (set_pren 0) (cs' ! j) = map_option (set_pren 0) (?cs ! j)"
      "\<forall>j < length cs. (\<forall>w \<in> set ks. w \<noteq> 0 \<longrightarrow> j \<noteq> unat w - 1) \<longrightarrow> cs' ! j = ?cs ! j"
      "\<forall>i < length ks. ks ! i \<noteq> 0 \<longrightarrow>
        (\<exists>c. cs' ! (unat (ks ! i) - 1) = Some c \<and> pren c = tot + subn d + (\<Sum>w \<leftarrow> take i ks. slot_subn ?cs w))"
      by auto
    have sub: "slot_subn ?cs w = slot_subn cs w" for w
      using d j by (cases "unat w - 1 = ?j") (simp_all add: slot_subn_def)
    have head: "cs' ! ?j = Some (set_pren tot d)"
      using c(4) neq j by auto
    show ?thesis
    proof (intro exI [of _ cs'] conjI)
      show "node48_redo_loop (idx # ks) tot cs = Inr cs'" using at c(1) False by simp
      show "length cs' = length cs" by (rule c(2))
      show "\<forall>k < length cs. map_option (set_pren 0) (cs' ! k) = map_option (set_pren 0) (cs ! k)"
        using c(3) d by (metis nth_list_update_eq nth_list_update_neq option.map(2) set_pren_set_pren)
      show "\<forall>k < length cs. (\<forall>w \<in> set (idx # ks). w \<noteq> 0 \<longrightarrow> k \<noteq> unat w - 1) \<longrightarrow> cs' ! k = cs ! k"
        using c(4) False by auto
      show "\<forall>i < length (idx # ks). (idx # ks) ! i \<noteq> 0 \<longrightarrow>
        (\<exists>c. cs' ! (unat ((idx # ks) ! i) - 1) = Some c \<and> pren c = tot + (\<Sum>w \<leftarrow> take i (idx # ks). slot_subn cs w))"
      proof (intro allI impI)
        fix i
        assume i: "i < length (idx # ks)" "(idx # ks) ! i \<noteq> 0"
        show "\<exists>c. cs' ! (unat ((idx # ks) ! i) - 1) = Some c \<and> pren c = tot + (\<Sum>w \<leftarrow> take i (idx # ks). slot_subn cs w)"
        proof (cases i)
          case 0
          with head show ?thesis by simp
        next
          case (Suc m)
          with c(5) i sub have "\<exists>c. cs' ! (unat (ks ! m) - 1) = Some c \<and>
              pren c = tot + subn d + (\<Sum>w \<leftarrow> take m ks. slot_subn cs w)" by simp
          moreover have "slot_subn cs idx = subn d" using d False by (simp add: slot_subn_def)
          ultimately show ?thesis using Suc by (simp add: add.assoc)
        qed
      qed
    qed
  qed
qed

lemma node48_redo_law:
  assumes ok: "node48_ok n"
  shows "\<exists>n'. node48_redoPren n = Inr n' \<and> node48_ok n' \<and> erase (node48_kid n') = erase (node48_kid n) \<and>
    prens_ok (node48_kid n')"
proof -
  have len: "length (keys48 n) = 256" "length (children48 n) = 48" using ok by (simp_all add: node48_ok_def)
  have pre: "unat w \<le> length (children48 n) \<and> children48 n ! (unat w - 1) \<noteq> None"
    if "w \<in> set (keys48 n)" "w \<noteq> 0" for w
  proof -
    from that(1) len obtain i where i: "i < 256" "w = keys48 n ! i" by (metis in_set_conv_nth)
    with node48_slot [OF ok, of i] that ok show ?thesis by (auto simp: node48_ok_def)
  qed
  have "distinct (filter (\<lambda>k. k \<noteq> 0) (keys48 n))" using ok by (simp add: node48_ok_def)
  from redo48 [OF pre this, of 0] obtain cs where r: "node48_redo_loop (keys48 n) 0 (children48 n) = Inr cs"
    and l: "length cs = 48"
    and e: "\<forall>j < 48. map_option (set_pren 0) (cs ! j) = map_option (set_pren 0) (children48 n ! j)"
    and p: "\<forall>i < 256. keys48 n ! i \<noteq> 0 \<longrightarrow> (\<exists>c. cs ! (unat (keys48 n ! i) - 1) = Some c \<and>
        pren c = (\<Sum>w \<leftarrow> take i (keys48 n). slot_subn (children48 n) w))"
    unfolding len by auto
  let ?n = "Mk48 (lth48 n) (keys48 n) cs"
  have "cs ! j = None \<longleftrightarrow> children48 n ! j = None" if "j < 48" for j
    using e that by (metis option.map_disc_iff)
  then have ok': "node48_ok ?n" using ok l by (simp add: node48_ok_def)
  have er: "erase (node48_kid ?n) = erase (node48_kid n)"
    using e l len node48_slot(1) [OF ok] by (auto simp: erase_def node48_kid_def slot_def fun_eq_iff)
  have tot: "(\<Sum>w \<leftarrow> take m (keys48 n). slot_subn (children48 n) w)
      = (\<Sum>i \<leftarrow> [0..<m]. case node48_kid n (of_nat i) of None \<Rightarrow> 0 | Some c \<Rightarrow> subn c)" if "m < 256" for m
  proof -
    have "take m (keys48 n) = map ((!) (keys48 n)) [0..<m]" 
      using that len by (intro nth_equalityI) auto
    moreover have "slot_subn (children48 n) (keys48 n ! i) = (case node48_kid n (of_nat i) of None \<Rightarrow> 0 | Some c \<Rightarrow> subn c)"
      if "i < m" for i
      using node48_slot(2) [OF ok, of i] node48_kid_eq(1) [OF ok, of i] that \<open>m < 256\<close> by (auto simp: slot_subn_def)
    ultimately show ?thesis by (auto intro!: arg_cong [where f = sum_list])
  qed
  have "prens_ok (node48_kid ?n)"
    unfolding prens_ok_def presum_erase_eq [OF er] presum_index
  proof (intro allI impI)
    fix b c
    assume b: "node48_kid ?n b = Some c"
    then have "keys48 n ! unat b \<noteq> 0" by (auto simp: node48_kid_def split: if_splits)
    with p [rule_format, of "unat b"] obtain d where "cs ! (unat (keys48 n ! unat b) - 1) = Some d"
      and "pren d = (\<Sum>w \<leftarrow> take (unat b) (keys48 n). slot_subn (children48 n) w)" by auto
    moreover from b \<open>keys48 n ! unat b \<noteq> 0\<close> have "cs ! (unat (keys48 n ! unat b) - 1) = Some c"
      using node48_slot(1) [OF ok, of "unat b"] l by (simp add: node48_kid_def slot_def)
    ultimately have "pren c = (\<Sum>w \<leftarrow> take (unat b) (keys48 n). slot_subn (children48 n) w)" by simp
    with tot show "pren c = (\<Sum>i \<leftarrow> [0..<unat b]. case node48_kid n (of_nat i) of None \<Rightarrow> 0 | Some c \<Rightarrow> subn c)"
      by simp
  qed
  with ok' er r show ?thesis by (simp add: node48_redoPren_def)
qed

lemma node48_set_slot:
  assumes ok: "node48_ok n" and k: "keys48 n ! unat k \<noteq> 0" and s: "s = unat (keys48 n ! unat k) - 1"
  shows "node48_ok (Mk48 (lth48 n) (keys48 n) ((children48 n)[s := Some c]))"
    and "node48_kid (Mk48 (lth48 n) (keys48 n) ((children48 n)[s := Some c])) = (node48_kid n)(k \<mapsto> c)"
proof -
  have sl: "s < 48" "\<exists>d. children48 n ! s = Some d" using node48_slot [OF ok _ k] s by auto
  have "of_nat (Suc s) \<in> set (keys48 n)" using sl ok by (auto simp: node48_ok_def)
  with ok sl show "node48_ok (Mk48 (lth48 n) (keys48 n) ((children48 n)[s := Some c]))"
    by (auto simp: node48_ok_def nth_list_update)
  have "b = k" if "keys48 n ! unat b \<noteq> 0" "unat (keys48 n ! unat b) - 1 = s" for b
  proof -
    have "unat (keys48 n ! unat b) = unat (keys48 n ! unat k)"
      using that k s by (metis One_nat_def Suc_pred unat_gt_0)
    then have eq: "keys48 n ! unat b = keys48 n ! unat k" by (rule unat_inj)
    have "distinct (filter (\<lambda>k. k \<noteq> 0) (keys48 n))" "unat b < length (keys48 n)" "unat k < length (keys48 n)"
      using ok by (simp_all add: node48_ok_def)
    with eq that(1) have "unat b = unat k"
      by (metis (mono_tags, lifting) distinct_filter_nth_eq)
    then show ?thesis by (rule unat_inj)
  qed
  then show "node48_kid (Mk48 (lth48 n) (keys48 n) ((children48 n)[s := Some c])) = (node48_kid n)(k \<mapsto> c)"
    using k s sl ok by (auto simp: node48_kid_def fun_eq_iff slot_def node48_ok_def nth_list_update)
qed

lemma unat_slot_number: "j < 48 \<Longrightarrow> unat (of_nat (Suc j) :: 16 word) = Suc j"
  by (simp add: unat_of_nat del: of_nat_Suc)

lemma slot_number_nonzero: "j < 48 \<Longrightarrow> (of_nat (Suc j) :: 16 word) \<noteq> 0"
  using unat_slot_number by (metis nat.distinct(1) unsigned_0)

text \<open>A node that is not full has a free slot, whose number no key holds.\<close>

lemma node48_room:
  assumes ok: "node48_ok n" and "\<not> node48_full n"
  obtains i where "find (\<lambda>i. children48 n ! i = None) [0..<length (children48 n)] = Some i"
    and "i < 48" and "children48 n ! i = None" and "of_nat (Suc i) \<notin> set (keys48 n)"
proof (cases "find (\<lambda>i. children48 n ! i = None) [0..<length (children48 n)]")
  case (Some i)
  from find_SomeD [OF Some] ok have i: "i < 48" "children48 n ! i = None" by (auto simp: node48_ok_def)
  with ok have "of_nat (Suc i) \<notin> set (keys48 n)"
    unfolding node48_ok_def by (metis atLeastLessThan_iff le0)
  with Some i that show thesis by blast
next
  case None
  let ?z = "filter (\<lambda>k. k \<noteq> 0) (keys48 n)"
  have all: "of_nat (Suc j) \<in> set (keys48 n)" if "j < 48" for j
    using None that ok by (auto simp: node48_ok_def find_None_iff)
  have "(\<lambda>w. unat w) ` set ?z = {1..48}"
  proof (intro equalityI subsetI)
    fix x
    assume "x \<in> (\<lambda>w. unat w) ` set ?z"
    then obtain w where "w \<in> set (keys48 n)" "w \<noteq> 0" "x = unat w" by auto
    with ok show "x \<in> {1..48}" by (auto simp: node48_ok_def unat_gt_0 Suc_le_eq)
  next
    fix x :: nat
    assume x: "x \<in> {1..48}"
    then obtain j where j: "x = Suc j" "j < 48" by (cases x) auto
    then have "unat (of_nat (Suc j) :: 16 word) = x" by (simp only: unat_slot_number)
    moreover from this x have "(of_nat (Suc j) :: 16 word) \<noteq> 0" by (metis atLeastAtMost_iff not_one_le_zero unsigned_0)
    ultimately show "x \<in> (\<lambda>w. unat w) ` set ?z" using all [OF j(2)]
      by (intro image_eqI [of _ _ "of_nat (Suc j)"]) auto
  qed
  moreover have "inj_on (\<lambda>w. unat w) (set ?z)" by (auto intro!: inj_onI unat_inj)
  then have "card ((\<lambda>w. unat w) ` set ?z) = card (set ?z)" by (rule card_image)
  ultimately have "card (set ?z) = 48" by simp
  then have "lth48 n = 48" using ok distinct_card [of ?z] by (simp add: node48_ok_def)
  with assms(2) show thesis by (simp add: node48_full_def)
qed

lemma filter_nonzero_insert:
  assumes "i < length ks" and "ks ! i = 0" and "w \<noteq> (0 :: 16 word)"
  shows "length (filter (\<lambda>k. k \<noteq> 0) (ks[i := w])) = Suc (length (filter (\<lambda>k. k \<noteq> 0) ks))"
    and "distinct (filter (\<lambda>k. k \<noteq> 0) ks) \<Longrightarrow> w \<notin> set ks \<Longrightarrow> distinct (filter (\<lambda>k. k \<noteq> 0) (ks[i := w]))"
    and "\<And>v. v \<noteq> 0 \<Longrightarrow> v \<in> set (ks[i := w]) \<longleftrightarrow> v = w \<or> v \<in> set ks"
proof -
  have ks: "ks = take i ks @ 0 # drop (Suc i) ks" using assms(1,2) id_take_nth_drop by metis
  have f: "filter (\<lambda>k. k \<noteq> 0) ks = filter (\<lambda>k. k \<noteq> 0) (take i ks) @ filter (\<lambda>k. k \<noteq> 0) (drop (Suc i) ks)"
    by (subst ks) simp
  have g: "filter (\<lambda>k. k \<noteq> 0) (ks[i := w])
      = filter (\<lambda>k. k \<noteq> 0) (take i ks) @ w # filter (\<lambda>k. k \<noteq> 0) (drop (Suc i) ks)"
    using assms by (simp add: upd_conv_take_nth_drop)
  show "length (filter (\<lambda>k. k \<noteq> 0) (ks[i := w])) = Suc (length (filter (\<lambda>k. k \<noteq> 0) ks))"
    unfolding g f by simp
  show "distinct (filter (\<lambda>k. k \<noteq> 0) (ks[i := w]))" if "distinct (filter (\<lambda>k. k \<noteq> 0) ks)" "w \<notin> set ks"
    using that in_set_takeD in_set_dropD unfolding g f by fastforce
  have m: "v \<in> set xs \<longleftrightarrow> v \<in> set (filter (\<lambda>k. k \<noteq> 0) xs)" if "v \<noteq> 0" for v xs using that by simp
  show "v \<in> set (ks[i := w]) \<longleftrightarrow> v = w \<or> v \<in> set ks" if "v \<noteq> 0" for v
    unfolding m [OF that, of ks] m [OF that, of "ks[i := w]"] unfolding g f by auto
qed

lemma filter_nonzero_remove:
  assumes "i < length ks" and "ks ! i \<noteq> (0 :: 16 word)"
  shows "int (length (filter (\<lambda>k. k \<noteq> 0) (ks[i := 0]))) = int (length (filter (\<lambda>k. k \<noteq> 0) ks)) - 1"
    and "distinct (filter (\<lambda>k. k \<noteq> 0) ks) \<Longrightarrow> distinct (filter (\<lambda>k. k \<noteq> 0) (ks[i := 0]))"
    and "distinct (filter (\<lambda>k. k \<noteq> 0) ks) \<Longrightarrow> w \<noteq> 0 \<Longrightarrow> w \<in> set (ks[i := 0]) \<longleftrightarrow> w \<in> set ks \<and> w \<noteq> ks ! i"
proof -
  have ks: "ks = take i ks @ ks ! i # drop (Suc i) ks" using assms(1) id_take_nth_drop by metis
  have f: "filter (\<lambda>k. k \<noteq> 0) ks
      = filter (\<lambda>k. k \<noteq> 0) (take i ks) @ ks ! i # filter (\<lambda>k. k \<noteq> 0) (drop (Suc i) ks)"
    by (subst ks) (simp add: assms(2))
  have g: "filter (\<lambda>k. k \<noteq> 0) (ks[i := 0]) = filter (\<lambda>k. k \<noteq> 0) (take i ks) @ filter (\<lambda>k. k \<noteq> 0) (drop (Suc i) ks)"
    using assms(1) by (simp add: upd_conv_take_nth_drop)
  show "int (length (filter (\<lambda>k. k \<noteq> 0) (ks[i := 0]))) = int (length (filter (\<lambda>k. k \<noteq> 0) ks)) - 1"
    unfolding g f by simp
  show "distinct (filter (\<lambda>k. k \<noteq> 0) (ks[i := 0]))" if "distinct (filter (\<lambda>k. k \<noteq> 0) ks)"
    using that unfolding g f by auto
  have m: "w \<in> set xs \<longleftrightarrow> w \<in> set (filter (\<lambda>k. k \<noteq> 0) xs)" if "w \<noteq> 0" for xs using that by simp
  show "w \<in> set (ks[i := 0]) \<longleftrightarrow> w \<in> set ks \<and> w \<noteq> ks ! i" if "distinct (filter (\<lambda>k. k \<noteq> 0) ks)" "w \<noteq> 0"
    unfolding m [OF that(2), of ks] m [OF that(2), of "ks[i := 0]"] using that unfolding g f by auto
qed

lemma node48_insert:
  assumes ok: "node48_ok n" and new: "node48_kid n k = None"
    and i: "i < 48" "children48 n ! i = None" "of_nat (Suc i) \<notin> set (keys48 n)"
    and n': "n' = Mk48 (lth48 n + 1) ((keys48 n)[unat k := of_nat (Suc i)]) ((children48 n)[i := Some c])"
  shows "node48_ok n'" and "node48_kid n' = (node48_kid n)(k \<mapsto> c)"
proof -
  let ?w = "of_nat (Suc i) :: 16 word"
  have u: "unat ?w = Suc i" using i(1) by (rule unat_slot_number)
  then have w0: "?w \<noteq> 0" by (metis nat.distinct(1) unsigned_0)
  have len: "length (keys48 n) = 256" "length (children48 n) = 48" using ok by (simp_all add: node48_ok_def)
  have k0: "keys48 n ! unat k = 0" using node48_kid_eq(2) [OF ok, of "unat k"] new by simp
  note fi = filter_nonzero_insert [of "unat k" "keys48 n" ?w, unfolded len, OF byte_unat_lt k0 w0]
  note keys = fi(3)
  have w_eq: "(of_nat (Suc j) :: 16 word) = ?w \<longleftrightarrow> j = i" if "j < 48" for j
    by (metis Suc_inject u that unat_slot_number)
  have nz: "(of_nat (Suc j) :: 16 word) \<noteq> 0" if "j < 48" for j
    using that by (rule slot_number_nonzero)
  have iff: "children48 n ! j \<noteq> None \<longleftrightarrow> of_nat (Suc j) \<in> set (keys48 n)" if "j < 48" for j
    using ok that unfolding node48_ok_def by (metis atLeastLessThan_iff le0)
  have "unat v \<le> 48" if "v \<in> set ((keys48 n)[unat k := ?w])" for v
    using keys [of v] that u i(1) ok by (cases "v = 0") (auto simp: node48_ok_def)
  moreover have "(children48 n)[i := Some c] ! j \<noteq> None \<longleftrightarrow> of_nat (Suc j) \<in> set ((keys48 n)[unat k := ?w])"
    if "j < 48" for j
    using keys [OF nz [OF that]] w_eq [OF that] iff [OF that] that len by (auto simp: nth_list_update simp del: of_nat_Suc)
  ultimately show "node48_ok n'"
    using ok fi i(3) unfolding n' node48_ok_def
    by (simp del: of_nat_Suc)
  have other: "unat (keys48 n ! unat b) - 1 \<noteq> i" if "keys48 n ! unat b \<noteq> 0" for b :: byte
  proof
    assume "unat (keys48 n ! unat b) - 1 = i"
    with that have "unat (keys48 n ! unat b) = Suc i" by (metis One_nat_def Suc_pred unat_gt_0)
    with u have "keys48 n ! unat b = ?w" by (intro unat_inj) simp
    moreover have "keys48 n ! unat b \<in> set (keys48 n)" using len by simp
    ultimately show False using i(3) by simp
  qed
  have "node48_kid n' b = ((node48_kid n)(k \<mapsto> c)) b" for b
  proof (cases "b = k")
    case True
    with u w0 len i(1) show ?thesis unfolding n' by (simp add: node48_kid_def slot_def del: of_nat_Suc)
  next
    case False
    then have "unat b \<noteq> unat k" by (auto intro: unat_inj)
    with False other [of b] show ?thesis unfolding n'
      by (cases "keys48 n ! unat b = 0") (simp_all add: node48_kid_def slot_def del: of_nat_Suc)
  qed
  then show "node48_kid n' = (node48_kid n)(k \<mapsto> c)" by blast
qed

lemma node48_delete:
  assumes ok: "node48_ok n" and k: "keys48 n ! unat k \<noteq> 0" and s: "s = unat (keys48 n ! unat k) - 1"
    and n': "n' = Mk48 (lth48 n - 1) ((keys48 n)[unat k := 0]) ((children48 n)[s := None])"
  shows "node48_ok n'" and "node48_kid n' = (node48_kid n)(k := None)"
proof -
  have len: "length (keys48 n) = 256" "length (children48 n) = 48" using ok by (simp_all add: node48_ok_def)
  have dis: "distinct (filter (\<lambda>k. k \<noteq> 0) (keys48 n))" using ok by (simp add: node48_ok_def)
  note fr = filter_nonzero_remove [of "unat k" "keys48 n", unfolded len, OF byte_unat_lt k]
  have s48: "s < 48" using node48_slot(1) [OF ok byte_unat_lt k] s by simp
  have ks: "keys48 n ! unat k = of_nat (Suc s)"
    using s k s48 by (intro unat_inj) (simp add: unat_slot_number unat_gt_0 del: of_nat_Suc)
  have nz: "(of_nat (Suc j) :: 16 word) \<noteq> 0" if "j < 48" for j
    using that by (rule slot_number_nonzero)
  have w_eq: "(of_nat (Suc j) :: 16 word) = of_nat (Suc s) \<longleftrightarrow> j = s" if "j < 48" for j
    by (metis Suc_inject s48 that unat_slot_number)
  have iff: "children48 n ! j \<noteq> None \<longleftrightarrow> of_nat (Suc j) \<in> set (keys48 n)" if "j < 48" for j
    using ok that unfolding node48_ok_def by (metis atLeastLessThan_iff le0)
  have "unat v \<le> 48" if "v \<in> set ((keys48 n)[unat k := 0])" for v
    using fr(3) [OF dis, of v] that ok by (cases "v = 0") (auto simp: node48_ok_def)
  moreover have "(children48 n)[s := None] ! j \<noteq> None \<longleftrightarrow> of_nat (Suc j) \<in> set ((keys48 n)[unat k := 0])"
    if "j < 48" for j
    using fr(3) [OF dis nz [OF that]] w_eq [OF that] iff [OF that] ks that len
    by (auto simp: nth_list_update simp del: of_nat_Suc)
  ultimately show "node48_ok n'"
    using ok fr(1) fr(2) [OF dis] unfolding n' node48_ok_def by (simp del: of_nat_Suc)
  have other: "unat (keys48 n ! unat b) - 1 \<noteq> s" if "keys48 n ! unat b \<noteq> 0" "b \<noteq> k" for b
  proof
    assume "unat (keys48 n ! unat b) - 1 = s"
    with that have "unat (keys48 n ! unat b) = Suc s" by (metis One_nat_def Suc_pred unat_gt_0)
    with ks s48 have "keys48 n ! unat b = keys48 n ! unat k"
      by (intro unat_inj) (simp add: unat_slot_number del: of_nat_Suc)
    with that(1) dis len have "unat b = unat k"
      by (metis (mono_tags, lifting) byte_unat_lt distinct_filter_nth_eq)
    with that(2) show False by (auto dest: unat_inj)
  qed
  have "node48_kid n' b = ((node48_kid n)(k := None)) b" for b
  proof (cases "b = k")
    case True
    with len show ?thesis unfolding n' by (simp add: node48_kid_def)
  next
    case False
    then have "unat b \<noteq> unat k" by (auto intro: unat_inj)
    with False other [of b] show ?thesis unfolding n'
      by (cases "keys48 n ! unat b = 0") (simp_all add: node48_kid_def slot_def)
  qed
  then show "node48_kid n' = (node48_kid n)(k := None)" by blast
qed

lemma uint_byte_lt: "uint (k :: byte) < 256"
  using byte_unat_lt [of k] by (simp only: uint_nat of_nat_less_numeral_iff)

lemma node48_child_slot:
  assumes "node48_ok n" and "node48_child n k = Inr (i, Some c)"
  shows "keys48 n ! unat k \<noteq> 0" and "i = uint k" and "at_idx (keys48 n) i = Inr (keys48 n ! unat k)"
    and "at_idx (children48 n) (uint (keys48 n ! unat k) - 1) = Inr (Some c)"
  using assms by (auto simp: node48_child_def Let_def rbind_eq_Inr at_idx_def node48_ok_def uint_byte_lt split: if_splits)

interpretation n48w: inode_writes node48_ok node48_kid node48_child node48_full node48_addChild
  node48_replace node48_redoPren
proof unfold_locales
  fix n :: "bnode node48" and k c
  assume ok: "node48_ok n" and new: "node48_kid n k = None" and room: "\<not> node48_full n"
  obtain i where f: "find (\<lambda>i. children48 n ! i = None) [0..<length (children48 n)] = Some i"
    and i: "i < 48" "children48 n ! i = None" "of_nat (Suc i) \<notin> set (keys48 n)"
    using node48_room [OF ok room] by blast
  note ins = node48_insert [OF ok new i refl, of c]
  from node48_redo_law [OF ins(1)] ins(2) f show "\<exists>n'. node48_addChild n k c = Inr n' \<and> node48_ok n' \<and>
      erase (node48_kid n') = erase ((node48_kid n)(k \<mapsto> c)) \<and> prens_ok (node48_kid n')"
    by (auto simp: node48_addChild_def simp del: erase_upd of_nat_Suc)
next
  fix n :: "bnode node48" and k i c c' del
  assume ok: "node48_ok n" and ch: "node48_child n k = Inr (i, Some c)"
  note sl = node48_child_slot [OF ok ch]
  note st = node48_set_slot [OF ok sl(1) refl, of c']
  from node48_redo_law [OF st(1)] st sl show "\<exists>n'. node48_replace n i (Some c') del = Inr (n', Some c) \<and>
      node48_ok n' \<and> erase (node48_kid n') = erase ((node48_kid n)(k \<mapsto> c')) \<and>
      (if del \<and> pren c' \<noteq> pren c then prens_ok (node48_kid n') else node48_kid n' = (node48_kid n)(k \<mapsto> c'))"
    by (auto simp: node48_replace_def Let_def simp del: erase_upd)
next
  fix n :: "bnode node48" and k i c
  assume ok: "node48_ok n" and ch: "node48_child n k = Inr (i, Some c)"
  note sl = node48_child_slot [OF ok ch]
  note st = node48_delete [OF ok sl(1) refl refl]
  from node48_redo_law [OF st(1)] st sl show "\<exists>n'. node48_replace n i None True = Inr (n', Some c) \<and>
      node48_ok n' \<and> erase (node48_kid n') = erase ((node48_kid n)(k := None)) \<and>
      (prens_ok (node48_kid n) \<longrightarrow> prens_ok (node48_kid n'))"
    by (auto simp: node48_replace_def Let_def simp del: erase_del)
qed (rule node48_redo_law)

end
