(* ===== verification/NodeTwoFiftySix.thy ===== *)
theory NodeTwoFiftySix
  imports Interface
begin

text \<open>
  \<open>node256\<close> (\<open>n256.go\<close>): the child of a byte is at the index of the byte.
\<close>

section \<open>The methods\<close>

definition node256_last :: "'c node256 \<Rightarrow> (byte \<times> 'c option) res" where
  "node256_last n = (case find (\<lambda>i. children256 n ! i \<noteq> None) (rev range256) of
     Some i \<Rightarrow> Inr (of_nat i, slot (children256 n) i) | None \<Rightarrow> Inr (0, None))"

definition node256_first :: "'c node256 \<Rightarrow> (byte \<times> 'c option) res" where
  "node256_first n = (case find (\<lambda>i. children256 n ! i \<noteq> None) range256 of
     Some i \<Rightarrow> Inr (of_nat i, slot (children256 n) i) | None \<Rightarrow> Inr (0, None))"

definition node256_nchild :: "'c node256 \<Rightarrow> int" where
  "node256_nchild n = lth256 n"

definition node256_child :: "'c node256 \<Rightarrow> byte \<Rightarrow> (int \<times> 'c option) res" where
  "node256_child n k = Inr (uint k, slot (children256 n) (unat k))"

definition node256_next :: "'c node256 \<Rightarrow> byte option \<Rightarrow> (byte \<times> 'c option) res" where
  "node256_next n k =
     (case find (\<lambda>b. (case k of None \<Rightarrow> True | Some kb \<Rightarrow> kb < of_nat b) \<and> children256 n ! b \<noteq> None) range256 of
        Some b \<Rightarrow> Inr (of_nat b, slot (children256 n) b) | None \<Rightarrow> Inr (0, None))"

definition node256_gte :: "'c node256 \<Rightarrow> byte option \<Rightarrow> (byte \<times> 'c option) res" where
  "node256_gte n k =
     (case find (\<lambda>b. (case k of None \<Rightarrow> True | Some kb \<Rightarrow> kb \<le> of_nat b) \<and> children256 n ! b \<noteq> None) range256 of
        Some b \<Rightarrow> Inr (of_nat b, slot (children256 n) b) | None \<Rightarrow> Inr (0, None))"

definition node256_gt :: "'c node256 \<Rightarrow> byte option \<Rightarrow> (byte \<times> 'c option) res" where
  "node256_gt n k = (case k of
     None \<Rightarrow> node256_gte n None
   | Some kb \<Rightarrow>
      (case find (\<lambda>b. kb < of_nat b \<and> children256 n ! b \<noteq> None) range256 of
         Some b \<Rightarrow> Inr (of_nat b, slot (children256 n) b) | None \<Rightarrow> Inr (0, None)))"

text \<open>The loop of \<open>prev\<close> starts at \<open>lth - 1\<close>, not at 255.\<close>

definition node256_prev :: "'c node256 \<Rightarrow> byte option \<Rightarrow> (byte \<times> 'c option) res" where
  "node256_prev n k =
     (if int (length (children256 n)) < lth256 n then Inl IndexOutOfRange
      else (case find (\<lambda>i. (case k of None \<Rightarrow> True | Some kb \<Rightarrow> of_nat i < kb) \<and> children256 n ! i \<noteq> None)
                  (rev [0..<nat (lth256 n)]) of
         Some i \<Rightarrow> Inr (of_nat i, slot (children256 n) i) | None \<Rightarrow> Inr (0, None)))"

fun node256_redo_loop :: "int \<Rightarrow> bnode option list \<Rightarrow> bnode option list" where
  "node256_redo_loop tot [] = []"
| "node256_redo_loop tot (None # cs) = None # node256_redo_loop tot cs"
| "node256_redo_loop tot (Some ch # cs) = Some (set_pren tot ch) # node256_redo_loop (tot + subn ch) cs"

definition node256_redoPren :: "bnode node256 \<Rightarrow> bnode node256 res" where
  "node256_redoPren n = Inr (Mk256 (lth256 n) (node256_redo_loop 0 (children256 n)))"

text \<open>\<open>byte(idx)\<close> wraps the index, so it is always in range.\<close>

definition node256_replace :: "bnode node256 \<Rightarrow> int \<Rightarrow> bnode option \<Rightarrow> bool \<Rightarrow> (bnode node256 \<times> bnode option) res" where
  "node256_replace n idx ch del = (let i = unat (of_int idx :: byte); old = slot (children256 n) i in
     case ch of
       None \<Rightarrow>
         let n' = Mk256 (lth256 n - 1) ((children256 n)[i := None]) in
         if del then rbind (node256_redoPren n') (\<lambda>n''. Inr (n'', old)) else Inr (n', old)
     | Some c \<Rightarrow>
         let n' = Mk256 (lth256 n) ((children256 n)[i := Some c]) in
         if del then
           rbind (deref old) (\<lambda>o'.
             if pren c \<noteq> pren o' then rbind (node256_redoPren n') (\<lambda>n''. Inr (n'', old))
             else Inr (n', old))
         else Inr (n', old))"

definition node256_full :: "'c node256 \<Rightarrow> bool" where
  "node256_full n \<longleftrightarrow> lth256 n = 256"

definition node256_addChild :: "bnode node256 \<Rightarrow> byte \<Rightarrow> bnode \<Rightarrow> bnode node256 res" where
  "node256_addChild n k ch = node256_redoPren (Mk256 (lth256 n + 1) ((children256 n)[unat k := Some ch]))"

definition node256_min :: "'c node256 \<Rightarrow> bool" where
  "node256_min n \<longleftrightarrow> lth256 n \<le> 49"

definition node256_lte :: "'c node256 \<Rightarrow> byte option \<Rightarrow> (byte \<times> 'c option) res" where
  "node256_lte n k =
     (case find (\<lambda>i. children256 n ! i \<noteq> None \<and> (case k of None \<Rightarrow> True | Some kb \<Rightarrow> of_nat i \<le> kb)) (rev range256) of
        Some i \<Rightarrow> Inr (of_nat i, slot (children256 n) i) | None \<Rightarrow> Inr (0, None))"

definition node256_lt :: "'c node256 \<Rightarrow> byte option \<Rightarrow> (byte \<times> 'c option) res" where
  "node256_lt n k =
     (case find (\<lambda>i. children256 n ! i \<noteq> None \<and> (case k of None \<Rightarrow> True | Some kb \<Rightarrow> of_nat i < kb)) (rev range256) of
        Some i \<Rightarrow> Inr (of_nat i, slot (children256 n) i) | None \<Rightarrow> Inr (0, None))"

section \<open>The representation invariant and the contract\<close>

definition node256_ok :: "'c node256 \<Rightarrow> bool" where
  "node256_ok n \<longleftrightarrow> length (children256 n) = 256 \<and>
     lth256 n = int (length (filter (\<lambda>c. c \<noteq> None) (children256 n)))"

definition node256_kid :: "'c node256 \<Rightarrow> byte \<Rightarrow> 'c option" where
  "node256_kid n k = slot (children256 n) (unat k)"

lemma node256_kid_nth: "node256_ok n \<Longrightarrow> i < 256 \<Longrightarrow> node256_kid n (of_nat i) = children256 n ! i"
  by (simp add: node256_kid_def slot_def unat_of_nat_byte node256_ok_def)

lemma node256_up:
  assumes ok: "node256_ok n"
  shows "(case find (\<lambda>b. P (of_nat b) \<and> children256 n ! b \<noteq> None) range256 of
      Some b \<Rightarrow> Inr (of_nat b, slot (children256 n) b) | None \<Rightarrow> Inr (0, None)) = Inr (first_kid P (node256_kid n))"
proof -
  have "find (\<lambda>i. node256_kid n (of_nat i) \<noteq> None \<and> P (of_nat i)) range256
      = find (\<lambda>b. P (of_nat b) \<and> children256 n ! b \<noteq> None) range256"
    using node256_kid_nth [OF ok] by (intro find_cong_pred) auto
  then show ?thesis
    using node256_kid_nth [OF ok] ok
    by (auto simp: first_kid_index slot_def node256_ok_def split: option.split dest!: find_SomeD)
qed

lemma node256_down:
  assumes ok: "node256_ok n"
  shows "(case find (\<lambda>i. children256 n ! i \<noteq> None \<and> P (of_nat i)) (rev range256) of
      Some b \<Rightarrow> Inr (of_nat b, slot (children256 n) b) | None \<Rightarrow> Inr (0, None)) = Inr (last_kid P (node256_kid n))"
proof -
  have "find (\<lambda>i. node256_kid n (of_nat i) \<noteq> None \<and> P (of_nat i)) (rev range256)
      = find (\<lambda>b. children256 n ! b \<noteq> None \<and> P (of_nat b)) (rev range256)"
    using node256_kid_nth [OF ok] by (intro find_cong_pred) auto
  then show ?thesis
    using node256_kid_nth [OF ok] ok
    by (auto simp: last_kid_index slot_def node256_ok_def split: option.split dest!: find_SomeD)
qed

lemma node256_entries:
  assumes "length (children256 n) = 256"
  shows "length (entries_of (node256_kid n)) = length (filter (\<lambda>c. c \<noteq> None) (children256 n))"
proof -
  have "filter (\<lambda>i. node256_kid n (of_nat i) \<noteq> None) range256 = filter (\<lambda>i. children256 n ! i \<noteq> None) range256"
    using assms by (intro filter_cong) (auto simp: node256_kid_def slot_def unat_of_nat_byte)
  with length_filter_range256 [OF assms, of "\<lambda>c. c \<noteq> None"] show ?thesis by (simp add: length_entries)
qed

lemma node256_count: "node256_ok n \<Longrightarrow> lth256 n = int (length (entries_of (node256_kid n)))"
  using node256_entries [of n] by (simp add: node256_ok_def)

interpretation n256: inode_reads node256_ok node256_kid node256_nchild node256_child node256_first node256_last
  node256_next node256_gt node256_gte node256_lt node256_lte
proof unfold_locales
  fix n :: "'c node256" and k :: byte and q
  assume ok: "node256_ok n"
  show "node256_nchild n = int (length (entries_of (node256_kid n)))"
    using node256_count [OF ok] by (simp add: node256_nchild_def)
  show "\<exists>i. node256_child n k = Inr (i, node256_kid n k)"
    by (simp add: node256_child_def node256_kid_def)
  show "\<exists>b. node256_first n = Inr (b, snd (first_kid (\<lambda>_. True) (node256_kid n)))"
    using node256_up [OF ok, of "\<lambda>_. True"] by (cases "first_kid (\<lambda>_. True) (node256_kid n)") (auto simp: node256_first_def)
  show "node256_next n q = Inr (first_kid (from_byte q (<)) (node256_kid n))"
    using node256_up [OF ok, of "from_byte q (<)"] by (cases q) (simp_all add: node256_next_def)
  show "node256_gte n q = Inr (first_kid (from_byte q (\<le>)) (node256_kid n))"
    using node256_up [OF ok, of "from_byte q (\<le>)"] by (cases q) (simp_all add: node256_gte_def)
  show "node256_gt n q = Inr (first_kid (from_byte q (<)) (node256_kid n))"
    using node256_up [OF ok, of "from_byte q (<)"] by (cases q) (simp_all add: node256_gt_def node256_gte_def)
next
  fix n :: "'c node256" and q
  assume ok: "node256_ok n"
  show "\<exists>b. node256_last n = Inr (b, snd (last_kid (\<lambda>_. True) (node256_kid n)))"
    using node256_down [OF ok, of "\<lambda>_. True"] by (cases "last_kid (\<lambda>_. True) (node256_kid n)") (auto simp: node256_last_def)
  show "node256_lt n q = Inr (last_kid (from_byte q (>)) (node256_kid n))"
    using node256_down [OF ok, of "from_byte q (>)"] by (cases q) (simp_all add: node256_lt_def)
  show "node256_lte n q = Inr (last_kid (from_byte q (\<ge>)) (node256_kid n))"
    using node256_down [OF ok, of "from_byte q (\<ge>)"] by (cases q) (simp_all add: node256_lte_def)
qed

section \<open>The updates\<close>

lemma redo256:
  "length (node256_redo_loop tot cs) = length cs"
  "i < length cs \<Longrightarrow> map_option (set_pren 0) (node256_redo_loop tot cs ! i) = map_option (set_pren 0) (cs ! i)"
  "i < length cs \<Longrightarrow> node256_redo_loop tot cs ! i = Some c \<Longrightarrow>
     pren c = tot + (\<Sum>p \<leftarrow> take i cs. case p of None \<Rightarrow> 0 | Some d \<Rightarrow> subn d)"
  by (induction tot cs arbitrary: i rule: node256_redo_loop.induct) (auto simp: nth_Cons' take_Cons' add.assoc split: if_splits)

lemma redo256_none: "i < length cs \<Longrightarrow> node256_redo_loop tot cs ! i = None \<longleftrightarrow> cs ! i = None"
  using redo256(2) by (metis option.map_disc_iff)

lemma length_filter_some_cong:
  "length xs = length ys \<Longrightarrow> (\<And>i. i < length xs \<Longrightarrow> xs ! i = None \<longleftrightarrow> ys ! i = None) \<Longrightarrow>
   length (filter (\<lambda>c. c \<noteq> None) xs) = length (filter (\<lambda>c. c \<noteq> None) ys)"
proof (induction xs ys rule: list_induct2)
  case (Cons x xs y ys)
  from Cons.prems [of 0] have "x = None \<longleftrightarrow> y = None" by simp
  moreover have "xs ! i = None \<longleftrightarrow> ys ! i = None" if "i < length xs" for i
    using Cons.prems [of "Suc i"] that by simp
  ultimately show ?case using Cons.IH by (cases x; cases y) simp_all
qed simp

lemma node256_redo_law:
  assumes ok: "node256_ok n"
  shows "\<exists>n'. node256_redoPren n = Inr n' \<and> node256_ok n' \<and> erase (node256_kid n') = erase (node256_kid n) \<and>
    prens_ok (node256_kid n')"
proof -
  let ?n = "Mk256 (lth256 n) (node256_redo_loop 0 (children256 n))"
  have len: "length (children256 n) = 256" using ok by (simp add: node256_ok_def)
  have ok': "node256_ok ?n"
    using ok length_filter_some_cong [OF redo256(1) redo256_none, of 0 "children256 n"]
    by (simp add: node256_ok_def redo256(1))
  have er: "erase (node256_kid ?n) = erase (node256_kid n)"
    using len by (auto simp: erase_def node256_kid_def slot_def fun_eq_iff redo256)
  have tot: "(\<Sum>p \<leftarrow> take m (children256 n). case p of None \<Rightarrow> 0 | Some d \<Rightarrow> subn d)
      = (\<Sum>i \<leftarrow> [0..<m]. case node256_kid n (of_nat i) of None \<Rightarrow> 0 | Some c \<Rightarrow> subn c)" if "m < 256" for m
  proof -
    have "take m (children256 n) = map (\<lambda>i. node256_kid n (of_nat i)) [0..<m]"
      using that len node256_kid_nth [OF ok] by (intro nth_equalityI) auto
    then show ?thesis by (simp add: comp_def)
  qed
  have "prens_ok (node256_kid ?n)"
    unfolding prens_ok_def presum_erase_eq [OF er] presum_index
  proof (intro allI impI)
    fix b c
    assume "node256_kid ?n b = Some c"
    then have "node256_redo_loop 0 (children256 n) ! unat b = Some c"
      by (auto simp: node256_kid_def slot_def split: if_splits)
    from redo256(3) [OF _ this] len tot [of "unat b"]
    show "pren c = (\<Sum>i \<leftarrow> [0..<unat b]. case node256_kid n (of_nat i) of None \<Rightarrow> 0 | Some c \<Rightarrow> subn c)"
      by simp
  qed
  with ok' er show ?thesis by (simp add: node256_redoPren_def)
qed

lemma filter_some_update:
  assumes "i < length cs"
  shows "int (length (filter (\<lambda>c. c \<noteq> None) (cs[i := x])))
    = int (length (filter (\<lambda>c. c \<noteq> None) cs)) - (if cs ! i = None then 0 else 1) + (if x = None then 0 else 1)"
proof -
  have "filter (\<lambda>c. c \<noteq> None) cs = filter (\<lambda>c. c \<noteq> None) (take i cs) @
      (if cs ! i = None then [] else [cs ! i]) @ filter (\<lambda>c. c \<noteq> None) (drop (Suc i) cs)"
    by (subst id_take_nth_drop [OF assms]) simp
  moreover have "filter (\<lambda>c. c \<noteq> None) (cs[i := x]) = filter (\<lambda>c. c \<noteq> None) (take i cs) @
      (if x = None then [] else [x]) @ filter (\<lambda>c. c \<noteq> None) (drop (Suc i) cs)"
    using assms by (simp add: upd_conv_take_nth_drop)
  ultimately show ?thesis by simp
qed

text \<open>One write to the array: the count follows, and the map is updated at the byte.\<close>

lemma node256_write:
  assumes ok: "node256_ok n"
    and l: "l = lth256 n - (if node256_kid n k = None then 0 else 1) + (if x = None then 0 else 1)"
  shows "node256_ok (Mk256 l ((children256 n)[unat k := x]))"
    and "node256_kid (Mk256 l ((children256 n)[unat k := x])) = (node256_kid n)(k := x)"
proof -
  have len: "length (children256 n) = 256" using ok by (simp add: node256_ok_def)
  then have k: "node256_kid n k = children256 n ! unat k" by (simp add: node256_kid_def slot_def)
  show "node256_ok (Mk256 l ((children256 n)[unat k := x]))"
    using ok filter_some_update [of "unat k" "children256 n" x] l k by (simp add: node256_ok_def)
  show "node256_kid (Mk256 l ((children256 n)[unat k := x])) = (node256_kid n)(k := x)"
    using len by (auto simp: node256_kid_def slot_def fun_eq_iff nth_list_update dest: unat_inj)
qed

lemma node256_child_slot:
  assumes "node256_child n k = Inr (i, Some c)"
  shows "unat (of_int i :: byte) = unat k" and "node256_kid n k = Some c" and "slot (children256 n) (unat k) = Some c"
  using assms by (auto simp: node256_child_def node256_kid_def)

interpretation n256w: inode_writes node256_ok node256_kid node256_child node256_full node256_addChild
  node256_replace node256_redoPren
proof unfold_locales
  fix n :: "bnode node256" and k c
  assume ok: "node256_ok n" and new: "node256_kid n k = None"
  note w = node256_write [OF ok, of "lth256 n + 1" k "Some c"]
  from node256_redo_law [OF w(1)] w(2) new show "\<exists>n'. node256_addChild n k c = Inr n' \<and> node256_ok n' \<and>
      erase (node256_kid n') = erase ((node256_kid n)(k \<mapsto> c)) \<and> prens_ok (node256_kid n')"
    by (simp add: node256_addChild_def del: erase_upd)
next
  fix n :: "bnode node256" and k i c c' del
  assume ok: "node256_ok n" and ch: "node256_child n k = Inr (i, Some c)"
  note sl = node256_child_slot [OF ch] and w = node256_write [OF ok, of "lth256 n" k "Some c'"]
  from node256_redo_law [OF w(1)] w sl show "\<exists>n'. node256_replace n i (Some c') del = Inr (n', Some c) \<and>
      node256_ok n' \<and> erase (node256_kid n') = erase ((node256_kid n)(k \<mapsto> c')) \<and>
      (if del \<and> pren c' \<noteq> pren c then prens_ok (node256_kid n') else node256_kid n' = (node256_kid n)(k \<mapsto> c'))"
    by (auto simp: node256_replace_def Let_def simp del: erase_upd)
next
  fix n :: "bnode node256" and k i c
  assume ok: "node256_ok n" and ch: "node256_child n k = Inr (i, Some c)"
  note sl = node256_child_slot [OF ch] and w = node256_write [OF ok, of "lth256 n - 1" k None]
  from node256_redo_law [OF w(1)] w(2) sl show "\<exists>n'. node256_replace n i None True = Inr (n', Some c) \<and>
      node256_ok n' \<and> erase (node256_kid n') = erase ((node256_kid n)(k := None)) \<and>
      (prens_ok (node256_kid n) \<longrightarrow> prens_ok (node256_kid n'))"
    by (auto simp: node256_replace_def Let_def simp del: erase_del)
qed (rule node256_redo_law)

end
