(* ===== verification/Resize.thy ===== *)
theory Resize
  imports NodeFour NodeSixteen NodeFortyEight NodeTwoFiftySix
begin

text \<open>
  Changing the type of a node: \<open>grow\<close> and \<open>shrink\<close> of the four structs. Each builds a zeroed
  node of the other type, fills its arrays with a loop or with \<open>copy\<close>, and recomputes the
  cache. The laws of this theory say that the children stay the same.
\<close>

section \<open>The methods\<close>

definition node4_grow :: "bnode node4 \<Rightarrow> bnode node16 res" where
  "node4_grow n = node16_redoPren (Mk16 (lth4 n)
     (go_copy 0 (keys4 n) (replicate 16 0)) (go_copy 0 (children4 n) (replicate 16 None)))"

definition node4_shrink :: "bnode node4 \<Rightarrow> bnode inode res" where
  "node4_shrink n = Inl (PanicMessage ''can't shrink node4'')"

text \<open>The loop of \<open>grow\<close> over the children, \<open>i\<close> the index.\<close>

fun node16_slots :: "byte list \<Rightarrow> nat \<Rightarrow> 'c option list \<Rightarrow> 16 word list \<Rightarrow> 16 word list" where
  "node16_slots bs i [] ks = ks"
| "node16_slots bs i (None # cs) ks = node16_slots bs (Suc i) cs ks"
| "node16_slots bs i (Some c # cs) ks = node16_slots bs (Suc i) cs (ks[unat (bs ! i) := of_nat i + 1])"

definition node16_grow :: "bnode node16 \<Rightarrow> bnode node48 res" where
  "node16_grow n = node48_redoPren (Mk48 (lth16 n)
     (node16_slots (keys16 n) 0 (children16 n) (replicate 256 0))
     (go_copy 0 (children16 n) (replicate 48 None)))"

definition node16_shrink :: "bnode node16 \<Rightarrow> bnode node4 res" where
  "node16_shrink n = node4_redoPren (Mk4 (lth16 n)
     (go_copy 0 (keys16 n) (replicate 4 0)) (go_copy 0 (children16 n) (replicate 4 None)))"

fun node48_spread :: "'c option list \<Rightarrow> nat \<Rightarrow> 16 word list \<Rightarrow> 'c option list \<Rightarrow> 'c option list res" where
  "node48_spread cs b [] out = Inr out"
| "node48_spread cs b (i # ks) out =
     (if i = 0 then node48_spread cs (Suc b) ks out
      else rbind (at_idx cs (uint i - 1)) (\<lambda>c. node48_spread cs (Suc b) ks (out[b := c])))"

definition node48_grow :: "bnode node48 \<Rightarrow> bnode node256 res" where
  "node48_grow n = rbind (node48_spread (children48 n) 0 (keys48 n) (replicate 256 None))
     (\<lambda>cs. node256_redoPren (Mk256 (lth48 n) cs))"

text \<open>The loop of \<open>shrink\<close>: \<open>nni\<close> is the next free index of the new arrays.\<close>

fun node48_pack :: "'c option list \<Rightarrow> nat \<Rightarrow> 16 word list \<Rightarrow> nat \<Rightarrow> byte list \<Rightarrow> 'c option list \<Rightarrow>
    (byte list \<times> 'c option list) res" where
  "node48_pack cs i [] nni bs out = Inr (bs, out)"
| "node48_pack cs i (idx # ks) nni bs out =
     (if idx = 0 then node48_pack cs (Suc i) ks nni bs out
      else rbind (at_idx cs (uint idx - 1)) (\<lambda>child.
        if child = None then node48_pack cs (Suc i) ks nni bs out
        else if length bs \<le> nni \<or> length out \<le> nni then Inl IndexOutOfRange
        else node48_pack cs (Suc i) ks (Suc nni) (bs[nni := of_nat i]) (out[nni := child])))"

definition node48_shrink :: "bnode node48 \<Rightarrow> bnode node16 res" where
  "node48_shrink n = rbind (node48_pack (children48 n) 0 (keys48 n) 0 (replicate 16 0) (replicate 16 None))
     (\<lambda>(bs, out). node16_redoPren (Mk16 (lth48 n) bs out))"

definition node256_grow :: "bnode node256 \<Rightarrow> bnode inode option" where
  "node256_grow n = None"

fun node256_pack :: "'c option list \<Rightarrow> nat \<Rightarrow> 16 word \<Rightarrow> 16 word list \<Rightarrow> 'c option list \<Rightarrow>
    (16 word list \<times> 'c option list) res" where
  "node256_pack [] i index ks out = Inr (ks, out)"
| "node256_pack (None # cs) i index ks out = node256_pack cs (Suc i) index ks out"
| "node256_pack (Some c # cs) i index ks out =
     (let index' = index + 1 in
      if length out \<le> unat (index' - 1) then Inl IndexOutOfRange
      else node256_pack cs (Suc i) index' (ks[i := index']) (out[unat (index' - 1) := Some c]))"

definition node256_shrink :: "bnode node256 \<Rightarrow> bnode node48 res" where
  "node256_shrink n = rbind (node256_pack (children256 n) 0 0 (replicate 256 0) (replicate 48 None))
     (\<lambda>(ks, out). node48_redoPren (Mk48 (lth256 n) ks out))"

section \<open>Between the sorted arrays\<close>

lemma arr_rep_copy:
  assumes "arr_rep N es lth ks cs" and "length es \<le> M"
  shows "arr_rep M es lth (go_copy 0 ks (replicate M 0)) (go_copy 0 cs (replicate M None))"
  using assms by (cases "N \<le> M") (auto simp: arr_rep_def go_copy_def replicate_add [symmetric])

lemma arr_ok_copy:
  assumes "arr_ok N lth ks cs" and "lth \<le> int M"
  shows "arr_ok M lth (go_copy 0 ks (replicate M 0)) (go_copy 0 cs (replicate M None))"
    and "arr_kid (go_copy 0 ks (replicate M 0)) (go_copy 0 cs (replicate M None)) = arr_kid ks cs"
proof -
  obtain es where r: "arr_rep N es lth ks cs" and k: "arr_kid ks cs = map_of es" using assms(1) by (elim arr_okE)
  then have "length es \<le> M" using assms(2) by (simp add: arr_rep_def)
  note c = arr_okI [OF arr_rep_copy [OF r this]]
  show "arr_ok M lth (go_copy 0 ks (replicate M 0)) (go_copy 0 cs (replicate M None))" by (rule c(1))
  show "arr_kid (go_copy 0 ks (replicate M 0)) (go_copy 0 cs (replicate M None)) = arr_kid ks cs"
    using c(2) k by simp
qed

lemma node4_grow_law:
  assumes "node4_ok n"
  shows "\<exists>n'. node4_grow n = Inr n' \<and> node16_ok n' \<and> lth16 n' = lth4 n \<and>
    erase (node16_kid n') = erase (node4_kid n) \<and> prens_ok (node16_kid n')"
proof -
  let ?n = "Mk16 (lth4 n) (go_copy 0 (keys4 n) (replicate 16 0)) (go_copy 0 (children4 n) (replicate 16 None))"
  from assms have ok: "arr_ok 4 (lth4 n) (keys4 n) (children4 n)" by (simp add: node4_ok_def)
  with arr_bounds [OF ok] have "lth4 n \<le> int 16" by simp
  note c = arr_ok_copy [OF ok this]
  then have "node16_ok ?n" "node16_kid ?n = node4_kid n"
    by (simp_all only: node16_ok_def node16_kid_def node4_kid_def node16.sel)
  with node16_redo_law [of ?n] show ?thesis
    by (auto simp: node4_grow_def node16_redoPren_def rbind_eq_Inr)
qed

lemma node16_shrink_law:
  assumes "node16_ok n" and "lth16 n \<le> 4"
  shows "\<exists>n'. node16_shrink n = Inr n' \<and> node4_ok n' \<and> lth4 n' = lth16 n \<and>
    erase (node4_kid n') = erase (node16_kid n) \<and> prens_ok (node4_kid n')"
proof -
  let ?n = "Mk4 (lth16 n) (go_copy 0 (keys16 n) (replicate 4 0)) (go_copy 0 (children16 n) (replicate 4 None))"
  from assms have ok: "arr_ok 16 (lth16 n) (keys16 n) (children16 n)" by (simp add: node16_ok_def)
  with assms(2) have "lth16 n \<le> int 4" by simp
  note c = arr_ok_copy [OF ok this]
  then have "node4_ok ?n" "node4_kid ?n = node16_kid n"
    by (simp_all only: node4_ok_def node16_kid_def node4_kid_def node4.sel)
  with node4_redo_law [of ?n] show ?thesis
    by (auto simp: node16_shrink_def node4_redoPren_def rbind_eq_Inr)
qed

section \<open>Between the indexed arrays\<close>

text \<open>The children of an array indexed by byte, as entries, from byte \<open>i\<close> on.\<close>

fun idx_entries :: "nat \<Rightarrow> 'c option list \<Rightarrow> (byte \<times> 'c) list" where
  "idx_entries i [] = []"
| "idx_entries i (None # cs) = idx_entries (Suc i) cs"
| "idx_entries i (Some c # cs) = (of_nat i, c) # idx_entries (Suc i) cs"

lemma idx_entries_filter:
  "idx_entries i (map g [i..<j]) = map (\<lambda>b. (of_nat b, the (g b))) (filter (\<lambda>b. g b \<noteq> None) [i..<j])"
proof (induction "j - i" arbitrary: i)
  case (Suc d)
  then have "[i..<j] = i # [Suc i..<j]" by (simp add: upt_conv_Cons)
  with Suc.hyps(1) [of "Suc i"] Suc.hyps(2) show ?case by (cases "g i") auto
qed simp

lemma idx_entries_of: "idx_entries 0 (map (\<lambda>i. f (of_nat i)) range256) = entries_of f"
  unfolding range256_def idx_entries_filter entries_of_def all_bytes_def
  by (simp add: filter_map comp_def del: upt_rec_numeral)

lemma idx_entries_256:
  assumes "node256_ok n"
  shows "idx_entries 0 (children256 n) = entries_of (node256_kid n)"
proof -
  have "children256 n = map (\<lambda>i. node256_kid n (of_nat i)) range256"
    using assms node256_kid_nth [OF assms] map_nth_range256 [of "children256 n"]
    by (metis (no_types, lifting) atLeastLessThan_iff map_eq_conv node256_ok_def set_range256)
  then show ?thesis by (metis idx_entries_of)
qed

definition key_slots :: "'c option list \<Rightarrow> 16 word list \<Rightarrow> 'c option list" where
  "key_slots cs ks = map (\<lambda>w. if w = 0 then None else slot cs (unat w - 1)) ks"

lemma idx_entries_48:
  assumes "node48_ok n"
  shows "idx_entries 0 (key_slots (children48 n) (keys48 n)) = entries_of (node48_kid n)"
proof -
  have len: "length (keys48 n) = 256" using assms by (simp add: node48_ok_def)
  have "key_slots (children48 n) (keys48 n) = key_slots (children48 n) (map ((!) (keys48 n)) range256)"
    using map_nth_range256 [OF len] by simp
  also have "\<dots> = map (\<lambda>i. node48_kid n (of_nat i)) range256"
    by (simp add: key_slots_def node48_kid_def unat_of_nat_byte)
  finally show ?thesis by (simp only: idx_entries_of)
qed

text \<open>A \<open>node48\<close> whose slots are filled from the left, and the entries appended to it.\<close>

definition filled48 :: "nat \<Rightarrow> 'c node48 \<Rightarrow> bool" where
  "filled48 l n \<longleftrightarrow> node48_ok n \<and> lth48 n = int l \<and> (\<forall>j. l \<le> j \<and> j < 48 \<longrightarrow> children48 n ! j = None)"

fun fill48 :: "nat \<Rightarrow> (byte \<times> 'c) list \<Rightarrow> 'c node48 \<Rightarrow> 'c node48" where
  "fill48 l [] n = n"
| "fill48 l ((b, c) # es) n = fill48 (Suc l) es
     (Mk48 (lth48 n + 1) ((keys48 n)[unat b := of_nat (Suc l)]) ((children48 n)[l := Some c]))"

lemma filled48_append:
  assumes f: "filled48 l n" and new: "node48_kid n b = None" and l: "l < 48"
    and n': "n' = Mk48 (lth48 n + 1) ((keys48 n)[unat b := of_nat (Suc l)]) ((children48 n)[l := Some c])"
  shows "filled48 (Suc l) n'" and "node48_kid n' = (node48_kid n)(b \<mapsto> c)"
proof -
  from f have ok: "node48_ok n" and free: "children48 n ! l = None" and len: "lth48 n = int l"
    using l by (auto simp: filled48_def)
  from ok free l have "of_nat (Suc l) \<notin> set (keys48 n)"
    unfolding node48_ok_def by (metis atLeastLessThan_iff le0)
  note i = node48_insert [OF ok new l free this n']
  show "node48_kid n' = (node48_kid n)(b \<mapsto> c)" by (rule i(2))
  show "filled48 (Suc l) n'" using f i(1) n' len by (auto simp: filled48_def)
qed

lemma fill48_law:
  assumes "filled48 l n" and "distinct (map fst es)" and "\<forall>e \<in> set es. node48_kid n (fst e) = None"
    and "l + length es \<le> 48"
  shows "filled48 (l + length es) (fill48 l es n) \<and> node48_kid (fill48 l es n) = node48_kid n ++ map_of es"
  using assms
proof (induction l es n rule: fill48.induct)
  case (2 l b c es n)
  let ?n = "Mk48 (lth48 n + 1) ((keys48 n)[unat b := of_nat (Suc l)]) ((children48 n)[l := Some c])"
  have a: "filled48 (Suc l) ?n" "node48_kid ?n = (node48_kid n)(b \<mapsto> c)"
    using filled48_append [of l n b ?n c] "2.prems" by auto
  have "\<forall>e \<in> set es. node48_kid ?n (fst e) = None" using "2.prems"(2,3) a(2) by (auto simp: rev_image_eqI)
  moreover have "distinct (map fst es)" "Suc l + length es \<le> 48" using "2.prems" by auto
  ultimately have ih: "filled48 (Suc l + length es) (fill48 (Suc l) es ?n)"
      "node48_kid (fill48 (Suc l) es ?n) = node48_kid ?n ++ map_of es"
    using "2.IH" a(1) by simp_all
  have n: "map_of es b = None" using "2.prems"(2) by (simp add: map_of_eq_None_iff)
  have "filled48 (l + length ((b, c) # es)) (fill48 l ((b, c) # es) n)" using ih(1) by simp
  moreover have "node48_kid (fill48 l ((b, c) # es) n) = node48_kid n ++ map_of ((b, c) # es)"
    using ih(2) a(2) n by (auto simp: fun_eq_iff map_add_def split: option.split)
  ultimately show ?case ..
qed simp_all

definition node48_new :: "'c node48" where
  "node48_new = Mk48 0 (replicate 256 0) (replicate 48 None)"

lemma filled48_new: "filled48 0 node48_new" "node48_kid node48_new = Map.empty"
  using slot_number_nonzero
  by (auto simp: filled48_def node48_new_def node48_ok_def node48_kid_def fun_eq_iff unat_gt_0 eq_commute [of 0])

lemma fill48_new:
  assumes "length (entries_of f) \<le> 48"
  shows "node48_ok (fill48 0 (entries_of f) node48_new)"
    and "node48_kid (fill48 0 (entries_of f) node48_new) = f"
    and "lth48 (fill48 0 (entries_of f) node48_new) = int (length (entries_of f))"
proof -
  have "\<forall>e \<in> set (entries_of f). node48_kid node48_new (fst e) = None" by (simp add: filled48_new(2))
  from fill48_law [OF filled48_new(1) distinct_entries this] assms
  show "node48_ok (fill48 0 (entries_of f) node48_new)"
    and "node48_kid (fill48 0 (entries_of f) node48_new) = f"
    and "lth48 (fill48 0 (entries_of f) node48_new) = int (length (entries_of f))"
    by (simp_all add: filled48_def map_of_entries filled48_new(2) map_add_def)
qed

text \<open>What the two loops that build a \<open>node48\<close> compute.\<close>

lemma node16_slots_fill:
  assumes "\<And>j. j < length es \<Longrightarrow> bs ! (l + j) = fst (es ! j)"
  shows "keys48 (fill48 l es (Mk48 lth ks cs))
      = node16_slots bs l (map (\<lambda>e. Some (snd e)) es @ replicate r None) ks"
    and "l + length es \<le> length cs \<Longrightarrow> children48 (fill48 l es (Mk48 lth ks cs))
      = take l cs @ map (\<lambda>e. Some (snd e)) es @ drop (l + length es) cs"
    and "lth48 (fill48 l es (Mk48 lth ks cs)) = lth + int (length es)"
proof -
  have none: "node16_slots bs l (replicate r None) ks = ks" for l ks
    by (induction r arbitrary: l) auto
  have keys: "keys48 (fill48 l es (Mk48 lth ks cs))
      = node16_slots bs l (map (\<lambda>e. Some (snd e)) es @ replicate r None) ks"
    if "\<And>j. j < length es \<Longrightarrow> bs ! (l + j) = fst (es ! j)" for l es lth ks cs
    using that
  proof (induction es arbitrary: l lth ks cs)
    case Nil
    then show ?case by (simp add: none)
  next
    case (Cons e es)
    from Cons.prems [of 0] have "bs ! l = fst e" by simp
    moreover have "bs ! (Suc l + j) = fst (es ! j)" if "j < length es" for j
      using Cons.prems [of "Suc j"] that by simp
    ultimately show ?case using Cons.IH [of "Suc l"] by (cases e) (simp add: add.commute)
  qed
  show "keys48 (fill48 l es (Mk48 lth ks cs))
      = node16_slots bs l (map (\<lambda>e. Some (snd e)) es @ replicate r None) ks"
    using assms by (rule keys)
  have "l + length es \<le> length cs \<longrightarrow> children48 (fill48 l es (Mk48 lth ks cs))
      = take l cs @ map (\<lambda>e. Some (snd e)) es @ drop (l + length es) cs" for l es lth ks cs
  proof (induction l es "Mk48 lth ks cs" arbitrary: lth ks cs rule: fill48.induct)
    case (2 l b c es)
    then show ?case by (simp add: take_Suc_conv_app_nth)
  qed simp
  then show "l + length es \<le> length cs \<Longrightarrow> children48 (fill48 l es (Mk48 lth ks cs))
      = take l cs @ map (\<lambda>e. Some (snd e)) es @ drop (l + length es) cs" by blast
  show "lth48 (fill48 l es (Mk48 lth ks cs)) = lth + int (length es)"
    by (induction l es "Mk48 lth ks cs" arbitrary: lth ks cs rule: fill48.induct) simp_all
qed

lemma node256_pack_fill:
  assumes "i + length cs \<le> 256" and "unat index + length (idx_entries i cs) \<le> length out" and "length out = 48"
  shows "node256_pack cs i index ks out =
    (let n = fill48 (unat index) (idx_entries i cs) (Mk48 lth ks out) in Inr (keys48 n, children48 n))"
  using assms
proof (induction cs i index ks out arbitrary: lth rule: node256_pack.induct)
  case (3 c cs i index ks out)
  have u: "unat (index + 1) = Suc (unat index)"
    using "3.prems"(2,3) by (simp add: unat_word_ariths)
  have w: "of_nat (Suc (unat index)) = index + 1" by simp
  have "unat (of_nat i :: byte) = i" using "3.prems"(1) by (simp add: unat_of_nat_byte)
  moreover have "node256_pack cs (Suc i) (index + 1) (ks[i := index + 1]) (out[unat index := Some c]) =
    (let n = fill48 (unat (index + 1)) (idx_entries (Suc i) cs) (Mk48 (lth + 1) (ks[i := index + 1]) (out[unat index := Some c]))
     in Inr (keys48 n, children48 n))"
    using "3.IH" [OF refl, of "lth + 1"] "3.prems" u by simp
  ultimately show ?case using "3.prems"(2,3) u w by (simp add: Let_def del: of_nat_Suc)
qed (simp_all add: Let_def)

lemma node16_grow_law:
  assumes "node16_ok n"
  shows "\<exists>n'. node16_grow n = Inr n' \<and> node48_ok n' \<and> lth48 n' = lth16 n \<and>
    erase (node48_kid n') = erase (node16_kid n) \<and> prens_ok (node48_kid n')"
proof -
  obtain es where r: "arr_rep 16 es (lth16 n) (keys16 n) (children16 n)" and k: "node16_kid n = map_of es"
    and e: "entries_of (node16_kid n) = es"
    using assms unfolding node16_ok_def node16_kid_def by (elim arr_okE)
  from r have len: "length es \<le> 16" and cs: "children16 n = map (\<lambda>e. Some (snd e)) es @ replicate (16 - length es) None"
    and l: "lth16 n = int (length es)" by (simp_all add: arr_rep_def)
  let ?f = "fill48 0 es node48_new"
  have "keys48 ?f = node16_slots (keys16 n) 0 (children16 n) (replicate 256 0)"
    unfolding cs node48_new_def using arr_repD(5) [OF r] by (intro node16_slots_fill(1)) simp
  moreover have "children48 ?f = go_copy 0 (children16 n) (replicate 48 None)"
    unfolding cs node48_new_def using len arr_repD(5) [OF r] node16_slots_fill(2) [of es "keys16 n" 0 "replicate 48 None"]
    by (simp add: go_copy_def replicate_add [symmetric])
  moreover have "lth48 ?f = lth16 n" using fill48_new(3) [of "node16_kid n"] len l e by simp
  ultimately have "?f = Mk48 (lth16 n) (node16_slots (keys16 n) 0 (children16 n) (replicate 256 0))
      (go_copy 0 (children16 n) (replicate 48 None))" by (metis node48.collapse)
  then have g: "node16_grow n = node48_redoPren ?f" by (simp add: node16_grow_def)
  have "node48_ok ?f" "node48_kid ?f = node16_kid n" using fill48_new [of "node16_kid n"] len e by simp_all
  with node48_redo_law [of ?f] g \<open>lth48 ?f = lth16 n\<close> show ?thesis
    by (auto simp: node48_redoPren_def rbind_eq_Inr)
qed

lemma node256_shrink_law:
  assumes ok: "node256_ok n" and "lth256 n \<le> 48"
  shows "\<exists>n'. node256_shrink n = Inr n' \<and> node48_ok n' \<and> lth48 n' = lth256 n \<and>
    erase (node48_kid n') = erase (node256_kid n) \<and> prens_ok (node48_kid n')"
proof -
  let ?f = "fill48 0 (entries_of (node256_kid n)) node48_new"
  have l: "length (entries_of (node256_kid n)) \<le> 48" using node256_count [OF ok] assms(2) by simp
  have "node256_pack (children256 n) 0 0 (replicate 256 0) (replicate 48 None) = Inr (keys48 ?f, children48 ?f)"
    using node256_pack_fill [of 0 "children256 n" 0 "replicate 48 None" "replicate 256 0" 0] l ok
    by (simp add: idx_entries_256 [OF ok] Let_def node48_new_def node256_ok_def)
  moreover have "lth48 ?f = lth256 n" using fill48_new(3) [OF l] node256_count [OF ok] by simp
  ultimately have g: "node256_shrink n = node48_redoPren ?f"
    by (simp add: node256_shrink_def) (metis node48.collapse)
  from node48_redo_law [OF fill48_new(1) [OF l]] g \<open>lth48 ?f = lth256 n\<close> fill48_new(2) [OF l] show ?thesis
    by (auto simp: node48_redoPren_def rbind_eq_Inr)
qed

text \<open>What the two loops that take a \<open>node48\<close> apart compute.\<close>

lemma node48_spread_slots:
  assumes "\<forall>w \<in> set ks. w \<noteq> 0 \<longrightarrow> at_idx cs (uint w - 1) = Inr (slot cs (unat w - 1))"
    and "b + length ks = length out" and "drop b out = replicate (length ks) None"
  shows "node48_spread cs b ks out = Inr (take b out @ key_slots cs ks)"
  using assms
proof (induction cs b ks out rule: node48_spread.induct)
  case (1 cs b out)
  then show ?case by (simp add: key_slots_def)
next
  case (2 cs b i ks out)
  then have o': "out ! b = None" "drop (Suc b) out = replicate (length ks) None" "b < length out"
    by (auto simp: Cons_nth_drop_Suc [symmetric])
  show ?case
  proof (cases "i = 0")
    case True
    have "take (Suc b) out = take b out @ [None]" using o' by (simp add: take_Suc_conv_app_nth)
    with 2 True o' show ?thesis by (simp add: key_slots_def)
  next
    case False
    have "take (Suc b) (out[b := slot cs (unat i - 1)]) = take b out @ [slot cs (unat i - 1)]"
      using o'(3) by (simp add: take_Suc_conv_app_nth)
    with 2 False o' show ?thesis by (simp add: key_slots_def)
  qed
qed

lemma node48_pack_entries:
  assumes "\<forall>w \<in> set ks. w \<noteq> 0 \<longrightarrow> at_idx cs (uint w - 1) = Inr (slot cs (unat w - 1)) \<and> slot cs (unat w - 1) \<noteq> None"
    and "length pre + length (idx_entries i (key_slots cs ks)) \<le> N"
  shows "\<exists>es. node48_pack cs i ks (length pre) (map fst pre @ replicate (N - length pre) 0)
      (map (\<lambda>e. Some (snd e)) pre @ replicate (N - length pre) None)
    = Inr (map fst es @ replicate (N - length es) 0, map (\<lambda>e. Some (snd e)) es @ replicate (N - length es) None)
    \<and> es = pre @ idx_entries i (key_slots cs ks)"
  using assms
proof (induction ks arbitrary: i pre)
  case Nil
  then show ?case by (simp add: key_slots_def)
next
  case (Cons w ks)
  show ?case
  proof (cases "w = 0")
    case True
    with Cons show ?thesis by (simp add: key_slots_def)
  next
    case False
    then obtain c where c: "slot cs (unat w - 1) = Some c" "at_idx cs (uint w - 1) = Inr (Some c)"
      using Cons.prems(1) by fastforce
    have ks: "idx_entries i (key_slots cs (w # ks)) = (of_nat i, c) # idx_entries (Suc i) (key_slots cs ks)"
      using False c by (simp add: key_slots_def)
    obtain m where m: "N - length pre = Suc m"
      using Cons.prems(2) ks by (cases "N - length pre") auto
    let ?pre = "pre @ [(of_nat i, c)]"
    have "length ?pre + length (idx_entries (Suc i) (key_slots cs ks)) \<le> N" using Cons.prems(2) ks by simp
    with Cons.IH [of ?pre "Suc i"] Cons.prems(1) have ih: "\<exists>es. node48_pack cs (Suc i) ks (length ?pre)
        (map fst ?pre @ replicate (N - length ?pre) 0) (map (\<lambda>e. Some (snd e)) ?pre @ replicate (N - length ?pre) None)
      = Inr (map fst es @ replicate (N - length es) 0, map (\<lambda>e. Some (snd e)) es @ replicate (N - length es) None)
      \<and> es = ?pre @ idx_entries (Suc i) (key_slots cs ks)" by simp
    have m': "N - Suc (length pre) = m" using m by simp
    show ?thesis using ih ks False c m m' by (simp add: list_update_append)
  qed
qed

lemma node48_slots_ok:
  assumes ok: "node48_ok n" and "w \<in> set (keys48 n)" and "w \<noteq> 0"
  shows "at_idx (children48 n) (uint w - 1) = Inr (slot (children48 n) (unat w - 1))"
    and "slot (children48 n) (unat w - 1) \<noteq> None"
proof -
  have len: "length (keys48 n) = 256" "length (children48 n) = 48" using ok by (simp_all add: node48_ok_def)
  with assms(2) obtain i where "i < 256" "keys48 n ! i = w" by (metis in_set_conv_nth)
  with node48_slot [OF ok, of i] assms(3) len
  show "at_idx (children48 n) (uint w - 1) = Inr (slot (children48 n) (unat w - 1))"
    and "slot (children48 n) (unat w - 1) \<noteq> None" by (auto simp: slot_def)
qed

lemma node48_grow_law:
  assumes ok: "node48_ok n"
  shows "\<exists>n'. node48_grow n = Inr n' \<and> node256_ok n' \<and> lth256 n' = lth48 n \<and>
    erase (node256_kid n') = erase (node48_kid n) \<and> prens_ok (node256_kid n')"
proof -
  have len: "length (keys48 n) = 256" using ok by (simp add: node48_ok_def)
  let ?n = "Mk256 (lth48 n) (key_slots (children48 n) (keys48 n))"
  have sp: "node48_spread (children48 n) 0 (keys48 n) (replicate 256 None) = Inr (key_slots (children48 n) (keys48 n))"
    using node48_spread_slots [of "keys48 n" "children48 n" 0 "replicate 256 None"] node48_slots_ok(1) [OF ok] len by auto
  have kid: "node256_kid ?n = node48_kid n"
    using len by (auto simp: fun_eq_iff node256_kid_def node48_kid_def key_slots_def slot_def)
  have l: "length (key_slots (children48 n) (keys48 n)) = 256" using len by (simp add: key_slots_def)
  have "lth48 n = int (length (entries_of (node48_kid n)))"
    using n48.nchild_law [OF ok] by (simp add: node48_nchild_def)
  with node256_entries [of ?n] l kid have "node256_ok ?n" by (simp add: node256_ok_def)
  with node256_redo_law [of ?n] kid sp show ?thesis
    by (auto simp: node48_grow_def node256_redoPren_def)
qed

lemma node48_shrink_law:
  assumes ok: "node48_ok n" and "lth48 n \<le> 16"
  shows "\<exists>n'. node48_shrink n = Inr n' \<and> node16_ok n' \<and> lth16 n' = lth48 n \<and>
    erase (node16_kid n') = erase (node48_kid n) \<and> prens_ok (node16_kid n')"
proof -
  let ?es = "entries_of (node48_kid n)"
  have l: "lth48 n = int (length ?es)" using n48.nchild_law [OF ok] by (simp add: node48_nchild_def)
  let ?n = "Mk16 (lth48 n) (map fst ?es @ replicate (16 - length ?es) 0)
    (map (\<lambda>e. Some (snd e)) ?es @ replicate (16 - length ?es) None)"
  have "node48_pack (children48 n) 0 (keys48 n) 0 (replicate 16 0) (replicate 16 None) = Inr (keys16 ?n, children16 ?n)"
    using node48_pack_entries [of "keys48 n" "children48 n" "[]" 0 16] node48_slots_ok [OF ok] assms(2) l
    by (simp add: idx_entries_48 [OF ok])
  then have g: "node48_shrink n = node16_redoPren ?n" by (simp add: node48_shrink_def)
  have "arr_rep 16 ?es (lth48 n) (keys16 ?n) (children16 ?n)"
    using assms(2) l by (simp add: arr_rep_def sorted_entries)
  from arr_okI [OF this] have "node16_ok ?n" "node16_kid ?n = node48_kid n"
    by (simp_all add: node16_ok_def node16_kid_def map_of_entries)
  with node16_redo_law [of ?n] g show ?thesis by (auto simp: node16_redoPren_def rbind_eq_Inr)
qed

end
