(* ===== verification/Inodes.thy ===== *)
theory Inodes
  imports Resize
begin

text \<open>
  The interface \<open>Inode\<close> of \<open>node.go\<close>: a call on it goes to the method of the struct that is in
  it. The contract of the interface, interpreted here on the dispatching operations, is what
  \<open>Inner\<close> rests on; the laws of the four structs discharge it.
\<close>

section \<open>Dispatch\<close>

text \<open>In the order of the interface declaration.\<close>

definition inode_redoPren :: "bnode inode \<Rightarrow> bnode inode res" where
  "inode_redoPren nd = (case nd of
     N4 n \<Rightarrow> rbind (node4_redoPren n) (\<lambda>n'. Inr (N4 n'))
   | N16 n \<Rightarrow> rbind (node16_redoPren n) (\<lambda>n'. Inr (N16 n'))
   | N48 n \<Rightarrow> rbind (node48_redoPren n) (\<lambda>n'. Inr (N48 n'))
   | N256 n \<Rightarrow> rbind (node256_redoPren n) (\<lambda>n'. Inr (N256 n')))"

definition inode_first :: "'c inode \<Rightarrow> (byte \<times> 'c option) res" where
  "inode_first nd = (case nd of
     N4 n \<Rightarrow> node4_first n
   | N16 n \<Rightarrow> node16_first n
   | N48 n \<Rightarrow> node48_first n
   | N256 n \<Rightarrow> node256_first n)"

definition inode_last :: "'c inode \<Rightarrow> (byte \<times> 'c option) res" where
  "inode_last nd = (case nd of
     N4 n \<Rightarrow> node4_last n
   | N16 n \<Rightarrow> node16_last n
   | N48 n \<Rightarrow> node48_last n
   | N256 n \<Rightarrow> node256_last n)"

definition inode_gt :: "'c inode \<Rightarrow> byte option \<Rightarrow> (byte \<times> 'c option) res" where
  "inode_gt nd k = (case nd of
     N4 n \<Rightarrow> node4_gt n k
   | N16 n \<Rightarrow> node16_gt n k
   | N48 n \<Rightarrow> node48_gt n k
   | N256 n \<Rightarrow> node256_gt n k)"

definition inode_gte :: "'c inode \<Rightarrow> byte option \<Rightarrow> (byte \<times> 'c option) res" where
  "inode_gte nd k = (case nd of
     N4 n \<Rightarrow> node4_gte n k
   | N16 n \<Rightarrow> node16_gte n k
   | N48 n \<Rightarrow> node48_gte n k
   | N256 n \<Rightarrow> node256_gte n k)"

definition inode_lt :: "'c inode \<Rightarrow> byte option \<Rightarrow> (byte \<times> 'c option) res" where
  "inode_lt nd k = (case nd of
     N4 n \<Rightarrow> node4_lt n k
   | N16 n \<Rightarrow> node16_lt n k
   | N48 n \<Rightarrow> node48_lt n k
   | N256 n \<Rightarrow> node256_lt n k)"

definition inode_lte :: "'c inode \<Rightarrow> byte option \<Rightarrow> (byte \<times> 'c option) res" where
  "inode_lte nd k = (case nd of
     N4 n \<Rightarrow> node4_lte n k
   | N16 n \<Rightarrow> node16_lte n k
   | N48 n \<Rightarrow> node48_lte n k
   | N256 n \<Rightarrow> node256_lte n k)"

definition inode_nchild :: "'c inode \<Rightarrow> int" where
  "inode_nchild nd = (case nd of
     N4 n \<Rightarrow> node4_nchild n
   | N16 n \<Rightarrow> node16_nchild n
   | N48 n \<Rightarrow> node48_nchild n
   | N256 n \<Rightarrow> node256_nchild n)"

fun inode_Kind :: "'c inode \<Rightarrow> Kind" where
  "inode_Kind (N4 _) = Node4"
| "inode_Kind (N16 _) = Node16"
| "inode_Kind (N48 _) = Node48"
| "inode_Kind (N256 _) = Node256"

definition inode_next :: "'c inode \<Rightarrow> byte option \<Rightarrow> (byte \<times> 'c option) res" where
  "inode_next nd k = (case nd of
     N4 n \<Rightarrow> node4_next n k
   | N16 n \<Rightarrow> node16_next n k
   | N48 n \<Rightarrow> node48_next n k
   | N256 n \<Rightarrow> node256_next n k)"

definition inode_prev :: "'c inode \<Rightarrow> byte option \<Rightarrow> (byte \<times> 'c option) res" where
  "inode_prev nd k = (case nd of
     N4 n \<Rightarrow> node4_prev n k
   | N16 n \<Rightarrow> node16_prev n k
   | N48 n \<Rightarrow> node48_prev n k
   | N256 n \<Rightarrow> node256_prev n k)"

definition inode_child :: "'c inode \<Rightarrow> byte \<Rightarrow> (int \<times> 'c option) res" where
  "inode_child nd k = (case nd of
     N4 n \<Rightarrow> node4_child n k
   | N16 n \<Rightarrow> node16_child n k
   | N48 n \<Rightarrow> node48_child n k
   | N256 n \<Rightarrow> node256_child n k)"

definition inode_addChild :: "bnode inode \<Rightarrow> byte \<Rightarrow> bnode \<Rightarrow> bnode inode res" where
  "inode_addChild nd k ch = (case nd of
     N4 n \<Rightarrow> rbind (node4_addChild n k ch) (\<lambda>n'. Inr (N4 n'))
   | N16 n \<Rightarrow> rbind (node16_addChild n k ch) (\<lambda>n'. Inr (N16 n'))
   | N48 n \<Rightarrow> rbind (node48_addChild n k ch) (\<lambda>n'. Inr (N48 n'))
   | N256 n \<Rightarrow> rbind (node256_addChild n k ch) (\<lambda>n'. Inr (N256 n')))"

definition inode_replace :: "bnode inode \<Rightarrow> int \<Rightarrow> bnode option \<Rightarrow> bool \<Rightarrow> (bnode inode \<times> bnode option) res" where
  "inode_replace nd idx ch del = (case nd of
     N4 n \<Rightarrow> rbind (node4_replace n idx ch del) (\<lambda>(n', old). Inr (N4 n', old))
   | N16 n \<Rightarrow> rbind (node16_replace n idx ch del) (\<lambda>(n', old). Inr (N16 n', old))
   | N48 n \<Rightarrow> rbind (node48_replace n idx ch del) (\<lambda>(n', old). Inr (N48 n', old))
   | N256 n \<Rightarrow> rbind (node256_replace n idx ch del) (\<lambda>(n', old). Inr (N256 n', old)))"

definition inode_full :: "'c inode \<Rightarrow> bool" where
  "inode_full nd = (case nd of
     N4 n \<Rightarrow> node4_full n
   | N16 n \<Rightarrow> node16_full n
   | N48 n \<Rightarrow> node48_full n
   | N256 n \<Rightarrow> node256_full n)"

text \<open>\<open>grow\<close> of a \<open>node256\<close> returns nil, which is \<open>None\<close>.\<close>

definition inode_grow :: "bnode inode \<Rightarrow> bnode inode option res" where
  "inode_grow nd = (case nd of
     N4 n \<Rightarrow> rbind (node4_grow n) (\<lambda>n'. Inr (Some (N16 n')))
   | N16 n \<Rightarrow> rbind (node16_grow n) (\<lambda>n'. Inr (Some (N48 n')))
   | N48 n \<Rightarrow> rbind (node48_grow n) (\<lambda>n'. Inr (Some (N256 n')))
   | N256 n \<Rightarrow> Inr (node256_grow n))"

definition inode_min :: "'c inode \<Rightarrow> bool" where
  "inode_min nd = (case nd of
     N4 n \<Rightarrow> node4_min n
   | N16 n \<Rightarrow> node16_min n
   | N48 n \<Rightarrow> node48_min n
   | N256 n \<Rightarrow> node256_min n)"

definition inode_shrink :: "bnode inode \<Rightarrow> bnode inode res" where
  "inode_shrink nd = (case nd of
     N4 n \<Rightarrow> node4_shrink n
   | N16 n \<Rightarrow> rbind (node16_shrink n) (\<lambda>n'. Inr (N4 n'))
   | N48 n \<Rightarrow> rbind (node48_shrink n) (\<lambda>n'. Inr (N16 n'))
   | N256 n \<Rightarrow> rbind (node256_shrink n) (\<lambda>n'. Inr (N48 n')))"

section \<open>The contract\<close>

definition inode_ok :: "'c inode \<Rightarrow> bool" where
  "inode_ok nd = (case nd of N4 n \<Rightarrow> node4_ok n | N16 n \<Rightarrow> node16_ok n | N48 n \<Rightarrow> node48_ok n | N256 n \<Rightarrow> node256_ok n)"

definition inode_kid :: "'c inode \<Rightarrow> byte \<Rightarrow> 'c option" where
  "inode_kid nd = (case nd of N4 n \<Rightarrow> node4_kid n | N16 n \<Rightarrow> node16_kid n | N48 n \<Rightarrow> node48_kid n | N256 n \<Rightarrow> node256_kid n)"

lemmas inode_read_defs = inode_ok_def inode_kid_def inode_nchild_def inode_child_def inode_first_def
  inode_last_def inode_next_def inode_gt_def inode_gte_def inode_lt_def inode_lte_def

lemmas inode_write_defs = inode_ok_def inode_kid_def inode_child_def inode_full_def inode_addChild_def
  inode_replace_def inode_redoPren_def

interpretation nd: inode_reads inode_ok inode_kid inode_nchild inode_child inode_first inode_last
  inode_next inode_gt inode_gte inode_lt inode_lte
proof unfold_locales
  fix nd :: "'c inode" and k q
  assume ok: "inode_ok nd"
  show "inode_nchild nd = int (length (entries_of (inode_kid nd)))"
    using ok by (cases nd) (simp_all add: inode_read_defs n4.nchild_law n16.nchild_law n48.nchild_law n256.nchild_law)
  show "\<exists>i. inode_child nd k = Inr (i, inode_kid nd k)"
    using ok by (cases nd) (simp_all add: inode_read_defs n4.child_law n16.child_law n48.child_law n256.child_law)
  show "\<exists>b. inode_first nd = Inr (b, snd (first_kid (\<lambda>_. True) (inode_kid nd)))"
    using ok by (cases nd) (simp_all add: inode_read_defs n4.first_law n16.first_law n48.first_law n256.first_law)
  show "inode_next nd q = Inr (first_kid (from_byte q (<)) (inode_kid nd))"
    using ok by (cases nd) (simp_all add: inode_read_defs n4.next_law n16.next_law n48.next_law n256.next_law)
  show "inode_gt nd q = Inr (first_kid (from_byte q (<)) (inode_kid nd))"
    using ok by (cases nd) (simp_all add: inode_read_defs n4.gt_law n16.gt_law n48.gt_law n256.gt_law)
  show "inode_gte nd q = Inr (first_kid (from_byte q (\<le>)) (inode_kid nd))"
    using ok by (cases nd) (simp_all add: inode_read_defs n4.gte_law n16.gte_law n48.gte_law n256.gte_law)
next
  fix nd :: "'c inode" and q
  assume ok: "inode_ok nd" and pos: "0 < inode_nchild nd"
  show "\<exists>b. inode_last nd = Inr (b, snd (last_kid (\<lambda>_. True) (inode_kid nd)))"
    using ok pos by (cases nd) (simp_all add: inode_read_defs n4.last_law n16.last_law n48.last_law n256.last_law)
  show "inode_lt nd q = Inr (last_kid (from_byte q (>)) (inode_kid nd))"
    using ok pos by (cases nd) (simp_all add: inode_read_defs n4.lt_law n16.lt_law n48.lt_law n256.lt_law)
  show "inode_lte nd q = Inr (last_kid (from_byte q (\<ge>)) (inode_kid nd))"
    using ok pos by (cases nd) (simp_all add: inode_read_defs n4.lte_law n16.lte_law n48.lte_law n256.lte_law)
qed

text \<open>\<open>prev\<close> keeps its contract on every type but \<open>node256\<close>.\<close>

lemma inode_prev_law:
  assumes "inode_ok nd" and "0 < inode_nchild nd" and "inode_Kind nd \<noteq> Node256"
  shows "inode_prev nd q = Inr (last_kid (from_byte q (>)) (inode_kid nd))"
  using assms by (cases nd) (simp_all add: inode_read_defs inode_prev_def n4.prev_law n16.prev_law n48.prev_law)

interpretation ndw: inode_writes inode_ok inode_kid inode_child inode_full inode_addChild
  inode_replace inode_redoPren
proof unfold_locales
  fix nd :: "bnode inode" and k c
  assume "inode_ok nd" and "inode_kid nd k = None" and "\<not> inode_full nd"
  then show "\<exists>n'. inode_addChild nd k c = Inr n' \<and> inode_ok n' \<and>
      erase (inode_kid n') = erase ((inode_kid nd)(k \<mapsto> c)) \<and> prens_ok (inode_kid n')"
    using n4w.add_law [of _ k c] n16w.add_law [of _ k c] n48w.add_law [of _ k c] n256w.add_law [of _ k c]
    by (cases nd) (fastforce simp: inode_write_defs simp del: erase_upd)+
next
  fix nd :: "bnode inode" and k i c c' del
  assume "inode_ok nd" and "inode_child nd k = Inr (i, Some c)"
  then show "\<exists>n'. inode_replace nd i (Some c') del = Inr (n', Some c) \<and> inode_ok n' \<and>
      erase (inode_kid n') = erase ((inode_kid nd)(k \<mapsto> c')) \<and>
      (if del \<and> pren c' \<noteq> pren c then prens_ok (inode_kid n') else inode_kid n' = (inode_kid nd)(k \<mapsto> c'))"
    using n4w.set_law [of _ k i c c' del] n16w.set_law [of _ k i c c' del] n48w.set_law [of _ k i c c' del]
      n256w.set_law [of _ k i c c' del]
    by (cases nd) (fastforce simp: inode_write_defs simp del: erase_upd)+
next
  fix nd :: "bnode inode" and k i c
  assume "inode_ok nd" and "inode_child nd k = Inr (i, Some c)"
  then show "\<exists>n'. inode_replace nd i None True = Inr (n', Some c) \<and> inode_ok n' \<and>
      erase (inode_kid n') = erase ((inode_kid nd)(k := None)) \<and> (prens_ok (inode_kid nd) \<longrightarrow> prens_ok (inode_kid n'))"
    using n4w.del_law [of _ k i c] n16w.del_law [of _ k i c] n48w.del_law [of _ k i c] n256w.del_law [of _ k i c]
    by (cases nd) (fastforce simp: inode_write_defs simp del: erase_del)+
next
  fix nd :: "bnode inode"
  assume "inode_ok nd"
  then show "\<exists>n'. inode_redoPren nd = Inr n' \<and> inode_ok n' \<and> erase (inode_kid n') = erase (inode_kid nd) \<and>
      prens_ok (inode_kid n')"
    using n4w.redo_law n16w.redo_law n48w.redo_law n256w.redo_law
    by (cases nd) (fastforce simp: inode_write_defs)+
qed

section \<open>Occupancy\<close>

text \<open>
  A node of each type is used for a range of sizes: it grows when full, and shrinks when a
  deletion leaves it with the size of the next smaller type.
\<close>

definition fit :: "'c inode \<Rightarrow> bool" where
  "fit nd \<longleftrightarrow> (case inode_Kind nd of Node4 \<Rightarrow> 2 | Node16 \<Rightarrow> 5 | Node48 \<Rightarrow> 17 | _ \<Rightarrow> 49) \<le> inode_nchild nd"

lemma fit_pos: "fit nd \<Longrightarrow> 2 \<le> inode_nchild nd"
  by (cases nd) (auto simp: fit_def)

lemmas resize_defs = inode_ok_def inode_kid_def inode_nchild_def node4_nchild_def node16_nchild_def
  node48_nchild_def node256_nchild_def inode_full_def node4_full_def node16_full_def node48_full_def
  node256_full_def inode_min_def node4_min_def node16_min_def node48_min_def node256_min_def

lemma full256: "inode_ok nd \<Longrightarrow> inode_Kind nd = Node256 \<Longrightarrow> inode_full nd \<Longrightarrow> inode_kid nd k \<noteq> None"
proof
  assume ok: "inode_ok nd" and kind: "inode_Kind nd = Node256" and full: "inode_full nd" and none: "inode_kid nd k = None"
  from kind full have "inode_nchild nd = 256" by (cases nd) (auto simp: resize_defs)
  then have "length (entries_of (inode_kid nd)) = 256" using nd.nchild_law [OF ok] by simp
  moreover have "length (filter (\<lambda>b. inode_kid nd b \<noteq> None) all_bytes) < length all_bytes"
    by (rule length_filter_less [of k]) (simp_all add: none)
  moreover have "length all_bytes = 256" by (simp add: all_bytes_def range256_def del: upt_rec_numeral)
  ultimately show False by (simp add: entries_of_def)
qed

lemma nchild_erase:
  assumes "inode_ok nd" and "inode_ok nd'" and "erase (inode_kid nd) = erase (inode_kid nd')"
  shows "inode_nchild nd = inode_nchild nd'"
proof -
  have "filter (\<lambda>i. inode_kid nd (of_nat i) \<noteq> None) range256 = filter (\<lambda>i. inode_kid nd' (of_nat i) \<noteq> None) range256"
    using erase_eq_None [OF assms(3)] by (intro filter_cong) auto
  then show ?thesis using nd.nchild_law [OF assms(1)] nd.nchild_law [OF assms(2)] by (simp add: length_entries)
qed

lemma length_entries_upd: "f k = None \<Longrightarrow> length (entries_of (f(k \<mapsto> c))) = Suc (length (entries_of f))"
  by (subst (2) entries_split [of _ k]) (simp add: entries_upd)

lemma length_entries_del: "f k = Some c \<Longrightarrow> Suc (length (entries_of (f(k := None)))) = length (entries_of f)"
  by (subst (2) entries_split [of _ k]) (simp add: entries_del)

lemma length_entries_erase: "length (entries_of (erase f)) = length (entries_of f)"
  by (simp add: length_entries)

text \<open>The updates keep the type of the node.\<close>

lemma addChild_Kind: "inode_addChild nd k c = Inr nd' \<Longrightarrow> inode_Kind nd' = inode_Kind nd"
  by (cases nd) (auto simp: inode_addChild_def rbind_eq_Inr)

lemma replace_Kind: "inode_replace nd i ch del = Inr (nd', old) \<Longrightarrow> inode_Kind nd' = inode_Kind nd"
  by (cases nd) (auto simp: inode_replace_def rbind_eq_Inr)

lemma redoPren_Kind: "inode_redoPren nd = Inr nd' \<Longrightarrow> inode_Kind nd' = inode_Kind nd"
  by (cases nd) (auto simp: inode_redoPren_def rbind_eq_Inr)

lemma inode_grow_law:
  assumes "inode_ok nd" and "inode_full nd" and "inode_Kind nd \<noteq> Node256"
  shows "\<exists>n'. inode_grow nd = Inr (Some n') \<and> inode_ok n' \<and> \<not> inode_full n' \<and>
    (\<forall>m :: bnode inode. inode_Kind m = inode_Kind n' \<and> inode_nchild m = inode_nchild n' + 1 \<longrightarrow> fit m) \<and>
    erase (inode_kid n') = erase (inode_kid nd)"
proof (cases nd)
  case (N4 n)
  with assms node4_grow_law [of n] show ?thesis by (auto simp: inode_grow_def resize_defs fit_def)
next
  case (N16 n)
  with assms node16_grow_law [of n] show ?thesis by (auto simp: inode_grow_def resize_defs fit_def)
next
  case (N48 n)
  with assms node48_grow_law [of n] show ?thesis by (auto simp: inode_grow_def resize_defs fit_def)
next
  case (N256 n)
  with assms show ?thesis by simp
qed

text \<open>Adding a child where there is none, growing first when the node is full.\<close>

lemma inode_add:
  assumes ok: "inode_ok nd" and fit: "fit nd" and new: "inode_kid nd k = None"
  shows "\<exists>nd1 n'. (if inode_full nd then rbind (inode_grow nd) deref else Inr nd) = Inr nd1 \<and>
    inode_addChild nd1 k c = Inr n' \<and> inode_ok n' \<and> fit n' \<and>
    erase (inode_kid n') = (erase (inode_kid nd))(k \<mapsto> set_pren 0 c) \<and> prens_ok (inode_kid n')"
proof -
  have "\<exists>nd1. (if inode_full nd then rbind (inode_grow nd) deref else Inr nd) = Inr nd1 \<and> inode_ok nd1 \<and>
      \<not> inode_full nd1 \<and> erase (inode_kid nd1) = erase (inode_kid nd) \<and>
      (\<forall>m :: bnode inode. inode_Kind m = inode_Kind nd1 \<and> inode_nchild m = inode_nchild nd1 + 1 \<longrightarrow> fit m)"
  proof (cases "inode_full nd")
    case True
    with full256 [OF ok] new have "inode_Kind nd \<noteq> Node256" by blast
    from inode_grow_law [OF ok True this] True show ?thesis by auto
  next
    case False
    with ok fit show ?thesis by (auto simp: fit_def)
  qed
  then obtain nd1 where g: "(if inode_full nd then rbind (inode_grow nd) deref else Inr nd) = Inr nd1"
    and nd1: "inode_ok nd1" "\<not> inode_full nd1" "erase (inode_kid nd1) = erase (inode_kid nd)"
    and f: "\<And>m :: bnode inode. inode_Kind m = inode_Kind nd1 \<Longrightarrow> inode_nchild m = inode_nchild nd1 + 1 \<Longrightarrow> fit m"
    by blast
  from erase_eq_None [OF nd1(3)] new have new1: "inode_kid nd1 k = None" by metis
  from ndw.add_law [OF nd1(1) new1 nd1(2), of c] obtain n' where a: "inode_addChild nd1 k c = Inr n'"
    and n': "inode_ok n'" "erase (inode_kid n') = (erase (inode_kid nd1))(k \<mapsto> set_pren 0 c)" "prens_ok (inode_kid n')"
    by auto
  have "length (entries_of (inode_kid n')) = length (entries_of ((erase (inode_kid nd1))(k \<mapsto> set_pren 0 c)))"
    by (simp only: n'(2) [symmetric] length_entries_erase)
  moreover have "erase (inode_kid nd1) k = None" using new1 by simp
  ultimately have "length (entries_of (inode_kid n')) = Suc (length (entries_of (inode_kid nd1)))"
    by (simp only: length_entries_upd length_entries_erase)
  then have "fit n'"
    using addChild_Kind [OF a] nd.nchild_law [OF n'(1)] nd.nchild_law [OF nd1(1)] by (intro f) simp_all
  have "erase (inode_kid n') = (erase (inode_kid nd))(k \<mapsto> set_pren 0 c)"
    using n'(2) by (simp only: nd1(3))
  with g a n'(1,3) \<open>fit n'\<close> show ?thesis by blast
qed

lemma inode_shrink_law:
  assumes "inode_ok nd" and "inode_Kind nd \<noteq> Node4"
    and "inode_nchild nd = (case inode_Kind nd of Node16 \<Rightarrow> 4 | Node48 \<Rightarrow> 16 | _ \<Rightarrow> 48)"
  shows "\<exists>n'. inode_shrink nd = Inr n' \<and> inode_ok n' \<and> fit n' \<and>
    erase (inode_kid n') = erase (inode_kid nd) \<and> prens_ok (inode_kid n')"
proof (cases nd)
  case (N4 n)
  with assms show ?thesis by simp
next
  case (N16 n)
  with assms node16_shrink_law [of n] show ?thesis by (auto simp: inode_shrink_def resize_defs fit_def)
next
  case (N48 n)
  with assms node48_shrink_law [of n] show ?thesis by (auto simp: inode_shrink_def resize_defs fit_def)
next
  case (N256 n)
  with assms node256_shrink_law [of n] show ?thesis by (auto simp: inode_shrink_def resize_defs fit_def)
qed

lemma inode_del_count:
  assumes ok: "inode_ok nd" and c: "inode_kid nd k = Some c" and n1: "inode_ok n1"
    and e: "erase (inode_kid n1) = (erase (inode_kid nd))(k := None)"
  shows "inode_nchild n1 = inode_nchild nd - 1"
proof -
  have "length (entries_of (inode_kid n1)) = length (entries_of ((erase (inode_kid nd))(k := None)))"
    by (simp only: e [symmetric] length_entries_erase)
  moreover have "erase (inode_kid nd) k = Some (set_pren 0 c)" using c by (simp add: erase_def)
  ultimately have "Suc (length (entries_of (inode_kid n1))) = length (entries_of (inode_kid nd))"
    using length_entries_del [of "erase (inode_kid nd)" k] by (simp only: length_entries_erase)
  then show ?thesis using nd.nchild_law [OF ok] nd.nchild_law [OF n1] by simp
qed

text \<open>Removing a child, shrinking the node when it was at its minimum.\<close>

lemma inode_del:
  assumes ok: "inode_ok nd" and fit: "fit nd" and ch: "inode_child nd k = Inr (i, Some c)"
    and n4: "\<not> (inode_Kind nd = Node4 \<and> inode_min nd)"
  shows "\<exists>n1 n'. inode_replace nd i None True = Inr (n1, Some c) \<and>
    (if inode_min nd \<and> inode_Kind nd \<noteq> Node4 then inode_shrink n1 else Inr n1) = Inr n' \<and> inode_ok n' \<and> fit n' \<and>
    erase (inode_kid n') = (erase (inode_kid nd))(k := None) \<and> (prens_ok (inode_kid nd) \<longrightarrow> prens_ok (inode_kid n'))"
proof -
  from ndw.del_law [OF ok ch] obtain n1 where r: "inode_replace nd i None True = Inr (n1, Some c)" and n1: "inode_ok n1"
      "erase (inode_kid n1) = (erase (inode_kid nd))(k := None)" "prens_ok (inode_kid nd) \<longrightarrow> prens_ok (inode_kid n1)"
    by auto
  have kid: "inode_kid nd k = Some c" using nd.child_law [OF ok, of k] ch by auto
  note cnt = inode_del_count [OF ok kid n1(1,2)] and kind = replace_Kind [OF r]
  show ?thesis
  proof (cases "inode_min nd \<and> inode_Kind nd \<noteq> Node4")
    case True
    have "inode_nchild n1 = (case inode_Kind n1 of Node16 \<Rightarrow> 4 | Node48 \<Rightarrow> 16 | _ \<Rightarrow> 48)"
      using True cnt fit kind by (cases nd) (auto simp: fit_def resize_defs)
    from inode_shrink_law [OF n1(1) _ this] True kind r n1(2) show ?thesis by auto
  next
    case False
    have "fit n1" using False n4 cnt kind by (cases nd) (auto simp: fit_def resize_defs)
    with False r n1 show ?thesis by auto
  qed
qed

text \<open>The last removal from a minimal \<open>node4\<close>: one child is left.\<close>

lemma inode_del_last:
  assumes ok: "inode_ok nd" and fit: "fit nd" and ch: "inode_child nd k = Inr (i, Some c)"
    and n4: "inode_Kind nd = Node4" "inode_min nd"
  shows "\<exists>n1 b d. inode_replace nd i None True = Inr (n1, Some c) \<and> inode_next n1 None = Inr (b, Some d) \<and>
    b \<noteq> k \<and> erase (inode_kid nd) = [k \<mapsto> set_pren 0 c, b \<mapsto> set_pren 0 d]"
proof -
  from ndw.del_law [OF ok ch] obtain n1 where r: "inode_replace nd i None True = Inr (n1, Some c)" and n1: "inode_ok n1"
      "erase (inode_kid n1) = (erase (inode_kid nd))(k := None)"
    by auto
  have kid: "inode_kid nd k = Some c" using nd.child_law [OF ok, of k] ch by auto
  have "inode_nchild n1 = 1"
    using inode_del_count [OF ok kid n1] fit n4 by (cases nd) (auto simp: fit_def resize_defs)
  then obtain e where e: "entries_of (inode_kid n1) = [e]"
    using nd.nchild_law [OF n1(1)] by (auto simp: length_Suc_conv)
  obtain b d where bd: "e = (b, d)" by force
  with e have kn: "inode_kid n1 = [b \<mapsto> d]" using map_of_entries [of "inode_kid n1"] by simp
  have f: "first_kid (\<lambda>_. True) (inode_kid n1) = (b, Some d)"
  proof -
    have "b \<le> x" if "inode_kid n1 x \<noteq> None" for x using that kn by (cases "x = b") auto
    with first_kidI [of "inode_kid n1" b "\<lambda>_. True"] kn show ?thesis by simp
  qed
  have bk: "b \<noteq> k" using n1(2) kn by (auto simp: erase_def fun_eq_iff split: if_splits)
  have "erase (inode_kid nd) x = [k \<mapsto> set_pren 0 c, b \<mapsto> set_pren 0 d] x" for x
  proof (cases "x = k")
    case True
    with kid bk show ?thesis by (simp add: erase_def)
  next
    case False
    then have "erase (inode_kid nd) x = erase (inode_kid n1) x" using n1(2) by simp
    with False kn show ?thesis by (simp add: erase_def)
  qed
  then have "erase (inode_kid nd) = [k \<mapsto> set_pren 0 c, b \<mapsto> set_pren 0 d]" by blast
  with r f bk nd.next_law [OF n1(1), of None] show ?thesis by auto
qed

end
