(* ===== verification/Shape.thy ===== *)
theory Shape
  imports Inodes
begin

text \<open>
  The shape of the tree below a \<open>bnode\<close>: the leaves in order, the path that leads to a node,
  and the invariant \<open>wft\<close> that every operation keeps.

  A key is stored under the bytes of the key followed by a zero byte (\<open>Key.At\<close> reads zero past
  the end), so the path to a leaf is a prefix of its key with one zero appended.
\<close>

section \<open>Termination: the children are smaller\<close>

definition inode_slots :: "'c inode \<Rightarrow> 'c option list" where
  "inode_slots nd = (case nd of N4 n \<Rightarrow> children4 n | N16 n \<Rightarrow> children16 n | N48 n \<Rightarrow> children48 n | N256 n \<Rightarrow> children256 n)"

lemma size_slot: "Some c \<in> set (inode_slots nd) \<Longrightarrow> f c < size_inode f nd"
  by (cases nd) (auto simp: inode_slots_def size_child4 size_child16 size_child48 size_child256
    intro: less_SucI order.strict_trans2)

lemma size_kid_slot: "Some c \<in> set (inode_slots (Node n)) \<Longrightarrow> size c < size_inner size n"
  by (rule size_inner_of_inode) (rule size_slot)

lemma child_slot: "inode_child nd k = Inr (i, Some c) \<Longrightarrow> Some c \<in> set (inode_slots nd)"
  by (cases nd) (auto simp: inode_child_def inode_slots_def node4_child_def node16_child_def node48_child_def
    node256_child_def rbind_eq_Inr Let_def dest!: slot_mem at_idx_mem split: option.splits if_splits)

lemma kid_slot: "inode_kid nd k = Some c \<Longrightarrow> Some c \<in> set (inode_slots nd)"
  by (cases nd) (auto simp: inode_kid_def inode_slots_def node4_kid_def node16_kid_def node48_kid_def
    node256_kid_def arr_kid_def dest!: slot_mem split: option.splits if_splits)

lemma first_slot: "inode_first nd = Inr (b, Some c) \<Longrightarrow> Some c \<in> set (inode_slots nd)"
  by (cases nd) (auto simp: inode_first_def inode_slots_def node4_first_def node16_first_def node48_first_def
    node256_first_def rbind_eq_Inr Let_def dest!: slot_mem at_idx_mem split: option.splits if_splits)

lemma last_slot: "inode_last nd = Inr (b, Some c) \<Longrightarrow> Some c \<in> set (inode_slots nd)"
  by (cases nd) (auto simp: inode_last_def inode_slots_def node4_last_def node16_last_def node48_last_def
    node256_last_def rbind_eq_Inr Let_def dest!: slot_mem at_idx_mem split: option.splits if_splits)

lemma next_slot: "inode_next nd k = Inr (b, Some c) \<Longrightarrow> Some c \<in> set (inode_slots nd)"
  by (cases nd) (auto simp: inode_next_def inode_slots_def node4_next_def node16_next_def node48_next_def node48_hit_def
    node256_next_def rbind_eq_Inr Let_def dest!: slot_mem at_idx_mem split: option.splits if_splits)

lemma prev_slot: "inode_prev nd k = Inr (b, Some c) \<Longrightarrow> Some c \<in> set (inode_slots nd)"
  by (cases nd) (auto simp: inode_prev_def inode_slots_def node4_prev_def node16_prev_def node48_prev_def node48_hit_def
    node256_prev_def rbind_eq_Inr Let_def dest!: slot_mem at_idx_mem split: option.splits if_splits)

lemma gt_slot: "inode_gt nd k = Inr (b, Some c) \<Longrightarrow> Some c \<in> set (inode_slots nd)"
  by (cases nd) (auto simp: inode_gt_def inode_slots_def node4_gt_def node16_gt_def node48_gt_def node48_hit_def
    node48_gte_def node256_gte_def
    node256_gt_def rbind_eq_Inr Let_def dest!: slot_mem at_idx_mem split: option.splits if_splits)

lemma gte_slot: "inode_gte nd k = Inr (b, Some c) \<Longrightarrow> Some c \<in> set (inode_slots nd)"
  by (cases nd) (auto simp: inode_gte_def inode_slots_def node4_gte_def node16_gte_def node48_gte_def node48_hit_def
    node256_gte_def rbind_eq_Inr Let_def dest!: slot_mem at_idx_mem split: option.splits if_splits)

lemma lt_slot: "inode_lt nd k = Inr (b, Some c) \<Longrightarrow> Some c \<in> set (inode_slots nd)"
  by (cases nd) (auto simp: inode_lt_def inode_slots_def node4_lt_def node16_lt_def node48_lt_def node48_hit_def
    node256_lt_def rbind_eq_Inr Let_def dest!: slot_mem at_idx_mem split: option.splits if_splits)

lemma lte_slot: "inode_lte nd k = Inr (b, Some c) \<Longrightarrow> Some c \<in> set (inode_slots nd)"
  by (cases nd) (auto simp: inode_lte_def inode_slots_def node4_lte_def node16_lte_def node48_lte_def node48_hit_def
    node256_lte_def rbind_eq_Inr Let_def dest!: slot_mem at_idx_mem split: option.splits if_splits)

section \<open>The leaves in order\<close>

function leaves :: "bnode \<Rightarrow> leaf list" where
  "leaves b = (if isLeaf b then (case bleaf b of None \<Rightarrow> [] | Some l \<Rightarrow> [l])
     else (case binner b of None \<Rightarrow> []
       | Some n \<Rightarrow> concat (map (\<lambda>(k, c). leaves c) (entries_of (inode_kid (Node n))))))"
  by pat_completeness auto
termination
  by (relation "measure size") (auto dest!: kid_slot size_kid_slot size_binner)

declare leaves.simps [simp del]

lemma leaves_leaf: "isLeaf b \<Longrightarrow> bleaf b = Some l \<Longrightarrow> leaves b = [l]"
  by (subst leaves.simps) simp

lemma leaves_inner:
  "\<not> isLeaf b \<Longrightarrow> binner b = Some n \<Longrightarrow>
   leaves b = concat (map (\<lambda>(k, c). leaves c) (entries_of (inode_kid (Node n))))"
  by (subst leaves.simps) simp

lemma leaves_cong:
  "isLeaf a = isLeaf b \<Longrightarrow> bleaf a = bleaf b \<Longrightarrow> binner a = binner b \<Longrightarrow> leaves a = leaves b"
  by (subst (1 2) leaves.simps) simp

lemma leaves_set_pren [simp]: "leaves (set_pren p b) = leaves b"
  by (rule leaves_cong) simp_all

lemma leaves_bnodeLeaf [simp]: "leaves (bnodeLeaf l) = [l]"
  by (rule leaves_leaf) simp_all

definition kids_leaves :: "(byte \<Rightarrow> bnode option) \<Rightarrow> leaf list" where
  "kids_leaves f = concat (map (\<lambda>(k, c). leaves c) (entries_of f))"

lemma set_kids_leaves: "set (kids_leaves f) = (\<Union>(k, c) \<in> {(k, c). f k = Some c}. set (leaves c))"
  by (auto simp: kids_leaves_def set_entries)

lemma mem_kids_leaves: "l \<in> set (kids_leaves f) \<longleftrightarrow> (\<exists>k c. f k = Some c \<and> l \<in> set (leaves c))"
  by (auto simp: set_kids_leaves)

lemma entries_erase: "entries_of (erase f) = map (\<lambda>(k, c). (k, set_pren 0 c)) (entries_of f)"
  by (auto simp: entries_of_def erase_def intro!: map_cong filter_cong)

lemma kids_leaves_erase: "kids_leaves (erase f) = kids_leaves f"
  by (simp add: kids_leaves_def entries_erase comp_def split_def)

lemma kids_leaves_cong: "erase f = erase g \<Longrightarrow> kids_leaves f = kids_leaves g"
  by (metis kids_leaves_erase)

lemma kids_leaves_upd:
  "kids_leaves (f(k \<mapsto> c)) = concat (map (\<lambda>(k, c). leaves c) (kids_below k f)) @ leaves c
    @ concat (map (\<lambda>(k, c). leaves c) (kids_above k f))"
  by (simp add: kids_leaves_def entries_upd)

section \<open>Paths\<close>

text \<open>\<open>Key.At\<close>.\<close>

definition key_At :: "key \<Rightarrow> int \<Rightarrow> byte" where
  "key_At key pos = (if pos < 0 \<or> int (length key) \<le> pos then 0 else key ! nat pos)"

definition on_path :: "byte list \<Rightarrow> key \<Rightarrow> bool" where
  "on_path p K \<longleftrightarrow> prefix p (K @ [0])"

lemma on_path_Nil [simp]: "on_path [] K"
  by (simp add: on_path_def)

lemma on_path_prefix: "prefix q p \<Longrightarrow> on_path p K \<Longrightarrow> on_path q K"
  by (auto simp: on_path_def intro: prefix_order.trans)

lemma on_path_snoc: "on_path (q @ [k]) K \<longleftrightarrow> prefix q K \<and> key_At K (int (length q)) = k"
proof -
  have "prefix (q @ [k]) K \<longleftrightarrow> prefix q K \<and> length q < length K \<and> K ! length q = k"
  proof
    assume "prefix (q @ [k]) K"
    then show "prefix q K \<and> length q < length K \<and> K ! length q = k" by (auto simp: prefix_def nth_append)
  next
    assume *: "prefix q K \<and> length q < length K \<and> K ! length q = k"
    then obtain x where "K = q @ x" by (auto simp: prefix_def)
    with * show "prefix (q @ [k]) K" by (cases x) (auto simp: nth_append)
  qed
  moreover have "prefix q K \<Longrightarrow> length q < length K \<or> q = K"
    by (metis prefix_length_le le_neq_implies_less not_equal_is_parallel parallel_def prefix_order.order_iff_strict
      prefix_length_less)
  ultimately show ?thesis by (auto simp: on_path_def key_At_def)
qed

lemma on_path_lt:
  assumes "on_path (q @ [j]) K" and "on_path (q @ [k]) L" and "j < k"
  shows "K < L"
proof -
  from assms obtain x y where K: "K = q @ x" and L: "L = q @ y" by (auto simp: on_path_snoc prefix_def)
  from assms(3) have "k \<noteq> 0" by auto
  with assms(2) L obtain ys where y: "y = k # ys"
    by (cases y) (auto simp: on_path_snoc key_At_def nth_append)
  from assms(1) K have "x = [] \<or> (\<exists>xs. x = j # xs)"
    by (cases x) (auto simp: on_path_snoc key_At_def nth_append)
  then have "x < y" using y assms(3) by auto
  then show ?thesis using K L by (induction q arbitrary: K L) auto
qed

section \<open>The invariant\<close>

inductive wft :: "byte list \<Rightarrow> bnode \<Rightarrow> bool" where
  wft_leaf: "isLeaf b \<Longrightarrow> bleaf b = Some l \<Longrightarrow> on_path p (Key l) \<Longrightarrow> wft p b"
| wft_inner: "\<not> isLeaf b \<Longrightarrow> binner b = Some n \<Longrightarrow> inode_ok (Node n) \<Longrightarrow> fit (Node n) \<Longrightarrow>
    (\<And>k c. inode_kid (Node n) k = Some c \<Longrightarrow> wft (p @ compressed n @ [k]) c) \<Longrightarrow> wft p b"

inductive_cases wft_E: "wft p b"

lemma wft_leafD: "wft p b \<Longrightarrow> isLeaf b \<Longrightarrow> \<exists>l. bleaf b = Some l \<and> on_path p (Key l)"
  by (auto elim: wft_E)

lemma wft_innerE:
  assumes "wft p b" and "\<not> isLeaf b"
  obtains n where "binner b = Some n" and "inode_ok (Node n)" and "fit (Node n)"
    and "\<And>k c. inode_kid (Node n) k = Some c \<Longrightarrow> wft (p @ compressed n @ [k]) c"
  using assms by (auto elim: wft_E)

lemma wft_cong: "wft p a \<Longrightarrow> isLeaf b = isLeaf a \<Longrightarrow> bleaf b = bleaf a \<Longrightarrow> binner b = binner a \<Longrightarrow> wft p b"
  by (erule wft_E) (auto intro: wft.intros)

lemma wft_set_pren [simp]: "wft p (set_pren x b) \<longleftrightarrow> wft p b"
  by (auto elim: wft_cong)

lemma wft_bnodeLeaf [simp]: "wft p (bnodeLeaf l) \<longleftrightarrow> on_path p (Key l)"
  by (auto intro: wft_leaf elim: wft_E)

text \<open>The children as a map, up to the cached sums.\<close>

definition kids_wft :: "byte list \<Rightarrow> (byte \<Rightarrow> bnode option) \<Rightarrow> bool" where
  "kids_wft q f \<longleftrightarrow> (\<forall>k c. f k = Some c \<longrightarrow> wft (q @ [k]) c)"

lemma kids_wft_erase: "kids_wft q (erase f) \<longleftrightarrow> kids_wft q f"
  by (force simp: kids_wft_def erase_def)

lemma kids_wft_cong: "erase f = erase g \<Longrightarrow> kids_wft q f = kids_wft q g"
  by (metis kids_wft_erase)

lemma kids_wft_upd: "kids_wft q f \<Longrightarrow> wft (q @ [k]) c \<Longrightarrow> kids_wft q (f(k \<mapsto> c))"
  by (auto simp: kids_wft_def)

lemma kids_wft_del: "kids_wft q f \<Longrightarrow> kids_wft q (f(k := None))"
  by (auto simp: kids_wft_def)

lemma wft_innerI:
  "\<not> isLeaf b \<Longrightarrow> binner b = Some n \<Longrightarrow> inode_ok (Node n) \<Longrightarrow> fit (Node n) \<Longrightarrow>
   kids_wft (p @ compressed n) (inode_kid (Node n)) \<Longrightarrow> wft p b"
  by (rule wft_inner) (auto simp: kids_wft_def)

lemma wft_inner_iff:
  assumes "\<not> isLeaf b" and "binner b = Some n"
  shows "wft p b \<longleftrightarrow> inode_ok (Node n) \<and> fit (Node n) \<and> kids_wft (p @ compressed n) (inode_kid (Node n))"
proof
  assume "wft p b"
  from wft_innerE [OF this assms(1)] obtain n' where "binner b = Some n'" "inode_ok (Node n')" "fit (Node n')"
    "\<And>k c. inode_kid (Node n') k = Some c \<Longrightarrow> wft (p @ compressed n' @ [k]) c" by blast
  with assms show "inode_ok (Node n) \<and> fit (Node n) \<and> kids_wft (p @ compressed n) (inode_kid (Node n))"
    by (simp add: kids_wft_def)
next
  assume "inode_ok (Node n) \<and> fit (Node n) \<and> kids_wft (p @ compressed n) (inode_kid (Node n))"
  with wft_innerI [OF assms] show "wft p b" by blast
qed

subsection \<open>What it gives\<close>

lemma leaves_inner': "\<not> isLeaf b \<Longrightarrow> binner b = Some n \<Longrightarrow> leaves b = kids_leaves (inode_kid (Node n))"
  by (simp add: leaves_inner kids_leaves_def)

lemma wft_leaves_path: "wft p b \<Longrightarrow> l \<in> set (leaves b) \<Longrightarrow> on_path p (Key l)"
proof (induction arbitrary: l rule: wft.induct)
  case (wft_leaf b l' p)
  then show ?case by (simp add: leaves_leaf)
next
  case (wft_inner b n p)
  from wft_inner.prems wft_inner.hyps obtain k c where "inode_kid (Node n) k = Some c" "l \<in> set (leaves c)"
    by (auto simp: leaves_inner' mem_kids_leaves)
  with wft_inner.IH have "on_path (p @ compressed n @ [k]) (Key l)" by blast
  then show ?case by (rule on_path_prefix [rotated]) simp
qed

lemma fit_two:
  assumes "inode_ok nd" and "fit nd"
  obtains j k where "j < k" and "inode_kid nd j \<noteq> None" and "inode_kid nd k \<noteq> None"
proof -
  have "2 \<le> length (entries_of (inode_kid nd))"
    using fit_pos [OF assms(2)] nd.nchild_law [OF assms(1)] by simp
  then obtain x y es where e: "entries_of (inode_kid nd) = x # y # es"
    by (metis Suc_le_length_iff numeral_2_eq_2)
  then have "fst x < fst y" using sorted_entries [of "inode_kid nd"] by simp
  moreover have "x \<in> set (entries_of (inode_kid nd))" "y \<in> set (entries_of (inode_kid nd))" using e by auto
  ultimately show thesis using that by (cases x; cases y) (auto simp: set_entries)
qed

lemma wft_leaves_nonempty: "wft p b \<Longrightarrow> leaves b \<noteq> []"
proof (induction rule: wft.induct)
  case (wft_leaf b l' p)
  then show ?case by (simp add: leaves_leaf)
next
  case (wft_inner b n p)
  obtain j c where k: "inode_kid (Node n) j = Some c" using fit_two [OF wft_inner.hyps(3,4)] by blast
  with wft_inner.IH have "leaves c \<noteq> []" by blast
  then obtain l where "l \<in> set (leaves c)" by (cases "leaves c") auto
  with k have "l \<in> set (leaves b)" using wft_inner.hyps by (auto simp: leaves_inner' mem_kids_leaves)
  then show ?case by (cases "leaves b") auto
qed

text \<open>The keys of the leaves below an inner node extend its path in full, before the zero.\<close>

lemma wft_inner_prefix:
  assumes "wft p b" and "\<not> isLeaf b" and "binner b = Some n" and "l \<in> set (leaves b)"
  shows "prefix (p @ compressed n) (Key l)"
proof -
  from assms obtain k c where "inode_kid (Node n) k = Some c" "l \<in> set (leaves c)" "wft (p @ compressed n @ [k]) c"
    by (auto simp: leaves_inner' mem_kids_leaves elim!: wft_innerE)
  then have "on_path ((p @ compressed n) @ [k]) (Key l)" using wft_leaves_path by fastforce
  then show ?thesis by (simp only: on_path_snoc)
qed

lemma sorted_concat_kids:
  assumes "sorted_wrt (<) (map fst es)"
    and "\<forall>(k, c) \<in> set es. sorted_wrt (<) (map Key (leaves c)) \<and> (\<forall>l \<in> set (leaves c). on_path (q @ [k]) (Key l))"
  shows "sorted_wrt (<) (map Key (concat (map (\<lambda>(k, c). leaves c) es)))"
  using assms
proof (induction es)
  case (Cons e es)
  obtain k c where e: "e = (k, c)" by force
  have "Key l < Key l'" if "l \<in> set (leaves c)" "(k', c') \<in> set es" "l' \<in> set (leaves c')" for l l' k' c'
  proof (rule on_path_lt)
    show "on_path (q @ [k]) (Key l)" using Cons.prems(2) e that by auto
    show "on_path (q @ [k']) (Key l')" using Cons.prems(2) that by fastforce
    show "k < k'" using Cons.prems(1) e that by force
  qed
  then have "\<forall>x \<in> set (map Key (leaves c)). \<forall>y \<in> set (map Key (concat (map (\<lambda>(k, c). leaves c) es))). x < y"
    by auto
  moreover have "sorted_wrt (<) (map Key (leaves c))" using Cons.prems(2) e by auto
  moreover have "sorted_wrt (<) (map Key (concat (map (\<lambda>(k, c). leaves c) es)))"
    using Cons.prems by (intro Cons.IH) auto
  ultimately show ?case using e by (simp add: sorted_wrt_append)
qed simp

lemma wft_sorted: "wft p b \<Longrightarrow> sorted_wrt (<) (map Key (leaves b))"
proof (induction rule: wft.induct)
  case (wft_leaf b l p)
  then show ?case by (simp add: leaves_leaf)
next
  case (wft_inner b n p)
  have "sorted_wrt (<) (map Key (leaves c)) \<and> (\<forall>l \<in> set (leaves c). on_path ((p @ compressed n) @ [k]) (Key l))"
    if "inode_kid (Node n) k = Some c" for k c
    using that wft_inner.IH wft_inner.hyps(5) wft_leaves_path by (metis append_assoc)
  then have "\<forall>(k, c) \<in> set (entries_of (inode_kid (Node n))). sorted_wrt (<) (map Key (leaves c)) \<and>
      (\<forall>l \<in> set (leaves c). on_path ((p @ compressed n) @ [k]) (Key l))"
    by (auto simp: set_entries)
  from sorted_concat_kids [OF sorted_entries this] show ?case using wft_inner.hyps by (simp add: leaves_inner)
qed

end
