(* ===== verification/LeafOps.thy ===== *)
theory LeafOps
  imports Shape
begin

text \<open>
  The methods of \<open>Leaf\<close> (\<open>leaf.go\<close>) that do not descend: construction, comparison, lookup and
  deletion at a leaf, the split of a leaf by an insertion, and the two hooks around saving.
\<close>

section \<open>Construction and comparison\<close>

text \<open>\<open>NewLeaf\<close>: the address is the one the allocator gives the new object.\<close>

definition NewLeaf :: "nat \<Rightarrow> key \<Rightarrow> any \<Rightarrow> byte list \<Rightarrow> leaf" where
  "NewLeaf addr key v x = \<lparr>lf_addr = addr, Key = key, Value = v, XTyp = 0, Xdata = x, Keybyte = 0\<rparr>"

definition leaf_depth :: "leaf \<Rightarrow> int" where
  "leaf_depth n = int (length (Key n))"

definition leaf_clone :: "nat \<Rightarrow> leaf \<Rightarrow> leaf" where
  "leaf_clone addr n = \<lparr>lf_addr = addr, Key = [] @ Key n, Value = Value n, XTyp = XTyp n,
     Xdata = [] @ Xdata n, Keybyte = Keybyte n\<rparr>"

definition leaf_Kind :: "leaf \<Rightarrow> Kind" where
  "leaf_Kind lf = Leafy"

definition leaf_cmp :: "leaf \<Rightarrow> key \<Rightarrow> bool" where
  "leaf_cmp lf other \<longleftrightarrow> Compare (Key lf) other = 0"

definition leaf_cmpUnlocked :: "leaf \<Rightarrow> key \<Rightarrow> bool" where
  "leaf_cmpUnlocked lf other \<longleftrightarrow> Compare (Key lf) other = 0"

lemma leaf_cmp_iff [simp]: "leaf_cmp lf k \<longleftrightarrow> Key lf = k" "leaf_cmpUnlocked lf k \<longleftrightarrow> Key lf = k"
  by (simp_all add: leaf_cmp_def leaf_cmpUnlocked_def)

section \<open>The hooks around saving\<close>

definition XTypBytes :: int where
  "XTypBytes = 0"

definition PreSaveHook :: "leaf \<Rightarrow> leaf res" where
  "PreSaveHook lf = (case Value lf of
     AnyNil \<Rightarrow> Inr lf
   | AnyByteSliceValue x \<Rightarrow> Inr (lf\<lparr>XTyp := XTypBytes, Xdata := x\<rparr>)
   | AnyBytes x \<Rightarrow> Inr (lf\<lparr>XTyp := XTypBytes, Xdata := x\<rparr>)
   | _ \<Rightarrow> Inl (PanicMessage ''add a case here for your data type''))"

definition PostLoadHook :: "leaf \<Rightarrow> leaf res" where
  "PostLoadHook lf =
     (if XTyp lf = XTypBytes then Inr (lf\<lparr>Value := AnyByteSliceValue (Xdata lf)\<rparr>)
      else Inl (PanicMessage ''add a case here for your data type''))"

section \<open>Lookup and deletion at a leaf\<close>

text \<open>
  The results of a search are the node found, the flag, the direction and the index. A deletion
  reports what its callback \<open>parentUpdate\<close> was called with, if it was called.
\<close>

type_synonym found = "bnode option \<times> bool \<times> int \<times> int"

definition leaf_get :: "leaf \<Rightarrow> key \<Rightarrow> int \<Rightarrow> bnode \<Rightarrow> found" where
  "leaf_get lf key i selfb = (let cmp = Compare key (Key lf) in (Some selfb, cmp = 0, cmp, 0))"

datatype parent_update = NoUpdate | UpdateTo "bnode option"

definition leaf_del :: "leaf \<Rightarrow> key \<Rightarrow> int \<Rightarrow> bnode \<Rightarrow> bool \<times> bnode option \<times> parent_update" where
  "leaf_del lf key depth selfb =
     (if \<not> leaf_cmpUnlocked lf key then (False, None, NoUpdate) else (True, Some selfb, UpdateTo None))"

definition leaf_addPrefixBefore :: "leaf \<Rightarrow> bnode inner \<Rightarrow> byte \<Rightarrow> leaf" where
  "leaf_addPrefixBefore lf node key = lf"

section \<open>Insertion at a leaf\<close>

text \<open>The loop of \<open>comparePrefix\<close> (\<open>inner.go\<close>) starts at \<open>depth\<close>, also when that is past the limit.\<close>

definition comparePrefix :: "key \<Rightarrow> key \<Rightarrow> int \<Rightarrow> int" where
  "comparePrefix k1 k2 depth = (let limit = min (length k1) (length k2) in
     (case find (\<lambda>i. k1 ! i \<noteq> k2 ! i) [nat depth..<limit] of
        Some i \<Rightarrow> int i | None \<Rightarrow> max depth (int limit)) - depth)"

text \<open>
  The returned \<open>bnode\<close> is the leaf's own, turned into an inner node in place, except for an
  update, which returns a new one. Its field \<open>leaf\<close> keeps the old pointer.
\<close>

definition leaf_insert :: "leaf \<Rightarrow> leaf \<Rightarrow> int \<Rightarrow> bnode \<Rightarrow> (bnode \<times> bool) res" where
  "leaf_insert lf other depth selfb =
     (if lf_addr lf = lf_addr other then Inr (selfb, False)
      else if leaf_cmp other (Key lf) then Inr (bnodeLeaf other, True)
      else
        let longestPrefix = comparePrefix (Key lf) (Key other) depth;
            comp = (if longestPrefix > 0 then take (nat longestPrefix) (drop (nat depth) (Key lf)) else []);
            child0key = key_At (Key lf) (depth + longestPrefix);
            child1key = key_At (Key other) (depth + longestPrefix)
        in rbind (inode_addChild (N4 node4_new) child0key (bnodeLeaf lf)) (\<lambda>n1.
           rbind (inode_addChild n1 child1key (bnodeLeaf other)) (\<lambda>n2.
             Inr (BNode (bleaf selfb) (Some (Inner comp 2 n2 0)) False (pren selfb), False))))"

section \<open>What they do\<close>

lemma leaf_get_found: "leaf_get lf key i b = (v, f, d, r) \<Longrightarrow> (f \<longleftrightarrow> key = Key lf) \<and> v = Some b \<and> r = 0"
  by (auto simp: leaf_get_def Let_def)

text \<open>Saving a byte value and loading it again gives the value, as a \<open>ByteSliceValue\<close>.\<close>

lemma leaf_save_load:
  assumes "Value lf = AnyBytes x \<or> Value lf = AnyByteSliceValue x"
  shows "rbind (PreSaveHook lf) PostLoadHook
    = Inr (lf\<lparr>XTyp := XTypBytes, Xdata := x, Value := AnyByteSliceValue x\<rparr>)"
  using assms by (auto simp: PreSaveHook_def PostLoadHook_def)

lemma clone_fields:
  "Key (leaf_clone a l) = Key l" "Value (leaf_clone a l) = Value l" "Xdata (leaf_clone a l) = Xdata l"
  "lf_addr (leaf_clone a l) = a"
  by (simp_all add: leaf_clone_def)

text \<open>The first index where two lists differ is the length of their common prefix.\<close>

lemma upt_Suc_shift: "[0..<Suc n] = 0 # map Suc [0..<n]"
  by (simp add: upt_conv_Cons map_Suc_upt del: upt_Suc)

lemma find_mismatch:
  "(case find (\<lambda>i. x ! i \<noteq> y ! i) [0..<min (length x) (length y)] of
      Some i \<Rightarrow> i | None \<Rightarrow> min (length x) (length y)) = length (longest_common_prefix x y)"
proof (induction x y rule: longest_common_prefix.induct)
  case (1 a x b y)
  let ?m = "min (length x) (length y)"
  have up: "[0..<min (length (a # x)) (length (b # y))] = 0 # map Suc [0..<?m]"
    by (simp only: length_Cons min_Suc_Suc upt_Suc_shift)
  show ?case
  proof (cases "a = b")
    case False
    then show ?thesis unfolding up by simp
  next
    case True
    have "find (\<lambda>i. (a # x) ! i \<noteq> (b # y) ! i) (0 # map Suc [0..<?m])
        = map_option Suc (find (\<lambda>i. x ! i \<noteq> y ! i) [0..<?m])"
      using True by (simp add: find_map comp_def)
    then show ?thesis unfolding up using 1 True by (simp split: option.splits)
  qed
qed simp_all

lemma find_upt_offset:
  "find P [d..<d + n] = map_option (\<lambda>i. i + d) (find (\<lambda>i. P (i + d)) [0..<n])"
proof -
  have "[d..<d + n] = map (\<lambda>i. i + d) [0..<n]" by (simp only: map_add_upt add.commute)
  then show ?thesis using find_map [of P "\<lambda>i. i + d" "[0..<n]"] by (simp only: comp_def)
qed

text \<open>\<open>comparePrefix\<close> from \<open>depth\<close> on is the length of the common prefix of the two rests.\<close>

lemma comparePrefix_common:
  assumes "k1 = p @ x" and "k2 = p @ y"
  shows "comparePrefix k1 k2 (int (length p)) = int (length (longest_common_prefix x y))"
proof -
  have lim: "min (length k1) (length k2) = length p + min (length x) (length y)" using assms by simp
  have eq: "k1 ! (i + length p) = k2 ! (i + length p) \<longleftrightarrow> x ! i = y ! i" for i using assms by (simp add: nth_append)
  show ?thesis
    unfolding find_mismatch [symmetric] comparePrefix_def Let_def lim nat_int find_upt_offset eq
    by (auto split: option.split)
qed

end
