(* ===== verification/InnerOps.thy ===== *)
theory InnerOps
  imports LeafOps
begin

text \<open>
  \<open>Inner\<close> (\<open>inner.go\<close>, \<open>node.go\<close>): the comparison with the compressed path, and the exact
  lookup \<open>get\<close>, with the cached counts that give the index of the leaf found.
\<close>

section \<open>The compressed path\<close>

definition inner_Kind :: "'c inner \<Rightarrow> Kind" where
  "inner_Kind n = inode_Kind (Node n)"

definition bnode_Kind :: "bnode \<Rightarrow> Kind res" where
  "bnode_Kind a = (if isLeaf a then Inr Leafy else rbind (deref (binner a)) (\<lambda>n. Inr (inner_Kind n)))"

text \<open>When the key ends before \<open>depth\<close> the result is negative: the loop does not run.\<close>

definition compressedMismatch :: "'c inner \<Rightarrow> key \<Rightarrow> int \<Rightarrow> int" where
  "compressedMismatch n key depth =
     (let maxCmp = min (int (length (compressed n))) (int (length key) - depth) in
      case find (\<lambda>idx. compressed n ! idx \<noteq> key ! (nat depth + idx)) [0..<nat maxCmp] of
        Some idx \<Rightarrow> int idx | None \<Rightarrow> maxCmp)"

definition checkCompressed :: "'c inner \<Rightarrow> key \<Rightarrow> int \<Rightarrow> int \<times> bool \<times> bool" where
  "checkCompressed n key depth =
     (let maxCmp = min (int (length (compressed n))) (int (length key) - depth) in
      case find (\<lambda>idx. compressed n ! idx \<noteq> key ! (nat depth + idx)) [0..<nat maxCmp] of
        Some idx \<Rightarrow> (int idx, False, compressed n ! idx < key ! (nat depth + idx))
      | None \<Rightarrow> (int (nat maxCmp), True, False))"

definition inner_addPrefixBefore :: "'c inner \<Rightarrow> 'c inner \<Rightarrow> byte \<Rightarrow> 'c inner" where
  "inner_addPrefixBefore n node key =
     Inner (compressed node @ [key] @ compressed n) (SubN n) (Node n) (innerKeybyte n)"

section \<open>Exact lookup\<close>

function bnode_get :: "bnode \<Rightarrow> key \<Rightarrow> int \<Rightarrow> found res"
  and inner_get :: "bnode inner \<Rightarrow> key \<Rightarrow> int \<Rightarrow> found res" where
  "bnode_get a key depth =
     (if isLeaf a then rbind (deref (bleaf a)) (\<lambda>lf. Inr (leaf_get lf key depth a))
      else rbind (deref (binner a)) (\<lambda>n. inner_get n key depth))"
| "inner_get n key depth =
     (let kd = int (length key) - depth;
          maxCmp = (if kd < int (length (compressed n)) then kd else int (length (compressed n)))
      in if find (\<lambda>idx. compressed n ! idx \<noteq> key ! (nat depth + idx)) [0..<nat maxCmp] \<noteq> None
         then Inr (None, False, 0, 0)
         else
           let nextDepth = depth + int (length (compressed n));
               querykey = (if nextDepth < int (length key) then key ! nat nextDepth else 0)
           in rbind (inode_child (Node n) querykey) (\<lambda>(i, next).
             case next of
               None \<Rightarrow> Inr (None, False, 0, 0)
             | Some nx \<Rightarrow> rbind (bnode_get nx key (nextDepth + 1)) (\<lambda>(value, found, dir, id).
                 Inr (value, found, dir, id + pren nx))))"
  by pat_completeness auto
termination
  by (relation "measure (case_sum (\<lambda>(a, _, _). size a) (\<lambda>(n, _, _). size_inner size n))")
    (auto dest!: child_slot size_kid_slot size_binner)

declare bnode_get.simps [simp del] inner_get.simps [simp del]

section \<open>Comparison with the path\<close>

text \<open>For a key that extends the path \<open>p\<close>, the comparison is with the rest of the key.\<close>

lemma compressedMismatch_rest:
  assumes "K = p @ x"
  shows "compressedMismatch n K (int (length p)) = int (length (longest_common_prefix (compressed n) x))"
proof -
  have m: "min (int (length (compressed n))) (int (length K) - int (length p)) = int (min (length (compressed n)) (length x))"
    using assms by simp
  have e: "K ! (length p + i) = x ! i" for i using assms by (simp add: nth_append)
  show ?thesis
    unfolding compressedMismatch_def Let_def m nat_int e find_mismatch [symmetric]
    by (auto split: option.split)
qed

lemma lcp_eq_prefix: "length (longest_common_prefix c x) = length c \<longleftrightarrow> prefix c x"
  by (induction c x rule: longest_common_prefix.induct) auto

lemma get_mismatch_prefix:
  assumes "prefix c (drop d K)"
  shows "find (\<lambda>idx. c ! idx \<noteq> K ! (d + idx)) [0..<nat (if int (length K) - int d < int (length c)
     then int (length K) - int d else int (length c))] = None"
proof -
  from assms obtain y where y: "drop d K = c @ y" by (auto simp: prefix_def)
  have "c ! i = K ! (d + i)" if "i < length c" for i
    using that y by (metis nth_append nth_drop length_drop length_append le_add1 nat_le_linear drop_all
        list.size(3) add_is_0 not_less_zero)
  then show ?thesis by (auto simp: find_None_iff)
qed

lemma key_At_nonneg: "key_At K (int d) = (if d < length K then K ! d else 0)"
  by (auto simp: key_At_def)

section \<open>What \<open>get\<close> finds\<close>

abbreviation keys_of :: "bnode \<Rightarrow> key set" where
  "keys_of b \<equiv> Key ` set (leaves b)"

lemma keys_of_kid:
  assumes "\<not> isLeaf b" and "binner b = Some n" and "inode_kid (Node n) k = Some c"
  shows "keys_of c \<subseteq> keys_of b"
proof -
  have "set (leaves c) \<subseteq> set (leaves b)"
    using assms(3) unfolding leaves_inner' [OF assms(1,2)] subset_eq mem_kids_leaves by blast
  then show ?thesis by blast
qed

lemma keys_of_inner:
  assumes wf: "wft p b" and b: "\<not> isLeaf b" "binner b = Some n"
  shows "K \<in> keys_of b \<longleftrightarrow> prefix (p @ compressed n) K \<and>
    (\<exists>c. inode_kid (Node n) (key_At K (int (length (p @ compressed n)))) = Some c \<and> K \<in> keys_of c)"
proof
  assume "K \<in> keys_of b"
  then obtain k c where k: "inode_kid (Node n) k = Some c" "K \<in> keys_of c"
    using b by (auto simp: leaves_inner' mem_kids_leaves)
  with wf b have "wft (p @ compressed n @ [k]) c" by (simp add: wft_inner_iff kids_wft_def)
  with k wft_leaves_path have "on_path ((p @ compressed n) @ [k]) K" by fastforce
  with k show "prefix (p @ compressed n) K \<and>
    (\<exists>c. inode_kid (Node n) (key_At K (int (length (p @ compressed n)))) = Some c \<and> K \<in> keys_of c)"
    by (auto simp only: on_path_snoc)
next
  assume "prefix (p @ compressed n) K \<and>
    (\<exists>c. inode_kid (Node n) (key_At K (int (length (p @ compressed n)))) = Some c \<and> K \<in> keys_of c)"
  with keys_of_kid [OF b] show "K \<in> keys_of b" by blast
qed

definition is_leaf_of :: "bnode \<Rightarrow> bnode \<Rightarrow> leaf \<Rightarrow> bool" where
  "is_leaf_of b v l \<longleftrightarrow> isLeaf v \<and> bleaf v = Some l \<and> l \<in> set (leaves b)"

lemma is_leaf_of_kid:
  "\<not> isLeaf b \<Longrightarrow> binner b = Some n \<Longrightarrow> inode_kid (Node n) k = Some c \<Longrightarrow> is_leaf_of c v l \<Longrightarrow> is_leaf_of b v l"
  by (auto simp: is_leaf_of_def leaves_inner' mem_kids_leaves)

theorem get_correct:
  assumes "wft p b"
  shows "\<exists>v f d i. bnode_get b K (int (length p)) = Inr (v, f, d, i) \<and> (f \<longleftrightarrow> K \<in> keys_of b) \<and>
    (f \<longrightarrow> (\<exists>a l. v = Some a \<and> is_leaf_of b a l \<and> Key l = K))"
  using assms
proof (induction rule: wft.induct)
  case (wft_leaf b l p)
  then have "bnode_get b K (int (length p)) = Inr (leaf_get l K (int (length p)) b)" and "leaves b = [l]"
    by (simp_all add: bnode_get.simps leaves_leaf)
  with wft_leaf show ?case by (auto simp: leaf_get_def Let_def is_leaf_of_def)
next
  case (wft_inner b n p)
  let ?q = "p @ compressed n" and ?none = "Inr (None, False, 0, 0) :: found res"
  have wf: "wft p b" by (rule wft.intros(2) [OF wft_inner.hyps])
  note keys = keys_of_inner [OF wf wft_inner.hyps(1,2), of K]
  let ?k = "key_At K (int (length ?q))"
  have bn: "bnode_get b K (int (length p)) = inner_get n K (int (length p))"
    using wft_inner.hyps by (simp add: bnode_get.simps)
  show ?case
  proof (cases "find (\<lambda>idx. compressed n ! idx \<noteq> K ! (length p + idx)) [0..<nat (if int (length K) - int (length p)
      < int (length (compressed n)) then int (length K) - int (length p) else int (length (compressed n)))]")
    case (Some j)
    then have "inner_get n K (int (length p)) = ?none" by (simp add: inner_get.simps Let_def)
    moreover have "\<not> prefix ?q K"
      using Some get_mismatch_prefix [of "compressed n" "length p" K] by (auto simp: prefix_def)
    ultimately show ?thesis using bn keys by auto
  next
    case None
    have q: "(if int (length p) + int (length (compressed n)) < int (length K)
        then K ! nat (int (length p) + int (length (compressed n))) else 0) = ?k"
      by (auto simp: key_At_def nat_add_distrib)
    obtain i where ch: "inode_child (Node n) ?k = Inr (i, inode_kid (Node n) ?k)"
      using nd.child_law [OF wft_inner.hyps(3)] by blast
    show ?thesis
    proof (cases "inode_kid (Node n) ?k")
      case None': None
      then have "inner_get n K (int (length p)) = ?none"
        using None ch by (simp add: inner_get.simps Let_def q)
      then show ?thesis using bn keys None' by auto
    next
      case (Some c)
      from wft_inner.IH [OF Some] obtain v f d i' where
        g: "bnode_get c K (int (length (p @ compressed n @ [?k]))) = Inr (v, f, d, i')"
        and f: "f \<longleftrightarrow> K \<in> keys_of c" and l: "f \<longrightarrow> (\<exists>a l. v = Some a \<and> is_leaf_of c a l \<and> Key l = K)" by blast
      have "inner_get n K (int (length p)) = Inr (v, f, d, i' + pren c)"
        using None ch Some g by (simp add: inner_get.simps Let_def q ac_simps)
      moreover have "f \<longleftrightarrow> K \<in> keys_of b"
      proof
        assume f
        with f show "K \<in> keys_of b" using keys_of_kid [OF wft_inner.hyps(1,2) Some] by blast
      qed (use keys Some f in auto)
      moreover have "f \<longrightarrow> (\<exists>a l. v = Some a \<and> is_leaf_of b a l \<and> Key l = K)"
        using l is_leaf_of_kid [OF wft_inner.hyps(1,2) Some] by blast
      ultimately show ?thesis using bn by simp
    qed
  qed
qed

end
