(* ===== verification/Counts.thy ===== *)
theory Counts
  imports InnerOps
begin

text \<open>
  The counts kept in the tree: \<open>SubN\<close>, the number of leaves below an inner node, and \<open>pren\<close>,
  the leaves below the earlier siblings. Both are invariants of their own, since some
  operations keep one and not the other. With both, the index that \<open>get\<close> returns is the position
  of the leaf; with the first alone, \<open>at\<close> returns the leaf at an index.
\<close>

section \<open>The invariants\<close>

inductive counted :: "bnode \<Rightarrow> bool" where
  counted_leaf: "isLeaf b \<Longrightarrow> counted b"
| counted_inner: "\<not> isLeaf b \<Longrightarrow> binner b = Some n \<Longrightarrow> SubN n = int (length (leaves b)) \<Longrightarrow>
    (\<And>k c. inode_kid (Node n) k = Some c \<Longrightarrow> counted c) \<Longrightarrow> counted b"

inductive cached :: "bnode \<Rightarrow> bool" where
  cached_leaf: "isLeaf b \<Longrightarrow> cached b"
| cached_inner: "\<not> isLeaf b \<Longrightarrow> binner b = Some n \<Longrightarrow> prens_ok (inode_kid (Node n)) \<Longrightarrow>
    (\<And>k c. inode_kid (Node n) k = Some c \<Longrightarrow> cached c) \<Longrightarrow> cached b"

inductive_cases counted_E: "counted b"
inductive_cases cached_E: "cached b"

definition kids_all :: "(bnode \<Rightarrow> bool) \<Rightarrow> (byte \<Rightarrow> bnode option) \<Rightarrow> bool" where
  "kids_all P f \<longleftrightarrow> (\<forall>k c. f k = Some c \<longrightarrow> P c)"

lemma kids_all_upd: "kids_all P f \<Longrightarrow> P c \<Longrightarrow> kids_all P (f(k \<mapsto> c))"
  by (auto simp: kids_all_def)

lemma kids_all_del: "kids_all P f \<Longrightarrow> kids_all P (f(k := None))"
  by (auto simp: kids_all_def)

lemma kids_all_erase: "(\<And>x b. P (set_pren x b) = P b) \<Longrightarrow> kids_all P (erase f) = kids_all P f"
  unfolding kids_all_def erase_def by (metis map_option_eq_Some)

lemma kids_all_cong: "(\<And>x b. P (set_pren x b) = P b) \<Longrightarrow> erase f = erase g \<Longrightarrow> kids_all P f = kids_all P g"
  by (metis kids_all_erase)

lemma counted_iff:
  "\<not> isLeaf b \<Longrightarrow> binner b = Some n \<Longrightarrow>
   counted b \<longleftrightarrow> SubN n = int (length (leaves b)) \<and> kids_all counted (inode_kid (Node n))"
  by (auto simp: kids_all_def intro: counted_inner elim: counted_E)

lemma cached_iff:
  "\<not> isLeaf b \<Longrightarrow> binner b = Some n \<Longrightarrow>
   cached b \<longleftrightarrow> prens_ok (inode_kid (Node n)) \<and> kids_all cached (inode_kid (Node n))"
  by (auto simp: kids_all_def intro: cached_inner elim: cached_E)

lemma counted_cong:
  "counted a \<Longrightarrow> isLeaf b = isLeaf a \<Longrightarrow> binner b = binner a \<Longrightarrow> leaves b = leaves a \<Longrightarrow> counted b"
  by (erule counted_E) (auto intro: counted.intros)

lemma cached_cong: "cached a \<Longrightarrow> isLeaf b = isLeaf a \<Longrightarrow> binner b = binner a \<Longrightarrow> cached b"
  by (erule cached_E) (auto intro: cached.intros)

lemma counted_set_pren [simp]: "counted (set_pren x b) \<longleftrightarrow> counted b"
  by (auto elim: counted_cong)

lemma cached_set_pren [simp]: "cached (set_pren x b) \<longleftrightarrow> cached b"
  by (auto elim: cached_cong)

lemma counted_subn: "counted b \<Longrightarrow> wft p b \<Longrightarrow> subn b = int (length (leaves b))"
  by (erule counted_E) (auto simp: subn_def leaves_leaf dest: wft_leafD)

section \<open>The leaves before a child\<close>

abbreviation leaves_below :: "byte \<Rightarrow> (byte \<Rightarrow> bnode option) \<Rightarrow> leaf list" where
  "leaves_below k f \<equiv> concat (map (\<lambda>(k, c). leaves c) (kids_below k f))"

abbreviation leaves_above :: "byte \<Rightarrow> (byte \<Rightarrow> bnode option) \<Rightarrow> leaf list" where
  "leaves_above k f \<equiv> concat (map (\<lambda>(k, c). leaves c) (kids_above k f))"

lemma kids_leaves_split:
  "f k = Some c \<Longrightarrow> kids_leaves f = leaves_below k f @ leaves c @ leaves_above k f"
  unfolding kids_leaves_def by (subst entries_split [of _ k]) simp

lemma kids_subn_length:
  assumes "kids_all counted f" and "kids_wft q f" and "set es \<subseteq> set (entries_of f)"
  shows "(\<Sum>(b, c) \<leftarrow> es. subn c) = int (length (concat (map (\<lambda>(k, c). leaves c) es)))"
  using assms(3)
proof (induction es)
  case (Cons e es)
  obtain k c where e: "e = (k, c)" by force
  with Cons.prems have "f k = Some c" by auto
  with assms have "subn c = int (length (leaves c))"
    by (intro counted_subn) (auto simp: kids_all_def kids_wft_def)
  with Cons e show ?case by auto
qed simp

lemma presum_leaves:
  assumes "kids_all counted f" and "kids_wft q f"
  shows "presum f k = int (length (leaves_below k f))"
  unfolding presum_kids_below using assms by (rule kids_subn_length) (auto simp: kids_below_def)

theorem get_index:
  assumes "wft p b" and "counted b" and "cached b" and "bnode_get b K (int (length p)) = Inr (v, True, d, i)"
  shows "0 \<le> i \<and> i < int (length (leaves b)) \<and> Key (leaves b ! nat i) = K"
  using assms
proof (induction arbitrary: v d i rule: wft.induct)
  case (wft_leaf b l p)
  then have "leaf_get l K (int (length p)) b = (v, True, d, i)" "leaves b = [l]"
    by (simp_all add: bnode_get.simps leaves_leaf)
  then show ?case by (auto simp: leaf_get_def Let_def)
next
  case (wft_inner b n p)
  let ?q = "p @ compressed n" and ?f = "inode_kid (Node n)"
  let ?k = "key_At K (int (length ?q))"
  have ki: "kids_all counted ?f" "prens_ok ?f" "kids_all cached ?f"
    using wft_inner.prems wft_inner.hyps(1,2) by (simp_all add: counted_iff cached_iff)
  have kw: "kids_wft ?q ?f" using wft_inner.hyps(5) by (simp add: kids_wft_def)
  have q: "(if int (length p) + int (length (compressed n)) < int (length K)
      then K ! nat (int (length p) + int (length (compressed n))) else 0) = ?k"
    by (auto simp: key_At_def nat_add_distrib)
  have g: "inner_get n K (int (length p)) = Inr (v, True, d, i)"
    using wft_inner.prems(3) wft_inner.hyps by (simp add: bnode_get.simps)
  obtain j where ch: "inode_child (Node n) ?k = Inr (j, ?f ?k)"
    using nd.child_law [OF wft_inner.hyps(3)] by blast
  with g obtain c i' where c: "?f ?k = Some c" and i: "i = i' + pren c"
    and g': "bnode_get c K (int (length (p @ compressed n @ [?k]))) = Inr (v, True, d, i')"
    by (auto simp: inner_get.simps Let_def q rbind_eq_Inr ac_simps split: if_splits option.splits)
  have ih: "0 \<le> i' \<and> i' < int (length (leaves c)) \<and> Key (leaves c ! nat i') = K"
    using ki c by (intro wft_inner.IH [OF c _ _ g']) (auto simp: kids_all_def)
  have "pren c = int (length (leaves_below ?k ?f))"
    using ki(2) c presum_leaves [OF ki(1) kw] by (simp add: prens_ok_def)
  moreover have "leaves b = leaves_below ?k ?f @ leaves c @ leaves_above ?k ?f"
    using wft_inner.hyps(1,2) kids_leaves_split [of ?f ?k c] c by (simp add: leaves_inner')
  moreover from ih have "nat i' < length (leaves c)" by linarith
  ultimately show ?case using ih i by (simp add: nth_append nat_add_distrib)
qed

end
