(* ===== verification/Positions.thy ===== *)
theory Positions
  imports Counts
begin

text \<open>
  The leaf at an index (\<open>at\<close>), and the first and the last leaf of a subtree (\<open>recursiveFirst\<close>,
  \<open>recursiveLast\<close>), all in \<open>node.go\<close>.
\<close>

section \<open>The leaf at an index\<close>

lemma next_greater: "inode_next nd (Some k) = Inr (b, Some c) \<Longrightarrow> k < b"
  by (cases nd) (auto simp: inode_next_def node4_next_def node16_next_def node48_next_def node48_hit_def
    node256_next_def rbind_eq_Inr dest!: find_SomeD split: option.splits)

lemma next_decreases:
  "inode_next nd k = Inr (b, Some c) \<Longrightarrow> 256 - unat b < (case k of None \<Rightarrow> 257 | Some x \<Rightarrow> 256 - unat x)"
  using next_greater [of nd _ b c] byte_unat_lt [of b] by (cases k) (auto simp: word_less_nat_alt intro!: diff_less_mono2)

lemma size_node_below: "binner a = Some n \<Longrightarrow> size_inode size (Node n) < size a"
  by (cases n) (use size_binner [of a n] in simp)

lemma size_next: "inode_next nd k = Inr (b, Some c) \<Longrightarrow> size c < size_inode size nd"
  by (rule size_slot) (rule next_slot)

text \<open>
  The loop carries the byte of the last child seen (nil at first) and the leaves passed so far.
\<close>

function bnode_at :: "bnode \<Rightarrow> int \<Rightarrow> (leaf option \<times> bool) res"
  and at_loop :: "bnode inode \<Rightarrow> byte option \<Rightarrow> int \<Rightarrow> int \<Rightarrow> (leaf option \<times> bool) res" where
  "bnode_at a i =
     (if i < 0 then Inr (None, False)
      else if isLeaf a then (if i \<noteq> 0 then Inr (None, False) else Inr (bleaf a, True))
      else rbind (deref (binner a)) (\<lambda>n.
        if SubN n \<le> i then Inr (None, False) else at_loop (Node n) None 0 i))"
| "at_loop nd k tot i =
     rbind (inode_next nd k) (\<lambda>(key, b). case b of
       None \<Rightarrow> Inl (PanicMessage ''unreachable'')
     | Some c \<Rightarrow> let pre = tot; tot' = tot + subn c in
         if i < tot' then bnode_at c (i - pre) else at_loop nd (Some key) tot' i)"
  by pat_completeness auto
termination
  by (relation "measures [case_sum (\<lambda>(a, _). size a) (\<lambda>(nd, _). size_inode size nd),
      case_sum (\<lambda>_. 0) (\<lambda>(_, k, _). case k of None \<Rightarrow> 257 | Some x \<Rightarrow> 256 - unat x)]")
    (auto dest: size_node_below size_next next_decreases)

declare bnode_at.simps [simp del] at_loop.simps [simp del]

definition at_spec :: "bnode \<Rightarrow> int \<Rightarrow> leaf option \<times> bool" where
  "at_spec b i = (if 0 \<le> i \<and> i < int (length (leaves b)) then (Some (leaves b ! nat i), True) else (None, False))"

lemma at_loop_correct:
  assumes "inode_ok nd" and "kids_all counted (inode_kid nd)" and "kids_wft q (inode_kid nd)"
    and kids: "\<And>k c j. inode_kid nd k = Some c \<Longrightarrow> bnode_at c j = Inr (at_spec c j)"
    and "filter (\<lambda>(x, _). from_byte k (<) x) (entries_of (inode_kid nd)) = es"
    and "tot \<le> i" and "i < tot + int (length (concat (map (\<lambda>(k, c). leaves c) es)))"
  shows "at_loop nd k tot i = Inr (Some (concat (map (\<lambda>(k, c). leaves c) es) ! nat (i - tot)), True)"
  using assms(5-7)
proof (induction es arbitrary: k tot)
  case Nil
  then show ?case by simp
next
  case (Cons e es)
  obtain b c where e: "e = (b, c)" by force
  let ?f = "inode_kid nd"
  have "(b, c) \<in> set (filter (\<lambda>(x, _). from_byte k (<) x) (entries_of ?f))" unfolding Cons.prems(1) e by simp
  then have c: "?f b = Some c" by simp
  then have s: "subn c = int (length (leaves c))"
    using assms(2,3) by (intro counted_subn) (auto simp: kids_all_def kids_wft_def)
  have n: "inode_next nd k = Inr (b, Some c)"
    using nd.next_law [OF assms(1), of k] Cons.prems(1) e by (simp add: first_kid_filter)
  have f: "filter (\<lambda>(x, _). from_byte (Some b) (<) x) (entries_of ?f) = es"
    unfolding from_byte_simps
    by (rule filter_after [OF sorted_entries Cons.prems(1) [unfolded e]]) (cases k; auto)
  show ?case
  proof (cases "i < tot + int (length (leaves c))")
    case True
    then have "nat (i - tot) < length (leaves c)" using Cons.prems(2) by linarith
    with True show ?thesis using n s kids [OF c, of "i - tot"] Cons.prems(2) e
      by (simp add: at_loop.simps [of nd k] at_spec_def nth_append)
  next
    case False
    from Cons.IH [OF f, of "tot + subn c"] Cons.prems(3) False e s
    have "at_loop nd (Some b) (tot + subn c) i
        = Inr (Some (concat (map (\<lambda>(k, c). leaves c) es) ! nat (i - (tot + subn c))), True)" by simp
    moreover have "nat (i - (tot + int (length (leaves c)))) = nat (i - tot) - length (leaves c)"
      "\<not> nat (i - tot) < length (leaves c)" using False by linarith+
    ultimately show ?thesis using n s False e by (simp add: at_loop.simps [of nd k] nth_append)
  qed
qed

theorem at_correct:
  assumes "wft p b" and "counted b"
  shows "bnode_at b i = Inr (at_spec b i)"
  using assms
proof (induction arbitrary: i rule: wft.induct)
  case (wft_leaf b l p)
  then show ?case by (auto simp: bnode_at.simps at_spec_def leaves_leaf)
next
  case (wft_inner b n p)
  have kc: "kids_all counted (inode_kid (Node n))" and sub: "SubN n = int (length (leaves b))"
    using wft_inner.prems wft_inner.hyps(1,2) by (simp_all add: counted_iff)
  have kw: "kids_wft (p @ compressed n) (inode_kid (Node n))" using wft_inner.hyps(5) by (simp add: kids_wft_def)
  have lv: "leaves b = concat (map (\<lambda>(k, c). leaves c) (entries_of (inode_kid (Node n))))"
    using wft_inner.hyps by (simp add: leaves_inner)
  have kids: "bnode_at c j = Inr (at_spec c j)" if "inode_kid (Node n) k = Some c" for k c j
    using wft_inner.IH [OF that] kc that by (auto simp: kids_all_def)
  show ?case
  proof (cases "0 \<le> i \<and> i < int (length (leaves b))")
    case True
    have "filter (\<lambda>(x, _). from_byte None (<) x) (entries_of (inode_kid (Node n))) = entries_of (inode_kid (Node n))"
      by simp
    from at_loop_correct [OF wft_inner.hyps(3) kc kw kids this, where tot = 0 and i = i] True lv
    have "at_loop (Node n) None 0 i = Inr (Some (leaves b ! nat i), True)" by simp
    with True sub wft_inner.hyps show ?thesis by (simp add: bnode_at.simps at_spec_def)
  next
    case False
    with sub wft_inner.hyps show ?thesis by (auto simp: bnode_at.simps at_spec_def)
  qed
qed

section \<open>The first and the last leaf\<close>

definition bnode_first :: "bnode \<Rightarrow> (byte \<times> bnode option) res" where
  "bnode_first a = (if isLeaf a then Inr (0, Some a) else rbind (deref (binner a)) (\<lambda>n. inode_first (Node n)))"

definition bnode_last :: "bnode \<Rightarrow> (byte \<times> bnode option) res" where
  "bnode_last a = (if isLeaf a then Inr (0, Some a) else rbind (deref (binner a)) (\<lambda>n. inode_last (Node n)))"

function bnode_recursiveFirst :: "bnode \<Rightarrow> (bnode \<times> bool) res" where
  "bnode_recursiveFirst b =
     (if isLeaf b then Inr (b, True)
      else rbind (deref (binner b)) (\<lambda>n. rbind (inode_first (Node n)) (\<lambda>(k, c). case c of
        None \<Rightarrow> Inl (PanicMessage ''should never happen! TODO remove.'')
      | Some c \<Rightarrow> bnode_recursiveFirst c)))"
  by pat_completeness auto
termination
  by (relation "measure size") (auto dest!: first_slot size_kid_slot size_binner)

function bnode_recursiveLast :: "bnode \<Rightarrow> (bnode \<times> bool) res" where
  "bnode_recursiveLast b =
     (if isLeaf b then Inr (b, True)
      else rbind (deref (binner b)) (\<lambda>n. rbind (inode_last (Node n)) (\<lambda>(k, c). case c of
        None \<Rightarrow> Inl (PanicMessage ''should be impossible! TODO remove!'')
      | Some c \<Rightarrow> bnode_recursiveLast c)))"
  by pat_completeness auto
termination
  by (relation "measure size") (auto dest!: last_slot size_kid_slot size_binner)

declare bnode_recursiveFirst.simps [simp del] bnode_recursiveLast.simps [simp del]

definition inner_recursiveFirst :: "bnode inner \<Rightarrow> (bnode \<times> bool) res" where
  "inner_recursiveFirst n = rbind (inode_first (Node n)) (\<lambda>(k, b). rbind (deref b) (\<lambda>c.
     if isLeaf c then Inr (c, True) else bnode_recursiveFirst c))"

definition inner_recursiveLast :: "bnode inner \<Rightarrow> (bnode \<times> bool) res" where
  "inner_recursiveLast n = rbind (inode_last (Node n)) (\<lambda>(k, b). rbind (deref b) (\<lambda>c.
     if isLeaf c then Inr (c, True) else bnode_recursiveLast c))"

lemma kids_leaves_first:
  assumes "inode_ok nd" and "fit nd" and "kids_wft q (inode_kid nd)"
  shows "\<exists>b k c. inode_first nd = Inr (b, Some c) \<and> inode_kid nd k = Some c \<and>
    hd (kids_leaves (inode_kid nd)) = hd (leaves c)"
proof -
  obtain j where "inode_kid nd j \<noteq> None" using fit_two [OF assms(1,2)] by blast
  then obtain e es where e: "entries_of (inode_kid nd) = e # es"
    using entries_eq_Nil [of "inode_kid nd"] by (metis neq_Nil_conv)
  obtain k c where kc: "e = (k, c)" by force
  have f: "snd (first_kid (\<lambda>_. True) (inode_kid nd)) = Some c" using e kc by (simp add: first_kid_filter)
  have k: "inode_kid nd k = Some c" using e kc mem_entries [of k c "inode_kid nd"] by simp
  with assms(3) wft_leaves_nonempty have "leaves c \<noteq> []" by (auto simp: kids_wft_def)
  then have "hd (kids_leaves (inode_kid nd)) = hd (leaves c)" using e kc by (simp add: kids_leaves_def)
  with k f nd.first_law [OF assms(1)] show ?thesis by auto
qed

lemma kids_leaves_last:
  assumes "inode_ok nd" and "fit nd" and "kids_wft q (inode_kid nd)"
  shows "\<exists>b k c. inode_last nd = Inr (b, Some c) \<and> inode_kid nd k = Some c \<and>
    last (kids_leaves (inode_kid nd)) = last (leaves c)"
proof -
  obtain j where "inode_kid nd j \<noteq> None" using fit_two [OF assms(1,2)] by blast
  then have "entries_of (inode_kid nd) \<noteq> []" using entries_eq_Nil [of "inode_kid nd"] by metis
  then obtain es e where e: "entries_of (inode_kid nd) = es @ [e]" by (metis rev_exhaust)
  obtain k c where kc: "e = (k, c)" by force
  have f: "snd (last_kid (\<lambda>_. True) (inode_kid nd)) = Some c" using e kc by (simp add: last_kid_filter)
  have k: "inode_kid nd k = Some c" using e kc mem_entries [of k c "inode_kid nd"] by simp
  with assms(3) wft_leaves_nonempty have "leaves c \<noteq> []" by (auto simp: kids_wft_def)
  then have "last (kids_leaves (inode_kid nd)) = last (leaves c)" using e kc by (simp add: kids_leaves_def)
  moreover have "0 < inode_nchild nd" using fit_pos [OF assms(2)] by simp
  ultimately show ?thesis using k f nd.last_law [OF assms(1)] by auto
qed

theorem recursiveFirst_correct:
  "wft p b \<Longrightarrow> \<exists>a. bnode_recursiveFirst b = Inr (a, True) \<and> is_leaf_of b a (hd (leaves b))"
proof (induction rule: wft.induct)
  case (wft_leaf b l p)
  then show ?case by (simp add: bnode_recursiveFirst.simps is_leaf_of_def leaves_leaf)
next
  case (wft_inner b n p)
  have kw: "kids_wft (p @ compressed n) (inode_kid (Node n))" using wft_inner.hyps(5) by (simp add: kids_wft_def)
  obtain x k c where f: "inode_first (Node n) = Inr (x, Some c)" "inode_kid (Node n) k = Some c"
    and h: "hd (kids_leaves (inode_kid (Node n))) = hd (leaves c)"
    using kids_leaves_first [OF wft_inner.hyps(3,4) kw] by blast
  from wft_inner.IH [OF f(2)] obtain a where "bnode_recursiveFirst c = Inr (a, True)"
    and "is_leaf_of c a (hd (leaves c))" by blast
  with f h is_leaf_of_kid [OF wft_inner.hyps(1,2) f(2)] wft_inner.hyps(1,2) show ?case
    by (simp add: bnode_recursiveFirst.simps [of b] leaves_inner')
qed

theorem recursiveLast_correct:
  "wft p b \<Longrightarrow> \<exists>a. bnode_recursiveLast b = Inr (a, True) \<and> is_leaf_of b a (last (leaves b))"
proof (induction rule: wft.induct)
  case (wft_leaf b l p)
  then show ?case by (simp add: bnode_recursiveLast.simps is_leaf_of_def leaves_leaf)
next
  case (wft_inner b n p)
  have kw: "kids_wft (p @ compressed n) (inode_kid (Node n))" using wft_inner.hyps(5) by (simp add: kids_wft_def)
  obtain x k c where f: "inode_last (Node n) = Inr (x, Some c)" "inode_kid (Node n) k = Some c"
    and h: "last (kids_leaves (inode_kid (Node n))) = last (leaves c)"
    using kids_leaves_last [OF wft_inner.hyps(3,4) kw] by blast
  from wft_inner.IH [OF f(2)] obtain a where "bnode_recursiveLast c = Inr (a, True)"
    and "is_leaf_of c a (last (leaves c))" by blast
  with f h is_leaf_of_kid [OF wft_inner.hyps(1,2) f(2)] wft_inner.hyps(1,2) show ?case
    by (simp add: bnode_recursiveLast.simps [of b] leaves_inner')
qed

lemma recursive_leaf:
  "isLeaf c \<Longrightarrow> bnode_recursiveFirst c = Inr (c, True)" "isLeaf c \<Longrightarrow> bnode_recursiveLast c = Inr (c, True)"
  by (simp_all add: bnode_recursiveFirst.simps bnode_recursiveLast.simps)

lemma recursive_if:
  "(if isLeaf c then Inr (c, True) else bnode_recursiveFirst c) = bnode_recursiveFirst c"
  "(if isLeaf c then Inr (c, True) else bnode_recursiveLast c) = bnode_recursiveLast c"
  by (simp_all add: recursive_leaf)

lemma inner_recursive_same:
  assumes "binner b = Some n" and "\<not> isLeaf b"
  shows "bnode_recursiveFirst b = Inr (a, True) \<Longrightarrow> inner_recursiveFirst n = Inr (a, True)"
    and "bnode_recursiveLast b = Inr (a, True) \<Longrightarrow> inner_recursiveLast n = Inr (a, True)"
  using assms unfolding inner_recursiveFirst_def inner_recursiveLast_def recursive_if
  by (auto simp: rbind_eq_Inr bnode_recursiveFirst.simps [of b] bnode_recursiveLast.simps [of b] split: option.splits)

end
