(* ===== verification/Insertion.thy ===== *)
theory Insertion
  imports Positions
begin

text \<open>
  Insertion (\<open>insert\<close> of \<open>inner.go\<close>, \<open>leaf.go\<close> and \<open>node.go\<close>). The node is mutated in place and
  returned: the model returns the new node. A child that is an inner node is changed through the
  pointer its parent holds, which is a write to its slot.
\<close>

section \<open>The operations\<close>

text \<open>The split of a node whose compressed path differs from the key at \<open>mis\<close>.\<close>

definition inner_split :: "bnode inner \<Rightarrow> leaf \<Rightarrow> int \<Rightarrow> int \<Rightarrow> bnode inner res" where
  "inner_split n lf depth mis =
     rbind (at_idx (compressed n) mis) (\<lambda>newChildKey.
       let parentCompressed = take (nat mis) (compressed n);
           newChild = Inner (drop (nat mis + 1) (compressed n)) (SubN n) (Node n) newChildKey;
           leafKeybyte = key_At (Key lf) (depth + mis);
           lf' = lf\<lparr>Keybyte := leafKeybyte\<rparr>
       in rbind (inode_addChild (N4 node4_new) leafKeybyte (bnodeLeaf lf')) (\<lambda>n1.
          rbind (inode_addChild n1 newChildKey (bnodeInner newChild)) (\<lambda>n2.
            Inr (Inner parentCompressed (SubN n + 1) n2 (innerKeybyte n)))))"

text \<open>A new leaf below a node, which grows first when it is full.\<close>

definition inner_addLeaf :: "bnode inner \<Rightarrow> leaf \<Rightarrow> int \<Rightarrow> bnode inner res" where
  "inner_addLeaf n lf nextDepth =
     rbind (if inode_full (Node n) then rbind (inode_grow (Node n)) deref else Inr (Node n)) (\<lambda>nd.
       let addkey = key_At (Key lf) nextDepth; lf' = lf\<lparr>Keybyte := addkey\<rparr> in
       rbind (inode_addChild nd addkey (bnodeLeaf lf')) (\<lambda>nd'.
         Inr (Inner (compressed n) (SubN n + 1) nd' (innerKeybyte n))))"

definition set_innerKeybyte :: "byte \<Rightarrow> bnode \<Rightarrow> bnode res" where
  "set_innerKeybyte k b = rbind (deref (binner b)) (\<lambda>m.
     Inr (set_inner b (Inner (compressed m) (SubN m) (Node m) k)))"

function bnode_insert :: "bnode \<Rightarrow> leaf \<Rightarrow> int \<Rightarrow> (bnode \<times> bool) res"
  and inner_insert :: "bnode inner \<Rightarrow> leaf \<Rightarrow> int \<Rightarrow> (bnode inner \<times> bool) res" where
  "bnode_insert a lf depth =
     (if isLeaf a then rbind (deref (bleaf a)) (\<lambda>l. leaf_insert l lf depth a)
      else rbind (deref (binner a)) (\<lambda>n.
        rbind (inner_insert n lf depth) (\<lambda>(n', updated). Inr (set_inner a n', updated))))"
| "inner_insert n lf depth =
     (let mis = compressedMismatch n (Key lf) depth in
      if mis < int (length (compressed n)) then rbind (inner_split n lf depth mis) (\<lambda>n'. Inr (n', False))
      else
        let nextDepth = depth + mis; nextkey = key_At (Key lf) nextDepth in
        rbind (inode_child (Node n) nextkey) (\<lambda>(idx, next). case next of
          None \<Rightarrow> rbind (inner_addLeaf n lf nextDepth) (\<lambda>n'. Inr (n', False))
        | Some nx \<Rightarrow>
            rbind (bnode_insert nx lf (nextDepth + 1)) (\<lambda>(replacement, updated).
              if isLeaf nx then
                rbind (if \<not> isLeaf replacement then set_innerKeybyte nextkey replacement else Inr replacement) (\<lambda>r.
                rbind (inode_replace (Node n) idx (Some r) False) (\<lambda>(nd, old).
                  Inr (Inner (compressed n) (SubN n + 1) nd (innerKeybyte n), updated)))
              else
                rbind (inode_replace (Node n) idx (Some replacement) False) (\<lambda>(nd, old).
                  Inr (Inner (compressed n) (SubN n + 1) nd (innerKeybyte n), updated)))))"
  by pat_completeness auto
termination
  by (relation "measure (case_sum (\<lambda>(a, _, _). size a) (\<lambda>(n, _, _). size_inner size n))")
    (auto dest!: child_slot size_kid_slot size_binner)

declare bnode_insert.simps [simp del] inner_insert.simps [simp del]

section \<open>Keys that can be stored together\<close>

text \<open>
  A key followed by a zero byte must not be the beginning of another key: the zero is what ends
  a key in the tree.
\<close>

definition key_compat :: "key \<Rightarrow> key \<Rightarrow> bool" where
  "key_compat K L \<longleftrightarrow> \<not> prefix (K @ [0]) L \<and> \<not> prefix (L @ [0]) K"

definition compat_with :: "bnode \<Rightarrow> key \<Rightarrow> bool" where
  "compat_with b K \<longleftrightarrow> (\<forall>l \<in> set (leaves b). key_compat (Key l) K)"

lemma key_compat_refl [simp]: "key_compat K K"
  by (auto simp: key_compat_def dest: prefix_length_le)

lemma key_compat_sym: "key_compat K L \<Longrightarrow> key_compat L K"
  by (simp add: key_compat_def)

lemma on_path_real:
  assumes "on_path p K" and "prefix p L" and "key_compat K L"
  shows "prefix p K"
  using assms by (auto simp: on_path_def key_compat_def)

lemma on_path_both:
  assumes "on_path p K" and "on_path p L" and "key_compat K L" and "K \<noteq> L"
  shows "prefix p K"
  using assms by (auto simp: on_path_def key_compat_def)

text \<open>Where two such keys differ first, so do the bytes read there.\<close>

lemma lcp_split:
  "\<exists>x' y'. x = longest_common_prefix x y @ x' \<and> y = longest_common_prefix x y @ y' \<and>
      (x' = [] \<or> y' = [] \<or> hd x' \<noteq> hd y')"
  by (induction x y rule: longest_common_prefix.induct) auto

lemma key_At_append: "key_At (p @ x) (int (length p)) = (if x = [] then 0 else hd x)"
  by (cases x) (simp_all add: key_At_def nth_append)

lemma key_At_end [simp]: "key_At K (int (length K)) = 0"
  by (simp add: key_At_def)

lemma lcp_bytes_differ:
  assumes "K = p @ x" and "L = p @ y" and "key_compat K L" and "K \<noteq> L"
  shows "key_At K (int (length p + length (longest_common_prefix x y))) \<noteq>
    key_At L (int (length p + length (longest_common_prefix x y)))"
proof -
  let ?c = "longest_common_prefix x y"
  obtain x' y' where x: "x = ?c @ x'" and y: "y = ?c @ y'" and d: "x' = [] \<or> y' = [] \<or> hd x' \<noteq> hd y'"
    using lcp_split [of x y] by blast
  obtain q where q: "q = p @ ?c" by blast
  have K: "K = q @ x'" and L: "L = q @ y'" using assms(1,2) x y q by simp_all
  have "key_At K (int (length q)) \<noteq> key_At L (int (length q))"
  proof (cases "x' = [] \<or> y' = []")
    case True
    then show ?thesis
      using assms(3,4) K L by (cases x'; cases y') (auto simp: key_At_append key_compat_def prefix_def)
  next
    case False
    with d K L show ?thesis by (simp add: key_At_append)
  qed
  then show ?thesis using q by simp
qed

section \<open>What insertion does\<close>

text \<open>The leaves as a set, up to the key byte that an insertion writes into the new leaf.\<close>

definition unkeyed :: "leaf \<Rightarrow> leaf" where
  "unkeyed l = l\<lparr>Keybyte := 0\<rparr>"

lemma Key_unkeyed [simp]: "Key (unkeyed l) = Key l" "lf_addr (unkeyed l) = lf_addr l" "Value (unkeyed l) = Value l"
  by (simp_all add: unkeyed_def)

lemma unkeyed_Keybyte [simp]: "unkeyed (l\<lparr>Keybyte := k\<rparr>) = unkeyed l"
  by (simp add: unkeyed_def)

definition uleaves :: "bnode \<Rightarrow> leaf set" where
  "uleaves b = unkeyed ` set (leaves b)"

definition ukids :: "(byte \<Rightarrow> bnode option) \<Rightarrow> leaf set" where
  "ukids f = (\<Union>(k, c) \<in> {(k, c). f k = Some c}. uleaves c)"

lemma uleaves_inner: "\<not> isLeaf b \<Longrightarrow> binner b = Some n \<Longrightarrow> uleaves b = ukids (inode_kid (Node n))"
  by (auto simp: uleaves_def ukids_def leaves_inner' set_kids_leaves)

lemma uleaves_leaf: "isLeaf b \<Longrightarrow> bleaf b = Some l \<Longrightarrow> uleaves b = {unkeyed l}"
  by (simp add: uleaves_def leaves_leaf)

lemma uleaves_bnodeLeaf [simp]: "uleaves (bnodeLeaf l) = {unkeyed l}"
  by (simp add: uleaves_def)

lemma uleaves_set_pren [simp]: "uleaves (set_pren p b) = uleaves b"
  by (simp add: uleaves_def)

lemma keys_uleaves: "keys_of b = Key ` uleaves b"
  by (simp add: uleaves_def image_image)

lemma mem_ukids: "l \<in> ukids f \<longleftrightarrow> (\<exists>k c. f k = Some c \<and> l \<in> uleaves c)"
  by (auto simp: ukids_def)

lemma ukids_erase: "ukids (erase f) = ukids f"
proof -
  have "l \<in> ukids (erase f) \<longleftrightarrow> l \<in> ukids f" for l
    unfolding mem_ukids erase_def map_option_eq_Some by (metis uleaves_set_pren)
  then show ?thesis by blast
qed

lemma ukids_cong: "erase f = erase g \<Longrightarrow> ukids f = ukids g"
  by (metis ukids_erase)

lemma ukids_upd: "ukids (f(k \<mapsto> c)) = ukids (f(k := None)) \<union> uleaves c"
proof -
  have "l \<in> ukids (f(k \<mapsto> c)) \<longleftrightarrow> l \<in> ukids (f(k := None)) \<or> l \<in> uleaves c" for l
    unfolding mem_ukids fun_upd_apply by (metis option.distinct(1) option.inject)
  then show ?thesis by blast
qed

lemma ukids_two: "ukids [j \<mapsto> c, k \<mapsto> d] = (if j = k then {} else uleaves c) \<union> uleaves d"
  by (auto simp: mem_ukids split: if_splits)

lemma wft_length: "wft p b \<Longrightarrow> length (leaves b) = card (keys_of b)"
proof -
  assume "wft p b"
  then have "distinct (map Key (leaves b))" using wft_sorted strict_sorted_iff by blast
  then show ?thesis using distinct_card [of "map Key (leaves b)"] by simp
qed

text \<open>The keys below the other children differ from a key that leads to \<open>k\<close>.\<close>

lemma ukids_other:
  assumes "kids_wft q f" and "key_At K (int (length q)) = k"
  shows "{l \<in> ukids f. Key l \<noteq> K} = ukids (f(k := None)) \<union> (case f k of None \<Rightarrow> {} | Some c \<Rightarrow> {l \<in> uleaves c. Key l \<noteq> K})"
proof -
  have "Key l \<noteq> K" if "l \<in> ukids (f(k := None))" for l
  proof -
    from that obtain j c where j: "j \<noteq> k" "f j = Some c" "l \<in> uleaves c" by (auto simp: mem_ukids split: if_splits)
    then have "wft (q @ [j]) c" using assms(1) by (simp add: kids_wft_def)
    with j(3) have "on_path (q @ [j]) (Key l)" using wft_leaves_path by (auto simp: uleaves_def)
    then have "key_At (Key l) (int (length q)) = j" by (simp add: on_path_snoc)
    with j(1) assms(2) show "Key l \<noteq> K" by blast
  qed
  moreover have "ukids f = ukids (f(k := None)) \<union> (case f k of None \<Rightarrow> {} | Some c \<Rightarrow> uleaves c)"
  proof (cases "f k")
    case (Some c)
    with ukids_upd [of f k c] show ?thesis by (simp add: fun_upd_idem)
  qed (simp add: fun_upd_idem)
  ultimately show ?thesis by (auto split: option.splits)
qed

text \<open>The new \<open>node4\<close> with two children that a split makes.\<close>

lemma node4_two:
  assumes "j \<noteq> k"
  shows "\<exists>n1 n2. inode_addChild (N4 node4_new) j c = Inr n1 \<and> inode_addChild n1 k d = Inr n2 \<and>
    inode_ok n2 \<and> fit n2 \<and> erase (inode_kid n2) = [j \<mapsto> set_pren 0 c, k \<mapsto> set_pren 0 d] \<and> prens_ok (inode_kid n2)"
proof -
  let ?n0 = "N4 node4_new :: bnode inode"
  have n0: "inode_ok ?n0" "inode_kid ?n0 = Map.empty" "\<not> inode_full ?n0"
    using node4_new_ok by (simp_all add: resize_defs node4_new_def)
  from ndw.add_law [OF n0(1) _ n0(3), of j c] n0(2) obtain n1 where n1: "inode_addChild ?n0 j c = Inr n1" "inode_ok n1"
    "erase (inode_kid n1) = (erase (inode_kid ?n0))(j \<mapsto> set_pren 0 c)" by auto
  then have e1: "erase (inode_kid n1) = [j \<mapsto> set_pren 0 c]" using n0(2) by (simp add: erase_def fun_eq_iff)
  then have k1: "inode_kid n1 k = None" using assms by (metis erase_None fun_upd_other)
  have k1': "inode_Kind n1 = Node4" using addChild_Kind [OF n1(1)] by simp
  have "length (entries_of (inode_kid n1)) = length (entries_of [j \<mapsto> set_pren 0 c])"
    by (simp only: e1 [symmetric] length_entries_erase)
  also have "\<dots> = 1"
    using length_entries_upd [of Map.empty j "set_pren 0 c"] entries_eq_Nil [of "Map.empty :: byte \<Rightarrow> bnode option"]
    by (simp only: list.size) simp
  finally have c1: "inode_nchild n1 = 1" using nd.nchild_law [OF n1(2)] by simp
  with k1' have "\<not> inode_full n1" by (cases n1) (auto simp: resize_defs)
  from ndw.add_law [OF n1(2) k1 this, of d] obtain n2 where n2: "inode_addChild n1 k d = Inr n2" "inode_ok n2"
    "erase (inode_kid n2) = (erase (inode_kid n1))(k \<mapsto> set_pren 0 d)" "prens_ok (inode_kid n2)" by auto
  have "length (entries_of (inode_kid n2)) = length (entries_of ((erase (inode_kid n1))(k \<mapsto> set_pren 0 d)))"
    by (simp only: n2(3) [symmetric] length_entries_erase)
  also have "\<dots> = Suc (length (entries_of (inode_kid n1)))"
    using k1 by (simp add: length_entries_upd length_entries_erase)
  finally have "inode_nchild n2 = 2" using nd.nchild_law [OF n2(2)] nd.nchild_law [OF n1(2)] c1 by simp
  with addChild_Kind [OF n2(1)] k1' have "fit n2" by (simp add: fit_def)
  with n1(1) n2 e1 show ?thesis by auto
qed

subsection \<open>The postcondition\<close>

text \<open>
  After the insertion of \<open>lf\<close> below \<open>p\<close>: the shape is kept; the leaves are the old ones without
  the one that had the key, and \<open>lf\<close>; the flag says that a different leaf was replaced; the
  counts are kept when the key is new, and the cached sums when it is above all keys.
\<close>

definition same_pointer :: "bnode \<Rightarrow> leaf \<Rightarrow> bool" where
  "same_pointer b lf \<longleftrightarrow> (\<forall>l \<in> set (leaves b). lf_addr l = lf_addr lf \<longrightarrow> unkeyed l = unkeyed lf)"

definition ins_post :: "byte list \<Rightarrow> bnode \<Rightarrow> leaf \<Rightarrow> bnode \<Rightarrow> bool \<Rightarrow> bool" where
  "ins_post p b lf b' u \<longleftrightarrow> wft p b' \<and>
     uleaves b' = insert (unkeyed lf) {l \<in> uleaves b. Key l \<noteq> Key lf} \<and>
     (u \<longleftrightarrow> (\<exists>l \<in> uleaves b. Key l = Key lf \<and> lf_addr l \<noteq> lf_addr lf)) \<and>
     (Key lf \<notin> keys_of b \<longrightarrow> pren b' = pren b \<and> (counted b \<longrightarrow> counted b')) \<and>
     (cached b \<and> counted b \<and> (\<forall>K \<in> keys_of b. K < Key lf) \<longrightarrow> cached b')"

lemma ins_post_length:
  assumes "wft p b" and "ins_post p b lf b' u" and "Key lf \<notin> keys_of b"
  shows "length (leaves b') = Suc (length (leaves b))"
proof -
  have "{l \<in> uleaves b. Key l \<noteq> Key lf} = uleaves b" using assms(3) unfolding keys_uleaves by (force simp: image_iff)
  then have "keys_of b' = insert (Key lf) (keys_of b)" using assms(2) by (simp add: ins_post_def keys_uleaves)
  moreover have "wft p b'" using assms(2) by (simp add: ins_post_def)
  ultimately show ?thesis using wft_length [OF assms(1)] wft_length [of p b'] assms(3) by simp
qed

text \<open>An inner node from the facts about its children, up to the cached sums.\<close>

lemma inner_build:
  assumes "\<not> isLeaf b" and "binner b = Some n" and "inode_ok (Node n)" and "fit (Node n)"
    and e: "erase (inode_kid (Node n)) = erase f" and kw: "kids_wft (p @ compressed n) f"
  shows "wft p b" and "uleaves b = ukids f" and "keys_of b = Key ` ukids f"
    and "kids_all counted f \<Longrightarrow> SubN n = int (length (leaves b)) \<Longrightarrow> counted b"
    and "kids_all cached f \<Longrightarrow> prens_ok (inode_kid (Node n)) \<Longrightarrow> cached b"
proof -
  show "wft p b" using assms kids_wft_cong [OF e] by (simp add: wft_inner_iff)
  show "uleaves b = ukids f" using uleaves_inner [OF assms(1,2)] ukids_cong [OF e] by simp
  then show "keys_of b = Key ` ukids f" by (simp add: keys_uleaves)
  show "kids_all counted f \<Longrightarrow> SubN n = int (length (leaves b)) \<Longrightarrow> counted b"
    using assms kids_all_cong [of counted, OF _ e] by (simp add: counted_iff)
  show "kids_all cached f \<Longrightarrow> prens_ok (inode_kid (Node n)) \<Longrightarrow> cached b"
    using assms kids_all_cong [of cached, OF _ e] by (simp add: cached_iff)
qed

lemma kids_two:
  assumes "j \<noteq> k"
  shows "kids_wft q [j \<mapsto> c, k \<mapsto> d] \<longleftrightarrow> wft (q @ [j]) c \<and> wft (q @ [k]) d"
    and "kids_all P [j \<mapsto> c, k \<mapsto> d] \<longleftrightarrow> P c \<and> P d"
  using assms by (auto simp: kids_wft_def kids_all_def)

subsection \<open>At a leaf\<close>

lemma leaf_insert_post:
  assumes b: "isLeaf b" "bleaf b = Some l" and p: "on_path p (Key l)" "on_path p (Key lf)"
    and co: "key_compat (Key l) (Key lf)" and ptr: "same_pointer b lf"
  shows "\<exists>b' u. leaf_insert l lf (int (length p)) b = Inr (b', u) \<and> ins_post p b lf b' u \<and>
    (\<not> isLeaf b' \<longrightarrow> binner b' \<noteq> None)"
proof -
  have wf: "wft p b" using wft_leaf [OF b p(1)] .
  have ul: "uleaves b = {unkeyed l}" and kl: "keys_of b = {Key l}" using b by (simp_all add: uleaves_leaf leaves_leaf)
  consider (same) "lf_addr l = lf_addr lf" | (update) "lf_addr l \<noteq> lf_addr lf" "Key l = Key lf"
    | (split) "lf_addr l \<noteq> lf_addr lf" "Key l \<noteq> Key lf" by blast
  then show ?thesis
  proof cases
    case same
    with ptr b have u: "unkeyed l = unkeyed lf" by (simp add: same_pointer_def leaves_leaf)
    then have "Key l = Key lf" by (metis Key_unkeyed(1))
    with same u wf ul b show ?thesis by (auto simp: leaf_insert_def ins_post_def)
  next
    case update
    with p ul kl show ?thesis by (auto simp: leaf_insert_def ins_post_def cached_leaf)
  next
    case split
    have pl: "prefix p (Key l)" "prefix p (Key lf)"
      using on_path_both [OF p co split(2)] on_path_both [OF p(2,1) key_compat_sym [OF co]] split(2) by auto
    then obtain x y where xy: "Key l = p @ x" "Key lf = p @ y" by (auto simp: prefix_def)
    let ?c = "longest_common_prefix x y"
    let ?q = "p @ ?c"
    have cp: "comparePrefix (Key l) (Key lf) (int (length p)) = int (length ?c)"
      by (rule comparePrefix_common [OF xy])
    have comp: "(if int (length ?c) > 0 then take (nat (int (length ?c))) (drop (nat (int (length p))) (Key l)) else []) = ?c"
      using xy(1) longest_common_prefix_prefix1 [of x y] by (auto simp: prefix_def take_is_prefix)
        (metis append_eq_conv_conj)
    let ?j = "key_At (Key l) (int (length ?q))" and ?k = "key_At (Key lf) (int (length ?q))"
    have jk: "?j \<noteq> ?k" using lcp_bytes_differ [OF xy co split(2)] by simp
    obtain n1 n2 where n: "inode_addChild (N4 node4_new) ?j (bnodeLeaf l) = Inr n1"
      "inode_addChild n1 ?k (bnodeLeaf lf) = Inr n2" "inode_ok n2" "fit n2"
      "erase (inode_kid n2) = [?j \<mapsto> set_pren 0 (bnodeLeaf l), ?k \<mapsto> set_pren 0 (bnodeLeaf lf)]" "prens_ok (inode_kid n2)"
      using node4_two [OF jk] by blast
    let ?b = "BNode (bleaf b) (Some (Inner ?c 2 n2 0)) False (pren b)"
    have r: "leaf_insert l lf (int (length p)) b = Inr (?b, False)"
      using split n(1,2) comp by (simp add: leaf_insert_def Let_def cp)
    let ?f = "[?j \<mapsto> bnodeLeaf l, ?k \<mapsto> bnodeLeaf lf]"
    have e: "erase (inode_kid n2) = erase ?f" using n(5) by (simp add: erase_def fun_eq_iff)
    have pq: "prefix ?q (Key l)" "prefix ?q (Key lf)"
      using xy longest_common_prefix_prefix1 [of x y] longest_common_prefix_prefix2 [of x y] by simp_all
    then have kw: "kids_wft ?q ?f" using jk by (simp add: kids_two on_path_snoc del: append_assoc)
    let ?n = "Inner ?c 2 n2 0"
    have bn: "\<not> isLeaf ?b" "binner ?b = Some ?n" by simp_all
    have nf: "inode_ok (Node ?n)" "fit (Node ?n)" "erase (inode_kid (Node ?n)) = erase ?f"
      "kids_wft (p @ compressed ?n) ?f" "prens_ok (inode_kid (Node ?n))"
      using n(3,4,6) e kw by (simp_all only: inner.sel)
    note ib = inner_build [OF bn nf(1-4)]
    have ul': "uleaves ?b = {unkeyed l, unkeyed lf}" using ib(2) jk by (simp add: ukids_two insert_commute)
    have len: "length (leaves ?b) = 2" using wft_length [OF ib(1)] ul' split(2) by (simp add: keys_uleaves)
    have "ins_post p b lf ?b False"
      using ib(1) ib(4,5) [unfolded kids_two [OF jk]] ul' ul kl split(2) len nf(5)
      by (auto simp: ins_post_def counted_leaf cached_leaf)
    with r show ?thesis by auto
  qed
qed

subsection \<open>At an inner node\<close>

lemma mem_uleaves_path: "wft p b \<Longrightarrow> l \<in> uleaves b \<Longrightarrow> on_path p (Key l)"
  using wft_leaves_path by (auto simp: uleaves_def)

lemma some_leaf: "wft p b \<Longrightarrow> \<exists>l. l \<in> set (leaves b)"
  using wft_leaves_nonempty by (metis last_in_set)

lemma insert_path_prefix:
  assumes wf: "wft p b" and b: "\<not> isLeaf b" "binner b = Some n" and p: "on_path p K" and co: "compat_with b K"
  shows "prefix p K"
proof -
  obtain l where l: "l \<in> set (leaves b)" using some_leaf [OF wf] by blast
  with wft_inner_prefix [OF wf b] have "prefix (p @ compressed n) (Key l)" by blast
  then have "prefix p (Key l)" by (auto simp: prefix_def)
  moreover have "key_compat K (Key l)" using co l by (auto simp: compat_with_def intro: key_compat_sym)
  ultimately show ?thesis using on_path_real [OF p] by blast
qed

lemma split_at_parts:
  "xs = d @ a # e \<Longrightarrow> drop (nat (int (length d)) + 1) xs = e \<and> take (nat (int (length d))) xs = d \<and>
   at_idx xs (int (length d)) = Inr a"
  by (simp add: at_idx_def)

lemma inner_split_post:
  assumes wf: "wft p b" and b: "\<not> isLeaf b" "binner b = Some n" and p: "on_path p (Key lf)"
    and co: "compat_with b (Key lf)" and mis: "compressedMismatch n (Key lf) (int (length p)) < int (length (compressed n))"
  shows "\<exists>n'. inner_split n lf (int (length p)) (compressedMismatch n (Key lf) (int (length p))) = Inr n' \<and>
    ins_post p b lf (set_inner b n') False"
proof -
  let ?K = "Key lf"
  obtain x where x: "?K = p @ x" using insert_path_prefix [OF wf b p co] by (auto simp: prefix_def)
  let ?d = "longest_common_prefix (compressed n) x"
  let ?q = "p @ ?d"
  have m: "compressedMismatch n ?K (int (length p)) = int (length ?d)" using x by (rule compressedMismatch_rest)
  with mis have lt: "length ?d < length (compressed n)" by simp
  obtain c' x' where c': "compressed n = ?d @ c'" and x': "x = ?d @ x'" and hd: "c' = [] \<or> x' = [] \<or> hd c' \<noteq> hd x'"
    using lcp_split [of "compressed n" x] by blast
  have "length c' = length (compressed n) - length ?d" using c' by (metis length_append add_diff_cancel_left')
  with lt obtain ck c2 where ck: "c' = ck # c2" by (cases c') auto
  let ?k = "key_At ?K (int (length ?q))"
  have K: "?K = ?q @ x'" using x x' by simp
  obtain l where l: "l \<in> set (leaves b)" using some_leaf [OF wf] by blast
  have lq: "prefix (?q @ [ck]) (Key l')" if "l' \<in> set (leaves b)" for l'
  proof -
    have "p @ compressed n = (?q @ [ck]) @ c2"
      using c' ck by (metis append.assoc append_Cons append_Nil)
    then show ?thesis using wft_inner_prefix [OF wf b that] by (metis append_prefixD)
  qed
  have kq: "?k = (if x' = [] then 0 else hd x')"
    by (simp only: K key_At_append)
  have kk: "?k \<noteq> ck"
  proof (cases x')
    case Nil
    have "key_compat ?K (Key l)" using co l by (auto simp: compat_with_def intro: key_compat_sym)
    with lq [OF l] K Nil have "ck \<noteq> 0" by (auto simp: key_compat_def)
    moreover have "?k = 0" using kq Nil by simp
    ultimately show ?thesis by simp
  next
    case (Cons a x'')
    then have "?k = a" using kq by simp
    with hd ck Cons show ?thesis by simp
  qed
  have notin: "?K \<notin> keys_of b"
  proof
    assume "?K \<in> keys_of b"
    with lq have "prefix (?q @ [ck]) ?K" by auto
    then have "?k = ck" unfolding K by (auto simp: prefix_def key_At_def nth_append)
    with kk show False ..
  qed
  let ?nc = "Inner c2 (SubN n) (Node n) ck"
  let ?lf = "lf\<lparr>Keybyte := ?k\<rparr>"
  obtain n1 n2 where n: "inode_addChild (N4 node4_new) ?k (bnodeLeaf ?lf) = Inr n1"
    "inode_addChild n1 ck (bnodeInner ?nc) = Inr n2" "inode_ok n2" "fit n2"
    "erase (inode_kid n2) = [?k \<mapsto> set_pren 0 (bnodeLeaf ?lf), ck \<mapsto> set_pren 0 (bnodeInner ?nc)]" "prens_ok (inode_kid n2)"
    using node4_two [OF kk] by blast
  let ?n = "Inner ?d (SubN n + 1) n2 (innerKeybyte n)"
  let ?b = "set_inner b ?n" and ?f = "[?k \<mapsto> bnodeLeaf ?lf, ck \<mapsto> bnodeInner ?nc]"
  have "drop (nat (int (length ?d)) + 1) (compressed n) = c2" "take (nat (int (length ?d))) (compressed n) = ?d"
    "at_idx (compressed n) (int (length ?d)) = Inr ck"
    using split_at_parts [of "compressed n" ?d ck c2] c' ck by simp_all
  with n(1,2) have r: "inner_split n lf (int (length p)) (compressedMismatch n ?K (int (length p))) = Inr ?n"
    by (simp add: inner_split_def Let_def m)
  have nc: "\<not> isLeaf (bnodeInner ?nc)" "binner (bnodeInner ?nc) = Some ?nc" by simp_all
  have old: "leaves (bnodeInner ?nc) = leaves b" using b nc by (simp add: leaves_inner')
  have wf': "wft (?q @ [ck]) (bnodeInner ?nc)"
    using wf b nc c' ck by (simp add: wft_inner_iff)
  have kw: "kids_wft ?q ?f"
    using kk wf' K by (simp add: kids_two on_path_snoc del: append_assoc)
  have bn: "\<not> isLeaf ?b" "binner ?b = Some ?n" using b(1) by simp_all
  have nf: "inode_ok (Node ?n)" "fit (Node ?n)" "erase (inode_kid (Node ?n)) = erase ?f"
    "kids_wft (p @ compressed ?n) ?f" "prens_ok (inode_kid (Node ?n))"
    using n(3-6) kw by (simp_all add: erase_def fun_eq_iff)
  note ib = inner_build [OF bn nf(1-4)]
  have ul: "uleaves ?b = insert (unkeyed lf) (uleaves b)"
    using ib(2) kk old by (simp add: ukids_two uleaves_def)
  have old': "{l \<in> uleaves b. Key l \<noteq> ?K} = uleaves b"
    using notin unfolding keys_uleaves by (force simp: image_iff)
  have cnt: "counted (bnodeInner ?nc)" if "counted b"
    using that b nc old by (simp add: counted_iff)
  have cch: "cached (bnodeInner ?nc)" if "cached b"
    using that b nc by (simp add: cached_iff)
  have sub: "SubN ?n = int (length (leaves ?b))" if "counted b"
  proof -
    have "keys_of ?b = insert ?K (keys_of b)" using ul by (simp add: keys_uleaves)
    then have "length (leaves ?b) = Suc (length (leaves b))"
      using wft_length [OF ib(1)] wft_length [OF wf] notin by simp
    moreover have "SubN n = int (length (leaves b))" using that b by (simp add: counted_iff)
    ultimately show ?thesis by simp
  qed
  have "ins_post p b lf ?b False"
    unfolding ins_post_def
    using ib(1) ul old' notin ib(4,5) [unfolded kids_two [OF kk]] cnt cch sub nf(5)
    by (auto simp: counted_leaf cached_leaf keys_uleaves)
  with r show ?thesis by blast
qed

lemma presum_upd_below: "\<not> k < j \<Longrightarrow> presum (f(k \<mapsto> r)) j = presum f j"
  by (rule presum_cong) auto

text \<open>A key above all keys of a node leads to its last child, or past it.\<close>

lemma greatest_path:
  assumes "kids_wft q f" and "on_path (q @ [k]) K" and "\<forall>l \<in> ukids f. Key l < K" and "f j = Some c"
  shows "j \<le> k"
proof (rule ccontr)
  assume "\<not> j \<le> k"
  then have jk: "k < j" by simp
  have w: "wft (q @ [j]) c" using assms(1,4) by (simp add: kids_wft_def)
  obtain l where l: "l \<in> set (leaves c)" using some_leaf [OF w] by blast
  then have u: "unkeyed l \<in> uleaves c" by (simp add: uleaves_def)
  with assms(4) have "unkeyed l \<in> ukids f" by (auto simp: mem_ukids)
  with assms(3) have "Key (unkeyed l) < K" by blast
  moreover have "K < Key (unkeyed l)"
    using on_path_lt [OF assms(2) _ jk] mem_uleaves_path [OF w u] by blast
  ultimately show False by simp
qed

lemma inner_addLeaf_post:
  assumes wf: "wft p b" and b: "\<not> isLeaf b" "binner b = Some n" and q: "prefix (p @ compressed n) (Key lf)"
    and none: "inode_kid (Node n) (key_At (Key lf) (int (length (p @ compressed n)))) = None"
  shows "\<exists>n'. inner_addLeaf n lf (int (length (p @ compressed n))) = Inr n' \<and> ins_post p b lf (set_inner b n') False"
proof -
  let ?q = "p @ compressed n" and ?K = "Key lf" and ?f = "inode_kid (Node n)"
  let ?k = "key_At ?K (int (length ?q))"
  let ?lf = "lf\<lparr>Keybyte := ?k\<rparr>"
  have ok: "inode_ok (Node n)" "fit (Node n)" and kw: "kids_wft ?q ?f" using wf b by (simp_all add: wft_inner_iff)
  obtain nd1 nd' where a: "(if inode_full (Node n) then rbind (inode_grow (Node n)) deref else Inr (Node n)) = Inr nd1"
    "inode_addChild nd1 ?k (bnodeLeaf ?lf) = Inr nd'" and nd': "inode_ok nd'" "fit nd'"
    "erase (inode_kid nd') = (erase ?f)(?k \<mapsto> set_pren 0 (bnodeLeaf ?lf))" "prens_ok (inode_kid nd')"
    using inode_add [OF ok none, of "bnodeLeaf ?lf"] by blast
  let ?n = "Inner (compressed n) (SubN n + 1) nd' (innerKeybyte n)"
  let ?b = "set_inner b ?n" and ?g = "?f(?k \<mapsto> bnodeLeaf ?lf)"
  have r: "inner_addLeaf n lf (int (length ?q)) = Inr ?n"
    using a by (simp add: inner_addLeaf_def Let_def)
  have notin: "?K \<notin> keys_of b" using keys_of_inner [OF wf b] none by auto
  have "on_path (?q @ [?k]) ?K" using q by (simp only: on_path_snoc)
  then have kw': "kids_wft (p @ compressed ?n) ?g" using kw by (simp add: kids_wft_upd)
  have bn: "\<not> isLeaf ?b" "binner ?b = Some ?n" using b(1) by simp_all
  have nf: "inode_ok (Node ?n)" "fit (Node ?n)" "erase (inode_kid (Node ?n)) = erase ?g" "prens_ok (inode_kid (Node ?n))"
    using nd' by simp_all
  note ib = inner_build [OF bn nf(1-3) kw']
  have "?f(?k := None) = ?f" using none by (simp add: fun_upd_idem)
  then have ul: "uleaves ?b = insert (unkeyed lf) (uleaves b)"
    using ib(2) uleaves_inner [OF b] by (simp add: ukids_upd)
  have old: "{l \<in> uleaves b. Key l \<noteq> ?K} = uleaves b"
    using notin unfolding keys_uleaves by (force simp: image_iff)
  have sub: "SubN ?n = int (length (leaves ?b))" if "counted b"
  proof -
    have "keys_of ?b = insert ?K (keys_of b)" using ul by (simp add: keys_uleaves)
    then have "length (leaves ?b) = Suc (length (leaves b))"
      using wft_length [OF ib(1)] wft_length [OF wf] notin by simp
    moreover have "SubN n = int (length (leaves b))" using that b by (simp add: counted_iff)
    ultimately show ?thesis by simp
  qed
  have cnt: "kids_all counted ?g" if "counted b"
    using that b by (intro kids_all_upd) (simp_all add: counted_iff counted_leaf)
  have cch: "kids_all cached ?g" if "cached b"
    using that b by (intro kids_all_upd) (simp_all add: cached_iff cached_leaf)
  have "ins_post p b lf ?b False"
    unfolding ins_post_def using ib(1,4,5) ul old notin cnt cch sub nf(4) by (auto simp: keys_uleaves)
  with r show ?thesis by blast
qed

lemma set_innerKeybyte_post:
  assumes "ins_post p b lf r u" and "set_innerKeybyte k r = Inr r'" and "\<not> isLeaf r"
  shows "ins_post p b lf r' u"
proof -
  from assms(2) obtain m where m: "binner r = Some m"
    and r': "r' = set_inner r (Inner (compressed m) (SubN m) (Node m) k)"
    by (auto simp: set_innerKeybyte_def rbind_eq_Inr)
  have i: "\<not> isLeaf r'" "binner r' = Some (Inner (compressed m) (SubN m) (Node m) k)" "pren r' = pren r"
    using r' assms(3) by simp_all
  have "wft p r' \<longleftrightarrow> wft p r" using wft_inner_iff [OF assms(3) m] wft_inner_iff [OF i(1,2)] by simp
  moreover have l: "leaves r' = leaves r" using leaves_inner' [OF assms(3) m] leaves_inner' [OF i(1,2)] by simp
  moreover have "counted r' \<longleftrightarrow> counted r" using counted_iff [OF assms(3) m] counted_iff [OF i(1,2)] l by simp
  moreover have "cached r' \<longleftrightarrow> cached r" using cached_iff [OF assms(3) m] cached_iff [OF i(1,2)] by simp
  moreover have "uleaves r' = uleaves r" using l by (simp add: uleaves_def)
  ultimately show ?thesis using assms(1) i(3) by (simp add: ins_post_def)
qed

lemma inner_child_post:
  assumes wf: "wft p b" and b: "\<not> isLeaf b" "binner b = Some n" and q: "prefix (p @ compressed n) (Key lf)"
    and k: "key_At (Key lf) (int (length (p @ compressed n))) = k"
    and c: "inode_kid (Node n) k = Some c" "inode_child (Node n) k = Inr (i, Some c)"
    and r: "ins_post (p @ compressed n @ [k]) c lf r u"
  shows "\<exists>nd. inode_replace (Node n) i (Some r) False = Inr (nd, Some c) \<and>
    ins_post p b lf (set_inner b (Inner (compressed n) (SubN n + 1) nd (innerKeybyte n))) u"
proof -
  let ?q = "p @ compressed n" and ?K = "Key lf" and ?f = "inode_kid (Node n)"
  have ok: "inode_ok (Node n)" "fit (Node n)" and kw: "kids_wft ?q ?f" using wf b by (simp_all add: wft_inner_iff)
  obtain nd where rep: "inode_replace (Node n) i (Some r) False = Inr (nd, Some c)" and nd: "inode_ok nd"
    "inode_kid nd = ?f(k \<mapsto> r)"
    using ndw.write_through [OF ok(1) c(2), of r] by blast
  have "length (entries_of (?f(k \<mapsto> r))) = length (entries_of ?f)"
    using c(1) length_entries_upd [of "?f(k := None)" k r] length_entries_del [of ?f k c] by simp
  then have fit: "fit nd"
    using ok nd replace_Kind [OF rep] nd.nchild_law [OF ok(1)] nd.nchild_law [OF nd(1)] by (simp add: fit_def)
  let ?n = "Inner (compressed n) (SubN n + 1) nd (innerKeybyte n)"
  let ?b = "set_inner b ?n" and ?g = "?f(k \<mapsto> r)"
  from r have r1: "wft (?q @ [k]) r" by (simp add: ins_post_def)
  have bn: "\<not> isLeaf ?b" "binner ?b = Some ?n" using b(1) by simp_all
  have nf: "inode_ok (Node ?n)" "fit (Node ?n)" "erase (inode_kid (Node ?n)) = erase ?g" "kids_wft (p @ compressed ?n) ?g"
    using nd fit kids_wft_upd [OF kw r1] by simp_all
  note ib = inner_build [OF bn nf]
  have path: "on_path (?q @ [k]) ?K" using q k by (simp only: on_path_snoc)
  have "{l \<in> uleaves b. Key l \<noteq> ?K} = ukids (?f(k := None)) \<union> {l \<in> uleaves c. Key l \<noteq> ?K}"
    using ukids_other [OF kw k] c(1) uleaves_inner [OF b] by simp
  then have ul: "uleaves ?b = insert (unkeyed lf) {l \<in> uleaves b. Key l \<noteq> ?K}"
    using ib(2) r by (auto simp: ukids_upd ins_post_def)
  have sub: "uleaves c \<subseteq> uleaves b"
    unfolding uleaves_inner [OF b] subset_eq mem_ukids using c(1) by blast
  have here: "l \<in> uleaves c" if "l \<in> uleaves b" "Key l = ?K" for l
  proof -
    from that(1) obtain j d where j: "?f j = Some d" "l \<in> uleaves d" using uleaves_inner [OF b] by (auto simp: mem_ukids)
    then have "wft (?q @ [j]) d" using kw by (simp add: kids_wft_def)
    with j(2) have "on_path (?q @ [j]) (Key l)" by (rule mem_uleaves_path [rotated])
    then have "j = k" using that(2) k by (simp only: on_path_snoc)
    with j c(1) show ?thesis by simp
  qed
  have upd: "u \<longleftrightarrow> (\<exists>l \<in> uleaves b. Key l = ?K \<and> lf_addr l \<noteq> lf_addr lf)"
    using r here sub unfolding ins_post_def by blast
  have fresh: "?K \<notin> keys_of c" if "?K \<notin> keys_of b" using that sub by (auto simp: keys_uleaves)
  have cnt: "counted ?b" if "counted b" "?K \<notin> keys_of b"
  proof (rule ib(4))
    show "kids_all counted ?g"
      using that b r fresh c(1) by (intro kids_all_upd) (auto simp: counted_iff ins_post_def kids_all_def)
    have "{l \<in> uleaves b. Key l \<noteq> ?K} = uleaves b" using that(2) unfolding keys_uleaves by (force simp: image_iff)
    then have "keys_of ?b = insert ?K (keys_of b)" using ul by (simp add: keys_uleaves)
    then have "length (leaves ?b) = Suc (length (leaves b))"
      using wft_length [OF ib(1)] wft_length [OF wf] that(2) by simp
    then show "SubN ?n = int (length (leaves ?b))" using that(1) b by (simp add: counted_iff)
  qed
  have cch: "cached ?b" if "cached b" "counted b" "\<forall>L \<in> keys_of b. L < ?K"
  proof (rule ib(5))
    have lt: "\<forall>L \<in> keys_of c. L < ?K" using that(3) sub by (auto simp: keys_uleaves)
    then have r2: "cached r" "pren r = pren c"
      using r that b c(1) by (auto simp: ins_post_def counted_iff cached_iff kids_all_def)
    show "kids_all cached ?g" using that b r2 by (intro kids_all_upd) (simp_all add: cached_iff)
    have po: "prens_ok ?f" using that b by (simp add: cached_iff)
    have last: "j \<le> k" if "?f j = Some d" for j d
      using greatest_path [OF kw path _ that] \<open>\<forall>L \<in> keys_of b. L < ?K\<close> uleaves_inner [OF b] by (simp add: keys_uleaves)
    have "pren d = presum ?g j" if "?g j = Some d" for j d
    proof (cases "j = k")
      case True
      with that r2 po c(1) show ?thesis by (auto simp: prens_ok_def presum_upd_below)
    next
      case False
      with that have "?f j = Some d" by simp
      with last po show ?thesis using False by (auto simp: prens_ok_def presum_upd_below not_less)
    qed
    then show "prens_ok (inode_kid (Node ?n))" using nd by (simp add: prens_ok_def)
  qed
  have "ins_post p b lf ?b u" unfolding ins_post_def using ib(1) ul upd cnt cch by auto
  with rep show ?thesis by blast
qed

subsection \<open>The whole descent\<close>

lemma compat_with_kid:
  "\<not> isLeaf b \<Longrightarrow> binner b = Some n \<Longrightarrow> inode_kid (Node n) k = Some c \<Longrightarrow> compat_with b K \<Longrightarrow> compat_with c K"
  unfolding compat_with_def leaves_inner' set_kids_leaves by blast

lemma same_pointer_kid:
  "\<not> isLeaf b \<Longrightarrow> binner b = Some n \<Longrightarrow> inode_kid (Node n) k = Some c \<Longrightarrow> same_pointer b lf \<Longrightarrow> same_pointer c lf"
  unfolding same_pointer_def leaves_inner' set_kids_leaves by blast

theorem insert_correct:
  assumes "wft p b" and "on_path p (Key lf)" and "compat_with b (Key lf)" and "same_pointer b lf"
  shows "\<exists>b' u. bnode_insert b lf (int (length p)) = Inr (b', u) \<and> ins_post p b lf b' u \<and>
    (\<not> isLeaf b' \<longrightarrow> binner b' \<noteq> None)"
  using assms
proof (induction rule: wft.induct)
  case (wft_leaf b l p)
  then have "key_compat (Key l) (Key lf)" by (simp add: compat_with_def leaves_leaf)
  from leaf_insert_post [OF wft_leaf.hyps(1-3) wft_leaf.prems(1) this wft_leaf.prems(3)] wft_leaf.hyps
  show ?case by (simp add: bnode_insert.simps)
next
  case (wft_inner b n p)
  let ?q = "p @ compressed n" and ?K = "Key lf"
  let ?k = "key_At ?K (int (length ?q))"
  have wf: "wft p b" by (rule wft.intros(2) [OF wft_inner.hyps])
  note b = wft_inner.hyps(1,2)
  have bi: "bnode_insert b lf (int (length p)) = rbind (inner_insert n lf (int (length p)))
      (\<lambda>(n', updated). Inr (set_inner b n', updated))"
    using b by (simp add: bnode_insert.simps)
  have "\<exists>n' u. inner_insert n lf (int (length p)) = Inr (n', u) \<and> ins_post p b lf (set_inner b n') u"
  proof (cases "compressedMismatch n ?K (int (length p)) < int (length (compressed n))")
    case True
    from inner_split_post [OF wf b wft_inner.prems(1,2) True] True show ?thesis
      by (auto simp: inner_insert.simps [of n] Let_def)
  next
    case False
    obtain x where x: "?K = p @ x"
      using insert_path_prefix [OF wf b wft_inner.prems(1,2)] by (auto simp: prefix_def)
    have m: "compressedMismatch n ?K (int (length p)) = int (length (longest_common_prefix (compressed n) x))"
      using x by (rule compressedMismatch_rest)
    have "length (longest_common_prefix (compressed n) x) \<le> length (compressed n)"
      by (simp add: longest_common_prefix_prefix1 prefix_length_le)
    with False m have eq: "length (longest_common_prefix (compressed n) x) = length (compressed n)" by linarith
    then have q: "prefix ?q ?K" using x lcp_eq_prefix by auto
    have d: "int (length p) + compressedMismatch n ?K (int (length p)) = int (length ?q)" using m eq by simp
    obtain i where ch: "inode_child (Node n) ?k = Inr (i, inode_kid (Node n) ?k)"
      using nd.child_law [OF wft_inner.hyps(3)] by blast
    show ?thesis
    proof (cases "inode_kid (Node n) ?k")
      case None
      from inner_addLeaf_post [OF wf b q None] False ch None show ?thesis
        by (auto simp: inner_insert.simps [of n] Let_def d simp del: length_append)
    next
      case (Some c)
      have path: "on_path (?q @ [?k]) ?K" using q by (simp only: on_path_snoc)
      have "on_path (p @ compressed n @ [?k]) ?K" using path by simp
      from wft_inner.IH [OF Some this compat_with_kid [OF b Some wft_inner.prems(2)]
          same_pointer_kid [OF b Some wft_inner.prems(3)]]
      obtain r u where r: "bnode_insert c lf (int (length (p @ compressed n @ [?k]))) = Inr (r, u)"
        "ins_post (p @ compressed n @ [?k]) c lf r u" "\<not> isLeaf r \<longrightarrow> binner r \<noteq> None" by blast
      have len: "int (length ?q) + 1 = int (length (p @ compressed n @ [?k]))" by simp
      have "\<exists>r'. (if isLeaf c \<and> \<not> isLeaf r then set_innerKeybyte ?k r else Inr r) = Inr r' \<and>
          ins_post (p @ compressed n @ [?k]) c lf r' u"
      proof (cases "isLeaf c \<and> \<not> isLeaf r")
        case True
        with r(3) obtain r' where "set_innerKeybyte ?k r = Inr r'" by (auto simp: set_innerKeybyte_def)
        with True set_innerKeybyte_post [OF r(2) this] show ?thesis by auto
      qed (use r(2) in auto)
      then obtain r' where kb: "(if isLeaf c \<and> \<not> isLeaf r then set_innerKeybyte ?k r else Inr r) = Inr r'"
        and r': "ins_post (p @ compressed n @ [?k]) c lf r' u" by blast
      have ch': "inode_child (Node n) ?k = Inr (i, Some c)" using ch Some by simp
      obtain nd where nd: "inode_replace (Node n) i (Some r') False = Inr (nd, Some c)"
        "ins_post p b lf (set_inner b (Inner (compressed n) (SubN n + 1) nd (innerKeybyte n))) u"
        using inner_child_post [OF wf b q refl Some ch' r'] by blast
      have "inner_insert n lf (int (length p)) = Inr (Inner (compressed n) (SubN n + 1) nd (innerKeybyte n), u)"
      proof (cases "isLeaf c")
        case True
        with False ch' r(1) kb nd(1) show ?thesis
          by (simp add: inner_insert.simps [of n] Let_def d len del: length_append)
      next
        case leaf: False
        with False ch' r(1) kb nd(1) show ?thesis
          by (simp add: inner_insert.simps [of n] Let_def d len del: length_append)
      qed
      with nd(2) show ?thesis by blast
    qed
  qed
  with bi wft_inner.hyps(1) show ?case by auto
qed

end
