(* ===== verification/Deletion.thy ===== *)
theory Deletion
  imports Insertion
begin

text \<open>
  Deletion (\<open>del\<close> of \<open>inner.go\<close>, \<open>leaf.go\<close> and \<open>node.go\<close>). The callback \<open>parentUpdate\<close> is a
  result: \<open>NoUpdate\<close> when it is not called, \<open>UpdateTo\<close> with its argument when it is; the caller
  applies it. A child that is not replaced by the callback was changed in place, which is a
  write to its slot.
\<close>

section \<open>The operations\<close>

text \<open>The last child takes the place of its parent, below the path of both.\<close>

definition addPrefixBefore :: "bnode \<Rightarrow> bnode inner \<Rightarrow> byte \<Rightarrow> bnode res" where
  "addPrefixBefore left n leftKey =
     (if isLeaf left then
        rbind (deref (bleaf left)) (\<lambda>l.
          Inr (BNode (Some (leaf_addPrefixBefore l n leftKey)) (binner left) (isLeaf left) (pren left)))
      else rbind (deref (binner left)) (\<lambda>m. Inr (set_inner left (inner_addPrefixBefore m n leftKey))))"

text \<open>The deletion of a leaf that is a child of \<open>n\<close>, whose \<open>SubN\<close> is already decremented.\<close>

definition inner_delLeaf :: "bnode inner \<Rightarrow> int \<Rightarrow> (bnode inner \<times> bool \<times> bnode option \<times> parent_update) res" where
  "inner_delLeaf n idx =
     (let isNode4 = (inode_Kind (Node n) = Node4); atmin = inode_min (Node n) in
      if isNode4 \<and> atmin then
        rbind (inode_replace (Node n) idx None True) (\<lambda>(nd, deletedNode).
        let n' = Inner (compressed n) (SubN n) nd (innerKeybyte n) in
        rbind (inode_next nd None) (\<lambda>(leftKey, left).
        rbind (deref left) (\<lambda>l.
        rbind (addPrefixBefore l n' leftKey) (\<lambda>l'.
          Inr (n', True, deletedNode, UpdateTo (Some l'))))))
      else
        rbind (inode_replace (Node n) idx None True) (\<lambda>(nd, deletedNode).
        rbind (if atmin \<and> \<not> isNode4 then inode_shrink nd else Inr nd) (\<lambda>nd'.
          Inr (Inner (compressed n) (SubN n) nd' (innerKeybyte n), True, deletedNode, NoUpdate))))"

function bnode_del :: "bnode \<Rightarrow> key \<Rightarrow> int \<Rightarrow> (bnode \<times> bool \<times> bnode option \<times> parent_update) res"
  and inner_del :: "bnode inner \<Rightarrow> key \<Rightarrow> int \<Rightarrow> (bnode inner \<times> bool \<times> bnode option \<times> parent_update) res" where
  "bnode_del a key depth =
     (if isLeaf a then
        rbind (deref (bleaf a)) (\<lambda>l. let (deleted, dn, up) = leaf_del l key depth a in Inr (a, deleted, dn, up))
      else rbind (deref (binner a)) (\<lambda>n.
        rbind (inner_del n key depth) (\<lambda>(n', deleted, dn, up). Inr (set_inner a n', deleted, dn, up))))"
| "inner_del n key depth =
     (let (m, fullmatch, gt) = checkCompressed n key depth in
      if \<not> fullmatch then Inr (n, False, None, NoUpdate)
      else
        let nextDepth = depth + int (length (compressed n)); delkey = key_At key nextDepth in
        rbind (inode_child (Node n) delkey) (\<lambda>(idx, next). case next of
          None \<Rightarrow> Inr (n, False, None, NoUpdate)
        | Some nx \<Rightarrow>
            let n1 = Inner (compressed n) (SubN n - 1) (Node n) (innerKeybyte n) in
            rbind (if isLeaf nx then rbind (deref (bleaf nx)) (\<lambda>l. Inr (leaf_cmp l key)) else Inr False) (\<lambda>hit.
              if hit then inner_delLeaf n1 idx
              else if isLeaf nx then Inr (n1, False, None, NoUpdate)
              else
                rbind (bnode_del nx key (nextDepth + 1)) (\<lambda>(nx', deleted, dn, up).
                rbind (case up of
                    NoUpdate \<Rightarrow> inode_replace (Node n) idx (Some nx') False
                  | UpdateTo bn \<Rightarrow> inode_replace (Node n) idx bn True) (\<lambda>(nd, old).
                rbind (inode_redoPren nd) (\<lambda>nd'.
                  Inr (Inner (compressed n) (SubN n - 1) nd' (innerKeybyte n), deleted, dn, NoUpdate)))))))"
  by pat_completeness auto
termination
  by (relation "measure (case_sum (\<lambda>(a, _, _). size a) (\<lambda>(n, _, _). size_inner size n))")
    (auto dest!: child_slot size_kid_slot size_binner)

declare bnode_del.simps [simp del] inner_del.simps [simp del]

section \<open>What deletion does\<close>

text \<open>
  What is in the place of the node afterwards: the node itself unless the callback was called.
  The counts are kept when the key was there, the cached sums always.
\<close>

definition in_place :: "bnode \<Rightarrow> parent_update \<Rightarrow> bnode option" where
  "in_place b up = (case up of NoUpdate \<Rightarrow> Some b | UpdateTo c \<Rightarrow> c)"

definition kept :: "byte list \<Rightarrow> bnode \<Rightarrow> key \<Rightarrow> bool \<Rightarrow> bnode \<Rightarrow> bool" where
  "kept p b K d c \<longleftrightarrow> wft p c \<and> uleaves c = {l \<in> uleaves b. Key l \<noteq> K} \<and>
     (d \<and> counted b \<longrightarrow> counted c) \<and> (cached b \<longrightarrow> cached c)"

definition del_post :: "byte list \<Rightarrow> bnode \<Rightarrow> key \<Rightarrow> bnode \<Rightarrow> bool \<Rightarrow> bnode option \<Rightarrow> parent_update \<Rightarrow> bool" where
  "del_post p b K b' d dn up \<longleftrightarrow> (d \<longleftrightarrow> K \<in> keys_of b) \<and> (up = NoUpdate \<or> d) \<and>
     (d \<longrightarrow> (\<exists>a l. dn = Some a \<and> is_leaf_of b a l \<and> Key l = K)) \<and>
     (case in_place b' up of None \<Rightarrow> isLeaf b | Some c \<Rightarrow> kept p b K d c)"

lemma kept_same: "wft p b \<Longrightarrow> K \<notin> keys_of b \<Longrightarrow> kept p b K False b"
  unfolding kept_def keys_uleaves by (force simp: image_iff)

lemma keys_via_kid:
  assumes "wft p b" and "\<not> isLeaf b" and "binner b = Some n"
  shows "K \<in> keys_of b \<longleftrightarrow> (\<exists>c. inode_kid (Node n) (key_At K (int (length (p @ compressed n)))) = Some c \<and> K \<in> keys_of c)"
  using keys_of_inner [OF assms, of K] keys_of_kid [OF assms(2,3)] by blast

lemma addPrefixBefore_post:
  assumes "wft ((p @ compressed n) @ [k]) c"
  shows "\<exists>c'. addPrefixBefore c n k = Inr c' \<and> wft p c' \<and> leaves c' = leaves c \<and> (counted c \<longrightarrow> counted c') \<and>
    (cached c \<longrightarrow> cached c')"
proof (cases "isLeaf c")
  case True
  with assms obtain l where l: "bleaf c = Some l" "on_path ((p @ compressed n) @ [k]) (Key l)"
    using wft_leafD by blast
  then have "addPrefixBefore c n k = Inr c" using True by (cases c) (simp add: addPrefixBefore_def leaf_addPrefixBefore_def)
  moreover have "on_path p (Key l)" using l(2) by (rule on_path_prefix [rotated]) simp
  ultimately show ?thesis using True l(1) by (auto intro: wft_leaf)
next
  case False
  with assms obtain m where m: "binner c = Some m" by (auto elim: wft_innerE)
  let ?m = "inner_addPrefixBefore m n k"
  let ?c = "set_inner c ?m"
  have i: "\<not> isLeaf ?c" "binner ?c = Some ?m" "Node ?m = Node m" "SubN ?m = SubN m"
    "p @ compressed ?m = ((p @ compressed n) @ [k]) @ compressed m"
    using False by (simp_all add: inner_addPrefixBefore_def)
  have "wft p ?c" using assms wft_inner_iff [OF False m] wft_inner_iff [OF i(1,2)] i(3,5) by metis
  moreover have lv: "leaves ?c = leaves c" using leaves_inner' [OF False m] leaves_inner' [OF i(1,2)] i(3) by simp
  moreover have "counted c \<longrightarrow> counted ?c" using counted_iff [OF False m] counted_iff [OF i(1,2)] i(3,4) lv by simp
  moreover have "cached c \<longrightarrow> cached ?c" using cached_iff [OF False m] cached_iff [OF i(1,2)] i(3) by simp
  moreover have "addPrefixBefore c n k = Inr ?c" using False m by (simp add: addPrefixBefore_def)
  ultimately show ?thesis by blast
qed

lemma fit_same:
  assumes "inode_ok nd" and "fit nd" and "inode_ok nd'" and "inode_Kind nd' = inode_Kind nd"
    and "erase (inode_kid nd') = erase ((inode_kid nd)(k \<mapsto> r))" and "inode_kid nd k = Some c"
  shows "fit nd'"
proof -
  have "length (entries_of (inode_kid nd')) = length (entries_of ((inode_kid nd)(k \<mapsto> r)))"
    by (metis assms(5) length_entries_erase)
  also have "\<dots> = length (entries_of (inode_kid nd))"
    using assms(6) length_entries_upd [of "(inode_kid nd)(k := None)" k r] length_entries_del [of "inode_kid nd" k c]
    by simp
  finally show ?thesis
    using assms(2,4) nd.nchild_law [OF assms(1)] nd.nchild_law [OF assms(3)] by (simp add: fit_def)
qed

text \<open>Only the count of a node depends on its \<open>SubN\<close>.\<close>

lemma kept_SubN:
  assumes b: "\<not> isLeaf b" "binner b = Some n" and m: "Node m = Node n" "compressed m = compressed n"
    and "kept p b K False b"
  shows "kept p b K False (set_inner b m)"
proof -
  have i: "\<not> isLeaf (set_inner b m)" "binner (set_inner b m) = Some m" using b(1) by simp_all
  have "wft p (set_inner b m) = wft p b" using wft_inner_iff [OF b] wft_inner_iff [OF i] m by simp
  moreover have "uleaves (set_inner b m) = uleaves b" using uleaves_inner [OF b] uleaves_inner [OF i] m by simp
  moreover have "cached (set_inner b m) = cached b" using cached_iff [OF b] cached_iff [OF i] m by simp
  ultimately show ?thesis using assms(5) by (simp add: kept_def)
qed

text \<open>The count after one leaf is gone.\<close>

lemma kept_length:
  assumes "wft p b" and "wft p' c" and "uleaves c = {l \<in> uleaves b. Key l \<noteq> K}" and "K \<in> keys_of b"
  shows "int (length (leaves c)) = int (length (leaves b)) - 1"
proof -
  have "keys_of c = keys_of b - {K}" unfolding keys_uleaves assms(3) by blast
  moreover have "finite (keys_of b)" by simp
  moreover have "keys_of b \<noteq> {}" by (metis assms(4) empty_iff)
  then have "0 < card (keys_of b)" by (simp add: card_gt_0_iff)
  ultimately show ?thesis using wft_length [OF assms(1)] wft_length [OF assms(2)] assms(4)
    by (simp add: card_Diff_singleton of_nat_diff)
qed

subsection \<open>The leaf is a child\<close>

lemma inner_delLeaf_post:
  assumes wf: "wft p b" and b: "\<not> isLeaf b" "binner b = Some n"
    and k: "key_At K (int (length (p @ compressed n))) = k"
    and c: "inode_kid (Node n) k = Some c" "inode_child (Node n) k = Inr (i, Some c)"
    and l: "isLeaf c" "bleaf c = Some l" "Key l = K"
    and n1: "n1 = Inner (compressed n) (SubN n - 1) (Node n) (innerKeybyte n)"
  shows "\<exists>n' dn up. inner_delLeaf n1 i = Inr (n', True, dn, up) \<and> del_post p b K (set_inner b n') True dn up"
proof -
  let ?q = "p @ compressed n" and ?f = "inode_kid (Node n)"
  have ok: "inode_ok (Node n)" "fit (Node n)" and kw: "kids_wft ?q ?f" using wf b by (simp_all add: wft_inner_iff)
  have lc: "is_leaf_of c c l" using l by (simp add: is_leaf_of_def leaves_leaf)
  have lb: "is_leaf_of b c l" using is_leaf_of_kid [OF b c(1) lc] .
  have K: "K \<in> keys_of b" using lb l(3) by (auto simp: is_leaf_of_def)
  have uc: "uleaves c = {unkeyed l}" using l by (simp add: uleaves_leaf)
  have rest: "{l \<in> uleaves b. Key l \<noteq> K} = ukids (?f(k := None))"
    using ukids_other [OF kw k] c(1) uleaves_inner [OF b] uc l(3) by auto
  show ?thesis
  proof (cases "inode_Kind (Node n) = Node4 \<and> inode_min (Node n)")
    case True
    then obtain nd j d where r: "inode_replace (Node n) i None True = Inr (nd, Some c)"
      "inode_next nd None = Inr (j, Some d)" and j: "j \<noteq> k"
      and e: "erase ?f = [k \<mapsto> set_pren 0 c, j \<mapsto> set_pren 0 d]"
      using inode_del_last [OF ok c(2)] by blast
    let ?n' = "Inner (compressed n) (SubN n - 1) nd (innerKeybyte n)"
    have "kids_wft ?q [k \<mapsto> set_pren 0 c, j \<mapsto> set_pren 0 d]" using kw e by (metis kids_wft_erase)
    then have wd: "wft (?q @ [j]) d" using j by (simp add: kids_two del: append_assoc)
    obtain d' where d': "addPrefixBefore d ?n' j = Inr d'" "wft p d'" "leaves d' = leaves d"
      "counted d \<longrightarrow> counted d'" "cached d \<longrightarrow> cached d'"
      using addPrefixBefore_post [of p ?n' j d] wd by auto
    have run: "inner_delLeaf n1 i = Inr (?n', True, Some c, UpdateTo (Some d'))"
      using True r d'(1) n1 by (simp add: inner_delLeaf_def Let_def)
    have "ukids (?f(k := None)) = ukids (erase (?f(k := None)))" by (rule ukids_erase [symmetric])
    also have "\<dots> = uleaves d" using e j by (auto simp: mem_ukids split: if_splits)
    finally have ud: "uleaves d' = {l \<in> uleaves b. Key l \<noteq> K}" using rest d'(3) by (simp add: uleaves_def)
    have "kids_all counted [k \<mapsto> set_pren 0 c, j \<mapsto> set_pren 0 d]" if "counted b"
      using that b e kids_all_erase [of counted ?f] by (simp add: counted_iff)
    then have cd: "counted d'" if "counted b" using that d'(4) j by (simp add: kids_two)
    have "kids_all cached [k \<mapsto> set_pren 0 c, j \<mapsto> set_pren 0 d]" if "cached b"
      using that b e kids_all_erase [of cached ?f] by (simp add: cached_iff)
    then have "cached d'" if "cached b" using that d'(5) j by (simp add: kids_two)
    with cd ud d'(2) K lb l(3) have "del_post p b K (set_inner b ?n') True (Some c) (UpdateTo (Some d'))"
      by (auto simp: del_post_def in_place_def kept_def)
    with run show ?thesis by blast
  next
    case False
    then obtain nd nd' where r: "inode_replace (Node n) i None True = Inr (nd, Some c)"
      "(if inode_min (Node n) \<and> inode_Kind (Node n) \<noteq> Node4 then inode_shrink nd else Inr nd) = Inr nd'"
      and nd': "inode_ok nd'" "fit nd'" "erase (inode_kid nd') = (erase ?f)(k := None)"
        "prens_ok ?f \<longrightarrow> prens_ok (inode_kid nd')"
      using inode_del [OF ok c(2)] by blast
    let ?n' = "Inner (compressed n) (SubN n - 1) nd' (innerKeybyte n)"
    let ?b = "set_inner b ?n'" and ?g = "?f(k := None)"
    have run: "inner_delLeaf n1 i = Inr (?n', True, Some c, NoUpdate)"
    proof -
      have "\<not> (inode_Kind (Node n) = Node4 \<and> inode_min (Node n))" using False by blast
      then have "inner_delLeaf n1 i = rbind (inode_replace (Node n) i None True) (\<lambda>(nd, dn).
          rbind (if inode_min (Node n) \<and> inode_Kind (Node n) \<noteq> Node4 then inode_shrink nd else Inr nd) (\<lambda>nd'.
            Inr (Inner (compressed n) (SubN n - 1) nd' (innerKeybyte n), True, dn, NoUpdate)))"
        unfolding inner_delLeaf_def Let_def n1 inner.sel by (rule if_not_P)
      then show ?thesis using r by simp
    qed
    have bn: "\<not> isLeaf ?b" "binner ?b = Some ?n'" using b(1) by simp_all
    have nf: "inode_ok (Node ?n')" "fit (Node ?n')" "erase (inode_kid (Node ?n')) = erase ?g"
      "kids_wft (p @ compressed ?n') ?g"
      using nd'(1-3) kids_wft_del [OF kw] by simp_all
    note ib = inner_build [OF bn nf]
    have ul: "uleaves ?b = {l \<in> uleaves b. Key l \<noteq> K}" using ib(2) rest by simp
    have cnt: "counted ?b" if "counted b"
      using that b kept_length [OF wf ib(1) ul K] by (intro ib(4) kids_all_del) (simp_all add: counted_iff)
    have cch: "cached ?b" if "cached b"
      using that b nd'(4) by (intro ib(5) kids_all_del) (simp_all add: cached_iff)
    have "del_post p b K ?b True (Some c) NoUpdate"
      using ib(1) ul cnt cch K lb l(3) by (auto simp: del_post_def in_place_def kept_def)
    with run show ?thesis by blast
  qed
qed

subsection \<open>The leaf is further down\<close>

lemma inner_child_del_post:
  assumes wf: "wft p b" and b: "\<not> isLeaf b" "binner b = Some n"
    and k: "key_At K (int (length (p @ compressed n))) = k"
    and c: "inode_kid (Node n) k = Some c" "inode_child (Node n) k = Inr (i, Some c)" and nl: "\<not> isLeaf c"
    and r: "del_post (p @ compressed n @ [k]) c K c' d dn up"
  shows "\<exists>nd nd' old. (case up of NoUpdate \<Rightarrow> inode_replace (Node n) i (Some c') False
      | UpdateTo bn \<Rightarrow> inode_replace (Node n) i bn True) = Inr (nd, old) \<and> inode_redoPren nd = Inr nd' \<and>
    del_post p b K (set_inner b (Inner (compressed n) (SubN n - 1) nd' (innerKeybyte n))) d dn NoUpdate"
proof -
  let ?q = "p @ compressed n" and ?f = "inode_kid (Node n)"
  have ok: "inode_ok (Node n)" "fit (Node n)" and kw: "kids_wft ?q ?f" using wf b by (simp_all add: wft_inner_iff)
  obtain x where x: "in_place c' up = Some x" and kx: "kept (?q @ [k]) c K d x"
    using r nl by (auto simp: del_post_def split: option.splits)
  have "\<exists>nd. (case up of NoUpdate \<Rightarrow> inode_replace (Node n) i (Some c') False
      | UpdateTo bn \<Rightarrow> inode_replace (Node n) i bn True) = Inr (nd, Some c) \<and> inode_ok nd \<and>
      erase (inode_kid nd) = erase (?f(k \<mapsto> x)) \<and> inode_Kind nd = inode_Kind (Node n)"
  proof (cases up)
    case NoUpdate
    then have "x = c'" using x by (simp add: in_place_def)
    with ndw.set_law [OF ok(1) c(2), of c' False] NoUpdate replace_Kind show ?thesis by fastforce
  next
    case (UpdateTo bn)
    then have "bn = Some x" using x by (simp add: in_place_def)
    with ndw.set_law [OF ok(1) c(2), of x True] UpdateTo replace_Kind show ?thesis by fastforce
  qed
  then obtain nd where rep: "(case up of NoUpdate \<Rightarrow> inode_replace (Node n) i (Some c') False
      | UpdateTo bn \<Rightarrow> inode_replace (Node n) i bn True) = Inr (nd, Some c)" and nd: "inode_ok nd"
      "erase (inode_kid nd) = erase (?f(k \<mapsto> x))" "inode_Kind nd = inode_Kind (Node n)" by blast
  obtain nd' where redo: "inode_redoPren nd = Inr nd'" and nd': "inode_ok nd'"
    "erase (inode_kid nd') = erase (inode_kid nd)" "prens_ok (inode_kid nd')"
    using ndw.redo_law [OF nd(1)] by blast
  let ?n' = "Inner (compressed n) (SubN n - 1) nd' (innerKeybyte n)"
  let ?b = "set_inner b ?n'" and ?g = "?f(k \<mapsto> x)"
  have e: "erase (inode_kid nd') = erase ?g" using nd'(2) nd(2) by simp
  have "fit nd'" using fit_same [OF ok nd'(1) _ e c(1)] redoPren_Kind [OF redo] nd(3) by simp
  then have nf: "inode_ok (Node ?n')" "fit (Node ?n')" "erase (inode_kid (Node ?n')) = erase ?g"
      "kids_wft (p @ compressed ?n') ?g"
    using nd'(1) e kids_wft_upd [OF kw] kx by (simp_all add: kept_def)
  have bn: "\<not> isLeaf ?b" "binner ?b = Some ?n'" using b(1) by simp_all
  note ib = inner_build [OF bn nf]
  have ux: "uleaves x = {l \<in> uleaves c. Key l \<noteq> K}" using kx by (simp add: kept_def)
  have ul: "uleaves ?b = {l \<in> uleaves b. Key l \<noteq> K}"
    using ib(2) ukids_other [OF kw k] c(1) uleaves_inner [OF b] ux by (simp add: ukids_upd)
  have kk: "K \<in> keys_of b \<longleftrightarrow> K \<in> keys_of c" using keys_via_kid [OF wf b, of K] c(1) k by auto
  have cnt: "counted ?b" if "d" "counted b"
  proof (rule ib(4))
    show "kids_all counted ?g"
      using that b c(1) kx by (intro kids_all_upd) (auto simp: counted_iff kept_def kids_all_def)
    have "K \<in> keys_of b" using r that(1) kk by (simp add: del_post_def)
    from kept_length [OF wf ib(1) ul this] that(2) b show "SubN ?n' = int (length (leaves ?b))"
      by (simp add: counted_iff)
  qed
  have cch: "cached ?b" if "cached b"
    using that b c(1) kx nd'(3) by (intro ib(5) kids_all_upd) (auto simp: cached_iff kept_def kids_all_def)
  have "del_post p b K ?b d dn NoUpdate"
    using r kk ib(1) ul cnt cch is_leaf_of_kid [OF b c(1)] by (auto simp: del_post_def in_place_def kept_def)
  with rep redo show ?thesis by blast
qed

subsection \<open>The whole descent\<close>

theorem del_correct:
  assumes "wft p b"
  shows "\<exists>b' d dn up. bnode_del b K (int (length p)) = Inr (b', d, dn, up) \<and> del_post p b K b' d dn up"
  using assms
proof (induction rule: wft.induct)
  case (wft_leaf b l p)
  have wf: "wft p b" using wft_leaf by (rule wft.intros(1))
  have k: "keys_of b = {Key l}" using wft_leaf by (simp add: leaves_leaf)
  show ?case
  proof (cases "Key l = K")
    case True
    with wft_leaf k show ?thesis
      by (auto simp: bnode_del.simps leaf_del_def del_post_def in_place_def is_leaf_of_def leaves_leaf)
  next
    case False
    with wft_leaf k kept_same [OF wf, of K] show ?thesis
      by (auto simp: bnode_del.simps leaf_del_def del_post_def in_place_def)
  qed
next
  case (wft_inner b n p)
  let ?q = "p @ compressed n" and ?f = "inode_kid (Node n)"
  let ?k = "key_At K (int (length ?q))"
  let ?n1 = "Inner (compressed n) (SubN n - 1) (Node n) (innerKeybyte n)"
  have wf: "wft p b" by (rule wft.intros(2) [OF wft_inner.hyps])
  note b = wft_inner.hyps(1,2)
  note keys = keys_of_inner [OF wf b, of K]
  have same: "set_inner b n = b" using b by (cases b) (simp add: set_inner_def)
  have miss: "del_post p b K b False None NoUpdate" if "K \<notin> keys_of b"
    using kept_same [OF wf that] that by (auto simp: del_post_def in_place_def)
  have d: "int (length p) + int (length (compressed n)) = int (length ?q)" by simp
  obtain m fm gt where chk: "checkCompressed n K (int (length p)) = (m, fm, gt)" by (metis prod_cases3)
  have fm: "fm" if "prefix ?q K"
  proof -
    from that have "prefix (compressed n) (drop (length p) K)" by (auto simp: prefix_def)
    then have "find (\<lambda>idx. compressed n ! idx \<noteq> K ! (length p + idx))
        [0..<nat (min (int (length (compressed n))) (int (length K) - int (length p)))] = None"
      using get_mismatch_prefix [of "compressed n" "length p" K] by (simp add: min_def not_less split: if_splits)
    with chk show fm by (simp add: checkCompressed_def Let_def)
  qed
  obtain i where ch: "inode_child (Node n) ?k = Inr (i, ?f ?k)" using nd.child_law [OF wft_inner.hyps(3)] by blast
  have "\<exists>n' d dn up. inner_del n K (int (length p)) = Inr (n', d, dn, up) \<and> del_post p b K (set_inner b n') d dn up"
  proof (cases "fm \<and> ?f ?k \<noteq> None")
    case False
    then have "inner_del n K (int (length p)) = Inr (n, False, None, NoUpdate)"
      using chk ch by (auto simp: inner_del.simps [of n] Let_def d simp del: length_append)
    moreover have "K \<notin> keys_of b" using False fm keys by auto
    ultimately show ?thesis using miss same by metis
  next
    case True
    then obtain c where c: "?f ?k = Some c" by auto
    with ch have ch': "inode_child (Node n) ?k = Inr (i, Some c)" by simp
    have wc: "wft (p @ compressed n @ [?k]) c" using wft_inner.hyps(5) c by blast
    show ?thesis
    proof (cases "isLeaf c")
      case leaf: True
      then obtain l where l: "bleaf c = Some l" using wft_leafD [OF wc] by blast
      show ?thesis
      proof (cases "Key l = K")
        case hit: True
        from inner_delLeaf_post [OF wf b refl c ch' leaf l hit refl]
        obtain n' dn up where "inner_delLeaf ?n1 i = Inr (n', True, dn, up)" "del_post p b K (set_inner b n') True dn up"
          by blast
        with True leaf l hit chk ch' show ?thesis
          by (auto simp: inner_del.simps [of n] Let_def d simp del: length_append)
      next
        case False
        then have "K \<notin> keys_of b" using keys c leaf l by (auto simp: leaves_leaf)
        moreover have "inner_del n K (int (length p)) = Inr (?n1, False, None, NoUpdate)"
          using True leaf l False chk ch' by (simp add: inner_del.simps [of n] Let_def d del: length_append)
        moreover have "kept p b K False (set_inner b ?n1)" if "K \<notin> keys_of b"
          using kept_SubN [OF b, of ?n1 p K] kept_same [OF wf that] by simp
        ultimately show ?thesis by (auto simp: del_post_def in_place_def)
      qed
    next
      case inner: False
      from wft_inner.IH [OF c] obtain c' d dn up where
        r: "bnode_del c K (int (length (p @ compressed n @ [?k]))) = Inr (c', d, dn, up)"
        "del_post (p @ compressed n @ [?k]) c K c' d dn up" by blast
      from inner_child_del_post [OF wf b refl c ch' inner r(2)] obtain nd nd' old where
        s: "(case up of NoUpdate \<Rightarrow> inode_replace (Node n) i (Some c') False
          | UpdateTo bn \<Rightarrow> inode_replace (Node n) i bn True) = Inr (nd, old)" "inode_redoPren nd = Inr nd'"
        "del_post p b K (set_inner b (Inner (compressed n) (SubN n - 1) nd' (innerKeybyte n))) d dn NoUpdate" by blast
      have len: "int (length ?q) + 1 = int (length (p @ compressed n @ [?k]))" by simp
      have "inner_del n K (int (length p)) = Inr (Inner (compressed n) (SubN n - 1) nd' (innerKeybyte n), d, dn, NoUpdate)"
        using True chk ch' inner r(1) s(1,2) by (simp add: inner_del.simps [of n] Let_def d len del: length_append)
      with s(3) show ?thesis by blast
    qed
  qed
  with b show ?case by (auto simp: bnode_del.simps)
qed

end
