(* ===== verification/Search.thy ===== *)
theory Search
  imports Deletion
begin

text \<open>
  What the searches for a neighbouring key (\<open>gte.go\<close>, \<open>lte.go\<close>) share: the search modifiers, the
  comparison of the key with the path, and the facts about the leaves on both sides of a key.
\<close>

datatype SearchModifier = Exact | GTE | LTE | GT | LT

definition needNextLeaf :: int where "needNextLeaf = 1"
definition needPrevLeaf :: int where "needPrevLeaf = - 1"

definition byteCmp :: "byte \<Rightarrow> byte \<Rightarrow> int \<Rightarrow> int" where
  "byteCmp a b keyCmpPath =
     (if keyCmpPath \<noteq> 0 then keyCmpPath else if a > b then 1 else if a < b then - 1 else 0)"

lemma byteCmp_0: "byteCmp a b 0 = (if b < a then 1 else if a < b then - 1 else 0)"
  by (simp add: byteCmp_def)

text \<open>The inlined comparison with the compressed path: whether all bytes match, and the side if not.\<close>

definition scan_compressed :: "'c inner \<Rightarrow> key \<Rightarrow> int \<Rightarrow> bool \<times> bool" where
  "scan_compressed n key depth =
     (let kd = int (length key) - depth;
          maxCmp = (if kd < int (length (compressed n)) then kd else int (length (compressed n)))
      in case find (\<lambda>idx. compressed n ! idx \<noteq> key ! (nat depth + idx)) [0..<nat maxCmp] of
           Some idx \<Rightarrow> (False, compressed n ! idx < key ! (nat depth + idx))
         | None \<Rightarrow> (True, False))"

text \<open>The measures of the two searches.\<close>

lemma size_gte: "inode_gte (Node n) k = Inr (b, Some c) \<Longrightarrow> 3 * size c < 3 * size_inner size n"
  using size_kid_slot [OF gte_slot] by auto

lemma size_lte: "inode_lte (Node n) k = Inr (b, Some c) \<Longrightarrow> 3 * size c < 3 * size_inner size n"
  using size_kid_slot [OF lte_slot] by auto

lemma size_nextc: "inode_next (Node n) k = Inr (b, Some c) \<Longrightarrow> 3 * size c < 3 * size_inner size n"
  using size_kid_slot [OF next_slot] by auto

lemma size_prevc: "inode_prev (Node n) k = Inr (b, Some c) \<Longrightarrow> 3 * size c < 3 * size_inner size n"
  using size_kid_slot [OF prev_slot] by auto

section \<open>Keys that agree with a path\<close>

definition agrees :: "byte list \<Rightarrow> key \<Rightarrow> bool" where
  "agrees p K \<longleftrightarrow> prefix p K \<or> prefix K p"

lemma agrees_Nil [simp]: "agrees [] K"
  by (simp add: agrees_def)

lemma Compare_values: "Compare a b = 1 \<longleftrightarrow> b < a" "Compare a b = - 1 \<longleftrightarrow> a < b"
  by (induction a b rule: Compare.induct) auto

lemma less_append_left: "(x :: byte list) < y \<Longrightarrow> q @ x < q @ y"
  by (induction q) auto

lemma prefix_less: "prefix K L \<Longrightarrow> K \<noteq> L \<Longrightarrow> K < (L :: key)"
proof -
  assume "prefix K L" and "K \<noteq> L"
  then obtain z zs where "L = K @ z # zs" by (metis prefixE append_Nil2 neq_Nil_conv)
  with less_append_left [of "[]" "z # zs" K] show "K < L" by simp
qed

text \<open>The scan: a match means that the key agrees with the longer path; a mismatch decides the order.\<close>

lemma scan_None:
  "prefix K p \<Longrightarrow> scan_compressed n K (int (length p)) = (True, False)"
proof -
  assume "prefix K p"
  then have "length K \<le> length p" by (rule prefix_length_le)
  then have "nat (if int (length K) - int (length p) < int (length (compressed n))
      then int (length K) - int (length p) else int (length (compressed n))) = 0"
    by (cases "compressed n") auto
  then show ?thesis by (simp add: scan_compressed_def Let_def)
qed

lemma scan_rest:
  assumes "K = p @ x"
  shows "scan_compressed n K (int (length p)) =
    (case find (\<lambda>i. compressed n ! i \<noteq> x ! i) [0..<min (length (compressed n)) (length x)] of
       Some i \<Rightarrow> (False, compressed n ! i < x ! i) | None \<Rightarrow> (True, False))"
proof -
  have m: "nat (if int (length K) - int (length p) < int (length (compressed n)) then int (length K) - int (length p)
      else int (length (compressed n))) = min (length (compressed n)) (length x)" using assms by simp
  have e: "K ! (length p + i) = x ! i" for i using assms by (simp add: nth_append)
  show ?thesis unfolding scan_compressed_def Let_def m nat_int e ..
qed

lemma scan_cases:
  assumes "K = p @ x"
  obtains (match) "scan_compressed n K (int (length p)) = (True, False)" "prefix (compressed n) x \<or> prefix x (compressed n)"
  | (differ) d b c' a x' where "scan_compressed n K (int (length p)) = (False, b < a)" "compressed n = d @ b # c'"
      "x = d @ a # x'" "a \<noteq> b"
proof -
  obtain d c' x' where d: "compressed n = d @ c'" "x = d @ x'" "c' = [] \<or> x' = [] \<or> hd c' \<noteq> hd x'"
    using lcp_split [of "compressed n" x] by blast
  have eq: "compressed n ! i = x ! i" if "i < length d" for i using d that by (simp add: nth_append)
  consider "c' = [] \<or> x' = []" | b c'' a x'' where "c' = b # c''" "x' = a # x''" by (metis neq_Nil_conv)
  then show thesis
  proof cases
    case 1
    then have "min (length (compressed n)) (length x) = length d" using d by auto
    then have "find (\<lambda>i. compressed n ! i \<noteq> x ! i) [0..<min (length (compressed n)) (length x)] = None"
      using eq by (intro find_upt_NoneI) auto
    moreover have "prefix (compressed n) x \<or> prefix x (compressed n)" using 1 d by auto
    ultimately show thesis by (intro match) (simp_all add: scan_rest [OF assms])
  next
    case 2
    have "find (\<lambda>i. compressed n ! i \<noteq> x ! i) [0..<min (length (compressed n)) (length x)] = Some (length d)"
      using eq d 2 by (intro find_upt_SomeI) auto
    then have "scan_compressed n K (int (length p)) = (False, b < a)"
      unfolding scan_rest [OF assms] using d 2 by (simp only: option.case) simp
    then show thesis by (rule differ) (use d 2 in auto)
  qed
qed

lemma scan_agrees:
  assumes a: "agrees p K" and s: "scan_compressed n K (int (length p)) = (True, gt)"
  shows "agrees (p @ compressed n) K"
proof (cases "prefix p K")
  case False
  then have "prefix K p" using a by (simp add: agrees_def)
  then show ?thesis by (simp add: agrees_def)
next
  case True
  then obtain x where x: "K = p @ x" by (auto simp: prefix_def)
  from x show ?thesis
  proof (rule scan_cases [of _ _ _ n])
    assume "prefix (compressed n) x \<or> prefix x (compressed n)"
    with x show ?thesis by (auto simp: agrees_def)
  qed (use s in simp)
qed

lemma scan_differs:
  assumes a: "agrees p K" and s: "scan_compressed n K (int (length p)) = (False, gt)" and L: "prefix (p @ compressed n) L"
  shows "if gt then L < K else K < L"
proof (cases "prefix p K")
  case False
  with a have "prefix K p" by (simp add: agrees_def)
  with scan_None [of K p n] s show ?thesis by simp
next
  case True
  then obtain x where x: "K = p @ x" by (auto simp: prefix_def)
  from x show ?thesis
  proof (rule scan_cases [of _ _ _ n])
    fix d b c' a x'
    assume d: "scan_compressed n K (int (length p)) = (False, b < a)" "compressed n = d @ b # c'" "x = d @ a # x'" "a \<noteq> b"
    from L d obtain y where "L = (p @ d) @ b # y" by (auto simp: prefix_def)
    moreover have "K = (p @ d) @ a # x'" using x d by simp
    ultimately show ?thesis
      using s d less_append_left [of "b # y" "a # x'" "p @ d"] less_append_left [of "a # x'" "b # y" "p @ d"] by auto
  qed (use s in simp)
qed

section \<open>The children on both sides\<close>

text \<open>The byte of the key that selects the child, zero past its end.\<close>

lemma query_At:
  "(if int (length q) < int (length K) then K ! nat (int (length q)) else 0) = key_At K (int (length q))"
  by (auto simp: key_At_def)

lemma agrees_snoc: "agrees q K \<Longrightarrow> agrees (q @ [key_At K (int (length q))]) K"
proof -
  assume a: "agrees q K"
  show ?thesis
  proof (cases "prefix q K \<and> q \<noteq> K")
    case True
    then have "on_path (q @ [key_At K (int (length q))]) K" by (simp only: on_path_snoc)
    then show ?thesis by (auto simp: on_path_def agrees_def)
  next
    case False
    with a have "prefix K q" by (auto simp: agrees_def)
    then show ?thesis by (auto simp: agrees_def)
  qed
qed

lemma agrees_below:
  assumes "agrees q K" and "on_path (q @ [j]) L" and "j < key_At K (int (length q))"
  shows "L < K"
proof -
  from assms(3) have nz: "key_At K (int (length q)) \<noteq> 0" by auto
  then have "length q < length K" by (auto simp: key_At_def split: if_splits)
  with assms(1) have "prefix q K" by (auto simp: agrees_def dest: prefix_length_le)
  then have "on_path (q @ [key_At K (int (length q))]) K" by (simp only: on_path_snoc)
  with assms show ?thesis using on_path_lt by blast
qed

lemma agrees_above:
  assumes "agrees q K" and "on_path (q @ [j]) L" and "key_At K (int (length q)) < j"
  shows "K < L"
proof (cases "prefix q K")
  case True
  then have "on_path (q @ [key_At K (int (length q))]) K" by (simp only: on_path_snoc)
  with assms show ?thesis using on_path_lt by blast
next
  case False
  with assms(1) have "prefix K q" "K \<noteq> q" by (auto simp: agrees_def)
  moreover have "prefix q L" using assms(2) by (simp only: on_path_snoc)
  ultimately show ?thesis by (metis prefix_less prefix_order.trans prefix_order.antisym)
qed

section \<open>Trees without a node256\<close>

inductive no256 :: "bnode \<Rightarrow> bool" where
  no256_leaf: "isLeaf b \<Longrightarrow> no256 b"
| no256_inner: "\<not> isLeaf b \<Longrightarrow> binner b = Some n \<Longrightarrow> inode_Kind (Node n) \<noteq> Node256 \<Longrightarrow>
    (\<And>k c. inode_kid (Node n) k = Some c \<Longrightarrow> no256 c) \<Longrightarrow> no256 b"

inductive_cases no256_E: "no256 b"

lemma no256_iff:
  "\<not> isLeaf b \<Longrightarrow> binner b = Some n \<Longrightarrow>
   no256 b \<longleftrightarrow> inode_Kind (Node n) \<noteq> Node256 \<and> kids_all no256 (inode_kid (Node n))"
  by (auto simp: kids_all_def intro: no256_inner elim: no256_E)

lemma kid_leaves_le:
  assumes "\<not> isLeaf b" and "binner b = Some n" and "inode_kid (Node n) k = Some c"
  shows "length (leaves c) \<le> length (leaves b)"
  using kids_leaves_split [of "inode_kid (Node n)" k c] assms by (simp add: leaves_inner')

lemma nchild_le_leaves:
  assumes "wft p b" and "\<not> isLeaf b" and "binner b = Some n"
  shows "inode_nchild (Node n) \<le> int (length (leaves b))"
proof -
  let ?f = "inode_kid (Node n)"
  have ok: "inode_ok (Node n)" and kw: "kids_wft (p @ compressed n) ?f" using assms by (simp_all add: wft_inner_iff)
  have "length es \<le> length (concat (map (\<lambda>(k, c). leaves c) es))" if "set es \<subseteq> set (entries_of ?f)" for es
    using that
  proof (induction es)
    case (Cons e es)
    obtain k c where e: "e = (k, c)" by force
    with Cons.prems have "?f k = Some c" by auto
    then have "leaves c \<noteq> []" using kw wft_leaves_nonempty by (auto simp: kids_wft_def)
    then have "0 < length (leaves c)" by simp
    moreover have "length (concat (map (\<lambda>(k, c). leaves c) (e # es)))
      = length (leaves c) + length (concat (map (\<lambda>(k, c). leaves c) es))" using e by simp
    moreover have "length es \<le> length (concat (map (\<lambda>(k, c). leaves c) es))" using Cons by simp
    ultimately show ?case unfolding list.size by linarith
  qed simp
  from this [of "entries_of ?f"] show ?thesis
    using nd.nchild_law [OF ok] assms(2,3) by (simp add: leaves_inner)
qed

text \<open>A \<open>node256\<close> has at least 49 children, so a tree with fewer leaves has none.\<close>

lemma few_leaves_no256: "wft p b \<Longrightarrow> length (leaves b) < 49 \<Longrightarrow> no256 b"
proof (induction rule: wft.induct)
  case (wft_leaf b l p)
  then show ?case by (simp add: no256_leaf)
next
  case (wft_inner b n p)
  have wf: "wft p b" by (rule wft.intros(2) [OF wft_inner.hyps])
  have "inode_nchild (Node n) < 49"
    using nchild_le_leaves [OF wf wft_inner.hyps(1,2)] wft_inner.prems by linarith
  then have "inode_Kind (Node n) \<noteq> Node256" using wft_inner.hyps(4) by (auto simp: fit_def)
  moreover have "no256 c" if "inode_kid (Node n) k = Some c" for k c
    using wft_inner.IH [OF that] kid_leaves_le [OF wft_inner.hyps(1,2) that] wft_inner.prems by simp
  ultimately show ?case by (rule no256.intros(2) [OF wft_inner.hyps(1,2)])
qed

section \<open>The leaves on both sides of a key\<close>

abbreviation leaves_at :: "byte \<Rightarrow> (byte \<Rightarrow> bnode option) \<Rightarrow> leaf list" where
  "leaves_at k f \<equiv> (case f k of None \<Rightarrow> [] | Some c \<Rightarrow> leaves c)"

lemma kids_leaves_at: "kids_leaves f = leaves_below k f @ leaves_at k f @ leaves_above k f"
  unfolding kids_leaves_def by (subst entries_split [of _ k]) (auto split: option.split)

lemma kids_side_path:
  assumes "kids_wft q f" and "l \<in> set (concat (map (\<lambda>(k, c). leaves c) es))" and "set es \<subseteq> set (entries_of f)"
  shows "\<exists>j c. (j, c) \<in> set es \<and> l \<in> set (leaves c) \<and> on_path (q @ [j]) (Key l)"
proof -
  from assms(2) obtain j c where j: "(j, c) \<in> set es" "l \<in> set (leaves c)" by auto
  with assms(3) have "f j = Some c" by auto
  then have "wft (q @ [j]) c" using assms(1) by (simp add: kids_wft_def)
  with j wft_leaves_path show ?thesis by blast
qed

lemma below_less:
  assumes "kids_wft q f" and "agrees q K" and "l \<in> set (leaves_below (key_At K (int (length q))) f)"
  shows "Key l < K"
proof -
  obtain j c where "(j, c) \<in> set (kids_below (key_At K (int (length q))) f)" "on_path (q @ [j]) (Key l)"
    using kids_side_path [OF assms(1,3)] by (auto simp: kids_below_def)
  with agrees_below [OF assms(2)] show ?thesis by auto
qed

lemma above_greater:
  assumes "kids_wft q f" and "agrees q K" and "l \<in> set (leaves_above (key_At K (int (length q))) f)"
  shows "K < Key l"
proof -
  obtain j c where "(j, c) \<in> set (kids_above (key_At K (int (length q))) f)" "on_path (q @ [j]) (Key l)"
    using kids_side_path [OF assms(1,3)] by (auto simp: kids_above_def)
  with agrees_above [OF assms(2)] show ?thesis by auto
qed

lemma next_above:
  "inode_ok nd \<Longrightarrow> inode_next nd (Some k)
    = Inr (case kids_above k (inode_kid nd) of [] \<Rightarrow> (0, None) | (b, c) # _ \<Rightarrow> (b, Some c))"
  by (simp add: nd.next_law first_kid_filter kids_above_def)

lemma prev_below:
  "inode_ok nd \<Longrightarrow> fit nd \<Longrightarrow> inode_Kind nd \<noteq> Node256 \<Longrightarrow> inode_prev nd (Some k)
    = Inr (case rev (kids_below k (inode_kid nd)) of [] \<Rightarrow> (0, None) | (b, c) # _ \<Rightarrow> (b, Some c))"
  using fit_pos [of nd] by (simp add: inode_prev_law last_kid_filter kids_below_def)

lemma gte_here:
  "inode_ok nd \<Longrightarrow> inode_gte nd (Some k) = (case inode_kid nd k of Some c \<Rightarrow> Inr (k, Some c)
    | None \<Rightarrow> Inr (case kids_above k (inode_kid nd) of [] \<Rightarrow> (0, None) | (b, c) # _ \<Rightarrow> (b, Some c)))"
proof (cases "inode_kid nd k")
  case None
  assume ok: "inode_ok nd"
  have "filter (\<lambda>(b, _). k \<le> b) (entries_of (inode_kid nd)) = kids_above k (inode_kid nd)"
    unfolding kids_above_def using None set_entries [of "inode_kid nd"]
    by (intro filter_cong refl) (auto simp: order_le_less)
  with None show ?thesis by (simp add: nd.gte_law [OF ok] first_kid_filter)
qed (simp add: nd.gte_present)

lemma lte_here:
  "inode_ok nd \<Longrightarrow> fit nd \<Longrightarrow> inode_lte nd (Some k) = (case inode_kid nd k of Some c \<Rightarrow> Inr (k, Some c)
    | None \<Rightarrow> Inr (case rev (kids_below k (inode_kid nd)) of [] \<Rightarrow> (0, None) | (b, c) # _ \<Rightarrow> (b, Some c)))"
proof (cases "inode_kid nd k")
  case None
  assume ok: "inode_ok nd" and fit: "fit nd"
  have "filter (\<lambda>(b, _). b \<le> k) (entries_of (inode_kid nd)) = kids_below k (inode_kid nd)"
    unfolding kids_below_def using None set_entries [of "inode_kid nd"]
    by (intro filter_cong refl) (auto simp: order_le_less)
  with None fit_pos [OF fit] show ?thesis by (simp add: nd.lte_law [OF ok] last_kid_filter)
qed (simp add: nd.lte_present)

section \<open>Positions\<close>

definition indexed :: "bnode \<Rightarrow> bool" where
  "indexed b \<longleftrightarrow> counted b \<and> cached b"

definition at_pos :: "bnode \<Rightarrow> int \<Rightarrow> leaf \<Rightarrow> bool" where
  "at_pos b i l \<longleftrightarrow> 0 \<le> i \<and> i < int (length (leaves b)) \<and> leaves b ! nat i = l"

lemma indexed_kid:
  "\<not> isLeaf b \<Longrightarrow> binner b = Some n \<Longrightarrow> indexed b \<Longrightarrow> inode_kid (Node n) k = Some c \<Longrightarrow> indexed c"
  by (auto simp: indexed_def counted_iff cached_iff kids_all_def)

lemma kid_pos:
  assumes wf: "wft p b" and b: "\<not> isLeaf b" "binner b = Some n" and ix: "indexed b"
    and c: "inode_kid (Node n) k = Some c" and at: "at_pos c i l"
  shows "at_pos b (i + pren c) l"
proof -
  let ?f = "inode_kid (Node n)"
  have kw: "kids_wft (p @ compressed n) ?f" using wf b by (simp add: wft_inner_iff)
  have "kids_all counted ?f" "prens_ok ?f" using ix b by (simp_all add: indexed_def counted_iff cached_iff)
  then have "pren c = int (length (leaves_below k ?f))"
    using c presum_leaves [OF _ kw] by (simp add: prens_ok_def)
  moreover have "leaves b = leaves_below k ?f @ leaves c @ leaves_above k ?f"
    using b kids_leaves_split [of ?f k c] c by (simp add: leaves_inner')
  moreover have "nat i < length (leaves c)" using at by (auto simp: at_pos_def)
  ultimately show ?thesis using at by (simp add: at_pos_def nth_append nat_add_distrib)
qed

lemma at_pos_hd: "wft p b \<Longrightarrow> at_pos b 0 (hd (leaves b))"
  using wft_leaves_nonempty [of p b] by (simp add: at_pos_def hd_conv_nth)

lemma at_pos_last: "wft p b \<Longrightarrow> at_pos b (int (length (leaves b)) - 1) (last (leaves b))"
proof -
  assume "wft p b"
  then have "leaves b \<noteq> []" by (rule wft_leaves_nonempty)
  moreover have "nat (int (length (leaves b)) - 1) = length (leaves b) - 1" by linarith
  ultimately show ?thesis by (simp add: at_pos_def last_conv_nth Suc_le_eq)
qed

end
