(* ===== verification/SearchGTE.thy ===== *)
theory SearchGTE
  imports Search
begin

text \<open>
  \<open>getGTE\<close> (\<open>gte.go\<close>): the search for the least key at or above (\<open>GTE\<close>) or above (\<open>GT\<close>) a
  key. The function of the source is modelled in its phases: what is decided before the
  children are looked at, the first recursive call, and the second and the third.
\<close>

section \<open>The operations\<close>

text \<open>Phases zero to two: \<open>None\<close> when the children have to be searched.\<close>

definition gte_before :: "bnode inner \<Rightarrow> key \<Rightarrow> int \<Rightarrow> bool \<Rightarrow> int \<Rightarrow> found res option" where
  "gte_before n key depth smallestWillDo keyCmpPath =
     (if smallestWillDo then
        Some (rbind (inner_recursiveFirst n) (\<lambda>(value, ok). Inr (Some value, True, 0, 0)))
      else if length key = 0 then
        Some (rbind (inner_recursiveFirst n) (\<lambda>(value, found). Inr (Some value, found, 0, 0)))
      else if keyCmpPath = 1 then
        Some (rbind (inner_recursiveLast n) (\<lambda>(value, ok). Inr (Some value, False, needNextLeaf, 0)))
      else if keyCmpPath = - 1 then
        Some (rbind (inner_recursiveFirst n) (\<lambda>(value, ok). Inr (Some value, False, needPrevLeaf, 0)))
      else
        let (fullmatch, gt) = scan_compressed n key depth in
        if \<not> fullmatch then
          if gt then Some (rbind (inner_recursiveLast n) (\<lambda>(value, ok). Inr (Some value, False, needNextLeaf, 0)))
          else Some (rbind (inner_recursiveFirst n) (\<lambda>(value, ok). Inr (Some value, False, needPrevLeaf, 0)))
        else None)"

text \<open>\<open>GT\<close> when the first call found a leaf: the leaf itself if it is greater, or else the next one.\<close>

definition gte_foundGT :: "bnode inner \<Rightarrow> key \<Rightarrow> byte \<Rightarrow> bnode option \<Rightarrow> int \<Rightarrow> found res" where
  "gte_foundGT n key nextKeyb value idx =
     rbind (deref value) (\<lambda>v. rbind (deref (bleaf v)) (\<lambda>lf.
       if Compare (Key lf) key > 0 then Inr (value, True, 0, idx)
       else rbind (inode_next (Node n) (Some nextKeyb)) (\<lambda>(b, nextLocal). case nextLocal of
          None \<Rightarrow> Inr (None, False, 2, idx)
        | Some nl \<Rightarrow> rbind (bnode_recursiveFirst nl) (\<lambda>(v', ok). Inr (Some v', True, 0, pren nl)))))"

function bnode_getGTE :: "bnode \<Rightarrow> key \<Rightarrow> int \<Rightarrow> SearchModifier \<Rightarrow> bool \<Rightarrow> int \<Rightarrow> found res"
  and inner_getGTE :: "bnode inner \<Rightarrow> key \<Rightarrow> int \<Rightarrow> SearchModifier \<Rightarrow> bool \<Rightarrow> int \<Rightarrow> found res"
  and gte_second :: "bnode inner \<Rightarrow> key \<Rightarrow> int \<Rightarrow> SearchModifier \<Rightarrow> int \<Rightarrow> byte \<Rightarrow> int \<Rightarrow> found res"
  and gte_third :: "bnode inner \<Rightarrow> key \<Rightarrow> int \<Rightarrow> SearchModifier \<Rightarrow> int \<Rightarrow> byte \<Rightarrow> int \<Rightarrow> bnode \<Rightarrow> found res"
where
  "bnode_getGTE a key depth smod smallestWillDo keyCmpPath =
     (if isLeaf a then rbind (deref (bleaf a)) (\<lambda>lf. Inr (leaf_get lf key depth a))
      else rbind (deref (binner a)) (\<lambda>n. inner_getGTE n key depth smod smallestWillDo keyCmpPath))"
| "inner_getGTE n key depth smod smallestWillDo keyCmpPath =
     (case gte_before n key depth smallestWillDo keyCmpPath of
        Some r \<Rightarrow> r
      | None \<Rightarrow>
          let nextDepth = depth + int (length (compressed n));
              querykey = (if nextDepth < int (length key) then key ! nat nextDepth else 0)
          in rbind (inode_gte (Node n) (Some querykey)) (\<lambda>(nextKeyb, next). case next of
            None \<Rightarrow> Inr (None, False, 2, 0)
          | Some nx \<Rightarrow>
              rbind (bnode_getGTE nx key (nextDepth + 1) smod False (byteCmp querykey nextKeyb keyCmpPath))
                (\<lambda>(value, found, dir, id0). let id = id0 + pren nx in
                  if found \<and> smod = GTE then Inr (value, True, 0, id)
                  else if found \<and> smod = GT then gte_foundGT n key nextKeyb value id
                  else if dir > 0 then gte_second n key nextDepth smod keyCmpPath querykey dir
                  else gte_third n key nextDepth smod keyCmpPath querykey dir nx)))"
| "gte_second n key nextDepth smod keyCmpPath querykey dir =
     rbind (inode_next (Node n) (Some querykey)) (\<lambda>(nextnextKeyb, nextnext). case nextnext of
       None \<Rightarrow> rbind (inode_last (Node n)) (\<lambda>(b, value). Inr (value, False, needNextLeaf, 0))
     | Some nn \<Rightarrow>
         let smallestWillDo = (dir > 1) in
         rbind (bnode_getGTE nn key nextDepth smod smallestWillDo (byteCmp querykey nextnextKeyb keyCmpPath))
           (\<lambda>(value2, found2, dir2, id2). let id2' = id2 + pren nn in
             if found2 then Inr (value2, True, 0, id2')
             else if dir2 < 0 then Inr (value2, True, 0, id2')
             else Inr (value2, False, if smallestWillDo then 2 else needNextLeaf, 0)))"
| "gte_third n key nextDepth smod keyCmpPath querykey dir nx =
     rbind (inode_prev (Node n) (Some querykey)) (\<lambda>(prevKeyb, prev). case prev of
       None \<Rightarrow> rbind (inode_first (Node n)) (\<lambda>(b, value). Inr (value, False, needPrevLeaf, 0))
     | Some pv \<Rightarrow>
         let smallestWillDo = (dir > 1) in
         rbind (bnode_getGTE pv key (nextDepth + 1) smod smallestWillDo (byteCmp querykey prevKeyb keyCmpPath))
           (\<lambda>(value2, found2, dir2, id2). let id2' = id2 + pren pv in
             if found2 then Inr (value2, True, 0, id2')
             else if dir2 > 0 then
               rbind (bnode_recursiveFirst nx) (\<lambda>(value, ok). Inr (Some value, True, 0, pren nx))
             else Inr (value2, False, if dir2 > 0 \<and> smallestWillDo then 2 else dir2, 0)))"
  by pat_completeness auto

termination
  by (relation "measure (case_sum
      (case_sum (\<lambda>(a, _). 3 * size a) (\<lambda>(n, _). 3 * size_inner size n + 1))
      (case_sum (\<lambda>(n, _). 3 * size_inner size n) (\<lambda>(n, _). 3 * size_inner size n)))")
    (auto dest!: size_gte size_nextc size_prevc size_binner)

declare bnode_getGTE.simps [simp del] inner_getGTE.simps [simp del] gte_second.simps [simp del] gte_third.simps [simp del]

section \<open>Subtrees on one side of the key\<close>

lemma gte_right:
  assumes wf: "wft p c" and K: "K \<noteq> []" and gt: "\<forall>l \<in> set (leaves c). K < Key l"
  shows "\<exists>a f d. bnode_getGTE c K dep smod will (- 1) = Inr (Some a, f, d, 0) \<and> (f \<or> d < 0) \<and>
    (\<not> will \<longrightarrow> \<not> f \<and> d = - 1) \<and> is_leaf_of c a (hd (leaves c))"
proof (cases "isLeaf c")
  case True
  then obtain l where l: "bleaf c = Some l" using wft_leafD [OF wf] by blast
  with True gt have "K < Key l" by (simp add: leaves_leaf)
  then have "Compare K (Key l) = - 1" "K \<noteq> Key l" by (auto simp: Compare_values)
  with True l show ?thesis
    by (auto simp: bnode_getGTE.simps leaf_get_def Let_def is_leaf_of_def leaves_leaf)
next
  case False
  with wf obtain n where n: "binner c = Some n" by (auto elim: wft_innerE)
  obtain a where a: "bnode_recursiveFirst c = Inr (a, True)" "is_leaf_of c a (hd (leaves c))"
    using recursiveFirst_correct [OF wf] by blast
  with inner_recursive_same(1) [OF n False] have "inner_recursiveFirst n = Inr (a, True)" by blast
  with False n K a(2) show ?thesis
    by (auto simp: bnode_getGTE.simps inner_getGTE.simps gte_before_def needPrevLeaf_def)
qed

lemma gte_left:
  assumes wf: "wft p c" and K: "K \<noteq> []" and lt: "\<forall>l \<in> set (leaves c). Key l < K"
  shows "\<exists>a. bnode_getGTE c K dep smod False 1 = Inr (a, False, 1, 0)"
proof (cases "isLeaf c")
  case True
  then obtain l where l: "bleaf c = Some l" using wft_leafD [OF wf] by blast
  with True lt have "Key l < K" by (simp add: leaves_leaf)
  then have "Compare K (Key l) = 1" "K \<noteq> Key l" by (auto simp: Compare_values)
  with True l show ?thesis by (auto simp: bnode_getGTE.simps leaf_get_def Let_def)
next
  case False
  with wf obtain n where n: "binner c = Some n" by (auto elim: wft_innerE)
  obtain a where a: "bnode_recursiveLast c = Inr (a, True)"
    using recursiveLast_correct [OF wf] by blast
  with inner_recursive_same(2) [OF n False] have "inner_recursiveLast n = Inr (a, True)" by blast
  with False n K show ?thesis
    by (simp add: bnode_getGTE.simps inner_getGTE.simps gte_before_def needNextLeaf_def)
qed

section \<open>The second and the third call\<close>

text \<open>The setting of both: an inner node whose path the key agrees with, and the byte it selects.\<close>

definition at_inner :: "byte list \<Rightarrow> bnode \<Rightarrow> bnode inner \<Rightarrow> key \<Rightarrow> byte \<Rightarrow> bool" where
  "at_inner p b n K k \<longleftrightarrow> wft p b \<and> \<not> isLeaf b \<and> binner b = Some n \<and> agrees (p @ compressed n) K \<and> K \<noteq> [] \<and>
     no256 b \<and> k = key_At K (int (length (p @ compressed n)))"

lemma at_innerD:
  assumes "at_inner p b n K k"
  shows "wft p b" "\<not> isLeaf b" "binner b = Some n" "inode_ok (Node n)" "fit (Node n)" "K \<noteq> []"
    "kids_wft (p @ compressed n) (inode_kid (Node n))" "inode_Kind (Node n) \<noteq> Node256"
    "\<And>l. l \<in> set (leaves_below k (inode_kid (Node n))) \<Longrightarrow> Key l < K"
    "\<And>l. l \<in> set (leaves_above k (inode_kid (Node n))) \<Longrightarrow> K < Key l"
    "leaves b = leaves_below k (inode_kid (Node n)) @ leaves_at k (inode_kid (Node n)) @ leaves_above k (inode_kid (Node n))"
  using assms below_less [of "p @ compressed n" "inode_kid (Node n)" K] above_greater [of "p @ compressed n" "inode_kid (Node n)" K]
    kids_leaves_at [of "inode_kid (Node n)" k]
  by (auto simp: at_inner_def wft_inner_iff no256_iff leaves_inner' simp del: set_concat)

lemma kids_above_first:
  assumes "kids_above k f = (j, c) # r"
  shows "k < j" "f j = Some c" "leaves_above k f = leaves c @ concat (map (\<lambda>(k, c). leaves c) r)"
  using assms mem_kids_above [of j c k f] by (auto simp del: mem_kids_above)

lemma kids_below_last:
  assumes "rev (kids_below k f) = (j, c) # r"
  shows "j < k" "f j = Some c" "leaves_below k f = concat (map (\<lambda>(k, c). leaves c) (rev r)) @ leaves c"
proof -
  from assms have e: "kids_below k f = rev r @ [(j, c)]" by simp
  with mem_kids_below [of j c k f] show "j < k" "f j = Some c" by (auto simp del: mem_kids_below)
  show "leaves_below k f = concat (map (\<lambda>(k, c). leaves c) (rev r)) @ leaves c" unfolding e by simp
qed

lemma gte_second_correct:
  assumes a: "at_inner p b n K k" and d: "d > 0"
  shows "if leaves_above k (inode_kid (Node n)) = [] then \<exists>v. gte_second n K dep smod 0 k d = Inr (v, False, 1, 0)
    else \<exists>v i. gte_second n K dep smod 0 k d = Inr (Some v, True, 0, i) \<and>
      is_leaf_of b v (hd (leaves_above k (inode_kid (Node n)))) \<and>
      (indexed b \<longrightarrow> at_pos b i (hd (leaves_above k (inode_kid (Node n)))))"
proof -
  note h = at_innerD [OF a]
  let ?f = "inode_kid (Node n)"
  show ?thesis
  proof (cases "kids_above k ?f")
    case Nil
    obtain x k' c where "inode_last (Node n) = Inr (x, Some c)" using kids_leaves_last [OF h(4,5,7)] by blast
    with Nil show ?thesis by (simp add: gte_second.simps next_above [OF h(4)] needNextLeaf_def)
  next
    case (Cons e r)
    obtain j c where e: "e = (j, c)" by force
    note ab = kids_above_first [OF Cons [unfolded e]]
    have wc: "wft ((p @ compressed n) @ [j]) c" using h(7) ab(2) by (simp add: kids_wft_def)
    have ne: "leaves c \<noteq> []" using wft_leaves_nonempty [OF wc] .
    have gt: "\<forall>l \<in> set (leaves c). K < Key l" using h(10) ab(3) by auto
    obtain v f d' where r: "bnode_getGTE c K dep smod (1 < d) (- 1) = Inr (Some v, f, d', 0)" "f \<or> d' < 0"
      "is_leaf_of c v (hd (leaves c))"
      using gte_right [OF wc h(6) gt, of dep smod "1 < d"] by blast
    have "byteCmp k j 0 = - 1" using ab(1) by (simp add: byteCmp_0)
    with r Cons e have s: "gte_second n K dep smod 0 k d = Inr (Some v, True, 0, pren c)"
      by (auto simp: gte_second.simps next_above [OF h(4)] Let_def)
    have hd: "hd (leaves_above k ?f) = hd (leaves c)" using ab(3) ne by simp
    have "indexed b \<longrightarrow> at_pos b (pren c) (hd (leaves c))"
      using kid_pos [OF h(1,2,3) _ ab(2) at_pos_hd [OF wc]] by simp
    with s hd is_leaf_of_kid [OF h(2,3) ab(2) r(3)] ab(3) ne show ?thesis by auto
  qed
qed

lemma gte_third_correct:
  assumes a: "at_inner p b n K k" and nx: "wft q nx"
  shows "if leaves_below k (inode_kid (Node n)) = [] then \<exists>v. gte_third n K dep smod 0 k (- 1) nx = Inr (v, False, - 1, 0)
    else \<exists>v. gte_third n K dep smod 0 k (- 1) nx = Inr (Some v, True, 0, pren nx) \<and> is_leaf_of nx v (hd (leaves nx))"
proof -
  note h = at_innerD [OF a]
  let ?f = "inode_kid (Node n)"
  show ?thesis
  proof (cases "rev (kids_below k ?f)")
    case Nil
    obtain x k' c where "inode_first (Node n) = Inr (x, Some c)" using kids_leaves_first [OF h(4,5,7)] by blast
    with Nil show ?thesis by (simp add: gte_third.simps prev_below [OF h(4,5,8)] needPrevLeaf_def)
  next
    case (Cons e r)
    obtain j c where e: "e = (j, c)" by force
    note be = kids_below_last [OF Cons [unfolded e]]
    have wc: "wft ((p @ compressed n) @ [j]) c" using h(7) be(2) by (simp add: kids_wft_def)
    have ne: "leaves c \<noteq> []" using wft_leaves_nonempty [OF wc] .
    have lt: "\<forall>l \<in> set (leaves c). Key l < K" using h(9) be(3) by auto
    obtain v where r: "bnode_getGTE c K (dep + 1) smod False 1 = Inr (v, False, 1, 0)"
      using gte_left [OF wc h(6) lt] by blast
    have "byteCmp k j 0 = 1" using be(1) by (simp add: byteCmp_0)
    moreover obtain x where "bnode_recursiveFirst nx = Inr (x, True)" "is_leaf_of nx x (hd (leaves nx))"
      using recursiveFirst_correct [OF nx] by blast
    ultimately have "\<exists>v. gte_third n K dep smod 0 k (- 1) nx = Inr (Some v, True, 0, pren nx) \<and> is_leaf_of nx v (hd (leaves nx))"
      using r Cons e by (simp add: gte_third.simps prev_below [OF h(4,5,8)] Let_def)
    with be(3) ne show ?thesis by auto
  qed
qed

end
