(* ===== verification/SearchLTE.thy ===== *)
theory SearchLTE
  imports SearchGTE
begin

text \<open>
  \<open>getLTE\<close> (\<open>lte.go\<close>): the search for the greatest key at or below (\<open>LTE\<close>) or below (\<open>LT\<close>) a
  key, in the same phases as \<open>getGTE\<close>.
\<close>

section \<open>The operations\<close>

definition lte_before :: "bnode inner \<Rightarrow> key \<Rightarrow> int \<Rightarrow> bool \<Rightarrow> int \<Rightarrow> found res option" where
  "lte_before n key depth largestWillDo keyCmpPath =
     (if largestWillDo then
        Some (rbind (inner_recursiveLast n) (\<lambda>(value, ok). Inr (Some value, True, 0, SubN n - 1)))
      else if length key = 0 then
        Some (rbind (inner_recursiveLast n) (\<lambda>(value, found). Inr (Some value, found, 0, SubN n - 1)))
      else if keyCmpPath = 1 then
        Some (rbind (inner_recursiveLast n) (\<lambda>(value, ok). Inr (Some value, False, needNextLeaf, 0)))
      else if keyCmpPath = - 1 then
        Some (rbind (inner_recursiveFirst n) (\<lambda>(value, ok). Inr (Some value, False, needPrevLeaf, 0)))
      else
        let (fullmatch, gt) = scan_compressed n key depth in
        if \<not> fullmatch then
          if gt then Some (rbind (inner_recursiveLast n) (\<lambda>(value, ok). Inr (Some value, False, needNextLeaf, 0)))
          else Some (rbind (inner_recursiveFirst n) (\<lambda>(value, ok). Inr (Some value, False, needPrevLeaf, 0)))
        else None)"

definition lte_foundLT :: "bnode inner \<Rightarrow> key \<Rightarrow> byte \<Rightarrow> bnode option \<Rightarrow> int \<Rightarrow> found res" where
  "lte_foundLT n key prevKeyb value idx =
     rbind (deref value) (\<lambda>v. rbind (deref (bleaf v)) (\<lambda>lf.
       if Compare (Key lf) key < 0 then Inr (value, True, 0, idx)
       else rbind (inode_prev (Node n) (Some prevKeyb)) (\<lambda>(b, prevLocal). case prevLocal of
          None \<Rightarrow> Inr (None, False, - 2, idx)
        | Some pl \<Rightarrow> rbind (bnode_recursiveLast pl) (\<lambda>(v', ok). Inr (Some v', True, 0, pren pl + subn pl - 1)))))"

text \<open>
  In the second call the value of \<open>prevprev\<close> is taken with the index the call returned: for an
  inner node that is not asked for its largest leaf, that is 0.
\<close>

function bnode_getLTE :: "bnode \<Rightarrow> key \<Rightarrow> int \<Rightarrow> SearchModifier \<Rightarrow> bool \<Rightarrow> int \<Rightarrow> found res"
  and inner_getLTE :: "bnode inner \<Rightarrow> key \<Rightarrow> int \<Rightarrow> SearchModifier \<Rightarrow> bool \<Rightarrow> int \<Rightarrow> found res"
  and lte_second :: "bnode inner \<Rightarrow> key \<Rightarrow> int \<Rightarrow> SearchModifier \<Rightarrow> int \<Rightarrow> byte \<Rightarrow> int \<Rightarrow> found res"
  and lte_third :: "bnode inner \<Rightarrow> key \<Rightarrow> int \<Rightarrow> SearchModifier \<Rightarrow> int \<Rightarrow> byte \<Rightarrow> int \<Rightarrow> bnode \<Rightarrow> found res"
where
  "bnode_getLTE a key depth smod largestWillDo keyCmpPath =
     (if isLeaf a then rbind (deref (bleaf a)) (\<lambda>lf. Inr (leaf_get lf key depth a))
      else rbind (deref (binner a)) (\<lambda>n. inner_getLTE n key depth smod largestWillDo keyCmpPath))"
| "inner_getLTE n key depth smod largestWillDo keyCmpPath =
     (case lte_before n key depth largestWillDo keyCmpPath of
        Some r \<Rightarrow> r
      | None \<Rightarrow>
          let nextDepth = depth + int (length (compressed n));
              querykey = (if nextDepth < int (length key) then key ! nat nextDepth else 0)
          in rbind (inode_lte (Node n) (Some querykey)) (\<lambda>(prevKeyb, prev). case prev of
            None \<Rightarrow> Inr (None, False, - 2, 0)
          | Some pv \<Rightarrow>
              rbind (bnode_getLTE pv key (nextDepth + 1) smod False (byteCmp querykey prevKeyb keyCmpPath))
                (\<lambda>(value, found, dir, id0). let id = id0 + pren pv in
                  if found \<and> smod = LTE then Inr (value, True, 0, id)
                  else if found \<and> smod = LT then lte_foundLT n key prevKeyb value id
                  else if dir < 0 then lte_second n key nextDepth smod keyCmpPath querykey dir
                  else lte_third n key nextDepth smod keyCmpPath querykey dir pv)))"
| "lte_second n key nextDepth smod keyCmpPath querykey dir =
     rbind (inode_prev (Node n) (Some querykey)) (\<lambda>(prevprevKeyb, prevprev). case prevprev of
       None \<Rightarrow> rbind (inode_first (Node n)) (\<lambda>(b, value). Inr (value, False, needPrevLeaf, 0))
     | Some pp \<Rightarrow>
         let largestWillDo = (dir < - 1) in
         rbind (bnode_getLTE pp key nextDepth smod largestWillDo (byteCmp querykey prevprevKeyb keyCmpPath))
           (\<lambda>(value2, found2, dir2, id2). let id2' = id2 + pren pp in
             if found2 then Inr (value2, True, 0, id2')
             else if dir2 > 0 then Inr (value2, True, 0, id2')
             else Inr (value2, False, if largestWillDo then - 2 else needNextLeaf, 0)))"
| "lte_third n key nextDepth smod keyCmpPath querykey dir pv =
     rbind (inode_next (Node n) (Some querykey)) (\<lambda>(nextKeyb, next). case next of
       None \<Rightarrow> rbind (inode_last (Node n)) (\<lambda>(b, value). Inr (value, False, needNextLeaf, 0))
     | Some nx \<Rightarrow>
         let largestWillDo = (dir < - 1) in
         rbind (bnode_getLTE nx key (nextDepth + 1) smod largestWillDo (byteCmp querykey nextKeyb keyCmpPath))
           (\<lambda>(value2, found2, dir2, id2). let id2' = id2 + pren nx in
             if found2 then Inr (value2, True, 0, id2')
             else if dir2 < 0 then
               rbind (bnode_recursiveLast pv) (\<lambda>(value, ok). Inr (Some value, True, 0, pren pv + subn pv - 1))
             else Inr (value2, False, if dir2 < 0 \<and> largestWillDo then - 2 else dir2, 0)))"
  by pat_completeness auto
termination
  by (relation "measure (case_sum
      (case_sum (\<lambda>(a, _). 3 * size a) (\<lambda>(n, _). 3 * size_inner size n + 1))
      (case_sum (\<lambda>(n, _). 3 * size_inner size n) (\<lambda>(n, _). 3 * size_inner size n)))")
    (auto dest!: size_lte size_nextc size_prevc size_binner)

declare bnode_getLTE.simps [simp del] inner_getLTE.simps [simp del] lte_second.simps [simp del] lte_third.simps [simp del]

end
