(* ===== verification/TreeApi.thy ===== *)
theory TreeApi
  imports SearchLTE
begin

text \<open>
  The tree and its public operations (\<open>tree.go\<close>). The read-write lock is taken around each
  operation and released before it returns; a single operation is modelled without it. The
  allocation of a leaf gets the address of the new object as an argument.
\<close>

record Tree =
  root :: "bnode option"
  tree_size :: int
  Leafz :: "leaf option list"
  SkipLocking :: bool

section \<open>The operations\<close>

definition NewArtTree :: Tree where
  "NewArtTree = \<lparr>root = None, tree_size = 0, Leafz = [], SkipLocking = False\<rparr>"

definition tree_Size :: "Tree \<Rightarrow> int" where
  "tree_Size t = tree_size t"

definition tree_IsEmpty :: "Tree \<Rightarrow> bool" where
  "tree_IsEmpty t \<longleftrightarrow> root t = None"

definition tree_InsertLeaf :: "Tree \<Rightarrow> leaf \<Rightarrow> (Tree \<times> bool) res" where
  "tree_InsertLeaf t lf = (case root t of
     None \<Rightarrow> Inr (t\<lparr>tree_size := tree_size t + 1, root := Some (bnodeLeaf lf)\<rparr>, False)
   | Some r \<Rightarrow> rbind (bnode_insert r lf 0) (\<lambda>(replacement, updated).
       Inr (t\<lparr>root := Some replacement, tree_size := (if \<not> updated then tree_size t + 1 else tree_size t)\<rparr>, updated)))"

definition tree_InsertX :: "nat \<Rightarrow> Tree \<Rightarrow> key \<Rightarrow> any \<Rightarrow> byte list \<Rightarrow> (Tree \<times> bool) res" where
  "tree_InsertX addr t key v x = (let key2 = [] @ key; lf = NewLeaf addr key2 v x in tree_InsertLeaf t lf)"

definition tree_Insert :: "nat \<Rightarrow> Tree \<Rightarrow> key \<Rightarrow> any \<Rightarrow> (Tree \<times> bool) res" where
  "tree_Insert addr t key v = (let key2 = [] @ key; lf = NewLeaf addr key2 v [] in tree_InsertLeaf t lf)"

definition tree_Find :: "Tree \<Rightarrow> SearchModifier \<Rightarrow> key \<Rightarrow> (leaf option \<times> int \<times> bool) res" where
  "tree_Find t smod key = (case root t of
     None \<Rightarrow> Inr (None, 0, False)
   | Some r \<Rightarrow>
       if length key = 0 \<and> tree_size t = 1 then Inr (bleaf r, 0, True)
       else rbind (case smod of
           GTE \<Rightarrow> bnode_getGTE r key 0 smod False 0
         | GT \<Rightarrow> bnode_getGTE r key 0 smod False 0
         | LTE \<Rightarrow> bnode_getLTE r key 0 smod False 0
         | LT \<Rightarrow> bnode_getLTE r key 0 smod False 0
         | Exact \<Rightarrow> bnode_get r key 0)
         (\<lambda>(b, found, dir, idx). Inr (case b of None \<Rightarrow> None | Some x \<Rightarrow> bleaf x, idx, found)))"

text \<open>The five searches for a value differ in the modifier only.\<close>

definition found_value :: "leaf option \<times> int \<times> bool \<Rightarrow> any \<times> int \<times> bool" where
  "found_value r = (case r of (lf, idx, found) \<Rightarrow>
     (case lf of Some l \<Rightarrow> if found then Value l else AnyNil | None \<Rightarrow> AnyNil, idx, found))"

definition tree_FindGT :: "Tree \<Rightarrow> key \<Rightarrow> (any \<times> int \<times> bool) res" where
  "tree_FindGT t key = rbind (tree_Find t GT key) (\<lambda>r. Inr (found_value r))"

definition tree_FindGTE :: "Tree \<Rightarrow> key \<Rightarrow> (any \<times> int \<times> bool) res" where
  "tree_FindGTE t key = rbind (tree_Find t GTE key) (\<lambda>r. Inr (found_value r))"

definition tree_FindLT :: "Tree \<Rightarrow> key \<Rightarrow> (any \<times> int \<times> bool) res" where
  "tree_FindLT t key = rbind (tree_Find t LT key) (\<lambda>r. Inr (found_value r))"

definition tree_FindLTE :: "Tree \<Rightarrow> key \<Rightarrow> (any \<times> int \<times> bool) res" where
  "tree_FindLTE t key = rbind (tree_Find t LTE key) (\<lambda>r. Inr (found_value r))"

definition tree_FindExact :: "Tree \<Rightarrow> key \<Rightarrow> (any \<times> int \<times> bool) res" where
  "tree_FindExact t key = rbind (tree_Find t Exact key) (\<lambda>r. Inr (found_value r))"

text \<open>A nil key is the empty key.\<close>

definition tree_FirstLeaf :: "Tree \<Rightarrow> (leaf option \<times> int \<times> bool) res" where
  "tree_FirstLeaf t = tree_Find t GTE []"

definition tree_LastLeaf :: "Tree \<Rightarrow> (leaf option \<times> int \<times> bool) res" where
  "tree_LastLeaf t = tree_Find t LTE []"

definition tree_Remove :: "Tree \<Rightarrow> key \<Rightarrow> (Tree \<times> bool \<times> any) res" where
  "tree_Remove t key = (case root t of
     None \<Rightarrow> Inr (t, False, AnyNil)
   | Some r \<Rightarrow> rbind (bnode_del r key 0) (\<lambda>(r', deleted, deletedNode, up).
       let t1 = t\<lparr>root := in_place r' up\<rparr> in
       if deleted then
         rbind (deref deletedNode) (\<lambda>dn. rbind (deref (bleaf dn)) (\<lambda>l.
           Inr (t1\<lparr>tree_size := tree_size t1 - 1\<rparr>, deleted, Value l)))
       else Inr (t1, deleted, AnyNil)))"

text \<open>\<open>At\<close> on an empty tree follows the nil root, unless the index is negative.\<close>

definition tree_At :: "Tree \<Rightarrow> int \<Rightarrow> (leaf option \<times> bool) res" where
  "tree_At t i = (case root t of
     None \<Rightarrow> if i < 0 then Inr (None, False) else Inl NilDereference
   | Some r \<Rightarrow> bnode_at r i)"

definition tree_Atv :: "Tree \<Rightarrow> int \<Rightarrow> (any \<times> bool) res" where
  "tree_Atv t i = rbind (tree_At t i) (\<lambda>(lf, ok).
     if ok then rbind (deref lf) (\<lambda>l. Inr (Value l, ok)) else Inr (AnyNil, ok))"

definition tree_LeafIndex :: "Tree \<Rightarrow> leaf \<Rightarrow> (int \<times> bool) res" where
  "tree_LeafIndex t lf = rbind (tree_FindExact t (Key lf)) (\<lambda>(v, idx, ok). Inr (idx, ok))"

section \<open>The invariant and the abstraction\<close>

text \<open>
  The tree as a map from keys to leaves, without the key bytes that the tree writes into them.
\<close>

definition tree_leaves :: "Tree \<Rightarrow> leaf list" where
  "tree_leaves t = (case root t of None \<Rightarrow> [] | Some r \<Rightarrow> leaves r)"

definition abs_set :: "Tree \<Rightarrow> leaf set" where
  "abs_set t = unkeyed ` set (tree_leaves t)"

definition tree_map :: "Tree \<Rightarrow> key \<Rightarrow> leaf option" where
  "tree_map t = map_of (map (\<lambda>l. (Key l, unkeyed l)) (tree_leaves t))"

definition tree_wf :: "Tree \<Rightarrow> bool" where
  "tree_wf t \<longleftrightarrow> (case root t of None \<Rightarrow> True | Some r \<Rightarrow> wft [] r)"

definition sized :: "Tree \<Rightarrow> bool" where
  "sized t \<longleftrightarrow> tree_size t = int (length (tree_leaves t))"

definition tree_counted :: "Tree \<Rightarrow> bool" where
  "tree_counted t \<longleftrightarrow> (case root t of None \<Rightarrow> True | Some r \<Rightarrow> counted r)"

definition tree_cached :: "Tree \<Rightarrow> bool" where
  "tree_cached t \<longleftrightarrow> (case root t of None \<Rightarrow> True | Some r \<Rightarrow> cached r)"

definition storable :: "Tree \<Rightarrow> leaf \<Rightarrow> bool" where
  "storable t lf \<longleftrightarrow> (\<forall>l \<in> set (tree_leaves t). key_compat (Key l) (Key lf) \<and>
     (lf_addr l = lf_addr lf \<longrightarrow> unkeyed l = unkeyed lf))"

lemmas tree_defs = tree_wf_def tree_leaves_def tree_counted_def tree_cached_def sized_def

lemma tree_sorted: "tree_wf t \<Longrightarrow> sorted_wrt (<) (map Key (tree_leaves t))"
  by (auto simp: tree_defs dest: wft_sorted split: option.splits)

lemma tree_distinct: "tree_wf t \<Longrightarrow> distinct (map Key (tree_leaves t))"
  using tree_sorted strict_sorted_iff by blast

lemma tree_map_Some: "tree_wf t \<Longrightarrow> tree_map t K = Some l \<longleftrightarrow> l \<in> abs_set t \<and> Key l = K"
proof -
  assume wf: "tree_wf t"
  have "distinct (map fst (map (\<lambda>l. (Key l, unkeyed l)) (tree_leaves t)))"
    using tree_distinct [OF wf] by (simp add: comp_def)
  then have "tree_map t K = Some l \<longleftrightarrow> (K, l) \<in> set (map (\<lambda>l. (Key l, unkeyed l)) (tree_leaves t))"
    unfolding tree_map_def by (rule map_of_eq_Some_iff)
  then show ?thesis by (auto simp: abs_set_def image_iff)
qed

lemma option_eq_by_Some: "(\<And>x. a = Some x \<longleftrightarrow> b = Some x) \<Longrightarrow> a = b"
  by (cases a; cases b) auto

text \<open>Two well-formed trees with related sets of leaves have related maps.\<close>

lemma tree_map_update:
  assumes "tree_wf t" and "tree_wf t'" and "abs_set t' = insert l {l \<in> abs_set t. Key l \<noteq> Key l0}" and "Key l = Key l0"
  shows "tree_map t' = (tree_map t)(Key l0 \<mapsto> l)"
proof
  fix K
  show "tree_map t' K = ((tree_map t)(Key l0 \<mapsto> l)) K"
  proof (rule option_eq_by_Some)
    fix x
    show "tree_map t' K = Some x \<longleftrightarrow> ((tree_map t)(Key l0 \<mapsto> l)) K = Some x"
      using tree_map_Some [OF assms(1), of K x] tree_map_Some [OF assms(2), of K x] assms(3,4) by auto
  qed
qed

lemma tree_map_remove:
  assumes "tree_wf t" and "tree_wf t'" and "abs_set t' = {l \<in> abs_set t. Key l \<noteq> K0}"
  shows "tree_map t' = (tree_map t)(K0 := None)"
proof
  fix K
  show "tree_map t' K = ((tree_map t)(K0 := None)) K"
  proof (rule option_eq_by_Some)
    fix x
    show "tree_map t' K = Some x \<longleftrightarrow> ((tree_map t)(K0 := None)) K = Some x"
      using tree_map_Some [OF assms(1), of K x] tree_map_Some [OF assms(2), of K x] assms(3) by auto
  qed
qed

section \<open>What each operation promises\<close>

definition tree_keys :: "Tree \<Rightarrow> key set" where
  "tree_keys t = Key ` set (tree_leaves t)"

lemma tree_keys_Some: "tree_keys t = (case root t of None \<Rightarrow> {} | Some r \<Rightarrow> keys_of r)"
  by (cases "root t") (simp_all add: tree_keys_def tree_leaves_def)

lemma tree_keys_abs: "tree_keys t = Key ` abs_set t"
  by (simp add: tree_keys_def abs_set_def image_image)

lemma tree_keys_dom: "tree_wf t \<Longrightarrow> K \<in> tree_keys t \<longleftrightarrow> (\<exists>l. tree_map t K = Some l)"
  by (auto simp: tree_map_Some tree_keys_abs)

lemma tree_length: "tree_wf t \<Longrightarrow> length (tree_leaves t) = card (tree_keys t)"
  using distinct_card [OF tree_distinct, of t] by (simp add: tree_keys_def)

lemma InsertLeaf_correct:
  assumes "tree_wf t" and "storable t lf"
  obtains t' u where "tree_InsertLeaf t lf = Inr (t', u)" and "tree_wf t'"
    and "abs_set t' = insert (unkeyed lf) {l \<in> abs_set t. Key l \<noteq> Key lf}"
    and "u \<longleftrightarrow> (\<exists>l \<in> abs_set t. Key l = Key lf \<and> lf_addr l \<noteq> lf_addr lf)"
    and "tree_size t' = tree_size t + (if u then 0 else 1)"
    and "Key lf \<notin> tree_keys t \<longrightarrow> tree_counted t \<longrightarrow> tree_counted t'"
    and "tree_cached t \<longrightarrow> tree_counted t \<longrightarrow> (\<forall>K \<in> tree_keys t. K < Key lf) \<longrightarrow> tree_cached t'"
    and "Leafz t' = Leafz t" and "SkipLocking t' = SkipLocking t" and "root t' \<noteq> None"
proof (cases "root t")
  case None
  let ?t = "t\<lparr>tree_size := tree_size t + 1, root := Some (bnodeLeaf lf)\<rparr>"
  have "tree_InsertLeaf t lf = Inr (?t, False)" using None by (simp add: tree_InsertLeaf_def)
  moreover have "tree_wf ?t" "abs_set ?t = {unkeyed lf}" "abs_set t = {}" "tree_counted ?t" "tree_cached ?t"
    using None by (simp_all add: tree_defs abs_set_def leaves_leaf counted_leaf cached_leaf)
  ultimately show thesis by (intro that [of ?t False]) auto
next
  case (Some r)
  have w: "wft [] r" and c: "compat_with r (Key lf)" and s: "same_pointer r lf"
    using assms Some by (auto simp: tree_defs storable_def compat_with_def same_pointer_def)
  from insert_correct [OF w on_path_Nil c s] obtain r' u
    where i: "bnode_insert r lf 0 = Inr (r', u)" and post: "ins_post [] r lf r' u" by auto
  let ?t = "t\<lparr>root := Some r', tree_size := (if \<not> u then tree_size t + 1 else tree_size t)\<rparr>"
  have a: "abs_set t = uleaves r" "abs_set ?t = uleaves r'" "tree_keys t = keys_of r"
    using Some by (simp_all add: abs_set_def tree_leaves_def uleaves_def tree_keys_Some)
  show thesis
  proof (rule that [of ?t u])
    show "tree_InsertLeaf t lf = Inr (?t, u)" using Some i by (simp add: tree_InsertLeaf_def)
  qed (use post a Some in \<open>auto simp: ins_post_def tree_defs\<close>)
qed

lemma Remove_correct:
  assumes "tree_wf t"
  obtains t' d v where "tree_Remove t K = Inr (t', d, v)" and "tree_wf t'"
    and "abs_set t' = {l \<in> abs_set t. Key l \<noteq> K}" and "d \<longleftrightarrow> K \<in> tree_keys t"
    and "d \<longrightarrow> (\<exists>l \<in> abs_set t. Key l = K \<and> v = Value l)" and "\<not> d \<longrightarrow> v = AnyNil"
    and "tree_size t' = tree_size t - (if d then 1 else 0)"
    and "d \<longrightarrow> tree_counted t \<longrightarrow> tree_counted t'" and "tree_cached t \<longrightarrow> tree_cached t'"
    and "Leafz t' = Leafz t" and "SkipLocking t' = SkipLocking t"
proof (cases "root t")
  case None
  then show thesis
    by (intro that [of t False AnyNil]) (use assms in \<open>auto simp: tree_Remove_def tree_keys_def tree_leaves_def abs_set_def\<close>)
next
  case (Some r)
  have w: "wft [] r" using assms Some by (simp add: tree_defs)
  from del_correct [OF w, of K] obtain r' d dn up
    where i: "bnode_del r K 0 = Inr (r', d, dn, up)" and post: "del_post [] r K r' d dn up" by auto
  let ?n = "in_place r' up"
  let ?t = "t\<lparr>root := ?n, tree_size := tree_size t - (if d then 1 else 0)\<rparr>"
  have a: "abs_set t = uleaves r" "tree_keys t = keys_of r"
    using Some by (simp_all add: abs_set_def tree_leaves_def uleaves_def tree_keys_Some)
  have d: "d \<longleftrightarrow> K \<in> keys_of r" using post by (simp add: del_post_def)
  have gone: "isLeaf r \<and> d" if "?n = None"
    using that post by (auto simp: del_post_def in_place_def split: parent_update.splits)
  have tr: "tree_wf ?t \<and> abs_set ?t = {l \<in> abs_set t. Key l \<noteq> K} \<and>
      (d \<longrightarrow> tree_counted t \<longrightarrow> tree_counted ?t) \<and> (tree_cached t \<longrightarrow> tree_cached ?t)"
  proof (cases ?n)
    case None
    with gone d have "isLeaf r" "K \<in> keys_of r" by auto
    then have "uleaves r = {l \<in> uleaves r. Key l = K}"
      using wft_leafD [OF w] by (auto simp: leaves_leaf uleaves_def)
    then show ?thesis using None a by (auto simp: tree_defs abs_set_def)
  next
    case (Some c)
    then have "kept [] r K d c" using post unfolding del_post_def by (metis option.simps(5))
    then show ?thesis using Some \<open>root t = Some r\<close> a by (auto simp: kept_def tree_defs abs_set_def uleaves_def)
  qed
  show thesis
  proof (cases d)
    case True
    then obtain x l where l: "dn = Some x" "bleaf x = Some l" "l \<in> set (leaves r)" "Key l = K"
      using post by (auto simp: del_post_def is_leaf_of_def)
    have "tree_Remove t K = Inr (?t, True, Value l)" using Some i l True by (simp add: tree_Remove_def)
    moreover have "\<exists>l' \<in> abs_set t. Key l' = K \<and> Value l = Value l'"
      using l a by (intro bexI [of _ "unkeyed l"]) (auto simp: uleaves_def)
    ultimately show thesis using tr a d True by (intro that [of ?t True "Value l"]) auto
  next
    case False
    have "tree_Remove t K = Inr (?t, False, AnyNil)" using Some i False by (simp add: tree_Remove_def)
    then show thesis using tr a d False by (intro that [of ?t False AnyNil]) auto
  qed
qed

lemma Find_Exact_correct:
  assumes "tree_wf t" and "K \<noteq> [] \<or> tree_size t \<noteq> 1"
  obtains v i f where "tree_Find t Exact K = Inr (v, i, f)" and "f \<longleftrightarrow> K \<in> tree_keys t"
    and "f \<longrightarrow> (\<exists>l \<in> set (tree_leaves t). v = Some l \<and> Key l = K)"
    and "f \<longrightarrow> tree_counted t \<longrightarrow> tree_cached t \<longrightarrow>
      0 \<le> i \<and> i < int (length (tree_leaves t)) \<and> Key (tree_leaves t ! nat i) = K"
proof (cases "root t")
  case None
  then show thesis by (intro that [of None 0 False]) (auto simp: tree_Find_def tree_keys_Some)
next
  case (Some r)
  have w: "wft [] r" using assms Some by (simp add: tree_defs)
  from get_correct [OF w, of K] obtain v f d i where g: "bnode_get r K 0 = Inr (v, f, d, i)"
    "f \<longleftrightarrow> K \<in> keys_of r" "f \<longrightarrow> (\<exists>a l. v = Some a \<and> is_leaf_of r a l \<and> Key l = K)"
    by (simp del: ex_simps split_paired_Ex) blast
  have k: "tree_keys t = keys_of r" "tree_leaves t = leaves r" using Some by (simp_all add: tree_keys_Some tree_leaves_def)
  let ?v = "case v of None \<Rightarrow> None | Some x \<Rightarrow> bleaf x"
  show thesis
  proof (rule that [of ?v i f])
    show "tree_Find t Exact K = Inr (?v, i, f)" using Some assms(2) g by (auto simp: tree_Find_def)
    show "f \<longrightarrow> tree_counted t \<longrightarrow> tree_cached t \<longrightarrow>
        0 \<le> i \<and> i < int (length (tree_leaves t)) \<and> Key (tree_leaves t ! nat i) = K"
      using Some k g get_index [OF w, of K v d i] by (simp add: tree_defs)
  qed (use g k in \<open>auto simp: is_leaf_of_def\<close>)
qed

lemma At_correct:
  assumes "tree_wf t" and "tree_counted t" and "root t \<noteq> None"
  shows "tree_At t i = Inr (if 0 \<le> i \<and> i < int (length (tree_leaves t)) then (Some (tree_leaves t ! nat i), True) else (None, False))"
  using assms at_correct [of "[]" _ i] by (auto simp: tree_At_def tree_defs at_spec_def)

end
