(* ===== verification/Histories.thy ===== *)
theory Histories
  imports TreeApi
begin

text \<open>
  Histories of calls on one tree, against a plain map from keys to values. A call of \<open>Insert\<close>
  allocates a new leaf, so the state carries the number of leaves allocated so far. Keys come
  from a set in which no key continues another one with a zero byte: the tree reads a key past
  its end as zero, and cannot tell such keys apart.
\<close>

section \<open>Calls and their outcomes\<close>

datatype call =
    CallInsert key any
  | CallInsertX key any "byte list"
  | CallRemove key
  | CallFindExact key
  | CallSize
  | CallIsEmpty

datatype outcome =
    Updated bool
  | Removed bool any
  | Found any bool
  | Count int
  | Empty bool

type_synonym world = "nat \<times> Tree"

fun exec :: "world \<Rightarrow> call \<Rightarrow> (world \<times> outcome) res" where
  "exec (a, t) (CallInsert K v) = rbind (tree_Insert a t K v) (\<lambda>(t', u). Inr ((Suc a, t'), Updated u))"
| "exec (a, t) (CallInsertX K v x) = rbind (tree_InsertX a t K v x) (\<lambda>(t', u). Inr ((Suc a, t'), Updated u))"
| "exec (a, t) (CallRemove K) = rbind (tree_Remove t K) (\<lambda>(t', d, v). Inr ((a, t'), Removed d v))"
| "exec (a, t) (CallFindExact K) = rbind (tree_FindExact t K) (\<lambda>(v, i, f). Inr ((a, t), Found v f))"
| "exec (a, t) CallSize = Inr ((a, t), Count (tree_Size t))"
| "exec (a, t) CallIsEmpty = Inr ((a, t), Empty (tree_IsEmpty t))"

fun exec_all :: "world \<Rightarrow> call list \<Rightarrow> (world \<times> outcome list) res" where
  "exec_all w [] = Inr (w, [])"
| "exec_all w (c # cs) = rbind (exec w c) (\<lambda>(w', out).
     rbind (exec_all w' cs) (\<lambda>(w'', outs). Inr (w'', out # outs)))"

text \<open>The specification: a finite map, no leaves, no addresses.\<close>

fun spec :: "(key \<Rightarrow> any option) \<Rightarrow> call \<Rightarrow> (key \<Rightarrow> any option) \<times> outcome" where
  "spec m (CallInsert K v) = (m(K \<mapsto> v), Updated (m K \<noteq> None))"
| "spec m (CallInsertX K v x) = (m(K \<mapsto> v), Updated (m K \<noteq> None))"
| "spec m (CallRemove K) = (m(K := None), case m K of None \<Rightarrow> Removed False AnyNil | Some v \<Rightarrow> Removed True v)"
| "spec m (CallFindExact K) = (m, case m K of None \<Rightarrow> Found AnyNil False | Some v \<Rightarrow> Found v True)"
| "spec m CallSize = (m, Count (int (card (dom m))))"
| "spec m CallIsEmpty = (m, Empty (m = Map.empty))"

fun spec_all :: "(key \<Rightarrow> any option) \<Rightarrow> call list \<Rightarrow> (key \<Rightarrow> any option) \<times> outcome list" where
  "spec_all m [] = (m, [])"
| "spec_all m (c # cs) = (case spec m c of (m', out) \<Rightarrow> case spec_all m' cs of (m'', outs) \<Rightarrow> (m'', out # outs))"

text \<open>The keys a history may use: \<open>Find\<close> with an empty key asks for the only leaf of a tree of one.\<close>

definition compat_set :: "key set \<Rightarrow> bool" where
  "compat_set U \<longleftrightarrow> (\<forall>K \<in> U. \<forall>L \<in> U. key_compat K L)"

fun call_ok :: "key set \<Rightarrow> call \<Rightarrow> bool" where
  "call_ok U (CallInsert K v) \<longleftrightarrow> K \<in> U"
| "call_ok U (CallInsertX K v x) \<longleftrightarrow> K \<in> U"
| "call_ok U (CallFindExact K) \<longleftrightarrow> K \<noteq> []"
| "call_ok U _ \<longleftrightarrow> True"

section \<open>The invariant of a world and its abstraction\<close>

definition world_ok :: "key set \<Rightarrow> world \<Rightarrow> bool" where
  "world_ok U w \<longleftrightarrow> (case w of (a, t) \<Rightarrow> tree_wf t \<and> sized t \<and> tree_keys t \<subseteq> U \<and> (\<forall>l \<in> abs_set t. lf_addr l < a))"

definition values_of :: "Tree \<Rightarrow> key \<Rightarrow> any option" where
  "values_of t K = map_option Value (tree_map t K)"

lemma values_of_Some: "tree_wf t \<Longrightarrow> values_of t K = Some v \<longleftrightarrow> (\<exists>l \<in> abs_set t. Key l = K \<and> Value l = v)"
  by (auto simp: values_of_def tree_map_Some)

lemma values_of_None: "tree_wf t \<Longrightarrow> values_of t K = None \<longleftrightarrow> K \<notin> tree_keys t"
  using tree_keys_dom [of t K] by (cases "tree_map t K") (auto simp: values_of_def)

lemma sized_card: "tree_wf t \<Longrightarrow> sized t \<longleftrightarrow> tree_size t = int (card (tree_keys t))"
  by (simp add: sized_def tree_length)

lemma finite_tree_keys [simp]: "finite (tree_keys t)"
  by (simp add: tree_keys_def)

lemma world_empty [simp]: "world_ok U (a, NewArtTree)"
  by (simp add: world_ok_def NewArtTree_def tree_defs tree_keys_def abs_set_def)

lemma values_empty [simp]: "values_of NewArtTree = Map.empty"
  by (simp add: values_of_def tree_map_def tree_leaves_def NewArtTree_def fun_eq_iff)

lemma insert_leaf_world:
  assumes U: "compat_set U" "K \<in> U" and w: "world_ok U (a, t)"
  shows "\<exists>t'. tree_InsertLeaf t (NewLeaf a K v x) = Inr (t', values_of t K \<noteq> None) \<and> world_ok U (Suc a, t') \<and>
    values_of t' = (values_of t)(K \<mapsto> v)"
proof -
  let ?l = "NewLeaf a K v x"
  have wf: "tree_wf t" and sz: "sized t" and ku: "tree_keys t \<subseteq> U" and old: "\<And>l. l \<in> abs_set t \<Longrightarrow> lf_addr l < a"
    using w by (auto simp: world_ok_def)
  have l: "Key ?l = K" "lf_addr ?l = a" "Value ?l = v" by (simp_all add: NewLeaf_def)
  have "storable t ?l"
  proof (unfold storable_def, intro ballI conjI impI)
    fix x' assume x: "x' \<in> set (tree_leaves t)"
    then show "key_compat (Key x') (Key ?l)" using ku U l by (auto simp: compat_set_def tree_keys_def)
    have "lf_addr x' < a" using old [of "unkeyed x'"] x by (simp add: abs_set_def)
    then show "unkeyed x' = unkeyed ?l" if "lf_addr x' = lf_addr ?l" using that l by simp
  qed
  then obtain t' u where i: "tree_InsertLeaf t ?l = Inr (t', u)" "tree_wf t'"
    "abs_set t' = insert (unkeyed ?l) {l \<in> abs_set t. Key l \<noteq> K}"
    "u \<longleftrightarrow> (\<exists>l \<in> abs_set t. Key l = K \<and> lf_addr l \<noteq> a)" "tree_size t' = tree_size t + (if u then 0 else 1)"
    by (rule InsertLeaf_correct [OF wf]) (rule that, assumption+, simp_all only: l)
  have u: "u \<longleftrightarrow> K \<in> tree_keys t" unfolding i(4) tree_keys_abs using old by (force simp: image_iff)
  have k: "tree_keys t' = insert K (tree_keys t)" unfolding tree_keys_abs i(3) using l by (auto simp: image_iff)
  have "sized t'" using sz i(2,5) wf u k by (auto simp: sized_card insert_absorb)
  moreover have "\<forall>l \<in> abs_set t'. lf_addr l < Suc a" unfolding i(3) using old l by (auto intro: less_SucI)
  ultimately have "world_ok U (Suc a, t')" using i(2) k ku U by (simp add: world_ok_def)
  moreover have "values_of t' = (values_of t)(K \<mapsto> v)"
    using tree_map_update [OF wf i(2), of "unkeyed ?l" ?l] i(3) l by (auto simp: values_of_def fun_eq_iff)
  moreover have "u = (values_of t K \<noteq> None)" using u values_of_None [OF wf] by simp
  ultimately show ?thesis using i(1) by blast
qed

lemma remove_world:
  assumes w: "world_ok U (a, t)"
  shows "\<exists>t'. tree_Remove t K = Inr (t', values_of t K \<noteq> None, case values_of t K of None \<Rightarrow> AnyNil | Some v \<Rightarrow> v) \<and>
    world_ok U (a, t') \<and> values_of t' = (values_of t)(K := None)"
proof -
  have wf: "tree_wf t" and sz: "sized t" and ku: "tree_keys t \<subseteq> U" and old: "\<And>l. l \<in> abs_set t \<Longrightarrow> lf_addr l < a"
    using w by (auto simp: world_ok_def)
  obtain t' d v where r: "tree_Remove t K = Inr (t', d, v)" "tree_wf t'"
    "abs_set t' = {l \<in> abs_set t. Key l \<noteq> K}" "d \<longleftrightarrow> K \<in> tree_keys t"
    "d \<longrightarrow> (\<exists>l \<in> abs_set t. Key l = K \<and> v = Value l)" "\<not> d \<longrightarrow> v = AnyNil"
    "tree_size t' = tree_size t - (if d then 1 else 0)" 
    by (rule Remove_correct [OF wf, of K]) (rule that)
  have k: "tree_keys t' = tree_keys t - {K}" unfolding tree_keys_abs r(3) by auto
  have "card (tree_keys t) = card (tree_keys t') + (if d then 1 else 0)"
    using k r(4) card_Suc_Diff1 [OF finite_tree_keys, of K t] by (cases d) simp_all
  then have "sized t'" using sz r(2,7) wf by (simp add: sized_card)
  then have "world_ok U (a, t')" using r(2,3) k ku old by (auto simp: world_ok_def)
  moreover have "values_of t' = (values_of t)(K := None)"
    using tree_map_remove [OF wf r(2,3)] by (simp add: values_of_def fun_eq_iff)
  moreover have "d = (values_of t K \<noteq> None) \<and> v = (case values_of t K of None \<Rightarrow> AnyNil | Some v \<Rightarrow> v)"
  proof (cases d)
    case True
    with r(5) have "values_of t K = Some v" using values_of_Some [OF wf, of K v] by auto
    with True show ?thesis by simp
  next
    case False
    with r(4,6) show ?thesis using values_of_None [OF wf, of K] by simp
  qed
  ultimately show ?thesis using r(1) by blast
qed

lemma find_world:
  assumes w: "world_ok U (a, t)" and K: "K \<noteq> []"
  shows "\<exists>i. tree_FindExact t K = Inr (case values_of t K of None \<Rightarrow> AnyNil | Some v \<Rightarrow> v, i, values_of t K \<noteq> None)"
proof -
  have wf: "tree_wf t" using w by (auto simp: world_ok_def)
  obtain v i f where f: "tree_Find t Exact K = Inr (v, i, f)"
    "f \<longleftrightarrow> K \<in> tree_keys t" "f \<longrightarrow> (\<exists>l \<in> set (tree_leaves t). v = Some l \<and> Key l = K)"
    by (rule Find_Exact_correct [OF wf disjI1 [OF K]]) (rule that)
  show ?thesis
  proof (cases f)
    case True
    then obtain l where l: "l \<in> set (tree_leaves t)" "v = Some l" "Key l = K" using f(3) by blast
    then have "values_of t K = Some (Value l)"
      using values_of_Some [OF wf, of K "Value l"] by (auto simp: abs_set_def intro!: bexI [of _ l])
    then show ?thesis using f(1) l True by (simp add: tree_FindExact_def found_value_def)
  next
    case False
    then have "values_of t K = None" using f(2) values_of_None [OF wf] by simp
    then show ?thesis using f(1) False by (auto simp: tree_FindExact_def found_value_def split: option.split)
  qed
qed

section \<open>Every history of calls behaves as on the map\<close>

lemma dom_values: "tree_wf t \<Longrightarrow> dom (values_of t) = tree_keys t"
  using values_of_None by (auto simp: dom_def)

lemma exec_refines:
  assumes "compat_set U" and "world_ok U (a, t)" and "call_ok U c"
  shows "\<exists>a' t'. exec (a, t) c = Inr ((a', t'), snd (spec (values_of t) c)) \<and> world_ok U (a', t') \<and>
    values_of t' = fst (spec (values_of t) c)"
proof (cases c)
  case (CallInsert K v)
  with insert_leaf_world [OF assms(1) _ assms(2), of K v "[]"] assms(3) show ?thesis by (auto simp: tree_Insert_def)
next
  case (CallInsertX K v x)
  with insert_leaf_world [OF assms(1) _ assms(2), of K v x] assms(3) show ?thesis by (auto simp: tree_InsertX_def)
next
  case (CallRemove K)
  with remove_world [OF assms(2), of K] assms(2) show ?thesis by (auto split: option.splits)
next
  case (CallFindExact K)
  with find_world [OF assms(2), of K] assms show ?thesis by (auto split: option.splits)
next
  case CallSize
  with assms(2) show ?thesis by (auto simp: world_ok_def tree_Size_def sized_card dom_values)
next
  case CallIsEmpty
  have wf: "tree_wf t" using assms(2) by (simp add: world_ok_def)
  have "tree_IsEmpty t \<longleftrightarrow> tree_leaves t = []"
    using wf wft_leaves_nonempty by (auto simp: tree_IsEmpty_def tree_leaves_def tree_wf_def split: option.splits)
  also have "\<dots> \<longleftrightarrow> dom (values_of t) = {}" using dom_values [OF wf] by (simp add: tree_keys_def)
  finally show ?thesis using CallIsEmpty assms(2) by (auto simp: dom_eq_empty_conv)
qed

lemma exec_all_refines:
  assumes "compat_set U" and "world_ok U (a, t)" and "\<forall>c \<in> set cs. call_ok U c"
  shows "\<exists>a' t'. exec_all (a, t) cs = Inr ((a', t'), snd (spec_all (values_of t) cs)) \<and> world_ok U (a', t') \<and>
    values_of t' = fst (spec_all (values_of t) cs)"
  using assms(2,3)
proof (induction cs arbitrary: a t)
  case (Cons c cs)
  from exec_refines [OF assms(1) Cons.prems(1)] Cons.prems(2) obtain a1 t1 where
    e: "exec (a, t) c = Inr ((a1, t1), snd (spec (values_of t) c))" and w: "world_ok U (a1, t1)"
    and v: "values_of t1 = fst (spec (values_of t) c)" by (metis list.set_intros(1))
  from Cons.IH [OF w] Cons.prems(2) obtain a2 t2 where
    "exec_all (a1, t1) cs = Inr ((a2, t2), snd (spec_all (values_of t1) cs))" "world_ok U (a2, t2)"
    "values_of t2 = fst (spec_all (values_of t1) cs)" by auto
  then show ?case using e v by (auto split: prod.split)
qed simp

end
