(* ===== verification/Loading.thy ===== *)
theory Loading
  imports Histories
begin

text \<open>
  Inserting a list of leaves one by one, as \<open>TreeLoader.Load\<close> and \<open>Tree.PostLoadHook\<close> do
  (\<open>saver.go\<close>). Leaves that arrive in key order, as a saved tree writes them, give a tree whose
  counts and cached sums are exact.
\<close>

fun insert_all :: "Tree \<Rightarrow> leaf list \<Rightarrow> Tree res" where
  "insert_all t [] = Inr t"
| "insert_all t (lf # lfs) = rbind (tree_InsertLeaf t lf) (\<lambda>(t', u). insert_all t' lfs)"

definition loadable :: "leaf list \<Rightarrow> bool" where
  "loadable ls \<longleftrightarrow> sorted_wrt (<) (map Key ls) \<and> distinct (map lf_addr ls) \<and> compat_set (Key ` set ls)"

definition exact :: "Tree \<Rightarrow> bool" where
  "exact t \<longleftrightarrow> tree_wf t \<and> sized t \<and> tree_counted t \<and> tree_cached t"

lemma exact_empty [simp]: "exact NewArtTree"
  by (simp add: exact_def tree_defs NewArtTree_def)

lemma loadable_append:
  "loadable (ls @ [l]) \<Longrightarrow> loadable ls \<and> (\<forall>x \<in> set ls. Key x < Key l \<and> lf_addr x \<noteq> lf_addr l \<and> key_compat (Key x) (Key l))"
  by (simp add: loadable_def sorted_wrt_append compat_set_def) (metis imageI)

text \<open>Sorted lists with the same elements are equal, up to the key bytes the tree wrote.\<close>

lemma leaves_from_set:
  assumes "tree_wf t" and "sorted_wrt (<) (map Key ls)" and "abs_set t = unkeyed ` set ls"
  shows "map unkeyed (tree_leaves t) = map unkeyed ls"
proof -
  have s: "sorted_wrt (\<lambda>x y. Key x < Key y) (map unkeyed (tree_leaves t))" "sorted_wrt (\<lambda>x y. Key x < Key y) (map unkeyed ls)"
    using tree_sorted [OF assms(1)] assms(2) by (simp_all add: sorted_wrt_map)
  have "x = y" if "x \<in> set (map unkeyed ls)" "y \<in> set (map unkeyed ls)" "Key x = Key y" for x y
    using s(2) that by (auto simp: sorted_wrt_iff_nth_less in_set_conv_nth) (metis less_irrefl linorder_neqE_nat)
  then have "inj_on Key (set (map unkeyed ls))" by (simp add: inj_on_def)
  moreover have "set (map unkeyed (tree_leaves t)) = set (map unkeyed ls)" using assms(3) by (simp add: abs_set_def)
  moreover have "Key ` unkeyed ` set (tree_leaves t) = Key ` unkeyed ` set ls" using assms(3) by (simp add: abs_set_def)
  then have "map Key (map unkeyed (tree_leaves t)) = map Key (map unkeyed ls)"
    by (intro strict_sorted_equal) (use s in \<open>simp_all add: sorted_wrt_map image_image\<close>)
  ultimately show ?thesis by (metis map_inj_on Un_absorb)
qed

lemma insert_all_append:
  "insert_all t (ls @ [l]) = rbind (insert_all t ls) (\<lambda>t'. rbind (tree_InsertLeaf t' l) (\<lambda>(t'', u). Inr t''))"
  by (induction ls arbitrary: t) (auto simp: rbind_def split: sum.splits prod.splits)

lemma insert_all_ascending:
  "loadable ls \<Longrightarrow> \<exists>t. insert_all NewArtTree ls = Inr t \<and> exact t \<and> abs_set t = unkeyed ` set ls \<and>
     Leafz t = [] \<and> SkipLocking t = False"
proof (induction ls rule: rev_induct)
  case Nil
  show ?case by (simp add: abs_set_def) (simp add: NewArtTree_def tree_leaves_def)
next
  case (snoc l ls)
  from loadable_append [OF snoc.prems] have ls: "loadable ls"
    and new: "\<And>x. x \<in> set ls \<Longrightarrow> Key x < Key l \<and> lf_addr x \<noteq> lf_addr l \<and> key_compat (Key x) (Key l)" by auto
  from snoc.IH [OF ls] obtain t where t: "insert_all NewArtTree ls = Inr t" "exact t" "abs_set t = unkeyed ` set ls"
    "Leafz t = []" "SkipLocking t = False" by blast
  have at: "\<exists>y \<in> set ls. unkeyed x = unkeyed y" if "x \<in> set (tree_leaves t)" for x
    using t(3) that unfolding abs_set_def by blast
  have wf: "tree_wf t" using t(2) by (simp add: exact_def)
  have st: "storable t l"
  proof (unfold storable_def, intro ballI conjI impI)
    fix x assume "x \<in> set (tree_leaves t)"
    then obtain y where y: "y \<in> set ls" "unkeyed x = unkeyed y" using at by blast
    then have k: "Key x = Key y" "lf_addr x = lf_addr y" by (metis Key_unkeyed)+
    show "key_compat (Key x) (Key l)" using new y k by metis
    show "unkeyed x = unkeyed l" if "lf_addr x = lf_addr l" using new y k that by metis
  qed
  have fresh: "\<forall>K \<in> tree_keys t. K < Key l" using new by (auto simp: tree_keys_abs t(3))
  then have nin: "Key l \<notin> tree_keys t" by auto
  obtain t' u where i: "tree_InsertLeaf t l = Inr (t', u)" "tree_wf t'"
    "abs_set t' = insert (unkeyed l) {x \<in> abs_set t. Key x \<noteq> Key l}"
    "u \<longleftrightarrow> (\<exists>x \<in> abs_set t. Key x = Key l \<and> lf_addr x \<noteq> lf_addr l)"
    "tree_size t' = tree_size t + (if u then 0 else 1)"
    "Key l \<notin> tree_keys t \<longrightarrow> tree_counted t \<longrightarrow> tree_counted t'"
    "tree_cached t \<longrightarrow> tree_counted t \<longrightarrow> (\<forall>K \<in> tree_keys t. K < Key l) \<longrightarrow> tree_cached t'"
    "Leafz t' = Leafz t" "SkipLocking t' = SkipLocking t"
    by (rule InsertLeaf_correct [OF wf st]) (rule that)
  have nu: "\<not> u" using nin unfolding i(4) tree_keys_abs by (metis imageI)
  have "Key x \<noteq> Key l" if "x \<in> abs_set t" for x using nin that unfolding tree_keys_abs by (metis imageI)
  then have old: "{x \<in> abs_set t. Key x \<noteq> Key l} = abs_set t" by blast
  then have "tree_keys t' = insert (Key l) (tree_keys t)" using i(3) by (simp add: tree_keys_abs)
  then have "sized t'" using nin i(2,5) nu wf t(2) by (simp add: sized_card exact_def)
  then have "exact t'" using i(2,6,7) nin fresh t(2) by (simp add: exact_def)
  moreover have "abs_set t' = unkeyed ` set (ls @ [l])" using i(3) old t(3) by auto
  moreover have "insert_all NewArtTree (ls @ [l]) = Inr t'" by (simp add: insert_all_append t(1) i(1))
  ultimately show ?case using i(8,9) t(4,5) by metis
qed

lemma load_ascending:
  assumes "loadable ls"
  shows "\<exists>t. insert_all NewArtTree ls = Inr t \<and> exact t \<and> map unkeyed (tree_leaves t) = map unkeyed ls"
  using insert_all_ascending [OF assms] leaves_from_set assms unfolding loadable_def exact_def by blast

end
