(* ===== verification/FindGTE.thy ===== *)
theory FindGTE
  imports SearchLTE
begin

text \<open>
  What \<open>getGTE\<close> finds: the first leaf at or above the key, when some leaf is at or below it.
  A key below all leaves is reported as not found, with the direction of the leaves.
\<close>

definition wanted_above :: "SearchModifier \<Rightarrow> key \<Rightarrow> leaf \<Rightarrow> bool" where
  "wanted_above smod K l \<longleftrightarrow> (if smod = GT then K < Key l else K \<le> Key l)"

text \<open>A leaf compares for equality only, so at a leaf \<open>GT\<close> is not different from \<open>GTE\<close>.\<close>

definition gte_target :: "SearchModifier \<Rightarrow> key \<Rightarrow> bnode \<Rightarrow> leaf list" where
  "gte_target smod K b = filter (wanted_above (if isLeaf b then GTE else smod) K) (leaves b)"

definition gte_post :: "bnode \<Rightarrow> key \<Rightarrow> SearchModifier \<Rightarrow> bnode option \<Rightarrow> bool \<Rightarrow> int \<Rightarrow> int \<Rightarrow> bool" where
  "gte_post b K smod v f d i \<longleftrightarrow>
     (if f then (\<exists>l \<in> set (leaves b). Key l \<le> K) \<and> gte_target smod K b \<noteq> [] \<and>
          (\<exists>a. v = Some a \<and> is_leaf_of b a (hd (gte_target smod K b))) \<and>
          (indexed b \<longrightarrow> at_pos b i (hd (gte_target smod K b)))
      else d < 0 \<and> (\<forall>l \<in> set (leaves b). K < Key l) \<or> d > 0 \<and> gte_target smod K b = [])"

lemma ex_bool: "\<exists>f. \<not> f" "\<exists>f. f"
  by blast+

lemma gte_third_dir: "d \<le> 1 \<Longrightarrow> gte_third n K dep smod cmp k d nx = gte_third n K dep smod cmp k (- 1) nx"
  by (simp add: gte_third.simps)

lemma Compare_cases: "Compare K L = (if K < L then - 1 else if L < K then 1 else 0)"
  by (induction K L rule: Compare.induct) auto

lemma leaf_get_above:
  assumes "isLeaf c" and "bleaf c = Some l"
  shows "gte_post c K smod (fst (leaf_get l K dep c)) (fst (snd (leaf_get l K dep c)))
    (fst (snd (snd (leaf_get l K dep c)))) (snd (snd (snd (leaf_get l K dep c))))"
proof -
  show ?thesis
    using assms Compare_cases [of K "Key l"] by (auto simp: gte_post_def leaf_get_def Let_def is_leaf_of_def leaves_leaf gte_target_def
      wanted_above_def at_pos_def)
qed

lemma gte_target_split:
  assumes "at_inner p b n K k"
  shows "gte_target smod K b = filter (wanted_above smod K) (leaves_at k (inode_kid (Node n))) @ leaves_above k (inode_kid (Node n))"
proof -
  note h = at_innerD [OF assms]
  have "filter (wanted_above smod K) (leaves_below k (inode_kid (Node n))) = []"
    using h(9) by (auto simp: filter_empty_conv wanted_above_def dest!: h(9) simp del: set_concat)
  moreover have "filter (wanted_above smod K) (leaves_above k (inode_kid (Node n))) = leaves_above k (inode_kid (Node n))"
    using h(10) by (intro filter_True) (simp add: wanted_above_def less_imp_le del: set_concat)
  ultimately show ?thesis unfolding gte_target_def h(11) filter_append using h(2) by simp
qed

text \<open>The first call: the subtree that the byte of the key selects, when there is one.\<close>

lemma gte_kid_post:
  assumes a: "at_inner p b n K k" and c: "inode_kid (Node n) k = Some c" and w: "wft q c"
    and s: "smod = GTE \<or> smod = GT" and post: "gte_post c K smod v f d i"
  shows "\<exists>v' f' d' i'. (if f \<and> smod = GTE then Inr (v, True, 0, i + pren c)
      else if f \<and> smod = GT then gte_foundGT n K k v (i + pren c)
      else if d > 0 then gte_second n K dep smod 0 k d
      else gte_third n K dep smod 0 k d c) = Inr (v', f', d', i') \<and> gte_post b K smod v' f' d' i'"
proof -
  note h = at_innerD [OF a]
  let ?f = "inode_kid (Node n)"
  let ?P = "wanted_above smod K"
  have at: "leaves_at k ?f = leaves c" using c by simp
  have lv: "leaves b = leaves_below k ?f @ leaves c @ leaves_above k ?f" using h(11) c by simp
  have T: "gte_target smod K b = filter ?P (leaves c) @ leaves_above k ?f" using gte_target_split [OF a] c by simp
  have sub: "\<And>l. l \<in> set (leaves c) \<Longrightarrow> l \<in> set (leaves b)" unfolding lv by simp
  have ne: "leaves c \<noteq> []" using wft_leaves_nonempty [OF w] .
  have Tc: "gte_target smod K c = filter ?P (leaves c)" if "\<not> isLeaf c \<or> smod = GTE"
    using that by (auto simp: gte_target_def)
  consider (found) "f" "\<not> isLeaf c \<or> smod = GTE" | (leaf) "f" "isLeaf c" "smod = GT"
    | (after) "\<not> f" "d > 0" | (before) "\<not> f" "d < 0"
    using post s by (cases f) (auto simp: gte_post_def)
  then show ?thesis
  proof cases
    case found
    then obtain x where x: "v = Some x" "is_leaf_of c x (hd (filter ?P (leaves c)))" "filter ?P (leaves c) \<noteq> []"
      "\<exists>l \<in> set (leaves c). Key l \<le> K" "indexed c \<longrightarrow> at_pos c i (hd (filter ?P (leaves c)))"
      using post Tc by (auto simp: gte_post_def)
    let ?l = "hd (filter ?P (leaves c))"
    have "?P ?l" using x(3) using hd_in_set [OF x(3)] by simp
    then have gt: "smod = GT \<Longrightarrow> K < Key ?l" by (simp add: wanted_above_def)
    have "hd (gte_target smod K b) = ?l" using x(3) by (simp add: T)
    moreover have "indexed b \<longrightarrow> at_pos b (i + pren c) ?l"
      using x(5) kid_pos [OF h(1,2,3) _ c] indexed_kid [OF h(2,3) _ c] by blast
    moreover have "\<exists>l \<in> set (leaves b). Key l \<le> K" using x(4) sub by blast
    ultimately have "gte_post b K smod v True 0 (i + pren c)"
      using x(1-3) is_leaf_of_kid [OF h(2,3) c x(2)] by (simp add: gte_post_def T)
    moreover have "smod = GT \<Longrightarrow> gte_foundGT n K k v (i + pren c) = Inr (v, True, 0, i + pren c)"
      using x(1,2) gt by (simp add: gte_foundGT_def is_leaf_of_def)
    ultimately show ?thesis using found s by auto
  next
    case leaf
    then obtain l where l: "bleaf c = Some l" using wft_leafD [OF w] by blast
    have "Key l = K" and v: "\<exists>x. v = Some x \<and> bleaf x = Some l"
      using leaf l post by (auto simp: gte_post_def gte_target_def leaves_leaf wanted_above_def is_leaf_of_def split: if_splits)
    then have c: "gte_foundGT n K k v (i + pren c) = rbind (inode_next (Node n) (Some k)) (\<lambda>(b, nextLocal). case nextLocal of
          None \<Rightarrow> Inr (None, False, 2, i + pren c)
        | Some nl \<Rightarrow> rbind (bnode_recursiveFirst nl) (\<lambda>(v', ok). Inr (Some v', True, 0, pren nl)))"
      by (auto simp: gte_foundGT_def Compare_cases)
    have T1: "gte_target smod K b = leaves_above k ?f" using leaf l \<open>Key l = K\<close> T by (simp add: leaves_leaf wanted_above_def)
    have le: "\<exists>l \<in> set (leaves b). Key l \<le> K" using \<open>Key l = K\<close> sub leaf l by (auto simp: leaves_leaf)
    show ?thesis
    proof (cases "kids_above k ?f")
      case Nil
      with c leaf T1 show ?thesis by (simp add: next_above [OF h(4)] gte_post_def ex_bool)
    next
      case (Cons e r)
      obtain j c2 where e: "e = (j, c2)" by force
      note ab = kids_above_first [OF Cons [unfolded e]]
      have w2: "wft ((p @ compressed n) @ [j]) c2" using h(7) ab(2) by (simp add: kids_wft_def)
      obtain x where x: "bnode_recursiveFirst c2 = Inr (x, True)" "is_leaf_of c2 x (hd (leaves c2))"
        using recursiveFirst_correct [OF w2] by blast
      have hd: "hd (leaves_above k ?f) = hd (leaves c2)" "leaves_above k ?f \<noteq> []" using ab(3) wft_leaves_nonempty [OF w2] by simp_all
      have "gte_foundGT n K k v (i + pren c) = Inr (Some x, True, 0, pren c2)"
        unfolding c next_above [OF h(4)] Cons e using x by simp
      moreover have "gte_post b K smod (Some x) True 0 (pren c2)"
        using le hd is_leaf_of_kid [OF h(2,3) ab(2) x(2)] kid_pos [OF h(1,2,3) _ ab(2) at_pos_hd [OF w2]]
        by (simp add: gte_post_def T1)
      ultimately show ?thesis using leaf by auto
    qed
  next
    case after
    then have T0: "gte_target smod K c = []" using post by (simp add: gte_post_def)
    have "filter ?P (leaves c) = []"
      using T0 s by (auto simp: gte_target_def filter_empty_conv wanted_above_def split: if_splits)
    then have T1: "gte_target smod K b = leaves_above k ?f" using T by simp
    obtain l where "l \<in> set (leaves c)" using ne by (meson list.set_sel(1))
    moreover from this have "Key l \<le> K"
      using T0 by (auto simp: gte_target_def filter_empty_conv wanted_above_def split: if_splits)
    ultimately have le: "\<exists>l \<in> set (leaves b). Key l \<le> K" using sub by blast
    show ?thesis
    proof (cases "leaves_above k ?f = []")
      case True
      obtain x where "gte_second n K dep smod 0 k d = Inr (x, False, 1, 0)"
        using gte_second_correct [OF a after(2), of dep smod] unfolding if_P [OF True] by blast
      then show ?thesis using after True T1 by (simp add: gte_post_def ex_bool)
    next
      case False
      obtain x i' where "gte_second n K dep smod 0 k d = Inr (Some x, True, 0, i')"
        "is_leaf_of b x (hd (leaves_above k ?f))" "indexed b \<longrightarrow> at_pos b i' (hd (leaves_above k ?f))"
        using gte_second_correct [OF a after(2), of dep smod] unfolding if_not_P [OF False] by blast
      then show ?thesis using after False T1 le by (simp add: gte_post_def ex_bool)
    qed
  next
    case before
    then have gt: "\<forall>l \<in> set (leaves c). K < Key l" using post by (auto simp: gte_post_def)
    have T1: "gte_target smod K b = leaves c @ leaves_above k ?f"
      unfolding T using gt by (subst filter_True) (auto simp: wanted_above_def)
    have hd: "hd (gte_target smod K b) = hd (leaves c)" "gte_target smod K b \<noteq> []" using ne T1 by simp_all
    have pos: "indexed b \<longrightarrow> at_pos b (pren c) (hd (leaves c))" using kid_pos [OF h(1,2,3) _ c at_pos_hd [OF w]] by simp
    have td: "gte_third n K dep smod 0 k d c = gte_third n K dep smod 0 k (- 1) c" using before by (intro gte_third_dir) simp
    show ?thesis
    proof (cases "leaves_below k ?f = []")
      case True
      then obtain x where "gte_third n K dep smod 0 k d c = Inr (x, False, - 1, 0)"
        using gte_third_correct [OF a w, of dep smod] td by auto
      moreover have "\<forall>l \<in> set (leaves b). K < Key l" unfolding lv True using gt h(10) by (simp only: set_append Un_iff list.set) blast
      ultimately show ?thesis using before by (simp add: gte_post_def ex_bool)
    next
      case False
      then obtain x where x: "gte_third n K dep smod 0 k d c = Inr (Some x, True, 0, pren c)" "is_leaf_of c x (hd (leaves c))"
        using gte_third_correct [OF a w, of dep smod] unfolding if_not_P [OF False] td by blast
      have "\<exists>l \<in> set (leaves b). Key l \<le> K" unfolding lv using False h(9) by (metis Un_iff hd_in_set less_imp_le set_append)
      then show ?thesis
        using x hd pos before is_leaf_of_kid [OF h(2,3) c x(2)] by (simp add: gte_post_def ex_bool)
    qed
  qed
qed


text \<open>No child at the byte: the first call looks at the next child, all of whose leaves are above.\<close>

lemma gte_no_kid_post:
  assumes a: "at_inner p b n K k" and no: "inode_kid (Node n) k = None"
    and e: "kids_above k (inode_kid (Node n)) = (j, c) # r"
  shows "\<exists>v i v' f' d' i'. bnode_getGTE c K dep smod False (- 1) = Inr (v, False, - 1, i) \<and>
    gte_third n K dep' smod 0 k (- 1) c = Inr (v', f', d', i') \<and> gte_post b K smod v' f' d' i'"
proof -
  note h = at_innerD [OF a]
  let ?f = "inode_kid (Node n)"
  note ab = kids_above_first [OF e]
  have w: "wft ((p @ compressed n) @ [j]) c" using h(7) ab(2) by (simp add: kids_wft_def)
  have ne: "leaves c \<noteq> []" using wft_leaves_nonempty [OF w] .
  have lv: "leaves b = leaves_below k ?f @ leaves_above k ?f" using h(11) no by simp
  have T: "gte_target smod K b = leaves_above k ?f" using gte_target_split [OF a] no by simp
  have gt: "\<forall>l \<in> set (leaves c). K < Key l" using h(10) ab(3) by auto
  obtain v i where r: "bnode_getGTE c K dep smod False (- 1) = Inr (v, False, - 1, i)"
    using gte_right [OF w h(6) gt, of dep smod False] by auto
  have hd: "hd (leaves_above k ?f) = hd (leaves c)" "leaves_above k ?f \<noteq> []" using ab(3) ne by simp_all
  have pos: "indexed b \<longrightarrow> at_pos b (pren c) (hd (leaves c))" using kid_pos [OF h(1,2,3) _ ab(2) at_pos_hd [OF w]] by simp
  show ?thesis
  proof (cases "leaves_below k ?f = []")
    case True
    then obtain x where "gte_third n K dep' smod 0 k (- 1) c = Inr (x, False, - 1, 0)"
      using gte_third_correct [OF a w, of dep' smod] by auto
    moreover have "\<forall>l \<in> set (leaves b). K < Key l" unfolding lv True using h(10) by (simp only: set_append Un_iff list.set) blast
    ultimately show ?thesis using r by (simp add: gte_post_def ex_bool)
  next
    case False
    then obtain x where x: "gte_third n K dep' smod 0 k (- 1) c = Inr (Some x, True, 0, pren c)" "is_leaf_of c x (hd (leaves c))"
      using gte_third_correct [OF a w, of dep' smod] unfolding if_not_P [OF False] by blast
    have "\<exists>l \<in> set (leaves b). Key l \<le> K" unfolding lv using False h(9) by (metis Un_iff hd_in_set less_imp_le set_append)
    then show ?thesis
      using x r hd pos is_leaf_of_kid [OF h(2,3) ab(2) x(2)] by (simp add: gte_post_def T ex_bool)
  qed
qed

theorem getGTE_correct:
  assumes "wft p b" and "no256 b" and "agrees p K" and K: "K \<noteq> []" and s: "smod = GTE \<or> smod = GT"
  shows "\<exists>v f d i. bnode_getGTE b K (int (length p)) smod False 0 = Inr (v, f, d, i) \<and> gte_post b K smod v f d i"
  using assms(1-3)
proof (induction rule: wft.induct)
  case (wft_leaf b l p)
  with leaf_get_above [OF wft_leaf.hyps(1,2), of K smod "int (length p)"] show ?case
    by (simp add: bnode_getGTE.simps) (metis prod.collapse)
next
  case (wft_inner b n p)
  have wf: "wft p b" by (rule wft.intros(2) [OF wft_inner.hyps])
  let ?q = "p @ compressed n"
  let ?f = "inode_kid (Node n)"
  let ?k = "key_At K (int (length ?q))"
  have path: "prefix ?q (Key l)" if "l \<in> set (leaves b)" for l
    using wft_inner_prefix [OF wf wft_inner.hyps(1,2) that] .
  obtain x where x: "inner_recursiveLast n = Inr (x, True)" 
    using recursiveLast_correct [OF wf] inner_recursive_same(2) [OF wft_inner.hyps(2,1)] by auto
  obtain y where y: "inner_recursiveFirst n = Inr (y, True)" 
    using recursiveFirst_correct [OF wf] inner_recursive_same(1) [OF wft_inner.hyps(2,1)] by auto
  obtain m gt where sc: "scan_compressed n K (int (length p)) = (m, gt)" by force
  show ?case
  proof (cases m)
    case False
    have side: "if gt then Key l < K else K < Key l" if "l \<in> set (leaves b)" for l
      using scan_differs [OF wft_inner.prems(2), of n gt "Key l"] sc False path [OF that] by simp
    have "gte_target smod K b = []" if gt
      using side that wft_inner.hyps(1)
      by (fastforce simp: gte_target_def wanted_above_def filter_empty_conv dest: less_asym leD)
    with side sc False K x y wft_inner.hyps(1,2) show ?thesis
      by (auto simp: bnode_getGTE.simps inner_getGTE.simps gte_before_def gte_post_def needNextLeaf_def needPrevLeaf_def)
  next
    case True
    have ag: "agrees ?q K" using scan_agrees [OF wft_inner.prems(2)] sc True by simp
    have a: "at_inner p b n K ?k" using wf wft_inner.hyps(1,2) ag K wft_inner.prems(1) by (simp add: at_inner_def)
    note h = at_innerD [OF a]
    have q: "int (length p) + int (length (compressed n)) = int (length ?q)" by simp
    have enter: "bnode_getGTE b K (int (length p)) smod False 0 = inner_getGTE n K (int (length p)) smod False 0"
      using wft_inner.hyps(1,2) by (simp add: bnode_getGTE.simps [of b])
    have before: "gte_before n K (int (length p)) False 0 = None" using K sc True by (simp add: gte_before_def)
    have go: "bnode_getGTE b K (int (length p)) smod False 0 =
       rbind (inode_gte (Node n) (Some ?k)) (\<lambda>(nextKeyb, next). case next of
            None \<Rightarrow> Inr (None, False, 2, 0)
          | Some nx \<Rightarrow>
              rbind (bnode_getGTE nx K (int (length ?q) + 1) smod False (byteCmp ?k nextKeyb 0))
                (\<lambda>(value, found, dir, id0). let id = id0 + pren nx in
                  if found \<and> smod = GTE then Inr (value, True, 0, id)
                  else if found \<and> smod = GT then gte_foundGT n K nextKeyb value id
                  else if dir > 0 then gte_second n K (int (length ?q)) smod 0 ?k dir
                  else gte_third n K (int (length ?q)) smod 0 ?k dir nx))"
      unfolding enter inner_getGTE.simps [of n] before option.case Let_def q query_At by (rule refl)
    show ?thesis
    proof (cases "?f ?k")
      case (Some c)
      have w: "wft (?q @ [?k]) c" using h(7) Some by (simp add: kids_wft_def)
      have "no256 c" using wft_inner.prems(1) wft_inner.hyps(1,2) Some by (auto simp: no256_iff kids_all_def)
      then obtain v f d i where r: "bnode_getGTE c K (int (length (?q @ [?k]))) smod False 0 = Inr (v, f, d, i)"
        and post: "gte_post c K smod v f d i"
        using wft_inner.IH [OF Some] agrees_snoc [OF ag] by auto
      have d: "int (length (?q @ [?k])) = int (length ?q) + 1" by simp
      show ?thesis
        using gte_kid_post [OF a Some w s post, of "int (length ?q)"] r [unfolded d] Some
        unfolding go by (simp add: gte_here [OF h(4)] byteCmp_0 Let_def del: of_nat_add length_append)
    next
      case None
      show ?thesis
      proof (cases "kids_above ?k ?f")
        case Nil
        then have "gte_target smod K b = []" using gte_target_split [OF a] None by simp
        then show ?thesis unfolding go using None Nil by (simp add: gte_here [OF h(4)] gte_post_def ex_bool)
      next
        case (Cons e r)
        obtain j c where e: "e = (j, c)" by force
        have "?k < j" using kids_above_first [OF Cons [unfolded e]] by simp
        then show ?thesis
          using gte_no_kid_post [OF a None Cons [unfolded e], of "int (length ?q) + 1" smod "int (length ?q)"]
          unfolding go by (auto simp: gte_here [OF h(4)] None Cons e byteCmp_0 Let_def simp del: of_nat_add length_append)
      qed
    qed
  qed
qed

end
