(* ===== verification/FindLTE.thy ===== *)
theory FindLTE
  imports FindGTE
begin

text \<open>
  What \<open>getLTE\<close> finds: the last leaf at or below the key, when some leaf is at or above it. The
  index that comes with it is the position of the leaf when the key itself was found.
\<close>

section \<open>Subtrees on one side of the key\<close>

lemma lte_left:
  assumes wf: "wft p c" and K: "K \<noteq> []" and lt: "\<forall>l \<in> set (leaves c). Key l < K"
  shows "\<exists>a f d i. bnode_getLTE c K dep smod will 1 = Inr (Some a, f, d, i) \<and> (f \<or> d > 0) \<and>
    (\<not> will \<longrightarrow> \<not> f \<and> d = 1) \<and> is_leaf_of c a (last (leaves c))"
proof (cases "isLeaf c")
  case True
  then obtain l where l: "bleaf c = Some l" using wft_leafD [OF wf] by blast
  with True lt have "Key l < K" by (simp add: leaves_leaf)
  then have "Compare K (Key l) = 1" "K \<noteq> Key l" by (auto simp: Compare_values)
  with True l show ?thesis
    by (auto simp: bnode_getLTE.simps leaf_get_def Let_def is_leaf_of_def leaves_leaf)
next
  case False
  with wf obtain n where n: "binner c = Some n" by (auto elim: wft_innerE)
  obtain a where a: "bnode_recursiveLast c = Inr (a, True)" "is_leaf_of c a (last (leaves c))"
    using recursiveLast_correct [OF wf] by blast
  with inner_recursive_same(2) [OF n False] have "inner_recursiveLast n = Inr (a, True)" by blast
  with False n K a(2) show ?thesis
    by (auto simp: bnode_getLTE.simps inner_getLTE.simps lte_before_def needNextLeaf_def)
qed

lemma lte_right:
  assumes wf: "wft p c" and K: "K \<noteq> []" and gt: "\<forall>l \<in> set (leaves c). K < Key l"
  shows "\<exists>a. bnode_getLTE c K dep smod False (- 1) = Inr (a, False, - 1, 0)"
proof (cases "isLeaf c")
  case True
  then obtain l where l: "bleaf c = Some l" using wft_leafD [OF wf] by blast
  with True gt have "K < Key l" by (simp add: leaves_leaf)
  then have "Compare K (Key l) = - 1" "K \<noteq> Key l" by (auto simp: Compare_values)
  with True l show ?thesis by (auto simp: bnode_getLTE.simps leaf_get_def Let_def)
next
  case False
  with wf obtain n where n: "binner c = Some n" by (auto elim: wft_innerE)
  obtain a where a: "bnode_recursiveFirst c = Inr (a, True)"
    using recursiveFirst_correct [OF wf] by blast
  with inner_recursive_same(1) [OF n False] have "inner_recursiveFirst n = Inr (a, True)" by blast
  with False n K show ?thesis
    by (simp add: bnode_getLTE.simps inner_getLTE.simps lte_before_def needPrevLeaf_def)
qed

section \<open>The second and the third call\<close>

lemma lte_second_correct:
  assumes a: "at_inner p b n K k" and d: "d < 0"
  shows "if leaves_below k (inode_kid (Node n)) = [] then \<exists>v. lte_second n K dep smod 0 k d = Inr (v, False, - 1, 0)
    else \<exists>v i. lte_second n K dep smod 0 k d = Inr (Some v, True, 0, i) \<and>
      is_leaf_of b v (last (leaves_below k (inode_kid (Node n))))"
proof -
  note h = at_innerD [OF a]
  let ?f = "inode_kid (Node n)"
  show ?thesis
  proof (cases "rev (kids_below k ?f)")
    case Nil
    obtain x k' c where "inode_first (Node n) = Inr (x, Some c)" using kids_leaves_first [OF h(4,5,7)] by blast
    with Nil show ?thesis by (simp add: lte_second.simps prev_below [OF h(4,5,8)] needPrevLeaf_def)
  next
    case (Cons e r)
    obtain j c where e: "e = (j, c)" by force
    note be = kids_below_last [OF Cons [unfolded e]]
    have wc: "wft ((p @ compressed n) @ [j]) c" using h(7) be(2) by (simp add: kids_wft_def)
    have ne: "leaves c \<noteq> []" using wft_leaves_nonempty [OF wc] .
    have lt: "\<forall>l \<in> set (leaves c). Key l < K" using h(9) be(3) by auto
    obtain v f d' i where r: "bnode_getLTE c K dep smod (d < - 1) 1 = Inr (Some v, f, d', i)" "f \<or> d' > 0"
      "is_leaf_of c v (last (leaves c))"
      using lte_left [OF wc h(6) lt, of dep smod "d < - 1"] by blast
    have "byteCmp k j 0 = 1" using be(1) by (simp add: byteCmp_0)
    with r Cons e have s: "lte_second n K dep smod 0 k d = Inr (Some v, True, 0, i + pren c)"
      by (auto simp: lte_second.simps prev_below [OF h(4,5,8)] Let_def)
    have la: "last (leaves_below k ?f) = last (leaves c)" "leaves_below k ?f \<noteq> []" using be(3) ne by simp_all
    show ?thesis unfolding if_not_P [OF la(2)] la(1) using s is_leaf_of_kid [OF h(2,3) be(2) r(3)] by blast
  qed
qed

lemma lte_third_correct:
  assumes a: "at_inner p b n K k" and pv: "wft q pv"
  shows "if leaves_above k (inode_kid (Node n)) = [] then \<exists>v. lte_third n K dep smod 0 k 1 pv = Inr (v, False, 1, 0)
    else \<exists>v. lte_third n K dep smod 0 k 1 pv = Inr (Some v, True, 0, pren pv + subn pv - 1) \<and>
      is_leaf_of pv v (last (leaves pv))"
proof -
  note h = at_innerD [OF a]
  let ?f = "inode_kid (Node n)"
  show ?thesis
  proof (cases "kids_above k ?f")
    case Nil
    obtain x k' c where "inode_last (Node n) = Inr (x, Some c)" using kids_leaves_last [OF h(4,5,7)] by blast
    with Nil show ?thesis by (simp add: lte_third.simps next_above [OF h(4)] needNextLeaf_def)
  next
    case (Cons e r)
    obtain j c where e: "e = (j, c)" by force
    note ab = kids_above_first [OF Cons [unfolded e]]
    have wc: "wft ((p @ compressed n) @ [j]) c" using h(7) ab(2) by (simp add: kids_wft_def)
    have ne: "leaves c \<noteq> []" using wft_leaves_nonempty [OF wc] .
    have gt: "\<forall>l \<in> set (leaves c). K < Key l" using h(10) ab(3) by auto
    obtain v where r: "bnode_getLTE c K (dep + 1) smod False (- 1) = Inr (v, False, - 1, 0)"
      using lte_right [OF wc h(6) gt] by blast
    have "byteCmp k j 0 = - 1" using ab(1) by (simp add: byteCmp_0)
    moreover obtain x where "bnode_recursiveLast pv = Inr (x, True)" "is_leaf_of pv x (last (leaves pv))"
      using recursiveLast_correct [OF pv] by blast
    ultimately have "\<exists>v. lte_third n K dep smod 0 k 1 pv = Inr (Some v, True, 0, pren pv + subn pv - 1) \<and>
        is_leaf_of pv v (last (leaves pv))"
      using r Cons e by (simp add: lte_third.simps next_above [OF h(4)] Let_def)
    moreover have "leaves_above k ?f \<noteq> []" using ab(3) ne by simp
    ultimately show ?thesis by presburger
  qed
qed

section \<open>What is found\<close>

definition wanted_below :: "SearchModifier \<Rightarrow> key \<Rightarrow> leaf \<Rightarrow> bool" where
  "wanted_below smod K l \<longleftrightarrow> (if smod = LT then Key l < K else Key l \<le> K)"

definition lte_target :: "SearchModifier \<Rightarrow> key \<Rightarrow> bnode \<Rightarrow> leaf list" where
  "lte_target smod K b = filter (wanted_below (if isLeaf b then LTE else smod) K) (leaves b)"

definition lte_post :: "bnode \<Rightarrow> key \<Rightarrow> SearchModifier \<Rightarrow> bnode option \<Rightarrow> bool \<Rightarrow> int \<Rightarrow> int \<Rightarrow> bool" where
  "lte_post b K smod v f d i \<longleftrightarrow>
     (if f then (\<exists>l \<in> set (leaves b). K \<le> Key l) \<and> lte_target smod K b \<noteq> [] \<and>
          (\<exists>a. v = Some a \<and> is_leaf_of b a (last (lte_target smod K b))) \<and>
          (indexed b \<and> Key (last (lte_target smod K b)) = K \<longrightarrow> at_pos b i (last (lte_target smod K b)))
      else d > 0 \<and> (\<forall>l \<in> set (leaves b). Key l < K) \<or> d < 0 \<and> lte_target smod K b = [])"

lemma lte_third_dir: "- 1 \<le> d \<Longrightarrow> lte_third n K dep smod cmp k d pv = lte_third n K dep smod cmp k 1 pv"
  by (simp add: lte_third.simps)

lemma leaf_get_below:
  assumes "isLeaf c" and "bleaf c = Some l"
  shows "lte_post c K smod (fst (leaf_get l K dep c)) (fst (snd (leaf_get l K dep c)))
    (fst (snd (snd (leaf_get l K dep c)))) (snd (snd (snd (leaf_get l K dep c))))"
proof -
  show ?thesis
    using assms Compare_cases [of K "Key l"] by (auto simp: lte_post_def leaf_get_def Let_def is_leaf_of_def leaves_leaf lte_target_def
      wanted_below_def at_pos_def)
qed

lemma lte_target_split:
  assumes "at_inner p b n K k"
  shows "lte_target smod K b = leaves_below k (inode_kid (Node n)) @ filter (wanted_below smod K) (leaves_at k (inode_kid (Node n)))"
proof -
  note h = at_innerD [OF assms]
  have "filter (wanted_below smod K) (leaves_above k (inode_kid (Node n))) = []"
    using h(10) by (auto simp: filter_empty_conv wanted_below_def dest!: h(10) simp del: set_concat)
  moreover have "filter (wanted_below smod K) (leaves_below k (inode_kid (Node n))) = leaves_below k (inode_kid (Node n))"
    using h(9) by (intro filter_True) (simp add: wanted_below_def less_imp_le del: set_concat)
  ultimately show ?thesis unfolding lte_target_def h(11) filter_append using h(2) by simp
qed

text \<open>The first call: the subtree that the byte of the key selects, when there is one.\<close>

lemma lte_kid_post:
  assumes a: "at_inner p b n K k" and c: "inode_kid (Node n) k = Some c" and w: "wft q c"
    and s: "smod = LTE \<or> smod = LT" and post: "lte_post c K smod v f d i"
  shows "\<exists>v' f' d' i'. (if f \<and> smod = LTE then Inr (v, True, 0, i + pren c)
      else if f \<and> smod = LT then lte_foundLT n K k v (i + pren c)
      else if d < 0 then lte_second n K dep smod 0 k d
      else lte_third n K dep smod 0 k d c) = Inr (v', f', d', i') \<and> lte_post b K smod v' f' d' i'"
proof -
  note h = at_innerD [OF a]
  let ?f = "inode_kid (Node n)"
  let ?P = "wanted_below smod K"
  have lv: "leaves b = leaves_below k ?f @ leaves c @ leaves_above k ?f" using h(11) c by simp
  have T: "lte_target smod K b = leaves_below k ?f @ filter ?P (leaves c)" using lte_target_split [OF a] c by simp
  have sub: "\<And>l. l \<in> set (leaves c) \<Longrightarrow> l \<in> set (leaves b)" unfolding lv by simp
  have ne: "leaves c \<noteq> []" using wft_leaves_nonempty [OF w] .
  have Tc: "lte_target smod K c = filter ?P (leaves c)" if "\<not> isLeaf c \<or> smod = LTE"
    using that by (auto simp: lte_target_def)
  have lt: "Key (last (leaves_below k ?f)) \<noteq> K" if "leaves_below k ?f \<noteq> []"
    using h(9) last_in_set [OF that] by (metis less_irrefl)
  consider (found) "f" "\<not> isLeaf c \<or> smod = LTE" | (leaf) "f" "isLeaf c" "smod = LT"
    | (before) "\<not> f" "d < 0" | (after) "\<not> f" "d > 0"
    using post s by (cases f) (auto simp: lte_post_def)
  then show ?thesis
  proof cases
    case found
    let ?l = "last (filter ?P (leaves c))"
    obtain x where x: "v = Some x" "is_leaf_of c x ?l" "filter ?P (leaves c) \<noteq> []"
      "\<exists>l \<in> set (leaves c). K \<le> Key l" "indexed c \<and> Key ?l = K \<longrightarrow> at_pos c i ?l"
      using found post Tc by (auto simp: lte_post_def)
    have "?P ?l" using last_in_set [OF x(3)] by simp
    then have lt: "smod = LT \<Longrightarrow> Key ?l < K" by (simp add: wanted_below_def)
    have "last (lte_target smod K b) = ?l" using x(3) by (simp add: T)
    moreover have "indexed b \<and> Key ?l = K \<longrightarrow> at_pos b (i + pren c) ?l"
      using x(5) kid_pos [OF h(1,2,3) _ c] indexed_kid [OF h(2,3) _ c] by blast
    moreover have "\<exists>l \<in> set (leaves b). K \<le> Key l" using x(4) sub by blast
    ultimately have "lte_post b K smod v True 0 (i + pren c)"
      using x(1-3) is_leaf_of_kid [OF h(2,3) c x(2)] by (simp add: lte_post_def T)
    moreover have "smod = LT \<Longrightarrow> lte_foundLT n K k v (i + pren c) = Inr (v, True, 0, i + pren c)"
      using x(1,2) lt by (simp add: lte_foundLT_def is_leaf_of_def Compare_cases)
    ultimately show ?thesis using found s by auto
  next
    case leaf
    then obtain l where l: "bleaf c = Some l" using wft_leafD [OF w] by blast
    have "Key l = K" and v: "\<exists>x. v = Some x \<and> bleaf x = Some l"
      using leaf l post by (auto simp: lte_post_def lte_target_def leaves_leaf wanted_below_def is_leaf_of_def split: if_splits)
    then have c: "lte_foundLT n K k v (i + pren c) = rbind (inode_prev (Node n) (Some k)) (\<lambda>(b, prevLocal). case prevLocal of
          None \<Rightarrow> Inr (None, False, - 2, i + pren c)
        | Some pl \<Rightarrow> rbind (bnode_recursiveLast pl) (\<lambda>(v', ok). Inr (Some v', True, 0, pren pl + subn pl - 1)))"
      by (auto simp: lte_foundLT_def Compare_cases)
    have T1: "lte_target smod K b = leaves_below k ?f" using leaf l \<open>Key l = K\<close> T by (simp add: leaves_leaf wanted_below_def)
    have ge: "\<exists>l \<in> set (leaves b). K \<le> Key l" using \<open>Key l = K\<close> sub leaf l by (auto simp: leaves_leaf)
    show ?thesis
    proof (cases "rev (kids_below k ?f)")
      case Nil
      with c leaf T1 show ?thesis by (simp add: prev_below [OF h(4,5,8)] lte_post_def ex_bool)
    next
      case (Cons e r)
      obtain j c2 where e: "e = (j, c2)" by force
      note be = kids_below_last [OF Cons [unfolded e]]
      have w2: "wft ((p @ compressed n) @ [j]) c2" using h(7) be(2) by (simp add: kids_wft_def)
      obtain x where x: "bnode_recursiveLast c2 = Inr (x, True)" "is_leaf_of c2 x (last (leaves c2))"
        using recursiveLast_correct [OF w2] by blast
      have la: "last (leaves_below k ?f) = last (leaves c2)" "leaves_below k ?f \<noteq> []" using be(3) wft_leaves_nonempty [OF w2] by simp_all
      have "lte_foundLT n K k v (i + pren c) = Inr (Some x, True, 0, pren c2 + subn c2 - 1)"
        unfolding c prev_below [OF h(4,5,8)] Cons e using x by simp
      moreover have "lte_post b K smod (Some x) True 0 (pren c2 + subn c2 - 1)"
        using ge la lt [OF la(2)] is_leaf_of_kid [OF h(2,3) be(2) x(2)] by (simp add: lte_post_def T1)
      ultimately show ?thesis using leaf by auto
    qed
  next
    case before
    then have T0: "lte_target smod K c = []" using post by (auto simp: lte_post_def)
    have "filter ?P (leaves c) = []"
      using T0 s by (auto simp: lte_target_def filter_empty_conv wanted_below_def split: if_splits)
    then have T1: "lte_target smod K b = leaves_below k ?f" using T by simp
    obtain l where "l \<in> set (leaves c)" using ne by (meson list.set_sel(1))
    moreover from this have "K \<le> Key l"
      using T0 by (auto simp: lte_target_def filter_empty_conv wanted_below_def split: if_splits)
    ultimately have ge: "\<exists>l \<in> set (leaves b). K \<le> Key l" using sub by blast
    show ?thesis
    proof (cases "leaves_below k ?f = []")
      case True
      obtain x where "lte_second n K dep smod 0 k d = Inr (x, False, - 1, 0)"
        using lte_second_correct [OF a before(2), of dep smod] unfolding if_P [OF True] by blast
      then show ?thesis using before True T1 by (simp add: lte_post_def ex_bool)
    next
      case False
      obtain x i' where "lte_second n K dep smod 0 k d = Inr (Some x, True, 0, i')"
        "is_leaf_of b x (last (leaves_below k ?f))"
        using lte_second_correct [OF a before(2), of dep smod] unfolding if_not_P [OF False] by blast
      then show ?thesis using before False T1 ge lt [OF False] by (simp add: lte_post_def ex_bool)
    qed
  next
    case after
    then have lc: "\<forall>l \<in> set (leaves c). Key l < K" using post by (auto simp: lte_post_def)
    have T1: "lte_target smod K b = leaves_below k ?f @ leaves c"
      unfolding T using lc by (subst filter_True) (auto simp: wanted_below_def)
    have la: "last (lte_target smod K b) = last (leaves c)" "lte_target smod K b \<noteq> []" using ne T1 by simp_all
    have td: "lte_third n K dep smod 0 k d c = lte_third n K dep smod 0 k 1 c" using after by (intro lte_third_dir) simp
    show ?thesis
    proof (cases "leaves_above k ?f = []")
      case True
      obtain x where "lte_third n K dep smod 0 k d c = Inr (x, False, 1, 0)"
        using lte_third_correct [OF a w, of dep smod] unfolding if_P [OF True] td by blast
      moreover have "\<forall>l \<in> set (leaves b). Key l < K" unfolding lv True using lc h(9) by (simp only: set_append Un_iff list.set) blast
      ultimately show ?thesis using after by (simp add: lte_post_def ex_bool)
    next
      case False
      obtain x where x: "lte_third n K dep smod 0 k d c = Inr (Some x, True, 0, pren c + subn c - 1)" "is_leaf_of c x (last (leaves c))"
        using lte_third_correct [OF a w, of dep smod] unfolding if_not_P [OF False] td by blast
      have "\<exists>l \<in> set (leaves b). K \<le> Key l" unfolding lv using False h(10) by (metis Un_iff hd_in_set less_imp_le set_append)
      moreover have "Key (last (leaves c)) \<noteq> K" using lc ne by (metis last_in_set less_irrefl)
      ultimately show ?thesis
        using x la after is_leaf_of_kid [OF h(2,3) c x(2)] by (simp add: lte_post_def ex_bool)
    qed
  qed
qed

text \<open>No child at the byte: the first call looks at the child before, all of whose leaves are below.\<close>

lemma lte_no_kid_post:
  assumes a: "at_inner p b n K k" and no: "inode_kid (Node n) k = None"
    and e: "rev (kids_below k (inode_kid (Node n))) = (j, c) # r"
  shows "\<exists>v i v' f' d' i'. bnode_getLTE c K dep smod False 1 = Inr (v, False, 1, i) \<and>
    lte_third n K dep' smod 0 k 1 c = Inr (v', f', d', i') \<and> lte_post b K smod v' f' d' i'"
proof -
  note h = at_innerD [OF a]
  let ?f = "inode_kid (Node n)"
  note be = kids_below_last [OF e]
  have w: "wft ((p @ compressed n) @ [j]) c" using h(7) be(2) by (simp add: kids_wft_def)
  have ne: "leaves c \<noteq> []" using wft_leaves_nonempty [OF w] .
  have lv: "leaves b = leaves_below k ?f @ leaves_above k ?f" using h(11) no by simp
  have T: "lte_target smod K b = leaves_below k ?f" using lte_target_split [OF a] no by simp
  have lc: "\<forall>l \<in> set (leaves c). Key l < K" using h(9) be(3) by auto
  obtain v i where r: "bnode_getLTE c K dep smod False 1 = Inr (v, False, 1, i)"
    using lte_left [OF w h(6) lc, of dep smod False] by auto
  have la: "last (leaves_below k ?f) = last (leaves c)" "leaves_below k ?f \<noteq> []" using be(3) ne by simp_all
  show ?thesis
  proof (cases "leaves_above k ?f = []")
    case True
    obtain x where "lte_third n K dep' smod 0 k 1 c = Inr (x, False, 1, 0)"
      using lte_third_correct [OF a w, of dep' smod] unfolding if_P [OF True] by blast
    moreover have "\<forall>l \<in> set (leaves b). Key l < K" unfolding lv True using h(9) by (simp only: set_append Un_iff list.set) blast
    ultimately show ?thesis using r by (simp add: lte_post_def ex_bool)
  next
    case False
    obtain x where x: "lte_third n K dep' smod 0 k 1 c = Inr (Some x, True, 0, pren c + subn c - 1)" "is_leaf_of c x (last (leaves c))"
      using lte_third_correct [OF a w, of dep' smod] unfolding if_not_P [OF False] by blast
    have "\<exists>l \<in> set (leaves b). K \<le> Key l" unfolding lv using False h(10) by (metis Un_iff hd_in_set less_imp_le set_append)
    moreover have "Key (last (leaves c)) \<noteq> K" using lc ne by (metis last_in_set less_irrefl)
    ultimately show ?thesis
      using x r la is_leaf_of_kid [OF h(2,3) be(2) x(2)] by (simp add: lte_post_def T ex_bool)
  qed
qed

theorem getLTE_correct:
  assumes "wft p b" and "no256 b" and "agrees p K" and K: "K \<noteq> []" and s: "smod = LTE \<or> smod = LT"
  shows "\<exists>v f d i. bnode_getLTE b K (int (length p)) smod False 0 = Inr (v, f, d, i) \<and> lte_post b K smod v f d i"
  using assms(1-3)
proof (induction rule: wft.induct)
  case (wft_leaf b l p)
  with leaf_get_below [OF wft_leaf.hyps(1,2), of K smod "int (length p)"] show ?case
    by (simp add: bnode_getLTE.simps) (metis prod.collapse)
next
  case (wft_inner b n p)
  have wf: "wft p b" by (rule wft.intros(2) [OF wft_inner.hyps])
  let ?q = "p @ compressed n"
  let ?f = "inode_kid (Node n)"
  let ?k = "key_At K (int (length ?q))"
  have path: "prefix ?q (Key l)" if "l \<in> set (leaves b)" for l
    using wft_inner_prefix [OF wf wft_inner.hyps(1,2) that] .
  obtain x where x: "inner_recursiveLast n = Inr (x, True)"
    using recursiveLast_correct [OF wf] inner_recursive_same(2) [OF wft_inner.hyps(2,1)] by auto
  obtain y where y: "inner_recursiveFirst n = Inr (y, True)"
    using recursiveFirst_correct [OF wf] inner_recursive_same(1) [OF wft_inner.hyps(2,1)] by auto
  obtain m gt where sc: "scan_compressed n K (int (length p)) = (m, gt)" by force
  show ?case
  proof (cases m)
    case False
    have side: "if gt then Key l < K else K < Key l" if "l \<in> set (leaves b)" for l
      using scan_differs [OF wft_inner.prems(2), of n gt "Key l"] sc False path [OF that] by simp
    have "lte_target smod K b = []" if "\<not> gt"
      using side that wft_inner.hyps(1)
      by (fastforce simp: lte_target_def wanted_below_def filter_empty_conv dest: less_asym leD)
    with side sc False K x y wft_inner.hyps(1,2) show ?thesis
      by (auto simp: bnode_getLTE.simps inner_getLTE.simps lte_before_def lte_post_def needNextLeaf_def needPrevLeaf_def)
  next
    case True
    have ag: "agrees ?q K" using scan_agrees [OF wft_inner.prems(2)] sc True by simp
    have a: "at_inner p b n K ?k" using wf wft_inner.hyps(1,2) ag K wft_inner.prems(1) by (simp add: at_inner_def)
    note h = at_innerD [OF a]
    have q: "int (length p) + int (length (compressed n)) = int (length ?q)" by simp
    have enter: "bnode_getLTE b K (int (length p)) smod False 0 = inner_getLTE n K (int (length p)) smod False 0"
      using wft_inner.hyps(1,2) by (simp add: bnode_getLTE.simps [of b])
    have before: "lte_before n K (int (length p)) False 0 = None" using K sc True by (simp add: lte_before_def)
    have go: "bnode_getLTE b K (int (length p)) smod False 0 =
       rbind (inode_lte (Node n) (Some ?k)) (\<lambda>(prevKeyb, prev). case prev of
            None \<Rightarrow> Inr (None, False, - 2, 0)
          | Some pv \<Rightarrow>
              rbind (bnode_getLTE pv K (int (length ?q) + 1) smod False (byteCmp ?k prevKeyb 0))
                (\<lambda>(value, found, dir, id0). let id = id0 + pren pv in
                  if found \<and> smod = LTE then Inr (value, True, 0, id)
                  else if found \<and> smod = LT then lte_foundLT n K prevKeyb value id
                  else if dir < 0 then lte_second n K (int (length ?q)) smod 0 ?k dir
                  else lte_third n K (int (length ?q)) smod 0 ?k dir pv))"
      unfolding enter inner_getLTE.simps [of n] before option.case Let_def q query_At by (rule refl)
    show ?thesis
    proof (cases "?f ?k")
      case (Some c)
      have w: "wft (?q @ [?k]) c" using h(7) Some by (simp add: kids_wft_def)
      have "no256 c" using wft_inner.prems(1) wft_inner.hyps(1,2) Some by (auto simp: no256_iff kids_all_def)
      then obtain v f d i where r: "bnode_getLTE c K (int (length (?q @ [?k]))) smod False 0 = Inr (v, f, d, i)"
        and post: "lte_post c K smod v f d i"
        using wft_inner.IH [OF Some] agrees_snoc [OF ag] by auto
      have d: "int (length (?q @ [?k])) = int (length ?q) + 1" by simp
      show ?thesis
        using lte_kid_post [OF a Some w s post, of "int (length ?q)"] r [unfolded d] Some
        unfolding go by (simp add: lte_here [OF h(4,5)] byteCmp_0 Let_def del: of_nat_add length_append)
    next
      case None
      show ?thesis
      proof (cases "rev (kids_below ?k ?f)")
        case Nil
        then have "lte_target smod K b = []" using lte_target_split [OF a] None by simp
        then show ?thesis unfolding go using None Nil by (simp add: lte_here [OF h(4,5)] lte_post_def ex_bool)
      next
        case (Cons e r)
        obtain j c where e: "e = (j, c)" by force
        have "j < ?k" using kids_below_last [OF Cons [unfolded e]] by simp
        then show ?thesis
          using lte_no_kid_post [OF a None Cons [unfolded e], of "int (length ?q) + 1" smod "int (length ?q)"]
          unfolding go by (auto simp: lte_here [OF h(4,5)] None Cons e byteCmp_0 Let_def simp del: of_nat_add length_append)
      qed
    qed
  qed
qed

end
