(* ===== verification/TreeFind.thy ===== *)
theory TreeFind
  imports Loading FindLTE
begin

text \<open>
  \<open>Tree.Find\<close> for neighbouring keys (\<open>tree.go\<close>), from what \<open>getGTE\<close> and \<open>getLTE\<close> find at the
  root. Trees with a \<open>node256\<close> are left out: its \<open>prev\<close> misses children.
\<close>

definition tree_no256 :: "Tree \<Rightarrow> bool" where
  "tree_no256 t \<longleftrightarrow> (case root t of None \<Rightarrow> True | Some r \<Rightarrow> no256 r)"

lemma tree_few_no256: "tree_wf t \<Longrightarrow> length (tree_leaves t) < 49 \<Longrightarrow> tree_no256 t"
  by (auto simp: tree_no256_def tree_defs few_leaves_no256 split: option.splits)

text \<open>The leaves that a search asks for, as \<open>Find\<close> documents them.\<close>

definition found_above :: "SearchModifier \<Rightarrow> key \<Rightarrow> Tree \<Rightarrow> leaf list" where
  "found_above smod K t = filter (\<lambda>l. if smod = GT then K < Key l else K \<le> Key l) (tree_leaves t)"

definition found_below :: "SearchModifier \<Rightarrow> key \<Rightarrow> Tree \<Rightarrow> leaf list" where
  "found_below smod K t = filter (\<lambda>l. if smod = LT then Key l < K else Key l \<le> K) (tree_leaves t)"

text \<open>The search in a tree of one leaf compares for equality only, whatever the modifier says.\<close>

definition seen_as :: "SearchModifier \<Rightarrow> SearchModifier \<Rightarrow> Tree \<Rightarrow> SearchModifier" where
  "seen_as smod eq t = (if length (tree_leaves t) = 1 then eq else smod)"

lemma leaf_iff_one:
  assumes "wft p b"
  shows "isLeaf b \<longleftrightarrow> length (leaves b) = 1" and "\<not> isLeaf b \<longleftrightarrow> 2 \<le> length (leaves b)"
proof -
  have "2 \<le> length (leaves b)" if "\<not> isLeaf b"
  proof -
    obtain n where n: "binner b = Some n" "inode_ok (Node n)" "fit (Node n)" by (rule wft_innerE [OF assms \<open>\<not> isLeaf b\<close>]) (rule that)
    then have "2 \<le> inode_nchild (Node n)" by (auto simp: fit_pos)
    with nchild_le_leaves [OF assms that n(1)] show ?thesis by linarith
  qed
  moreover have "length (leaves b) = 1" if "isLeaf b" using wft_leafD [OF assms that] that by (auto simp: leaves_leaf)
  ultimately show "isLeaf b \<longleftrightarrow> length (leaves b) = 1" "\<not> isLeaf b \<longleftrightarrow> 2 \<le> length (leaves b)" by fastforce+
qed

lemma found_above_root: "wft [] r \<Longrightarrow> root t = Some r \<Longrightarrow> found_above (seen_as smod GTE t) K t = gte_target smod K r"
  using leaf_iff_one(1) [of "[]" r]
  by (auto simp: found_above_def seen_as_def gte_target_def wanted_above_def tree_leaves_def intro!: filter_cong)

lemma found_below_root: "wft [] r \<Longrightarrow> root t = Some r \<Longrightarrow> found_below (seen_as smod LTE t) K t = lte_target smod K r"
  using leaf_iff_one(1) [of "[]" r]
  by (auto simp: found_below_def seen_as_def lte_target_def wanted_below_def tree_leaves_def intro!: filter_cong)

lemma Find_above_correct:
  assumes wf: "tree_wf t" and no: "tree_no256 t" and K: "K \<noteq> []" and s: "smod = GTE \<or> smod = GT"
  shows "\<exists>v i f. tree_Find t smod K = Inr (v, i, f) \<and>
    (f \<longleftrightarrow> (\<exists>l \<in> set (tree_leaves t). Key l \<le> K) \<and> found_above (seen_as smod GTE t) K t \<noteq> []) \<and>
    (f \<longrightarrow> v = Some (hd (found_above (seen_as smod GTE t) K t)) \<and>
      (tree_counted t \<and> tree_cached t \<longrightarrow> 0 \<le> i \<and> i < int (length (tree_leaves t)) \<and>
        tree_leaves t ! nat i = hd (found_above (seen_as smod GTE t) K t)))"
proof (cases "root t")
  case None
  then show ?thesis by (auto simp: tree_Find_def tree_leaves_def)
next
  case (Some r)
  have w: "wft [] r" and n: "no256 r" using wf no Some by (simp_all add: tree_defs tree_no256_def)
  obtain v f d i where g: "bnode_getGTE r K 0 smod False 0 = Inr (v, f, d, i)" "gte_post r K smod v f d i"
    using getGTE_correct [OF w n agrees_Nil K s] by auto
  have lv: "tree_leaves t = leaves r" using Some by (simp add: tree_leaves_def)
  have ix: "tree_counted t \<and> tree_cached t \<longleftrightarrow> indexed r" using Some by (simp add: tree_defs indexed_def)
  have F: "tree_Find t smod K = Inr (case v of None \<Rightarrow> None | Some x \<Rightarrow> bleaf x, i, f)"
    using Some K g(1) s by (auto simp: tree_Find_def)
  show ?thesis
  proof (cases f)
    case True
    then obtain a where a: "v = Some a" "is_leaf_of r a (hd (gte_target smod K r))"
      "\<exists>l \<in> set (leaves r). Key l \<le> K" "gte_target smod K r \<noteq> []" "indexed r \<longrightarrow> at_pos r i (hd (gte_target smod K r))"
      using g(2) unfolding gte_post_def by (simp only: if_True) blast
    then show ?thesis unfolding F lv ix found_above_root [OF w Some]
      using True by (simp add: is_leaf_of_def at_pos_def ex_bool)
  next
    case False
    have "\<not> ((\<exists>l \<in> set (leaves r). Key l \<le> K) \<and> gte_target smod K r \<noteq> [])"
      using g(2) False by (auto simp: gte_post_def)
    with False show ?thesis unfolding F lv found_above_root [OF w Some] by auto
  qed
qed

lemma Find_below_correct:
  assumes wf: "tree_wf t" and no: "tree_no256 t" and K: "K \<noteq> []" and s: "smod = LTE \<or> smod = LT"
  shows "\<exists>v i f. tree_Find t smod K = Inr (v, i, f) \<and>
    (f \<longleftrightarrow> (\<exists>l \<in> set (tree_leaves t). K \<le> Key l) \<and> found_below (seen_as smod LTE t) K t \<noteq> []) \<and>
    (f \<longrightarrow> v = Some (last (found_below (seen_as smod LTE t) K t)) \<and>
      (tree_counted t \<and> tree_cached t \<and> Key (last (found_below (seen_as smod LTE t) K t)) = K \<longrightarrow>
        0 \<le> i \<and> i < int (length (tree_leaves t)) \<and> tree_leaves t ! nat i = last (found_below (seen_as smod LTE t) K t)))"
proof (cases "root t")
  case None
  then show ?thesis by (auto simp: tree_Find_def tree_leaves_def)
next
  case (Some r)
  have w: "wft [] r" and n: "no256 r" using wf no Some by (simp_all add: tree_defs tree_no256_def)
  obtain v f d i where g: "bnode_getLTE r K 0 smod False 0 = Inr (v, f, d, i)" "lte_post r K smod v f d i"
    using getLTE_correct [OF w n agrees_Nil K s] by auto
  have lv: "tree_leaves t = leaves r" using Some by (simp add: tree_leaves_def)
  have ix: "tree_counted t \<and> tree_cached t \<and> X \<longleftrightarrow> indexed r \<and> X" for X using Some by (simp add: tree_defs indexed_def)
  have F: "tree_Find t smod K = Inr (case v of None \<Rightarrow> None | Some x \<Rightarrow> bleaf x, i, f)"
    using Some K g(1) s by (auto simp: tree_Find_def)
  show ?thesis
  proof (cases f)
    case True
    then obtain a where a: "v = Some a" "is_leaf_of r a (last (lte_target smod K r))"
      "\<exists>l \<in> set (leaves r). K \<le> Key l" "lte_target smod K r \<noteq> []"
      "indexed r \<and> Key (last (lte_target smod K r)) = K \<longrightarrow> at_pos r i (last (lte_target smod K r))"
      using g(2) unfolding lte_post_def by (simp only: if_True) blast
    then show ?thesis unfolding F lv ix found_below_root [OF w Some]
      using True by (simp add: is_leaf_of_def at_pos_def ex_bool)
  next
    case False
    have "\<not> ((\<exists>l \<in> set (leaves r). K \<le> Key l) \<and> lte_target smod K r \<noteq> [])"
      using g(2) False by (auto simp: lte_post_def)
    with False show ?thesis unfolding F lv found_below_root [OF w Some] by auto
  qed
qed

text \<open>As documented, where the tree has more than one leaf; and a tree of one leaf.\<close>

lemma Find_above_documented:
  assumes "tree_wf t" and "tree_no256 t" and "K \<noteq> []" and "smod = GTE \<or> smod = GT" and "smod = GT \<longrightarrow> length (tree_leaves t) \<noteq> 1"
  shows "\<exists>v i f. tree_Find t smod K = Inr (v, i, f) \<and>
    (f \<longleftrightarrow> (\<exists>l \<in> set (tree_leaves t). Key l \<le> K) \<and> found_above smod K t \<noteq> []) \<and>
    (f \<longrightarrow> v = Some (hd (found_above smod K t)) \<and>
      (tree_counted t \<and> tree_cached t \<longrightarrow> 0 \<le> i \<and> i < int (length (tree_leaves t)) \<and>
        tree_leaves t ! nat i = hd (found_above smod K t)))"
proof -
  have "seen_as smod GTE t = smod" using assms(4,5) by (auto simp: seen_as_def)
  then show ?thesis using Find_above_correct [OF assms(1-4)] by simp
qed

lemma Find_below_documented:
  assumes "tree_wf t" and "tree_no256 t" and "K \<noteq> []" and "smod = LTE \<or> smod = LT" and "smod = LT \<longrightarrow> length (tree_leaves t) \<noteq> 1"
  shows "\<exists>v i f. tree_Find t smod K = Inr (v, i, f) \<and>
    (f \<longleftrightarrow> (\<exists>l \<in> set (tree_leaves t). K \<le> Key l) \<and> found_below smod K t \<noteq> []) \<and>
    (f \<longrightarrow> v = Some (last (found_below smod K t)) \<and>
      (tree_counted t \<and> tree_cached t \<and> Key (last (found_below smod K t)) = K \<longrightarrow>
        0 \<le> i \<and> i < int (length (tree_leaves t)) \<and> tree_leaves t ! nat i = last (found_below smod K t)))"
proof -
  have "seen_as smod LTE t = smod" using assms(4,5) by (auto simp: seen_as_def)
  then show ?thesis using Find_below_correct [OF assms(1-4)] by simp
qed

lemma Find_above_one_leaf:
  assumes "tree_wf t" and "tree_no256 t" and "K \<noteq> []" and "smod = GTE \<or> smod = GT" and "tree_leaves t = [l]"
  shows "\<exists>v i f. tree_Find t smod K = Inr (v, i, f) \<and> (f \<longleftrightarrow> Key l = K) \<and> (f \<longrightarrow> v = Some l)"
proof -
  have e: "seen_as smod GTE t = GTE" "found_above GTE K t = (if K \<le> Key l then [l] else [])"
    using assms(5) by (simp_all add: seen_as_def found_above_def)
  from Find_above_correct [OF assms(1-4), unfolded e(1)] obtain v i f where f: "tree_Find t smod K = Inr (v, i, f)"
    "f \<longleftrightarrow> (\<exists>x \<in> set (tree_leaves t). Key x \<le> K) \<and> found_above GTE K t \<noteq> []" "f \<longrightarrow> v = Some (hd (found_above GTE K t))"
    by (elim exE conjE) (rule that, assumption+, blast)
  have "(\<exists>x \<in> set (tree_leaves t). Key x \<le> K) \<longleftrightarrow> Key l \<le> K" unfolding assms(5) by simp
  moreover have "found_above GTE K t \<noteq> [] \<longleftrightarrow> K \<le> Key l" unfolding e(2) by simp
  ultimately have "f \<longleftrightarrow> Key l = K" unfolding f(2) order.eq_iff [of "Key l" K] by (simp only:)
  moreover have "v = Some l" if "Key l = K" using that f(3) calculation unfolding e(2) by (simp only: order.refl if_True list.sel)
  ultimately show ?thesis using f(1) by blast
qed

lemma Find_below_one_leaf:
  assumes "tree_wf t" and "tree_no256 t" and "K \<noteq> []" and "smod = LTE \<or> smod = LT" and "tree_leaves t = [l]"
  shows "\<exists>v i f. tree_Find t smod K = Inr (v, i, f) \<and> (f \<longleftrightarrow> Key l = K) \<and> (f \<longrightarrow> v = Some l)"
proof -
  have e: "seen_as smod LTE t = LTE" "found_below LTE K t = (if Key l \<le> K then [l] else [])"
    using assms(5) by (simp_all add: seen_as_def found_below_def)
  from Find_below_correct [OF assms(1-4), unfolded e(1)] obtain v i f where f: "tree_Find t smod K = Inr (v, i, f)"
    "f \<longleftrightarrow> (\<exists>x \<in> set (tree_leaves t). K \<le> Key x) \<and> found_below LTE K t \<noteq> []" "f \<longrightarrow> v = Some (last (found_below LTE K t))"
    by (elim exE conjE) (rule that, assumption+, blast)
  have "(\<exists>x \<in> set (tree_leaves t). K \<le> Key x) \<longleftrightarrow> K \<le> Key l" unfolding assms(5) by simp
  moreover have "found_below LTE K t \<noteq> [] \<longleftrightarrow> Key l \<le> K" unfolding e(2) by simp
  ultimately have "f \<longleftrightarrow> Key l = K" unfolding f(2) order.eq_iff [of "Key l" K] by (simp only: conj_commute)
  moreover have "v = Some l" if "Key l = K" using that f(3) calculation unfolding e(2) by (simp only: order.refl if_True last.simps simp_thms)
  ultimately show ?thesis using f(1) by blast
qed

lemma Find_one_leaf:
  assumes "tree_wf t" and "tree_leaves t = [l]" and "tree_size t = 1"
  shows "tree_Find t smod [] = Inr (Some l, 0, True)"
proof -
  obtain r where r: "root t = Some r" using assms(2) by (cases "root t") (simp_all add: tree_leaves_def)
  then have w: "wft [] r" and lv: "leaves r = [l]" using assms(1,2) by (simp_all add: tree_defs tree_leaves_def)
  then have "isLeaf r" using leaf_iff_one(1) [OF w] by simp
  then have "bleaf r = Some l" using wft_leafD [OF w] lv by (auto simp: leaves_leaf)
  then show ?thesis using r assms(3) by (simp add: tree_Find_def)
qed

text \<open>The nil key asks for the first or the last leaf, in trees of any kind.\<close>

lemma Find_nil_correct:
  assumes wf: "tree_wf t" and sz: "sized t" and ne: "root t \<noteq> None"
  shows "smod = GTE \<or> smod = GT \<Longrightarrow> tree_Find t smod [] = Inr (Some (hd (tree_leaves t)), 0, True)"
    and "smod = LTE \<or> smod = LT \<Longrightarrow>
      \<exists>i. tree_Find t smod [] = Inr (Some (last (tree_leaves t)), i, True) \<and> (tree_counted t \<longrightarrow> i = int (length (tree_leaves t)) - 1)"
proof -
  obtain r where r: "root t = Some r" using ne by blast
  have w: "wft [] r" and lv: "tree_leaves t = leaves r" and len: "tree_size t = int (length (leaves r))"
    using wf sz r by (simp_all add: tree_defs)
  obtain x where x: "bnode_recursiveFirst r = Inr (x, True)" "is_leaf_of r x (hd (leaves r))"
    using recursiveFirst_correct [OF w] by blast
  obtain y where y: "bnode_recursiveLast r = Inr (y, True)" "is_leaf_of r y (last (leaves r))"
    using recursiveLast_correct [OF w] by blast
  have "(smod = GTE \<or> smod = GT \<longrightarrow> tree_Find t smod [] = Inr (Some (hd (leaves r)), 0, True)) \<and>
    (smod = LTE \<or> smod = LT \<longrightarrow>
      (\<exists>i. tree_Find t smod [] = Inr (Some (last (leaves r)), i, True) \<and> (tree_counted t \<longrightarrow> i = int (length (leaves r)) - 1)))"
  proof (cases "isLeaf r")
    case True
    then show ?thesis using wft_leafD [OF w True] len r by (auto simp: tree_Find_def leaves_leaf)
  next
    case False
    then obtain n where n: "binner r = Some n" using w by (auto elim: wft_innerE)
    have "tree_size t \<noteq> 1" using leaf_iff_one [OF w] False len by auto
    moreover have "inner_recursiveFirst n = Inr (x, True)" "inner_recursiveLast n = Inr (y, True)"
      using inner_recursive_same [OF n False] x y by auto
    moreover have "tree_counted t \<longrightarrow> SubN n = int (length (leaves r))"
      using r n False by (auto simp: tree_defs counted_iff)
    ultimately show ?thesis using r n False x(2) y(2)
      by (auto simp: tree_Find_def bnode_getGTE.simps inner_getGTE.simps gte_before_def
        bnode_getLTE.simps inner_getLTE.simps lte_before_def is_leaf_of_def)
  qed
  then show "smod = GTE \<or> smod = GT \<Longrightarrow> tree_Find t smod [] = Inr (Some (hd (tree_leaves t)), 0, True)"
    and "smod = LTE \<or> smod = LT \<Longrightarrow>
      \<exists>i. tree_Find t smod [] = Inr (Some (last (tree_leaves t)), i, True) \<and> (tree_counted t \<longrightarrow> i = int (length (tree_leaves t)) - 1)"
    by (simp_all add: lv)
qed

lemma Find_ends_correct:
  assumes "tree_wf t" and "sized t" and "root t \<noteq> None"
  shows "tree_FirstLeaf t = Inr (Some (hd (tree_leaves t)), 0, True)"
    and "tree_counted t \<Longrightarrow> tree_LastLeaf t = Inr (Some (last (tree_leaves t)), int (length (tree_leaves t)) - 1, True)"
  using Find_nil_correct(1) [OF assms, of GTE] Find_nil_correct(2) [OF assms, of LTE]
  by (auto simp: tree_FirstLeaf_def tree_LastLeaf_def)

end
