(* ===== verification/Limits.thy ===== *)
theory Limits
  imports TreeFind Histories
begin

text \<open>
  What the conditions of the theorems about \<open>Tree\<close> leave out, on small trees: inputs that the code accepts, and what it does with them.
\<close>

definition tree_after :: "call list \<Rightarrow> (Tree \<Rightarrow> 'a res) \<Rightarrow> 'a res" where
  "tree_after cs look = rbind (exec_all (0, NewArtTree) cs) (\<lambda>((a, t), outs). look t)"

section \<open>A key, and a key that begins with it and a zero byte\<close>

text \<open>The insertion of the second hides the first; with a third key that begins with both, the next insertion panics.\<close>

lemma zero_byte_hides:
  "tree_after [CallInsert [97] (AnyInt 1), CallInsert [97, 0] (AnyInt 2)] (\<lambda>t. tree_FindExact t [97]) = Inr (AnyNil, 0, False)"
  by code_simp

lemma zero_byte_panics:
  "exec_all (0, NewArtTree) [CallInsert [97] AnyNil, CallInsert [97, 0] AnyNil, CallInsert [97, 0, 98] AnyNil, CallInsert [97] AnyNil]
    = Inl IndexOutOfRange"
  by code_simp

section \<open>Counts after an update\<close>

text \<open>An update of a key counts it again in \<open>SubN\<close>, and \<open>At\<close> runs over the end.\<close>

lemma update_breaks_At:
  "tree_after [CallInsert [97] AnyNil, CallInsert [98] AnyNil, CallInsert [97] AnyNil] (\<lambda>t. tree_At t 2)
    = Inl (PanicMessage ''unreachable'')"
  by code_simp

section \<open>Searches\<close>

text \<open>In a tree of one leaf the empty key is found, whatever the key of the leaf is, and \<open>GT\<close> and \<open>LT\<close> find the key itself.\<close>

lemma one_leaf_searches:
  "tree_after [CallInsert [97] (AnyInt 1)] (\<lambda>t. tree_FindExact t []) = Inr (AnyInt 1, 0, True)"
  "tree_after [CallInsert [97] (AnyInt 1)] (\<lambda>t. tree_FindGT t [97]) = Inr (AnyInt 1, 0, True)"
  "tree_after [CallInsert [97] (AnyInt 1)] (\<lambda>t. tree_FindLT t [97]) = Inr (AnyInt 1, 0, True)"
  by code_simp+

text \<open>A key below, or above, all leaves: nothing is found at or above, or at or below, it.\<close>

lemma outer_searches:
  "tree_after [CallInsert [97] (AnyInt 1), CallInsert [98] (AnyInt 2)] (\<lambda>t. tree_FindGTE t [96]) = Inr (AnyNil, 0, False)"
  "tree_after [CallInsert [97] (AnyInt 1), CallInsert [98] (AnyInt 2)] (\<lambda>t. tree_FindLTE t [99]) = Inr (AnyNil, 0, False)"
  by code_simp+

end
