(* ===== verification/Msgp.thy ===== *)
theory Msgp
  imports LeafOps
begin

text \<open>
  What the generated serializers (\<open>leaf_gen.go\<close>, \<open>tree_gen.go\<close>) use of the \<open>msgp\<close> library, and the code
  that they share. The library is not part of the repository: its writer, its reader and its
  functions on byte slices are records of operations, arguments of the definitions that call them. What
  the code relies on is stated as locales, in terms of the MessagePack format.

  A method that fails returns an error; a hook may panic.
\<close>

section \<open>Errors and the operations of the library\<close>

text \<open>\<open>Errorf\<close> is an error that \<open>fmt.Errorf\<close> makes of another.\<close>

datatype io_error = EOF | IOError nat | Errorf string "io_error option"

datatype failure = Panics panic | Fails io_error

type_synonym 'a io = "failure + 'a"

definition lift_io :: "'a res \<Rightarrow> 'a io" where
  "lift_io m = (case m of Inl p \<Rightarrow> Inl (Panics p) | Inr x \<Rightarrow> Inr x)"

lemma lift_io_simps [simp]: "lift_io (Inl p) = Inl (Panics p)" "lift_io (Inr x) = Inr x"
  by (simp_all add: lift_io_def)

text \<open>\<open>*msgp.Writer\<close>: each method returns the writer.\<close>

record 'w msg_writer =
  WriteMapHeader :: "32 word \<Rightarrow> 'w \<Rightarrow> 'w io"
  Append :: "byte list \<Rightarrow> 'w \<Rightarrow> 'w io"
  WriteStringFromBytes :: "byte list \<Rightarrow> 'w \<Rightarrow> 'w io"
  WriteBytes :: "byte list \<Rightarrow> 'w \<Rightarrow> 'w io"
  WriteByte :: "byte \<Rightarrow> 'w \<Rightarrow> 'w io"
  WriteInt :: "int \<Rightarrow> 'w \<Rightarrow> 'w io"
  WriteArrayHeader :: "32 word \<Rightarrow> 'w \<Rightarrow> 'w io"
  WriteNil :: "'w \<Rightarrow> 'w io"

text \<open>\<open>*msgp.Reader\<close>: \<open>PushAlwaysNil\<close> makes it give nils until \<open>PopAlwaysNil\<close>.\<close>

record 'r msg_reader =
  IsNil :: "'r \<Rightarrow> bool \<times> 'r"
  ReadNil :: "'r \<Rightarrow> 'r io"
  PushAlwaysNil :: "'r \<Rightarrow> 'r"
  PopAlwaysNil :: "'r \<Rightarrow> 'r"
  ReadMapHeader :: "'r \<Rightarrow> (32 word \<times> 'r) io"
  ReadMapKeyPtr :: "'r \<Rightarrow> (byte list \<times> 'r) io"
  ReadBytes :: "byte list \<Rightarrow> 'r \<Rightarrow> (byte list \<times> 'r) io"
  ReadByte :: "'r \<Rightarrow> (byte \<times> 'r) io"
  ReadInt :: "'r \<Rightarrow> (int \<times> 'r) io"
  ReadArrayHeader :: "'r \<Rightarrow> (32 word \<times> 'r) io"
  Skip :: "'r \<Rightarrow> 'r io"
  DedupIndexEachPtr :: "'r \<Rightarrow> 'r"

text \<open>The functions on byte slices, with the stack \<open>msgp.NilBitsStack\<close> and the size constants.\<close>

record 'n msg_bytes =
  Require :: "byte list \<Rightarrow> int \<Rightarrow> byte list"
  AppendMapHeader :: "byte list \<Rightarrow> 32 word \<Rightarrow> byte list"
  AppendBytes :: "byte list \<Rightarrow> byte list \<Rightarrow> byte list"
  AppendByte :: "byte list \<Rightarrow> byte \<Rightarrow> byte list"
  AppendInt :: "byte list \<Rightarrow> int \<Rightarrow> byte list"
  AppendArrayHeader :: "byte list \<Rightarrow> 32 word \<Rightarrow> byte list"
  AppendNil :: "byte list \<Rightarrow> byte list"
  IsNilBytes :: "byte list \<Rightarrow> bool"
  nbsInit :: 'n
  AlwaysNil :: "'n \<Rightarrow> bool"
  nbsPush :: "byte list \<Rightarrow> 'n \<Rightarrow> byte list \<times> 'n"
  nbsPop :: "'n \<Rightarrow> byte list \<times> 'n"
  ReadMapHeaderBytes :: "'n \<Rightarrow> byte list \<Rightarrow> (32 word \<times> byte list) io"
  ReadMapKeyZC :: "'n \<Rightarrow> byte list \<Rightarrow> (byte list \<times> byte list) io"
  ReadBytesBytes :: "'n \<Rightarrow> byte list \<Rightarrow> byte list \<Rightarrow> (byte list \<times> byte list) io"
  ReadByteBytes :: "'n \<Rightarrow> byte list \<Rightarrow> (byte \<times> byte list) io"
  ReadIntBytes :: "'n \<Rightarrow> byte list \<Rightarrow> (int \<times> byte list) io"
  ReadArrayHeaderBytes :: "'n \<Rightarrow> byte list \<Rightarrow> (32 word \<times> byte list) io"
  SkipBytes :: "byte list \<Rightarrow> byte list io"
  OnlyNilSlice :: "byte list"
  BytesPrefixSize :: int
  ByteSize :: int
  IntSize :: int
  ArrayHeaderSize :: int
  NilSize :: int

section \<open>The code that every struct's decoder has\<close>

text \<open>Go strings are their bytes.\<close>

definition go_string :: "string \<Rightarrow> byte list" where
  "go_string s = map of_char s"

text \<open>
  The loop over the fields: first those in the stream, then the missing ones, which read nils. \<open>key\<close>
  reads a field name and \<open>push\<close> switches to nils; \<open>fld\<close> is the switch over the field names, on the
  struct and the array \<open>found\<close>. The last result is the reader.
\<close>

function next_missing :: "bool list \<Rightarrow> bool list \<Rightarrow> nat \<Rightarrow> nat \<Rightarrow> nat" where
  "next_missing found skips maxFields n =
     (if n < maxFields \<and> (found ! n \<or> skips ! n) then next_missing found skips maxFields (Suc n) else n)"
  by pat_completeness auto
termination by (relation "measure (\<lambda>(found, skips, m, n). m - n)") auto

declare next_missing.simps [simp del]

type_synonym ('z, 's) field_switch = "byte list \<Rightarrow> 'z \<times> bool list \<Rightarrow> 's \<Rightarrow> (('z \<times> bool list) \<times> 's) io"

lemma unat_decrease: "(w :: 32 word) > 0 \<Longrightarrow> unat (w - 1) < unat w"
  by (metis unat_gt_0 unat_minus_one diff_less less_numeral_extra(1) word_gt_0)

function fill_fields :: "('s \<Rightarrow> (byte list \<times> 's) io) \<Rightarrow> ('s \<Rightarrow> 's) \<Rightarrow> byte list list \<Rightarrow> bool list \<Rightarrow> ('z, 's) field_switch
    \<Rightarrow> 32 word \<Rightarrow> 32 word \<Rightarrow> int \<Rightarrow> 'z \<times> bool list \<Rightarrow> 's \<Rightarrow> (('z \<times> bool list) \<times> int \<times> 's) io" where
  "fill_fields key push order skips fld encodedLeft missingLeft nextMiss zf s =
     (if encodedLeft > 0 \<or> missingLeft > 0 then
        if encodedLeft > 0 then
          rbind (key s) (\<lambda>(field, s1). rbind (fld field zf s1) (\<lambda>(zf1, s2).
            fill_fields key push order skips fld (encodedLeft - 1) missingLeft nextMiss zf1 s2))
        else
          let s1 = (if nextMiss < 0 then push s else s);
              next0 = (if nextMiss < 0 then 0 else nat nextMiss);
              next1 = next_missing (snd zf) skips (length order) next0
          in if next1 = length order then Inr (zf, int next1, s1)
             else rbind (fld (order ! next1) zf s1) (\<lambda>(zf1, s2).
               fill_fields key push order skips fld encodedLeft (missingLeft - 1) (int next1) zf1 s2)
      else Inr (zf, nextMiss, s))"
  by pat_completeness auto

termination
  by (relation "measure (\<lambda>(key, push, order, skips, fld, enc, miss, next, zf, s). unat enc + unat miss)")
    (auto dest: unat_decrease)

declare fill_fields.simps [simp del]

text \<open>
  \<open>DecodeMsg\<close> of a struct, before its hook: a nil at the top stands for missing fields throughout.
\<close>

definition top_nil :: "'r msg_reader \<Rightarrow> 'r \<Rightarrow> (bool \<times> 'r) io" where
  "top_nil D r = (let (n, r1) = IsNil D r in
     if n then rbind (ReadNil D r1) (\<lambda>r2. Inr (True, PushAlwaysNil D r2)) else Inr (False, r1))"

definition pop_nil :: "'r msg_reader \<Rightarrow> bool \<Rightarrow> 'r \<Rightarrow> 'r" where
  "pop_nil D sawTopNil r = (if sawTopNil then PopAlwaysNil D r else r)"

definition decode_struct :: "'r msg_reader \<Rightarrow> byte list list \<Rightarrow> bool list \<Rightarrow> ('z, 'r) field_switch \<Rightarrow> 'z \<Rightarrow> 'r \<Rightarrow> ('z \<times> 'r) io" where
  "decode_struct D order skips fld z r =
     rbind (top_nil D r) (\<lambda>(sawTopNil, r1).
     rbind (ReadMapHeader D r1) (\<lambda>(total, r2).
     rbind (fill_fields (ReadMapKeyPtr D) (PushAlwaysNil D) order skips fld total (of_nat (length order) - total) (-1)
         (z, replicate (length order) False) r2) (\<lambda>(zf, nextMiss, r3).
       Inr (fst zf, pop_nil D sawTopNil (pop_nil D (nextMiss \<noteq> -1) r3)))))"

text \<open>\<open>UnmarshalMsg\<close> of a struct, before its hook, on the rest of the bytes and the stack of nils.\<close>

definition top_nil_bytes :: "'n msg_bytes \<Rightarrow> byte list \<Rightarrow> bool \<times> byte list \<times> 'n" where
  "top_nil_bytes B bts = (if IsNilBytes B bts then (True, nbsPush B (drop 1 bts) (nbsInit B)) else (False, bts, nbsInit B))"

definition pop_nil_bytes :: "'n msg_bytes \<Rightarrow> bool \<Rightarrow> byte list \<times> 'n \<Rightarrow> byte list \<times> 'n" where
  "pop_nil_bytes B sawTopNil s = (if sawTopNil then nbsPop B (snd s) else s)"

definition unmarshal_struct :: "'n msg_bytes \<Rightarrow> byte list list \<Rightarrow> bool list \<Rightarrow> ('z, byte list \<times> 'n) field_switch \<Rightarrow> 'z
    \<Rightarrow> byte list \<Rightarrow> ('z \<times> byte list) io" where
  "unmarshal_struct B order skips fld z bts =
     (case top_nil_bytes B bts of (sawTopNil, bts1, nbs) \<Rightarrow>
     rbind (if \<not> AlwaysNil B nbs then ReadMapHeaderBytes B nbs bts1 else Inr (0, bts1)) (\<lambda>(total, bts2).
     rbind (fill_fields (\<lambda>(bts, nbs). rbind (ReadMapKeyZC B nbs bts) (\<lambda>(field, bts'). Inr (field, bts', nbs)))
         (\<lambda>(bts, nbs). nbsPush B bts nbs) order skips fld total (of_nat (length order) - total) (-1)
         (z, replicate (length order) False) (bts2, nbs)) (\<lambda>(zf, nextMiss, s).
       Inr (fst zf, fst (pop_nil_bytes B sawTopNil (pop_nil_bytes B (nextMiss \<noteq> -1) s))))))"

section \<open>The loop\<close>

text \<open>
  What a field is: its bytes, and what reading it does to the struct. \<open>At nils s xs\<close> says that the
  source \<open>s\<close> has the bytes \<open>xs\<close> left, in nil mode or not.
\<close>

definition todo_fields :: "bool list \<Rightarrow> bool list \<Rightarrow> nat \<Rightarrow> nat \<Rightarrow> nat list" where
  "todo_fields found skips maxFields n = filter (\<lambda>i. \<not> found ! i \<and> \<not> skips ! i) [n..<maxFields]"

lemma next_missing_todo:
  "n \<le> m \<Longrightarrow> (case todo_fields found skips m n of [] \<Rightarrow> next_missing found skips m n = m
    | i # js \<Rightarrow> next_missing found skips m n = i \<and> i < m \<and> n \<le> i \<and> todo_fields found skips m (Suc i) = js)"
proof (induction "m - n" arbitrary: n)
  case 0
  then show ?case by (subst next_missing.simps) (simp add: todo_fields_def)
next
  case (Suc k)
  then have nm: "n < m" by simp
  then have u: "[n..<m] = n # [Suc n..<m]" by (simp add: upt_conv_Cons)
  have ih: "case todo_fields found skips m (Suc n) of [] \<Rightarrow> next_missing found skips m (Suc n) = m
    | i # js \<Rightarrow> next_missing found skips m (Suc n) = i \<and> i < m \<and> Suc n \<le> i \<and> todo_fields found skips m (Suc i) = js"
    using Suc.hyps by (intro Suc.hyps) simp_all
  show ?case
  proof (cases "found ! n \<or> skips ! n")
    case True
    then have "todo_fields found skips m n = todo_fields found skips m (Suc n)"
      "next_missing found skips m n = next_missing found skips m (Suc n)"
      using nm next_missing.simps [of found skips m n] by (simp_all add: todo_fields_def u)
    then show ?thesis using ih by (auto split: list.splits)
  next
    case False
    then show ?thesis using nm next_missing.simps [of found skips m n] by (simp add: todo_fields_def u)
  qed
qed

lemma todo_mark:
  "todo_fields (found[i := True]) skips m i = todo_fields found skips m (Suc i)" if "i < m" "i < length found"
  using that by (simp add: todo_fields_def upt_conv_Cons) (rule filter_cong, auto)

definition field_reads :: "(bool \<Rightarrow> 's \<Rightarrow> byte list \<Rightarrow> bool) \<Rightarrow> ('s \<Rightarrow> (byte list \<times> 's) io) \<Rightarrow> ('z, 's) field_switch
    \<Rightarrow> byte list \<times> ('z \<times> bool list \<Rightarrow> 'z \<times> bool list) \<Rightarrow> bool" where
  "field_reads At key fld f \<longleftrightarrow> (\<forall>s zf xs. At False s (fst f @ xs) \<longrightarrow>
     (\<exists>name s1 s2. key s = Inr (name, s1) \<and> fld name zf s1 = Inr (snd f zf, s2) \<and> At False s2 xs))"

lemma unat_of_nat_32: "n < 2 ^ 32 \<Longrightarrow> unat (of_nat n :: 32 word) = n"
  by (simp add: unat_of_nat take_bit_nat_eq_self)

lemma unat_left: "k \<le> n \<Longrightarrow> n < 2 ^ 32 \<Longrightarrow> unat (of_nat n - of_nat k :: 32 word) = n - k"
  by (metis of_nat_diff unat_of_nat_32 diff_le_self le_less_trans)

lemma fill_encoded:
  assumes "\<forall>f \<in> set fs. field_reads At key fld f" and "At False s (concat (map fst fs) @ xs)" and "length fs < 2 ^ 32"
  shows "\<exists>s'. At False s' xs \<and> fill_fields key push order skips fld (of_nat (length fs)) miss next zf s =
    fill_fields key push order skips fld 0 miss next (fold snd fs zf) s'"
  using assms
proof (induction fs arbitrary: s zf)
  case (Cons f fs)
  have "At False s (fst f @ concat (map fst fs) @ xs)" using Cons.prems(2) by simp
  then obtain name s1 s2 where s: "key s = Inr (name, s1)" "fld name zf s1 = Inr (snd f zf, s2)"
    "At False s2 (concat (map fst fs) @ xs)"
    using Cons.prems(1) unfolding field_reads_def by (meson list.set_intros(1))
  have u: "unat (of_nat (length (f # fs)) :: 32 word) = length (f # fs)" by (rule unat_of_nat_32 [OF Cons.prems(3)])
  then have "unat (of_nat (length (f # fs)) :: 32 word) \<noteq> 0" by simp
  then have "(of_nat (length (f # fs)) :: 32 word) > 0" by (simp only: unat_eq_0 word_gt_0 simp_thms)
  then show ?case using s Cons.IH [OF _ s(3)] Cons.prems by (subst fill_fields.simps) simp
qed auto

lemma fill_missing:
  assumes len: "length (snd zf) = length order" and s: "At True s xs" and n: "n \<le> length order"
    and fld: "\<And>i zf s. i < length order \<Longrightarrow> \<not> skips ! i \<Longrightarrow> At True s xs \<Longrightarrow> length (snd zf) = length order \<Longrightarrow>
      \<exists>s'. fld (order ! i) zf s = Inr (clear i zf, s') \<and> At True s' xs \<and> snd (clear i zf) = (snd zf)[i := True]"
  shows "\<exists>s' n'. fill_fields key push order skips fld 0 m (int n) zf s =
    Inr (fold clear (take (unat m) (todo_fields (snd zf) skips (length order) n)) zf, int n', s') \<and> At True s' xs"
  using len s n
proof (induction "unat m" arbitrary: m n zf s)
  case 0
  then have "m = 0" by (simp add: unat_eq_0)
  then show ?case using 0 by (subst fill_fields.simps) auto
next
  case (Suc u)
  then have m: "m > 0" by (auto simp: word_gt_0)
  have um: "unat (m - 1) = u" using Suc.hyps(2) m by (simp add: unat_minus_one word_gt_0)
  note nm = next_missing_todo [OF Suc.prems(3), of "snd zf" skips]
  show ?case
  proof (cases "todo_fields (snd zf) skips (length order) n")
    case Nil
    then show ?thesis using nm m Suc.prems by (subst fill_fields.simps) auto
  next
    case (Cons i js)
    then have i: "next_missing (snd zf) skips (length order) n = i" "i < length order" "n \<le> i"
      "todo_fields (snd zf) skips (length order) (Suc i) = js" using nm by simp_all
    have "i \<in> set (todo_fields (snd zf) skips (length order) n)" using Cons by simp
    then have "\<not> skips ! i" by (simp add: todo_fields_def)
    then obtain s' where s': "fld (order ! i) zf s = Inr (clear i zf, s')" "At True s' xs"
      "snd (clear i zf) = (snd zf)[i := True]" using fld [OF i(2) _ Suc.prems(2,1)] by blast
    have t: "todo_fields (snd (clear i zf)) skips (length order) i = js"
      using todo_mark [of i "length order" "snd zf" skips] i(2,4) s'(3) Suc.prems(1) by simp
    have "\<exists>s'' n'. fill_fields key push order skips fld 0 (m - 1) (int i) (clear i zf) s' =
        Inr (fold clear (take u js) (clear i zf), int n', s'') \<and> At True s'' xs"
      using Suc.hyps(1) [of "m - 1" "clear i zf" s' i] um s'(2,3) i(2) Suc.prems(1) t by simp
    then show ?thesis using i(1,2) m s'(1) Cons Suc.hyps(2) [symmetric] by (subst fill_fields.simps) simp
  qed
qed

text \<open>
  The fields in the stream are read; of the others as many are cleared as the count of missing ones
  says; and the source is past the fields.
\<close>

lemma fill_fields_correct:
  assumes fs: "\<forall>f \<in> set fs. field_reads At key fld f" and s: "At False s (concat (map fst fs) @ xs)"
    and len: "length fs < 2 ^ 32" "length (snd (fold snd fs zf)) = length order"
    and fld: "\<And>i zf s. i < length order \<Longrightarrow> \<not> skips ! i \<Longrightarrow> At True s xs \<Longrightarrow> length (snd zf) = length order \<Longrightarrow>
      \<exists>s'. fld (order ! i) zf s = Inr (clear i zf, s') \<and> At True s' xs \<and> snd (clear i zf) = (snd zf)[i := True]"
    and push: "\<And>s. At False s xs \<Longrightarrow> At True (push s) xs"
  shows "\<exists>s' next. fill_fields key push order skips fld (of_nat (length fs)) miss (-1) zf s =
    Inr (fold clear (take (unat miss) (todo_fields (snd (fold snd fs zf)) skips (length order) 0)) (fold snd fs zf), next, s') \<and>
    At (next \<noteq> -1) s' xs"
proof -
  let ?zf = "fold snd fs zf"
  obtain s1 where s1: "At False s1 xs" "fill_fields key push order skips fld (of_nat (length fs)) miss (-1) zf s =
    fill_fields key push order skips fld 0 miss (-1) ?zf s1" using fill_encoded [OF fs s len(1)] by blast
  show ?thesis
  proof (cases "miss = 0")
    case True
    then show ?thesis using s1 by (simp add: fill_fields.simps [of _ _ _ _ _ 0 0])
  next
    case False
    have "fill_fields key push order skips fld 0 miss (-1) ?zf s1 = fill_fields key push order skips fld 0 miss 0 ?zf (push s1)"
      using False by (subst (1 2) fill_fields.simps) (simp add: word_gt_0)
    moreover have "\<exists>s' n'. fill_fields key push order skips fld 0 miss (int 0) ?zf (push s1) =
      Inr (fold clear (take (unat miss) (todo_fields (snd ?zf) skips (length order) 0)) ?zf, int n', s') \<and> At True s' xs"
      by (rule fill_missing) (use len(2) push [OF s1(1)] fld in auto)
    ultimately show ?thesis using s1(2) by auto
  qed
qed

end
