(* ===== verification/Codecs.thy ===== *)
theory Codecs
  imports Msgp
begin

text \<open>
  The generated serializers of \<open>ByteSlice\<close>, \<open>Key\<close>, \<open>Leaf\<close> and \<open>TestBytes\<close> (\<open>leaf_gen.go\<close>). \<open>EncodeMsg\<close> and
  \<open>DecodeMsg\<close> work on a stream, \<open>MarshalMsg\<close> and \<open>UnmarshalMsg\<close> on a byte slice. A decoder gets the old
  value of its receiver and returns the new one. Only \<open>Leaf\<close> has hooks.
\<close>

section \<open>Byte slices\<close>

definition ByteSlice_DecodeMsg :: "'r msg_reader \<Rightarrow> byte list \<Rightarrow> 'r \<Rightarrow> (byte list \<times> 'r) io" where
  "ByteSlice_DecodeMsg dc z r = rbind (top_nil dc r) (\<lambda>(sawTopNil, r1).
     rbind (ReadBytes dc z r1) (\<lambda>(z1, r2). Inr (z1, pop_nil dc sawTopNil r2)))"

definition ByteSlice_EncodeMsg :: "'w msg_writer \<Rightarrow> byte list \<Rightarrow> 'w \<Rightarrow> 'w io" where
  "ByteSlice_EncodeMsg en z w = WriteBytes en z w"

definition ByteSlice_Msgsize :: "'n msg_bytes \<Rightarrow> byte list \<Rightarrow> int" where
  "ByteSlice_Msgsize B z = BytesPrefixSize B + int (length z)"

definition ByteSlice_MarshalMsg :: "'n msg_bytes \<Rightarrow> byte list \<Rightarrow> byte list \<Rightarrow> byte list io" where
  "ByteSlice_MarshalMsg B z b = (let o0 = Require B b (ByteSlice_Msgsize B z) in Inr (AppendBytes B o0 z))"

text \<open>Reading bytes where a nil stands for no bytes, as every decoder of a byte slice does.\<close>

definition bytes_or_nil :: "'n msg_bytes \<Rightarrow> byte list \<Rightarrow> byte list \<times> 'n \<Rightarrow> (byte list \<times> byte list \<times> 'n) io" where
  "bytes_or_nil B old s = (case s of (bts, nbs) \<Rightarrow>
     if AlwaysNil B nbs \<or> IsNilBytes B bts then
       Inr ([], (if \<not> AlwaysNil B nbs then drop 1 bts else bts), nbs)
     else rbind (ReadBytesBytes B nbs bts old) (\<lambda>(z1, bts1). Inr (z1, bts1, nbs)))"

definition ByteSlice_UnmarshalMsgWithCfg :: "'n msg_bytes \<Rightarrow> byte list \<Rightarrow> byte list \<Rightarrow> (byte list \<times> byte list) io" where
  "ByteSlice_UnmarshalMsgWithCfg B z bts = (case top_nil_bytes B bts of (sawTopNil, s) \<Rightarrow>
     rbind (bytes_or_nil B z s) (\<lambda>(z1, s1). Inr (z1, fst (pop_nil_bytes B sawTopNil s1))))"

definition ByteSlice_UnmarshalMsg :: "'n msg_bytes \<Rightarrow> byte list \<Rightarrow> byte list \<Rightarrow> (byte list \<times> byte list) io" where
  "ByteSlice_UnmarshalMsg B z bts = ByteSlice_UnmarshalMsgWithCfg B z bts"

text \<open>The code of \<open>Key\<close> is the same, on another type.\<close>

definition Key_DecodeMsg :: "'r msg_reader \<Rightarrow> key \<Rightarrow> 'r \<Rightarrow> (key \<times> 'r) io" where
  "Key_DecodeMsg dc z r = rbind (top_nil dc r) (\<lambda>(sawTopNil, r1).
     rbind (ReadBytes dc z r1) (\<lambda>(z1, r2). Inr (z1, pop_nil dc sawTopNil r2)))"

definition Key_EncodeMsg :: "'w msg_writer \<Rightarrow> key \<Rightarrow> 'w \<Rightarrow> 'w io" where
  "Key_EncodeMsg en z w = WriteBytes en z w"

definition Key_Msgsize :: "'n msg_bytes \<Rightarrow> key \<Rightarrow> int" where
  "Key_Msgsize B z = BytesPrefixSize B + int (length z)"

definition Key_MarshalMsg :: "'n msg_bytes \<Rightarrow> key \<Rightarrow> byte list \<Rightarrow> byte list io" where
  "Key_MarshalMsg B z b = (let o0 = Require B b (Key_Msgsize B z) in Inr (AppendBytes B o0 z))"

definition Key_UnmarshalMsgWithCfg :: "'n msg_bytes \<Rightarrow> key \<Rightarrow> byte list \<Rightarrow> (key \<times> byte list) io" where
  "Key_UnmarshalMsgWithCfg B z bts = (case top_nil_bytes B bts of (sawTopNil, s) \<Rightarrow>
     rbind (bytes_or_nil B z s) (\<lambda>(z1, s1). Inr (z1, fst (pop_nil_bytes B sawTopNil s1))))"

definition Key_UnmarshalMsg :: "'n msg_bytes \<Rightarrow> key \<Rightarrow> byte list \<Rightarrow> (key \<times> byte list) io" where
  "Key_UnmarshalMsg B z bts = Key_UnmarshalMsgWithCfg B z bts"

section \<open>Leaves\<close>

text \<open>The names of the fields, and the bytes that the encoders write for them: a length and the name.\<close>

definition name_Key :: "byte list" where
  "name_Key = go_string ''Key_zid00_rct''"

definition name_Keybyte :: "byte list" where
  "name_Keybyte = go_string ''Keybyte_zid01_byt''"

definition name_XTyp :: "byte list" where
  "name_XTyp = go_string ''XTyp_zid02_int''"

definition name_X :: "byte list" where
  "name_X = go_string ''X_zid03_bin''"

definition Leaf_FieldOrder :: "byte list list" where
  "Leaf_FieldOrder = [name_Key, name_Keybyte, name_XTyp, name_X, []]"

definition Leaf_FieldSkip :: "bool list" where
  "Leaf_FieldSkip = [False, False, False, False, True]"

definition Leaf_switch :: "'r msg_reader \<Rightarrow> (leaf, 'r) field_switch" where
  "Leaf_switch dc field zf r = (case zf of (z, found) \<Rightarrow>
     if field = name_Key then
       rbind (ReadBytes dc (Key z) r) (\<lambda>(v, r1). Inr ((z\<lparr>Key := v\<rparr>, found[0 := True]), r1))
     else if field = name_Keybyte then
       rbind (ReadByte dc r) (\<lambda>(v, r1). Inr ((z\<lparr>Keybyte := v\<rparr>, found[1 := True]), r1))
     else if field = name_XTyp then
       rbind (ReadInt dc r) (\<lambda>(v, r1). Inr ((z\<lparr>XTyp := v\<rparr>, found[2 := True]), r1))
     else if field = name_X then
       rbind (ReadBytes dc (Xdata z) r) (\<lambda>(v, r1). Inr ((z\<lparr>Xdata := v\<rparr>, found[3 := True]), r1))
     else rbind (Skip dc r) (\<lambda>r1. Inr ((z, found), r1)))"

definition Leaf_DecodeMsg :: "'r msg_reader \<Rightarrow> leaf \<Rightarrow> 'r \<Rightarrow> (leaf \<times> 'r) io" where
  "Leaf_DecodeMsg dc z r = rbind (decode_struct dc Leaf_FieldOrder Leaf_FieldSkip (Leaf_switch dc) z r) (\<lambda>(z1, r1).
     rbind (lift_io (PostLoadHook z1)) (\<lambda>z2. Inr (z2, r1)))"

text \<open>The array \<open>isempty\<close> and the number of fields in use.\<close>

definition Leaf_fieldsNotEmpty :: "leaf \<Rightarrow> bool list \<Rightarrow> bool list \<times> 32 word" where
  "Leaf_fieldsNotEmpty z isempty =
     (if length isempty = 0 then (isempty, 4)
      else
        let isempty0 = isempty[0 := length (Key z) = 0];
            use0 = (if isempty0 ! 0 then 4 - 1 else 4);
            isempty1 = isempty0[1 := Keybyte z = 0];
            use1 = (if isempty1 ! 1 then use0 - 1 else use0);
            isempty2 = isempty1[2 := XTyp z = 0];
            use2 = (if isempty2 ! 2 then use1 - 1 else use1);
            isempty3 = isempty2[3 := length (Xdata z) = 0];
            use3 = (if isempty3 ! 3 then use2 - 1 else use2)
        in (isempty3, use3))"

text \<open>A field is left out when it is empty; otherwise its name and its value are written.\<close>

definition write_field :: "'w msg_writer \<Rightarrow> bool \<Rightarrow> byte list \<Rightarrow> ('w \<Rightarrow> 'w io) \<Rightarrow> 'w \<Rightarrow> 'w io" where
  "write_field en isempty name val w = (if \<not> isempty then rbind (Append en name w) val else Inr w)"

definition Leaf_EncodeMsg :: "'w msg_writer \<Rightarrow> leaf \<Rightarrow> 'w \<Rightarrow> 'w io" where
  "Leaf_EncodeMsg en lf w = rbind (lift_io (PreSaveHook lf)) (\<lambda>z.
     case Leaf_fieldsNotEmpty z (replicate 5 False) of (isempty, fieldsInUse) \<Rightarrow>
     rbind (WriteMapHeader en (fieldsInUse + 1) w) (\<lambda>w1.
     rbind (Append en [0xa1, 0x40] w1) (\<lambda>w2.
     rbind (WriteStringFromBytes en [0x4c, 0x65, 0x61, 0x66] w2) (\<lambda>w3.
     rbind (write_field en (isempty ! 0) [0xad, 0x4b, 0x65, 0x79, 0x5f, 0x7a, 0x69, 0x64, 0x30, 0x30, 0x5f, 0x72, 0x63, 0x74] (WriteBytes en (Key z)) w3) (\<lambda>w4.
     rbind (write_field en (isempty ! 1) [0xb1, 0x4b, 0x65, 0x79, 0x62, 0x79, 0x74, 0x65, 0x5f, 0x7a, 0x69, 0x64, 0x30, 0x31, 0x5f, 0x62, 0x79, 0x74]
       (WriteByte en (Keybyte z)) w4) (\<lambda>w5.
     rbind (write_field en (isempty ! 2) [0xae, 0x58, 0x54, 0x79, 0x70, 0x5f, 0x7a, 0x69, 0x64, 0x30, 0x32, 0x5f, 0x69, 0x6e, 0x74] (WriteInt en (XTyp z)) w5) (\<lambda>w6.
     write_field en (isempty ! 3) [0xab, 0x58, 0x5f, 0x7a, 0x69, 0x64, 0x30, 0x33, 0x5f, 0x62, 0x69, 0x6e] (WriteBytes en (Xdata z)) w6)))))))"

definition Leaf_Msgsize :: "'n msg_bytes \<Rightarrow> leaf \<Rightarrow> int" where
  "Leaf_Msgsize B z = 1 + 14 + BytesPrefixSize B + int (length (Key z)) + 18 + ByteSize B + 15 + IntSize B + 12 +
     BytesPrefixSize B + int (length (Xdata z))"

definition append_field :: "bool \<Rightarrow> byte list \<Rightarrow> (byte list \<Rightarrow> byte list) \<Rightarrow> byte list \<Rightarrow> byte list" where
  "append_field isempty name val o0 = (if \<not> isempty then val (o0 @ name) else o0)"

definition Leaf_MarshalMsg :: "'n msg_bytes \<Rightarrow> leaf \<Rightarrow> byte list \<Rightarrow> byte list io" where
  "Leaf_MarshalMsg B lf b = rbind (lift_io (PreSaveHook lf)) (\<lambda>z.
     let o0 = Require B b (Leaf_Msgsize B z) in
     case Leaf_fieldsNotEmpty z (replicate 5 False) of (isempty, fieldsInUse) \<Rightarrow>
     let o1 = AppendMapHeader B o0 fieldsInUse;
         o2 = append_field (isempty ! 0) [0xad, 0x4b, 0x65, 0x79, 0x5f, 0x7a, 0x69, 0x64, 0x30, 0x30, 0x5f, 0x72, 0x63, 0x74] (\<lambda>x. AppendBytes B x (Key z)) o1;
         o3 = append_field (isempty ! 1) [0xb1, 0x4b, 0x65, 0x79, 0x62, 0x79, 0x74, 0x65, 0x5f, 0x7a, 0x69, 0x64, 0x30, 0x31, 0x5f, 0x62, 0x79, 0x74]
           (\<lambda>x. AppendByte B x (Keybyte z)) o2;
         o4 = append_field (isempty ! 2) [0xae, 0x58, 0x54, 0x79, 0x70, 0x5f, 0x7a, 0x69, 0x64, 0x30, 0x32, 0x5f, 0x69, 0x6e, 0x74] (\<lambda>x. AppendInt B x (XTyp z)) o3;
         o5 = append_field (isempty ! 3) [0xab, 0x58, 0x5f, 0x7a, 0x69, 0x64, 0x30, 0x33, 0x5f, 0x62, 0x69, 0x6e] (\<lambda>x. AppendBytes B x (Xdata z)) o4
     in Inr o5)"

definition Leaf_switch_bytes :: "'n msg_bytes \<Rightarrow> (leaf, byte list \<times> 'n) field_switch" where
  "Leaf_switch_bytes B field zf s = (case zf of (z, found) \<Rightarrow> case s of (bts, nbs) \<Rightarrow>
     if field = name_Key then
       rbind (bytes_or_nil B (Key z) s) (\<lambda>(v, s1). Inr ((z\<lparr>Key := v\<rparr>, found[0 := True]), s1))
     else if field = name_Keybyte then
       rbind (ReadByteBytes B nbs bts) (\<lambda>(v, bts1). Inr ((z\<lparr>Keybyte := v\<rparr>, found[1 := True]), bts1, nbs))
     else if field = name_XTyp then
       rbind (ReadIntBytes B nbs bts) (\<lambda>(v, bts1). Inr ((z\<lparr>XTyp := v\<rparr>, found[2 := True]), bts1, nbs))
     else if field = name_X then
       rbind (bytes_or_nil B (Xdata z) s) (\<lambda>(v, s1). Inr ((z\<lparr>Xdata := v\<rparr>, found[3 := True]), s1))
     else rbind (SkipBytes B bts) (\<lambda>bts1. Inr ((z, found), bts1, nbs)))"

definition Leaf_UnmarshalMsgWithCfg :: "'n msg_bytes \<Rightarrow> leaf \<Rightarrow> byte list \<Rightarrow> (leaf \<times> byte list) io" where
  "Leaf_UnmarshalMsgWithCfg B z bts =
     rbind (unmarshal_struct B Leaf_FieldOrder Leaf_FieldSkip (Leaf_switch_bytes B) z bts) (\<lambda>(z1, bts1).
     rbind (lift_io (PostLoadHook z1)) (\<lambda>z2. Inr (z2, bts1)))"

definition Leaf_UnmarshalMsg :: "'n msg_bytes \<Rightarrow> leaf \<Rightarrow> byte list \<Rightarrow> (leaf \<times> byte list) io" where
  "Leaf_UnmarshalMsg B z bts = Leaf_UnmarshalMsgWithCfg B z bts"

section \<open>TestBytes\<close>

definition name_Slc :: "byte list" where
  "name_Slc = go_string ''Slc_zid00_bin''"

definition TestBytes_FieldOrder :: "byte list list" where
  "TestBytes_FieldOrder = [name_Slc]"

definition TestBytes_FieldSkip :: "bool list" where
  "TestBytes_FieldSkip = [False]"

record test_bytes =
  Slc :: "byte list"

definition TestBytes_switch :: "'r msg_reader \<Rightarrow> (test_bytes, 'r) field_switch" where
  "TestBytes_switch dc field zf r = (case zf of (z, found) \<Rightarrow>
     if field = name_Slc then
       rbind (ReadBytes dc (Slc z) r) (\<lambda>(v, r1). Inr ((z\<lparr>Slc := v\<rparr>, found[0 := True]), r1))
     else rbind (Skip dc r) (\<lambda>r1. Inr ((z, found), r1)))"

definition TestBytes_DecodeMsg :: "'r msg_reader \<Rightarrow> test_bytes \<Rightarrow> 'r \<Rightarrow> (test_bytes \<times> 'r) io" where
  "TestBytes_DecodeMsg dc z r = decode_struct dc TestBytes_FieldOrder TestBytes_FieldSkip (TestBytes_switch dc) z r"

definition TestBytes_fieldsNotEmpty :: "test_bytes \<Rightarrow> bool list \<Rightarrow> bool list \<times> 32 word" where
  "TestBytes_fieldsNotEmpty z isempty =
     (if length isempty = 0 then (isempty, 1)
      else let isempty0 = isempty[0 := length (Slc z) = 0] in (isempty0, if isempty0 ! 0 then 1 - 1 else 1))"

definition TestBytes_EncodeMsg :: "'w msg_writer \<Rightarrow> test_bytes \<Rightarrow> 'w \<Rightarrow> 'w io" where
  "TestBytes_EncodeMsg en z w = (case TestBytes_fieldsNotEmpty z (replicate 1 False) of (isempty, fieldsInUse) \<Rightarrow>
     rbind (WriteMapHeader en (fieldsInUse + 1) w) (\<lambda>w1.
     rbind (Append en [0xa1, 0x40] w1) (\<lambda>w2.
     rbind (WriteStringFromBytes en [0x54, 0x65, 0x73, 0x74, 0x42, 0x79, 0x74, 0x65, 0x73] w2) (\<lambda>w3.
     write_field en (isempty ! 0) [0xad, 0x53, 0x6c, 0x63, 0x5f, 0x7a, 0x69, 0x64, 0x30, 0x30, 0x5f, 0x62, 0x69, 0x6e] (WriteBytes en (Slc z)) w3))))"

definition TestBytes_Msgsize :: "'n msg_bytes \<Rightarrow> test_bytes \<Rightarrow> int" where
  "TestBytes_Msgsize B z = 1 + 14 + BytesPrefixSize B + int (length (Slc z))"

definition TestBytes_MarshalMsg :: "'n msg_bytes \<Rightarrow> test_bytes \<Rightarrow> byte list \<Rightarrow> byte list io" where
  "TestBytes_MarshalMsg B z b =
     (let o0 = Require B b (TestBytes_Msgsize B z) in
      case TestBytes_fieldsNotEmpty z (replicate 1 False) of (isempty, fieldsInUse) \<Rightarrow>
      let o1 = AppendMapHeader B o0 fieldsInUse
      in Inr (append_field (isempty ! 0) [0xad, 0x53, 0x6c, 0x63, 0x5f, 0x7a, 0x69, 0x64, 0x30, 0x30, 0x5f, 0x62, 0x69, 0x6e] (\<lambda>x. AppendBytes B x (Slc z)) o1))"

definition TestBytes_switch_bytes :: "'n msg_bytes \<Rightarrow> (test_bytes, byte list \<times> 'n) field_switch" where
  "TestBytes_switch_bytes B field zf s = (case zf of (z, found) \<Rightarrow> case s of (bts, nbs) \<Rightarrow>
     if field = name_Slc then
       rbind (bytes_or_nil B (Slc z) s) (\<lambda>(v, s1). Inr ((z\<lparr>Slc := v\<rparr>, found[0 := True]), s1))
     else rbind (SkipBytes B bts) (\<lambda>bts1. Inr ((z, found), bts1, nbs)))"

definition TestBytes_UnmarshalMsgWithCfg :: "'n msg_bytes \<Rightarrow> test_bytes \<Rightarrow> byte list \<Rightarrow> (test_bytes \<times> byte list) io" where
  "TestBytes_UnmarshalMsgWithCfg B z bts =
     unmarshal_struct B TestBytes_FieldOrder TestBytes_FieldSkip (TestBytes_switch_bytes B) z bts"

definition TestBytes_UnmarshalMsg :: "'n msg_bytes \<Rightarrow> test_bytes \<Rightarrow> byte list \<Rightarrow> (test_bytes \<times> byte list) io" where
  "TestBytes_UnmarshalMsg B z bts = TestBytes_UnmarshalMsgWithCfg B z bts"

end
