(* ===== verification/Wire.thy ===== *)
theory Wire
  imports Codecs
begin

text \<open>
  What the generated code relies on in the \<open>msgp\<close> library, as two locales: one for its writer and its
  reader, one for its functions on byte slices. Values have encodings, of which the code knows those of
  short strings, whose bytes it writes itself; a writer appends the encoding of what it writes, and a
  reader before the encoding of a value reads the value. In the locales the serializers of
  \<open>leaf_gen.go\<close> are shown to read back what they write.
\<close>

section \<open>Encodings\<close>

record msgp_format =
  eMap :: "32 word \<Rightarrow> byte list"
  eArray :: "32 word \<Rightarrow> byte list"
  eBytes :: "byte list \<Rightarrow> byte list"
  eByte :: "byte \<Rightarrow> byte list"
  eInt :: "int \<Rightarrow> byte list"
  eNil :: "byte list"

text \<open>A string of fewer than 32 bytes: the code of the type, with the length, and the bytes.\<close>

definition fixstr :: "byte list \<Rightarrow> byte list" where
  "fixstr s = (0xa0 + of_nat (length s)) # s"

lemma field_names:
  "0xad # name_Key = fixstr name_Key" "0xb1 # name_Keybyte = fixstr name_Keybyte" "0xae # name_XTyp = fixstr name_XTyp"
  "0xab # name_X = fixstr name_X" "0xad # name_Slc = fixstr name_Slc"
  by (code_simp)+

text \<open>The bounds of the format: byte strings of less than 4 GB, and 64-bit integers.\<close>

definition fits_bytes :: "byte list \<Rightarrow> bool" where
  "fits_bytes b \<longleftrightarrow> length b < 2 ^ 32"

definition fits_int :: "int \<Rightarrow> bool" where
  "fits_int i \<longleftrightarrow> - (2 ^ 63) \<le> i \<and> i < 2 ^ 63"

definition writes :: "('w \<Rightarrow> byte list) \<Rightarrow> 'w io \<Rightarrow> byte list \<Rightarrow> bool" where
  "writes out m bs \<longleftrightarrow> (\<exists>w'. m = Inr w' \<and> out w' = bs)"

definition reads :: "('r \<Rightarrow> nat \<times> byte list) \<Rightarrow> ('a \<times> 'r) io \<Rightarrow> 'a \<Rightarrow> nat \<times> byte list \<Rightarrow> bool" where
  "reads content m v c \<longleftrightarrow> (\<exists>r'. m = Inr (v, r') \<and> content r' = c)"

lemma writes_bind:
  assumes "writes out m bs" and "\<And>w'. out w' = bs \<Longrightarrow> writes out (f w') cs"
  shows "writes out (rbind m f) cs"
  using assms by (auto simp: writes_def)

lemma reads_bind:
  assumes "reads content m v c" and "\<And>r'. content r' = c \<Longrightarrow> reads content (f (v, r')) u d"
  shows "reads content (rbind m f) u d"
  using assms by (auto simp: reads_def)

lemma reads_map:
  assumes "reads content m v c" and "u = g v"
  shows "reads content (rbind m (\<lambda>(v, r). Inr (g v, r))) u c"
  using assms by (auto simp: reads_def)

lemma writes_seq:
  assumes "writes out m (out w @ bs)" and "\<And>w'. writes out (f w') (out w' @ cs)"
  shows "writes out (rbind m f) (out w @ bs @ cs)"
  using assms by (fastforce simp: writes_def)

text \<open>The bytes of the field names that the code writes are those of \<open>fixstr\<close>.\<close>

lemma field_bytes:
  "[0xad, 0x4b, 0x65, 0x79, 0x5f, 0x7a, 0x69, 0x64, 0x30, 0x30, 0x5f, 0x72, 0x63, 0x74] = 0xad # name_Key"
  "[0xb1, 0x4b, 0x65, 0x79, 0x62, 0x79, 0x74, 0x65, 0x5f, 0x7a, 0x69, 0x64, 0x30, 0x31, 0x5f, 0x62, 0x79, 0x74] = 0xb1 # name_Keybyte"
  "[0xae, 0x58, 0x54, 0x79, 0x70, 0x5f, 0x7a, 0x69, 0x64, 0x30, 0x32, 0x5f, 0x69, 0x6e, 0x74] = 0xae # name_XTyp"
  "[0xab, 0x58, 0x5f, 0x7a, 0x69, 0x64, 0x30, 0x33, 0x5f, 0x62, 0x69, 0x6e] = 0xab # name_X"
  "[0xad, 0x53, 0x6c, 0x63, 0x5f, 0x7a, 0x69, 0x64, 0x30, 0x30, 0x5f, 0x62, 0x69, 0x6e] = 0xad # name_Slc"
  by (code_simp)+

lemma name_lengths:
  "length name_Key = 13" "length name_Keybyte = 17" "length name_XTyp = 14" "length name_X = 11" "length name_Slc = 13"
  by (code_simp)+

lemma names_distinct:
  "name_Keybyte \<noteq> name_Key" "name_XTyp \<noteq> name_Key" "name_XTyp \<noteq> name_Keybyte" "name_X \<noteq> name_Key"
  "name_X \<noteq> name_Keybyte" "name_X \<noteq> name_XTyp" "[0x40] \<noteq> name_Key" "[0x40] \<noteq> name_Keybyte" "[0x40] \<noteq> name_XTyp"
  "[0x40] \<noteq> name_X" "[0x40] \<noteq> name_Slc"
  by (code_simp)+

section \<open>What is on the wire\<close>

text \<open>The first field of every struct is its type.\<close>

definition type_field :: "byte list \<Rightarrow> byte list \<times> ('z \<times> bool list \<Rightarrow> 'z \<times> bool list)" where
  "type_field name = (fixstr [0x40] @ fixstr name, \<lambda>zf. zf)"

text \<open>The fields of a leaf in the stream: those that are not empty.\<close>

definition present :: "bool \<Rightarrow> 'a \<Rightarrow> 'a list" where
  "present isempty f = (if isempty then [] else [f])"

definition leaf_fields :: "msgp_format \<Rightarrow> leaf \<Rightarrow> (byte list \<times> (leaf \<times> bool list \<Rightarrow> leaf \<times> bool list)) list" where
  "leaf_fields F z =
     present (Key z = []) (fixstr name_Key @ eBytes F (Key z), \<lambda>(y, found). (y\<lparr>Key := Key z\<rparr>, found[0 := True])) @
     present (Keybyte z = 0) (fixstr name_Keybyte @ eByte F (Keybyte z), \<lambda>(y, found). (y\<lparr>Keybyte := Keybyte z\<rparr>, found[1 := True])) @
     present (XTyp z = 0) (fixstr name_XTyp @ eInt F (XTyp z), \<lambda>(y, found). (y\<lparr>XTyp := XTyp z\<rparr>, found[2 := True])) @
     present (Xdata z = []) (fixstr name_X @ eBytes F (Xdata z), \<lambda>(y, found). (y\<lparr>Xdata := Xdata z\<rparr>, found[3 := True]))"

definition fits_leaf :: "leaf \<Rightarrow> bool" where
  "fits_leaf z \<longleftrightarrow> fits_bytes (Key z) \<and> fits_int (XTyp z) \<and> fits_bytes (Xdata z)"

definition leaf_wire :: "msgp_format \<Rightarrow> leaf \<Rightarrow> byte list" where
  "leaf_wire F z = eMap F (of_nat (Suc (length (leaf_fields F z)))) @ fixstr [0x40] @ fixstr [0x4c, 0x65, 0x61, 0x66] @
     concat (map fst (leaf_fields F z))"

text \<open>A missing field is read as a nil.\<close>

definition leaf_clear :: "nat \<Rightarrow> leaf \<times> bool list \<Rightarrow> leaf \<times> bool list" where
  "leaf_clear i zf = (case zf of (y, found) \<Rightarrow>
     ((if i = 0 then y\<lparr>Key := []\<rparr> else if i = 1 then y\<lparr>Keybyte := 0\<rparr> else if i = 2 then y\<lparr>XTyp := 0\<rparr> else y\<lparr>Xdata := []\<rparr>),
      found[i := True]))"

lemma leaf_clear_found: "length (snd (leaf_clear i zf)) = length (snd zf)" "snd (leaf_clear i zf) = (snd zf)[i := True]"
  by (simp_all add: leaf_clear_def split: prod.split)

text \<open>The struct after the fields of \<open>z\<close> were read and the missing ones cleared.\<close>

definition same_fields :: "leaf \<Rightarrow> leaf \<Rightarrow> leaf" where
  "same_fields y z = y\<lparr>Key := Key z, XTyp := XTyp z, Xdata := Xdata z, Keybyte := Keybyte z\<rparr>"

lemma leaf_fields_length: "length (leaf_fields F z) \<le> 4"
  by (simp add: leaf_fields_def present_def)

lemma leaf_fields_effect:
  fixes F y z
  defines "zf \<equiv> fold snd (leaf_fields F z) (y, replicate (length Leaf_FieldOrder) False)"
  shows "length (snd zf) = length Leaf_FieldOrder"
    and "length (todo_fields (snd zf) Leaf_FieldSkip (length Leaf_FieldOrder) 0) = 4 - length (leaf_fields F z)"
    and "fst (fold leaf_clear (todo_fields (snd zf) Leaf_FieldSkip (length Leaf_FieldOrder) 0) zf) = same_fields y z"
  unfolding zf_def
  by (cases "Key z = []"; cases "Keybyte z = 0"; cases "XTyp z = 0"; cases "Xdata z = []";
      simp add: leaf_fields_def present_def Leaf_FieldOrder_def Leaf_FieldSkip_def todo_fields_def leaf_clear_def
        same_fields_def upt_rec numeral_eq_Suc)+

text \<open>What the hooks do to a leaf that is saved and loaded into \<open>y\<close>.\<close>

definition loaded_leaf :: "leaf \<Rightarrow> leaf \<Rightarrow> leaf" where
  "loaded_leaf y z = (same_fields y z)\<lparr>Value := AnyByteSliceValue (Xdata z)\<rparr>"

definition test_bytes_wire :: "msgp_format \<Rightarrow> test_bytes \<Rightarrow> byte list" where
  "test_bytes_wire F z = (if Slc z = [] then eMap F 1 @ fixstr [0x40] @ fixstr [0x54, 0x65, 0x73, 0x74, 0x42, 0x79, 0x74, 0x65, 0x73]
     else eMap F 2 @ fixstr [0x40] @ fixstr [0x54, 0x65, 0x73, 0x74, 0x42, 0x79, 0x74, 0x65, 0x73] @
       fixstr name_Slc @ eBytes F (Slc z))"

section \<open>Streams\<close>

text \<open>\<open>content r\<close> is the number of nil modes that the reader is in, and the bytes it has not read.\<close>

locale msgp_stream =
  fixes F :: msgp_format
    and en :: "'w msg_writer" and out :: "'w \<Rightarrow> byte list"
    and dc :: "'r msg_reader" and content :: "'r \<Rightarrow> nat \<times> byte list"
  assumes write_map: "writes out (WriteMapHeader en k w) (out w @ eMap F k)"
    and write_array: "writes out (WriteArrayHeader en k w) (out w @ eArray F k)"
    and write_bytes: "fits_bytes b \<Longrightarrow> writes out (WriteBytes en b w) (out w @ eBytes F b)"
    and write_byte: "writes out (WriteByte en x w) (out w @ eByte F x)"
    and write_int: "fits_int i \<Longrightarrow> writes out (WriteInt en i w) (out w @ eInt F i)"
    and write_nil: "writes out (WriteNil en w) (out w @ eNil F)"
    and write_append: "writes out (Append en b w) (out w @ b)"
    and write_string: "length s < 32 \<Longrightarrow> writes out (WriteStringFromBytes en s w) (out w @ fixstr s)"
    and read_map: "content r = (0, eMap F k @ xs) \<Longrightarrow> reads content (ReadMapHeader dc r) k (0, xs)"
    and read_array: "content r = (0, eArray F k @ xs) \<Longrightarrow> reads content (ReadArrayHeader dc r) k (0, xs)"
    and read_bytes: "fits_bytes b \<Longrightarrow> content r = (0, eBytes F b @ xs) \<Longrightarrow> reads content (ReadBytes dc old r) b (0, xs)"
    and read_byte: "content r = (0, eByte F x @ xs) \<Longrightarrow> reads content (ReadByte dc r) x (0, xs)"
    and read_int: "fits_int i \<Longrightarrow> content r = (0, eInt F i @ xs) \<Longrightarrow> reads content (ReadInt dc r) i (0, xs)"
    and read_key: "length s < 32 \<Longrightarrow> content r = (0, fixstr s @ xs) \<Longrightarrow> reads content (ReadMapKeyPtr dc r) s (0, xs)"
    and read_nil: "content r = (0, eNil F @ xs) \<Longrightarrow> \<exists>r'. ReadNil dc r = Inr r' \<and> content r' = (0, xs)"
    and skip_string: "length s < 32 \<Longrightarrow> content r = (0, fixstr s @ xs) \<Longrightarrow> \<exists>r'. Skip dc r = Inr r' \<and> content r' = (0, xs)"
    and is_nil: "content r = (0, eNil F @ xs) \<Longrightarrow> \<exists>r'. IsNil dc r = (True, r') \<and> content r' = content r"
    and not_nil_map: "content r = (0, eMap F k @ xs) \<Longrightarrow> \<exists>r'. IsNil dc r = (False, r') \<and> content r' = content r"
    and not_nil_bytes: "fits_bytes b \<Longrightarrow> content r = (0, eBytes F b @ xs) \<Longrightarrow> \<exists>r'. IsNil dc r = (False, r') \<and> content r' = content r"
    and not_nil_int: "fits_int i \<Longrightarrow> content r = (0, eInt F i @ xs) \<Longrightarrow> \<exists>r'. IsNil dc r = (False, r') \<and> content r' = content r"
    and not_nil_end: "content r = (0, []) \<Longrightarrow> \<exists>r'. IsNil dc r = (False, r') \<and> content r' = content r"
    and read_end: "content r = (0, []) \<Longrightarrow> ReadMapHeader dc r = Inl (Fails EOF)"
    and push: "content r = (n, xs) \<Longrightarrow> content (PushAlwaysNil dc r) = (Suc n, xs)"
    and pop: "content r = (Suc n, xs) \<Longrightarrow> content (PopAlwaysNil dc r) = (n, xs)"
    and nil_bytes: "content r = (Suc n, xs) \<Longrightarrow> reads content (ReadBytes dc old r) [] (Suc n, xs)"
    and nil_byte: "content r = (Suc n, xs) \<Longrightarrow> reads content (ReadByte dc r) 0 (Suc n, xs)"
    and nil_int: "content r = (Suc n, xs) \<Longrightarrow> reads content (ReadInt dc r) 0 (Suc n, xs)"
    and nil_array: "content r = (Suc n, xs) \<Longrightarrow> reads content (ReadArrayHeader dc r) 0 (Suc n, xs)"
    and dedup: "content (DedupIndexEachPtr dc r) = content r"
begin

text \<open>The reader as a source of the loop over the fields.\<close>

definition at_stream :: "bool \<Rightarrow> 'r \<Rightarrow> byte list \<Rightarrow> bool" where
  "at_stream nils r xs \<longleftrightarrow> content r = (if nils then 1 else 0, xs)"

lemma read_top:
  assumes "content r = (0, xs)" and "\<exists>r'. IsNil dc r = (False, r') \<and> content r' = content r"
  shows "reads content (top_nil dc r) False (0, xs)"
  using assms by (auto simp: top_nil_def reads_def)

lemma decode_struct_correct:
  assumes r: "content r = (0, eMap F (of_nat (length fs)) @ concat (map fst fs) @ xs)"
    and fs: "\<forall>f \<in> set fs. field_reads at_stream (ReadMapKeyPtr dc) fld f" and len: "length fs < 2 ^ 32"
      "length (snd (fold snd fs (z, replicate (length order) False))) = length order"
    and fld: "\<And>i zf s. i < length order \<Longrightarrow> \<not> skips ! i \<Longrightarrow> content s = (1, xs) \<Longrightarrow> length (snd zf) = length order \<Longrightarrow>
      reads content (fld (order ! i) zf s) (clear i zf) (1, xs) \<and> snd (clear i zf) = (snd zf)[i := True]"
  defines "zf \<equiv> fold snd fs (z, replicate (length order) False)"
  shows "reads content (decode_struct dc order skips fld z r)
    (fst (fold clear (take (unat (of_nat (length order) - of_nat (length fs) :: 32 word))
       (todo_fields (snd zf) skips (length order) 0)) zf)) (0, xs)"
proof -
  let ?z = "(z, replicate (length order) False)" and ?k = "of_nat (length fs) :: 32 word"
  let ?result = "fold clear (take (unat (of_nat (length order) - ?k)) (todo_fields (snd zf) skips (length order) 0)) zf"
  have top: "reads content (top_nil dc r) False (0, eMap F ?k @ concat (map fst fs) @ xs)"
    by (rule read_top [OF r not_nil_map [OF r]])
  have loop: "\<exists>s' next. fill_fields (ReadMapKeyPtr dc) (PushAlwaysNil dc) order skips fld ?k (of_nat (length order) - ?k) (-1) ?z r2 =
      Inr (?result, next, s') \<and>
      at_stream (next \<noteq> -1) s' xs" if "content r2 = (0, concat (map fst fs) @ xs)" for r2 unfolding zf_def
  proof (rule fill_fields_correct [OF fs _ len])
    show "at_stream False r2 (concat (map fst fs) @ xs)" using that by (simp add: at_stream_def)
    show "at_stream True (PushAlwaysNil dc s) xs" if "at_stream False s xs" for s
      using that push by (simp add: at_stream_def)
    show "\<exists>s'. fld (order ! i) zf s = Inr (clear i zf, s') \<and> at_stream True s' xs \<and> snd (clear i zf) = (snd zf)[i := True]"
      if "i < length order" "\<not> skips ! i" "at_stream True s xs" "length (snd zf) = length order" for i zf s
      using fld [OF that(1,2) _ that(4), of s] that(3) by (auto simp: at_stream_def reads_def)
  qed
  show ?thesis
    unfolding decode_struct_def
  proof (rule reads_bind [OF top], simp)
    fix r1 assume "content r1 = (0, eMap F ?k @ concat (map fst fs) @ xs)"
    then have "reads content (ReadMapHeader dc r1) ?k (0, concat (map fst fs) @ xs)" by (rule read_map)
    then obtain r2 where r2: "ReadMapHeader dc r1 = Inr (?k, r2)" "content r2 = (0, concat (map fst fs) @ xs)"
      by (auto simp: reads_def)
    obtain s' nx where s': "fill_fields (ReadMapKeyPtr dc) (PushAlwaysNil dc) order skips fld ?k (of_nat (length order) - ?k) (-1) ?z r2 =
      Inr (?result, nx, s')"
      "at_stream (nx \<noteq> -1) s' xs" using loop [OF r2(2)] by blast
    have "content (pop_nil dc False (pop_nil dc (nx \<noteq> -1) s')) = (0, xs)"
      using s'(2) pop [of s' 0 xs] by (auto simp: pop_nil_def at_stream_def split: if_splits)
    then show "reads content (rbind (ReadMapHeader dc r1) (\<lambda>(total, r2).
       rbind (fill_fields (ReadMapKeyPtr dc) (PushAlwaysNil dc) order skips fld total (of_nat (length order) - total) (-1) ?z r2)
         (\<lambda>(zf, nextMiss, r3). Inr (fst zf, pop_nil dc False (pop_nil dc (nextMiss \<noteq> -1) r3)))))
      (fst ?result) (0, xs)"
      using r2(1) s'(1) by (simp add: reads_def)
  qed
qed

lemma type_field_reads:
  assumes "length name < 32" and "\<And>zf r. fld [0x40] zf r = rbind (Skip dc r) (\<lambda>r1. Inr (zf, r1))"
  shows "field_reads at_stream (ReadMapKeyPtr dc) fld (type_field name)"
proof (unfold field_reads_def, intro allI impI)
  fix r zf xs assume "at_stream False r (fst (type_field name :: byte list \<times> ('a \<times> bool list \<Rightarrow> 'a \<times> bool list)) @ xs)"
  then have "content r = (0, fixstr [0x40] @ fixstr name @ xs)" by (simp add: at_stream_def type_field_def)
  then obtain r1 where r1: "ReadMapKeyPtr dc r = Inr ([0x40], r1)" "content r1 = (0, fixstr name @ xs)"
    using read_key [of "[0x40]"] by (fastforce simp: reads_def)
  then obtain r2 where "Skip dc r1 = Inr r2" "content r2 = (0, xs)" using skip_string [OF assms(1)] by blast
  then show "\<exists>n s1 s2. ReadMapKeyPtr dc r = Inr (n, s1) \<and> fld n zf s1 = Inr (snd (type_field name) zf, s2) \<and> at_stream False s2 xs"
    using r1 assms(2) by (simp add: type_field_def at_stream_def)
qed

text \<open>A field is its name and the encoding of its value.\<close>

lemma value_field_reads:
  assumes "length name < 32" and "\<And>zf r xs. content r = (0, v @ xs) \<Longrightarrow> reads content (fld name zf r) (upd zf) (0, xs)"
  shows "field_reads at_stream (ReadMapKeyPtr dc) fld (fixstr name @ v, upd)"
proof (unfold field_reads_def, intro allI impI)
  fix r zf xs assume "at_stream False r (fst (fixstr name @ v, upd) @ xs)"
  then have "content r = (0, fixstr name @ v @ xs)" by (simp add: at_stream_def)
  then obtain r1 where r1: "ReadMapKeyPtr dc r = Inr (name, r1)" "content r1 = (0, v @ xs)"
    using read_key [OF assms(1)] by (fastforce simp: reads_def)
  then show "\<exists>n s1 s2. ReadMapKeyPtr dc r = Inr (n, s1) \<and> fld n zf s1 = Inr (snd (fixstr name @ v, upd) zf, s2) \<and> at_stream False s2 xs"
    using assms(2) [OF r1(2)] by (fastforce simp: reads_def at_stream_def)
qed

lemma write_field_writes:
  assumes "0xa0 + of_nat (length name) = c" and "\<And>w. writes out (val w) (out w @ v)"
  shows "writes out (write_field en isempty (c # name) val w) (out w @ (if isempty then [] else fixstr name @ v))"
proof (cases isempty)
  case False
  have "writes out (rbind (Append en (c # name) w) val) (out w @ fixstr name @ v)"
  proof (rule writes_bind [OF write_append])
    fix w' assume "out w' = out w @ c # name"
    then show "writes out (val w') (out w @ fixstr name @ v)" using assms(2) [of w'] assms(1) by (simp add: fixstr_def)
  qed
  then show ?thesis using False by (simp add: write_field_def)
qed (simp add: write_field_def writes_def)

subsection \<open>Leaves\<close>

lemma Leaf_EncodeMsg_writes:
  assumes "PreSaveHook lf = Inr z" and "fits_leaf z"
  shows "writes out (Leaf_EncodeMsg en lf w) (out w @ leaf_wire F z)"
proof -
  let ?e = "[Key z = [], Keybyte z = 0, XTyp z = 0, Xdata z = [], False]"
  have fne: "Leaf_fieldsNotEmpty z (replicate 5 False) = (?e, of_nat (length (leaf_fields F z)))"
    by (simp add: Leaf_fieldsNotEmpty_def leaf_fields_def present_def numeral_eq_Suc Let_def)
  have fits: "fits_bytes (Key z)" "fits_int (XTyp z)" "fits_bytes (Xdata z)" using assms(2) by (simp_all add: fits_leaf_def)
  have count: "(1 + of_nat (length (leaf_fields F z)) :: 32 word) = of_nat (Suc (length (leaf_fields F z)))" by simp
  let ?F0 = "if ?e ! 0 then [] else fixstr name_Key @ eBytes F (Key z)"
  let ?F1 = "if ?e ! 1 then [] else fixstr name_Keybyte @ eByte F (Keybyte z)"
  let ?F2 = "if ?e ! 2 then [] else fixstr name_XTyp @ eInt F (XTyp z)"
  let ?F3 = "if ?e ! 3 then [] else fixstr name_X @ eBytes F (Xdata z)"
  have "writes out (Leaf_EncodeMsg en lf w) (out w @ eMap F (of_nat (Suc (length (leaf_fields F z)))) @ [0xa1, 0x40] @
      fixstr [0x4c, 0x65, 0x61, 0x66] @ ?F0 @ ?F1 @ ?F2 @ ?F3)"
    unfolding Leaf_EncodeMsg_def assms(1) lift_io_simps rbind_Inr fne prod.case field_bytes add.commute [of _ 1] count
    by (intro writes_seq write_map write_append write_string write_field_writes write_bytes write_byte write_int fits)
      (simp_all add: name_lengths)
  also have "?this \<longleftrightarrow> ?thesis" 
    by (simp add: leaf_wire_def leaf_fields_def present_def fixstr_def)
  finally show ?thesis .
qed

lemma Leaf_switch_reads:
  "reads content (ReadBytes dc (Key y) r) k c \<Longrightarrow> reads content (Leaf_switch dc name_Key (y, found) r) (y\<lparr>Key := k\<rparr>, found[0 := True]) c"
  "reads content (ReadByte dc r) b c \<Longrightarrow> reads content (Leaf_switch dc name_Keybyte (y, found) r) (y\<lparr>Keybyte := b\<rparr>, found[1 := True]) c"
  "reads content (ReadInt dc r) t c \<Longrightarrow> reads content (Leaf_switch dc name_XTyp (y, found) r) (y\<lparr>XTyp := t\<rparr>, found[2 := True]) c"
  "reads content (ReadBytes dc (Xdata y) r) x c \<Longrightarrow> reads content (Leaf_switch dc name_X (y, found) r) (y\<lparr>Xdata := x\<rparr>, found[3 := True]) c"
  by (auto simp: Leaf_switch_def names_distinct reads_def)

lemma Leaf_fields_read:
  assumes "fits_leaf z"
  shows "\<forall>f \<in> set (type_field [0x4c, 0x65, 0x61, 0x66] # leaf_fields F z). field_reads at_stream (ReadMapKeyPtr dc) (Leaf_switch dc) f"
proof -
  have fits: "fits_bytes (Key z)" "fits_int (XTyp z)" "fits_bytes (Xdata z)" using assms by (simp_all add: fits_leaf_def)
  have "field_reads at_stream (ReadMapKeyPtr dc) (Leaf_switch dc) (type_field [0x4c, 0x65, 0x61, 0x66])"
    by (rule type_field_reads) (simp_all add: Leaf_switch_def names_distinct split: prod.split)
  moreover have "field_reads at_stream (ReadMapKeyPtr dc) (Leaf_switch dc) f" if "f \<in> set (leaf_fields F z)" for f
  proof -
    have 1: "reads content (Leaf_switch dc name_Key zf r) ((\<lambda>(y, found). (y\<lparr>Key := Key z\<rparr>, found[0 := True])) zf) (0, xs)"
      if "content r = (0, eBytes F (Key z) @ xs)" for zf r xs
      by (cases zf) (simp add: Leaf_switch_reads read_bytes [OF fits(1) that] del: One_nat_def)
    have 2: "reads content (Leaf_switch dc name_Keybyte zf r) ((\<lambda>(y, found). (y\<lparr>Keybyte := Keybyte z\<rparr>, found[1 := True])) zf) (0, xs)"
      if "content r = (0, eByte F (Keybyte z) @ xs)" for zf r xs
      by (cases zf) (simp add: Leaf_switch_reads read_byte [OF that] del: One_nat_def)
    have 3: "reads content (Leaf_switch dc name_XTyp zf r) ((\<lambda>(y, found). (y\<lparr>XTyp := XTyp z\<rparr>, found[2 := True])) zf) (0, xs)"
      if "content r = (0, eInt F (XTyp z) @ xs)" for zf r xs
      by (cases zf) (simp add: Leaf_switch_reads read_int [OF fits(2) that] del: One_nat_def)
    have 4: "reads content (Leaf_switch dc name_X zf r) ((\<lambda>(y, found). (y\<lparr>Xdata := Xdata z\<rparr>, found[3 := True])) zf) (0, xs)"
      if "content r = (0, eBytes F (Xdata z) @ xs)" for zf r xs
      by (cases zf) (simp add: Leaf_switch_reads read_bytes [OF fits(3) that] del: One_nat_def)
    note fields = value_field_reads [of name_Key] value_field_reads [of name_Keybyte] value_field_reads [of name_XTyp]
      value_field_reads [of name_X]
    have "field_reads at_stream (ReadMapKeyPtr dc) (Leaf_switch dc)
        (fixstr name_Key @ eBytes F (Key z), \<lambda>(y, found). (y\<lparr>Key := Key z\<rparr>, found[0 := True]))"
      "field_reads at_stream (ReadMapKeyPtr dc) (Leaf_switch dc)
        (fixstr name_Keybyte @ eByte F (Keybyte z), \<lambda>(y, found). (y\<lparr>Keybyte := Keybyte z\<rparr>, found[1 := True]))"
      "field_reads at_stream (ReadMapKeyPtr dc) (Leaf_switch dc)
        (fixstr name_XTyp @ eInt F (XTyp z), \<lambda>(y, found). (y\<lparr>XTyp := XTyp z\<rparr>, found[2 := True]))"
      "field_reads at_stream (ReadMapKeyPtr dc) (Leaf_switch dc)
        (fixstr name_X @ eBytes F (Xdata z), \<lambda>(y, found). (y\<lparr>Xdata := Xdata z\<rparr>, found[3 := True]))"
      by (rule fields, simp add: name_lengths, erule 1 2 3 4)+
    then show ?thesis using that by (auto simp: leaf_fields_def present_def split: if_splits)
  qed
  ultimately show ?thesis by auto
qed

lemma Leaf_missing_read:
  assumes "i < length Leaf_FieldOrder" and "\<not> Leaf_FieldSkip ! i" and "content r = (1, xs)"
  shows "reads content (Leaf_switch dc (Leaf_FieldOrder ! i) zf r) (leaf_clear i zf) (1, xs)"
proof -
  have r: "content r = (Suc 0, xs)" using assms(3) by simp
  note nil = nil_bytes [OF r, folded One_nat_def] nil_byte [OF r, folded One_nat_def] nil_int [OF r, folded One_nat_def]
  obtain y found where zf: "zf = (y, found)" by force
  have "i < 4" using assms(1,2) by (auto simp: Leaf_FieldOrder_def Leaf_FieldSkip_def less_Suc_eq numeral_eq_Suc)
  then consider "i = 0" | "i = 1" | "i = 2" | "i = 3" by linarith
  then show ?thesis
    by cases (simp_all add: zf Leaf_FieldOrder_def leaf_clear_def Leaf_switch_reads nil del: One_nat_def)
qed

lemma Leaf_decodes:
  assumes "fits_leaf z" and r: "content r = (0, leaf_wire F z @ xs)"
  shows "reads content (decode_struct dc Leaf_FieldOrder Leaf_FieldSkip (Leaf_switch dc) y r) (same_fields y z) (0, xs)"
proof -
  let ?fs = "type_field [0x4c, 0x65, 0x61, 0x66] # leaf_fields F z" and ?n = "length Leaf_FieldOrder"
  have e: "fold snd ?fs (y, replicate ?n False) = fold snd (leaf_fields F z) (y, replicate ?n False)"
    by (simp add: type_field_def)
  have c: "content r = (0, eMap F (of_nat (length ?fs)) @ concat (map fst ?fs) @ xs)"
    using r by (simp add: leaf_wire_def type_field_def)
  have l: "length ?fs < 2 ^ 32" using leaf_fields_length [of F z] by simp
  have n: "?n = 5" by (simp add: Leaf_FieldOrder_def)
  have m: "take (unat (of_nat ?n - of_nat (length ?fs) :: 32 word)) (todo_fields (snd (fold snd (leaf_fields F z) (y, replicate ?n False))) Leaf_FieldSkip ?n 0)
      = todo_fields (snd (fold snd (leaf_fields F z) (y, replicate ?n False))) Leaf_FieldSkip ?n 0"
  proof -
    have "length ?fs \<le> 5" using leaf_fields_length [of F z] by simp
    then have "unat (of_nat ?n - of_nat (length ?fs) :: 32 word) = 5 - length ?fs" unfolding n by (rule unat_left) simp
    then show ?thesis by (intro take_all) (simp add: leaf_fields_effect(2))
  qed
  have "reads content (decode_struct dc Leaf_FieldOrder Leaf_FieldSkip (Leaf_switch dc) y r)
    (fst (fold leaf_clear (take (unat (of_nat ?n - of_nat (length ?fs) :: 32 word))
      (todo_fields (snd (fold snd ?fs (y, replicate ?n False))) Leaf_FieldSkip ?n 0))
      (fold snd ?fs (y, replicate ?n False)))) (0, xs)"
  proof (rule decode_struct_correct [OF c Leaf_fields_read [OF assms(1)] l])
    show "length (snd (fold snd ?fs (y, replicate ?n False))) = ?n" unfolding e by (rule leaf_fields_effect)
    show "reads content (Leaf_switch dc (Leaf_FieldOrder ! i) zf s) (leaf_clear i zf) (1, xs) \<and>
        snd (leaf_clear i zf) = (snd zf)[i := True]"
      if "i < ?n" "\<not> Leaf_FieldSkip ! i" "content s = (1, xs)" "length (snd zf) = ?n" for i zf s
      using Leaf_missing_read [OF that(1-3)] leaf_clear_found by blast
  qed
  then show ?thesis unfolding e m leaf_fields_effect .
qed

lemma Leaf_DecodeMsg_reads:
  assumes "fits_leaf z" and "XTyp z = XTypBytes" and "content r = (0, leaf_wire F z @ xs)"
  shows "reads content (Leaf_DecodeMsg dc y r) (loaded_leaf y z) (0, xs)"
proof -
  have "PostLoadHook (same_fields y z) = Inr (loaded_leaf y z)"
    using assms(2) by (simp add: PostLoadHook_def same_fields_def loaded_leaf_def)
  then show ?thesis using Leaf_decodes [OF assms(1,3), of y] by (auto simp: Leaf_DecodeMsg_def reads_def)
qed

text \<open>A type tag that the hook does not know is a panic.\<close>

lemma Leaf_DecodeMsg_panics:
  assumes "fits_leaf z" and "XTyp z \<noteq> XTypBytes" and "content r = (0, leaf_wire F z @ xs)"
  shows "\<exists>m. Leaf_DecodeMsg dc y r = Inl (Panics (PanicMessage m))"
proof -
  have "\<exists>m. PostLoadHook (same_fields y z) = Inl (PanicMessage m)"
    using assms(2) by (auto simp: PostLoadHook_def same_fields_def)
  then show ?thesis using Leaf_decodes [OF assms(1,3), of y] by (auto simp: Leaf_DecodeMsg_def reads_def)
qed

lemma Leaf_DecodeMsg_end:
  assumes "content r = (0, [])"
  shows "Leaf_DecodeMsg dc y r = Inl (Fails EOF)"
proof -
  obtain r1 where "IsNil dc r = (False, r1)" "content r1 = (0, [])" using not_nil_end [OF assms] assms by auto
  then show ?thesis by (simp add: Leaf_DecodeMsg_def decode_struct_def top_nil_def read_end)
qed

subsection \<open>Byte slices and \<open>TestBytes\<close>\<close>

lemma ByteSlice_writes: "fits_bytes z \<Longrightarrow> writes out (ByteSlice_EncodeMsg en z w) (out w @ eBytes F z)"
  by (simp add: ByteSlice_EncodeMsg_def write_bytes)

lemma slice_reads:
  assumes "fits_bytes z" and r: "content r = (0, eBytes F z @ xs)"
  shows "reads content (rbind (top_nil dc r) (\<lambda>(sawTopNil, r1).
     rbind (ReadBytes dc y r1) (\<lambda>(z1, r2). Inr (z1, pop_nil dc sawTopNil r2)))) z (0, xs)"
proof (rule reads_bind [OF read_top [OF r not_nil_bytes [OF assms]]])
  fix r1 assume "content r1 = (0, eBytes F z @ xs)"
  then have "reads content (ReadBytes dc y r1) z (0, xs)" by (rule read_bytes [OF assms(1)])
  then show "reads content (case (False, r1) of (sawTopNil, r1) \<Rightarrow>
      rbind (ReadBytes dc y r1) (\<lambda>(z1, r2). Inr (z1, pop_nil dc sawTopNil r2))) z (0, xs)"
    by (auto simp: reads_def pop_nil_def)
qed

lemma ByteSlice_reads:
  assumes "fits_bytes z" and "content r = (0, eBytes F z @ xs)"
  shows "reads content (ByteSlice_DecodeMsg dc y r) z (0, xs)"
  unfolding ByteSlice_DecodeMsg_def by (rule slice_reads [OF assms])

lemma TestBytes_writes:
  assumes "fits_bytes (Slc z)"
  shows "writes out (TestBytes_EncodeMsg en z w) (out w @ test_bytes_wire F z)"
proof -
  have fne: "TestBytes_fieldsNotEmpty z (replicate 1 False) = ([Slc z = []], if Slc z = [] then 0 else 1)"
    by (simp add: TestBytes_fieldsNotEmpty_def Let_def)
  have "writes out (TestBytes_EncodeMsg en z w) (out w @ eMap F ((if Slc z = [] then 0 else 1) + 1) @ [0xa1, 0x40] @
      fixstr [0x54, 0x65, 0x73, 0x74, 0x42, 0x79, 0x74, 0x65, 0x73] @
      (if [Slc z = []] ! 0 then [] else fixstr name_Slc @ eBytes F (Slc z)))"
    unfolding TestBytes_EncodeMsg_def fne prod.case field_bytes
    by (intro writes_seq write_map write_append write_string write_field_writes write_bytes assms) (simp_all add: name_lengths)
  also have "?this \<longleftrightarrow> ?thesis" by (simp add: test_bytes_wire_def fixstr_def)
  finally show ?thesis .
qed

text \<open>
  The decoder of \<open>TestBytes\<close> has no field to spare for the type, so an empty value leaves the receiver
  as it was.
\<close>

lemma TestBytes_reads:
  assumes fits: "fits_bytes (Slc z)" and r: "content r = (0, test_bytes_wire F z @ xs)"
  shows "reads content (TestBytes_DecodeMsg dc y r) (if Slc z = [] then y else z) (0, xs)"
proof -
  let ?v = "\<lambda>(y :: test_bytes, found). (y\<lparr>Slc := Slc z\<rparr>, found[0 := True])"
  let ?tag = "[0x54, 0x65, 0x73, 0x74, 0x42, 0x79, 0x74, 0x65, 0x73] :: byte list"
  let ?fs = "type_field ?tag # present (Slc z = []) (fixstr name_Slc @ eBytes F (Slc z), ?v)"
  let ?clear = "\<lambda>i (y :: test_bytes, found). (y\<lparr>Slc := []\<rparr>, found[i := True])"
  have sw: "reads content (ReadBytes dc (Slc y) r) v c \<Longrightarrow>
      reads content (TestBytes_switch dc name_Slc (y, found) r) (y\<lparr>Slc := v\<rparr>, found[0 := True]) c" for y found r v c
    by (auto simp: TestBytes_switch_def reads_def)
  have c: "content r = (0, eMap F (of_nat (length ?fs)) @ concat (map fst ?fs) @ xs)"
    using r by (simp add: test_bytes_wire_def present_def type_field_def)
  have "field_reads at_stream (ReadMapKeyPtr dc) (TestBytes_switch dc) (type_field ?tag)"
      by (rule type_field_reads) (simp_all add: TestBytes_switch_def names_distinct split: prod.split)
    moreover have "field_reads at_stream (ReadMapKeyPtr dc) (TestBytes_switch dc) (fixstr name_Slc @ eBytes F (Slc z), ?v)"
    proof (rule value_field_reads)
      show "reads content (TestBytes_switch dc name_Slc zf r) (?v zf) (0, xs)" if "content r = (0, eBytes F (Slc z) @ xs)" for zf r xs
        using that by (cases zf) (simp add: sw read_bytes fits)
    qed (simp add: name_lengths)
    ultimately have fs: "\<forall>f \<in> set ?fs. field_reads at_stream (ReadMapKeyPtr dc) (TestBytes_switch dc) f"
      by (auto simp: present_def)
  have "reads content (TestBytes_DecodeMsg dc y r)
    (fst (fold ?clear (take (unat (of_nat (length TestBytes_FieldOrder) - of_nat (length ?fs) :: 32 word))
      (todo_fields (snd (fold snd ?fs (y, replicate (length TestBytes_FieldOrder) False))) TestBytes_FieldSkip
      (length TestBytes_FieldOrder) 0)) (fold snd ?fs (y, replicate (length TestBytes_FieldOrder) False)))) (0, xs)"
    unfolding TestBytes_DecodeMsg_def
  proof (rule decode_struct_correct [OF c fs])
    show "reads content (TestBytes_switch dc (TestBytes_FieldOrder ! i) zf s) (?clear i zf) (1, xs) \<and>
        snd (?clear i zf) = (snd zf)[i := True]"
      if "i < length TestBytes_FieldOrder" "content s = (1, xs)" for i zf s
    proof -
      have "i = 0" using that(1) by (simp add: TestBytes_FieldOrder_def)
      moreover note nil_bytes [of s 0 xs, folded One_nat_def, OF that(2)]
      ultimately show ?thesis by (cases zf) (simp add: TestBytes_FieldOrder_def sw del: One_nat_def)
    qed
  qed (simp_all add: present_def type_field_def)
  moreover have "fst (fold ?clear (take (unat (of_nat (length TestBytes_FieldOrder) - of_nat (length ?fs) :: 32 word))
      (todo_fields (snd (fold snd ?fs (y, replicate (length TestBytes_FieldOrder) False))) TestBytes_FieldSkip
      (length TestBytes_FieldOrder) 0)) (fold snd ?fs (y, replicate (length TestBytes_FieldOrder) False))) = (if Slc z = [] then y else z)"
    by (cases z) (simp add: TestBytes_FieldOrder_def TestBytes_FieldSkip_def todo_fields_def present_def type_field_def)
  ultimately show ?thesis by simp
qed

end

end
