(* ===== verification/WireBytes.thy ===== *)
theory WireBytes
  imports Wire
begin

text \<open>
  The functions of \<open>msgp\<close> on byte slices, and \<open>MarshalMsg\<close> and \<open>UnmarshalMsg\<close> of the generated code
  (\<open>leaf_gen.go\<close>): what was marshalled is read back, and the bytes after it are left.
\<close>

locale msgp_slices =
  fixes F :: msgp_format and B :: "'n msg_bytes"
  assumes require: "Require B b n = b"
    and append_map: "AppendMapHeader B b k = b @ eMap F k"
    and append_array: "AppendArrayHeader B b k = b @ eArray F k"
    and append_bytes: "fits_bytes v \<Longrightarrow> AppendBytes B b v = b @ eBytes F v"
    and append_byte: "AppendByte B b x = b @ eByte F x"
    and append_int: "fits_int i \<Longrightarrow> AppendInt B b i = b @ eInt F i"
    and append_nil: "AppendNil B b = b @ eNil F"
    and not_nil_map: "\<not> IsNilBytes B (eMap F k @ xs)"
    and not_nil_bytes: "fits_bytes v \<Longrightarrow> \<not> IsNilBytes B (eBytes F v @ xs)"
    and not_nil_int: "fits_int i \<Longrightarrow> \<not> IsNilBytes B (eInt F i @ xs)"
    and is_nil: "IsNilBytes B (eNil F @ xs)" "length (eNil F) = 1"
    and init: "\<not> AlwaysNil B (nbsInit B)"
    and push: "nbsPush B bts nbs = (bts', nbs') \<Longrightarrow> AlwaysNil B nbs' \<and> nbsPop B nbs' = (bts, nbs)"
    and parse_map: "\<not> AlwaysNil B nbs \<Longrightarrow> ReadMapHeaderBytes B nbs (eMap F k @ xs) = Inr (k, xs)"
    and parse_array: "\<not> AlwaysNil B nbs \<Longrightarrow> ReadArrayHeaderBytes B nbs (eArray F k @ xs) = Inr (k, xs)"
    and parse_bytes: "\<not> AlwaysNil B nbs \<Longrightarrow> fits_bytes v \<Longrightarrow> ReadBytesBytes B nbs (eBytes F v @ xs) old = Inr (v, xs)"
    and parse_byte: "\<not> AlwaysNil B nbs \<Longrightarrow> ReadByteBytes B nbs (eByte F x @ xs) = Inr (x, xs)"
    and parse_int: "\<not> AlwaysNil B nbs \<Longrightarrow> fits_int i \<Longrightarrow> ReadIntBytes B nbs (eInt F i @ xs) = Inr (i, xs)"
    and parse_key: "\<not> AlwaysNil B nbs \<Longrightarrow> length s < 32 \<Longrightarrow> ReadMapKeyZC B nbs (fixstr s @ xs) = Inr (s, xs)"
    and nil_byte: "AlwaysNil B nbs \<Longrightarrow> ReadByteBytes B nbs bts = Inr (0, bts)"
    and nil_int: "AlwaysNil B nbs \<Longrightarrow> ReadIntBytes B nbs bts = Inr (0, bts)"
begin

text \<open>The rest of the bytes, which the stack of nils keeps while it is in nil mode.\<close>

definition at_bytes :: "bool \<Rightarrow> byte list \<times> 'n \<Rightarrow> byte list \<Rightarrow> bool" where
  "at_bytes nils s xs \<longleftrightarrow> (if nils then AlwaysNil B (snd s) \<and> (\<exists>nbs. nbsPop B (snd s) = (xs, nbs) \<and> \<not> AlwaysNil B nbs)
     else fst s = xs \<and> \<not> AlwaysNil B (snd s))"

lemma top_bytes: "\<not> IsNilBytes B bts \<Longrightarrow> top_nil_bytes B bts = (False, bts, nbsInit B)"
  by (simp add: top_nil_bytes_def)

lemma unmarshal_struct_correct:
  assumes fs: "\<forall>f \<in> set fs. field_reads at_bytes (\<lambda>(bts, nbs). rbind (ReadMapKeyZC B nbs bts) (\<lambda>(field, bts'). Inr (field, bts', nbs))) fld f"
    and len: "length fs < 2 ^ 32" "length (snd (fold snd fs (z, replicate (length order) False))) = length order"
    and fld: "\<And>i zf s. i < length order \<Longrightarrow> \<not> skips ! i \<Longrightarrow> AlwaysNil B (snd s) \<Longrightarrow> length (snd zf) = length order \<Longrightarrow>
      fld (order ! i) zf s = Inr (clear i zf, s) \<and> snd (clear i zf) = (snd zf)[i := True]"
  defines "zf \<equiv> fold snd fs (z, replicate (length order) False)"
  shows "unmarshal_struct B order skips fld z (eMap F (of_nat (length fs)) @ concat (map fst fs) @ xs) =
    Inr (fst (fold clear (take (unat (of_nat (length order) - of_nat (length fs) :: 32 word))
       (todo_fields (snd zf) skips (length order) 0)) zf), xs)"
proof -
  let ?z = "(z, replicate (length order) False)" and ?k = "of_nat (length fs) :: 32 word"
  let ?key = "\<lambda>(bts, nbs). rbind (ReadMapKeyZC B nbs bts) (\<lambda>(field, bts'). Inr (field, bts', nbs))"
  let ?push = "\<lambda>(bts, nbs). nbsPush B bts nbs"
  let ?result = "fold clear (take (unat (of_nat (length order) - ?k)) (todo_fields (snd zf) skips (length order) 0)) zf"
  have "\<exists>s' next. fill_fields ?key ?push order skips fld ?k (of_nat (length order) - ?k) (-1) ?z
      (concat (map fst fs) @ xs, nbsInit B) = Inr (?result, next, s') \<and> at_bytes (next \<noteq> -1) s' xs" unfolding zf_def
  proof (rule fill_fields_correct [OF fs _ len])
    show "at_bytes False (concat (map fst fs) @ xs, nbsInit B) (concat (map fst fs) @ xs)" by (simp add: at_bytes_def init)
    show "at_bytes True (?push s) xs" if "at_bytes False s xs" for s
    proof -
      obtain bts nbs where s: "s = (bts, nbs)" by force
      obtain bts' nbs' where "nbsPush B bts nbs = (bts', nbs')" by force
      then show ?thesis using that push [of bts nbs bts' nbs'] by (simp add: s at_bytes_def)
    qed
    show "\<exists>s'. fld (order ! i) zf s = Inr (clear i zf, s') \<and> at_bytes True s' xs \<and> snd (clear i zf) = (snd zf)[i := True]"
      if "i < length order" "\<not> skips ! i" "at_bytes True s xs" "length (snd zf) = length order" for i zf s
      using fld [OF that(1,2) _ that(4), of s] that(3) by (auto simp: at_bytes_def)
  qed
  then obtain s' nx where s': "fill_fields ?key ?push order skips fld ?k (of_nat (length order) - ?k) (-1) ?z
      (concat (map fst fs) @ xs, nbsInit B) = Inr (?result, nx, s')" "at_bytes (nx \<noteq> -1) s' xs" by blast
  have "fst (pop_nil_bytes B (nx \<noteq> -1) s') = xs"
    using s'(2) by (auto simp: pop_nil_bytes_def at_bytes_def split: if_splits)
  then show ?thesis
    by (simp add: unmarshal_struct_def top_bytes not_nil_map init parse_map s'(1) pop_nil_bytes_def)
qed

lemma value_field_parses:
  assumes "length name < 32" and "\<And>zf nbs xs. \<not> AlwaysNil B nbs \<Longrightarrow> fld name zf (v @ xs, nbs) = Inr (upd zf, xs, nbs)"
  shows "field_reads at_bytes (\<lambda>(bts, nbs). rbind (ReadMapKeyZC B nbs bts) (\<lambda>(field, bts'). Inr (field, bts', nbs))) fld
    (fixstr name @ v, upd)"
proof (unfold field_reads_def, intro allI impI)
  fix s zf xs assume "at_bytes False s (fst (fixstr name @ v, upd) @ xs)"
  then obtain nbs where s: "s = (fixstr name @ v @ xs, nbs)" "\<not> AlwaysNil B nbs" by (cases s) (auto simp: at_bytes_def)
  then show "\<exists>n s1 s2. (case s of (bts, nbs) \<Rightarrow> rbind (ReadMapKeyZC B nbs bts) (\<lambda>(field, bts'). Inr (field, bts', nbs))) = Inr (n, s1) \<and>
      fld n zf s1 = Inr (snd (fixstr name @ v, upd) zf, s2) \<and> at_bytes False s2 xs"
    using assms(2) [OF s(2)] by (simp add: parse_key [OF s(2) assms(1)] at_bytes_def)
qed

section \<open>Byte slices\<close>

lemma bytes_parsed:
  "\<not> AlwaysNil B nbs \<Longrightarrow> fits_bytes v \<Longrightarrow> bytes_or_nil B old (eBytes F v @ xs, nbs) = Inr (v, xs, nbs)"
  "AlwaysNil B nbs \<Longrightarrow> bytes_or_nil B old (bts, nbs) = Inr ([], bts, nbs)"
  by (simp_all add: bytes_or_nil_def not_nil_bytes parse_bytes)

lemma ByteSlice_marshal: "fits_bytes z \<Longrightarrow> ByteSlice_MarshalMsg B z b = Inr (b @ eBytes F z)"
  by (simp add: ByteSlice_MarshalMsg_def require append_bytes)

lemma ByteSlice_unmarshal: "fits_bytes z \<Longrightarrow> ByteSlice_UnmarshalMsg B y (eBytes F z @ xs) = Inr (z, xs)"
  by (simp add: ByteSlice_UnmarshalMsg_def ByteSlice_UnmarshalMsgWithCfg_def top_bytes not_nil_bytes bytes_parsed init pop_nil_bytes_def)

section \<open>Leaves\<close>

lemma append_field_appends:
  assumes "0xa0 + of_nat (length name) = c" and "\<And>b. val b = b @ v"
  shows "append_field isempty (c # name) val b = b @ (if isempty then [] else fixstr name @ v)"
  using assms by (simp add: append_field_def fixstr_def)

lemma Leaf_marshal:
  assumes "PreSaveHook lf = Inr z" and "fits_leaf z"
  shows "Leaf_MarshalMsg B lf b = Inr (b @ eMap F (of_nat (length (leaf_fields F z))) @ concat (map fst (leaf_fields F z)))"
proof -
  have fits: "fits_bytes (Key z)" "fits_int (XTyp z)" "fits_bytes (Xdata z)" using assms(2) by (simp_all add: fits_leaf_def)
  have fne: "Leaf_fieldsNotEmpty z (replicate 5 False) =
      ([Key z = [], Keybyte z = 0, XTyp z = 0, Xdata z = [], False], of_nat (length (leaf_fields F z)))"
    by (simp add: Leaf_fieldsNotEmpty_def leaf_fields_def present_def numeral_eq_Suc Let_def)
  note app = append_field_appends [of name_Key "0xad", OF _ append_bytes [OF fits(1)]]
    append_field_appends [of name_Keybyte "0xb1", OF _ append_byte]
    append_field_appends [of name_XTyp "0xae", OF _ append_int [OF fits(2)]]
    append_field_appends [of name_X "0xab", OF _ append_bytes [OF fits(3)]]
  show ?thesis
    unfolding Leaf_MarshalMsg_def assms(1) lift_io_simps rbind_Inr fne prod.case field_bytes Let_def
    by (simp add: app name_lengths require append_map) (simp add: leaf_fields_def present_def)
qed

lemma Leaf_switch_parses:
  "bytes_or_nil B (Key y) s = Inr (k, s') \<Longrightarrow> Leaf_switch_bytes B name_Key (y, found) s = Inr ((y\<lparr>Key := k\<rparr>, found[0 := True]), s')"
  "ReadByteBytes B (snd s) (fst s) = Inr (b, bts) \<Longrightarrow>
    Leaf_switch_bytes B name_Keybyte (y, found) s = Inr ((y\<lparr>Keybyte := b\<rparr>, found[1 := True]), bts, snd s)"
  "ReadIntBytes B (snd s) (fst s) = Inr (i, bts) \<Longrightarrow>
    Leaf_switch_bytes B name_XTyp (y, found) s = Inr ((y\<lparr>XTyp := i\<rparr>, found[2 := True]), bts, snd s)"
  "bytes_or_nil B (Xdata y) s = Inr (k, s') \<Longrightarrow> Leaf_switch_bytes B name_X (y, found) s = Inr ((y\<lparr>Xdata := k\<rparr>, found[3 := True]), s')"
  by (cases s; simp add: Leaf_switch_bytes_def names_distinct)+

lemma Leaf_fields_parse:
  assumes "fits_leaf z" and "f \<in> set (leaf_fields F z)"
  shows "field_reads at_bytes (\<lambda>(bts, nbs). rbind (ReadMapKeyZC B nbs bts) (\<lambda>(field, bts'). Inr (field, bts', nbs)))
    (Leaf_switch_bytes B) f"
proof -
  let ?key = "\<lambda>(bts, nbs). rbind (ReadMapKeyZC B nbs bts) (\<lambda>(field, bts'). Inr (field, bts', nbs))"
  have fits: "fits_bytes (Key z)" "fits_int (XTyp z)" "fits_bytes (Xdata z)" using assms(1) by (simp_all add: fits_leaf_def)
  have "field_reads at_bytes ?key (Leaf_switch_bytes B)
      (fixstr name_Key @ eBytes F (Key z), \<lambda>(y, found). (y\<lparr>Key := Key z\<rparr>, found[0 := True]))"
    by (rule value_field_parses) (simp_all add: name_lengths Leaf_switch_parses bytes_parsed fits split: prod.split)
  moreover have "field_reads at_bytes ?key (Leaf_switch_bytes B)
      (fixstr name_Keybyte @ eByte F (Keybyte z), \<lambda>(y, found). (y\<lparr>Keybyte := Keybyte z\<rparr>, found[1 := True]))"
    by (rule value_field_parses) (simp_all add: name_lengths Leaf_switch_parses parse_byte split: prod.split del: One_nat_def)
  moreover have "field_reads at_bytes ?key (Leaf_switch_bytes B)
      (fixstr name_XTyp @ eInt F (XTyp z), \<lambda>(y, found). (y\<lparr>XTyp := XTyp z\<rparr>, found[2 := True]))"
    by (rule value_field_parses) (simp_all add: name_lengths Leaf_switch_parses parse_int fits split: prod.split)
  moreover have "field_reads at_bytes ?key (Leaf_switch_bytes B)
      (fixstr name_X @ eBytes F (Xdata z), \<lambda>(y, found). (y\<lparr>Xdata := Xdata z\<rparr>, found[3 := True]))"
    by (rule value_field_parses) (simp_all add: name_lengths Leaf_switch_parses bytes_parsed fits split: prod.split)
  ultimately show ?thesis using assms(2) by (auto simp: leaf_fields_def present_def split: if_splits)
qed

lemma Leaf_missing_parse:
  assumes "i < length Leaf_FieldOrder" and "\<not> Leaf_FieldSkip ! i" and "AlwaysNil B (snd s)"
  shows "Leaf_switch_bytes B (Leaf_FieldOrder ! i) zf s = Inr (leaf_clear i zf, s)"
proof -
  obtain y found where zf: "zf = (y, found)" by force
  obtain bts nbs where s: "s = (bts, nbs)" by force
  have n: "AlwaysNil B nbs" using assms(3) s by simp
  have "i < 4" using assms(1,2) by (auto simp: Leaf_FieldOrder_def Leaf_FieldSkip_def less_Suc_eq numeral_eq_Suc)
  then consider "i = 0" | "i = 1" | "i = 2" | "i = 3" by linarith
  then show ?thesis
    by cases (simp_all add: zf s Leaf_FieldOrder_def leaf_clear_def Leaf_switch_parses bytes_parsed n nil_byte nil_int del: One_nat_def)
qed

lemma Leaf_parses:
  assumes "fits_leaf z"
  shows "unmarshal_struct B Leaf_FieldOrder Leaf_FieldSkip (Leaf_switch_bytes B) y
      (eMap F (of_nat (length (leaf_fields F z))) @ concat (map fst (leaf_fields F z)) @ xs) = Inr (same_fields y z, xs)"
proof -
  let ?fs = "leaf_fields F z" and ?n = "length Leaf_FieldOrder"
  let ?zf = "fold snd ?fs (y, replicate ?n False)"
  have u: "unmarshal_struct B Leaf_FieldOrder Leaf_FieldSkip (Leaf_switch_bytes B) y (eMap F (of_nat (length ?fs)) @ concat (map fst ?fs) @ xs) =
    Inr (fst (fold leaf_clear (take (unat (of_nat ?n - of_nat (length ?fs) :: 32 word))
      (todo_fields (snd ?zf) Leaf_FieldSkip ?n 0)) ?zf), xs)"
    by (rule unmarshal_struct_correct)
      (use Leaf_fields_parse [OF assms(1)] Leaf_missing_parse leaf_clear_found leaf_fields_length [of F z] leaf_fields_effect(1) in auto)
  have n: "?n = 5" by (simp add: Leaf_FieldOrder_def)
  have le: "length ?fs \<le> 5" using leaf_fields_length [of F z] by simp
  then have "unat (of_nat ?n - of_nat (length ?fs) :: 32 word) = 5 - length ?fs" unfolding n by (rule unat_left) simp
  then have t: "take (unat (of_nat ?n - of_nat (length ?fs) :: 32 word)) (todo_fields (snd ?zf) Leaf_FieldSkip ?n 0) =
      todo_fields (snd ?zf) Leaf_FieldSkip ?n 0" by (intro take_all) (simp only: leaf_fields_effect)
  show ?thesis unfolding u t leaf_fields_effect by simp
qed

text \<open>The hook after reading accepts the tag of bytes, and panics on any other.\<close>

lemma Leaf_unmarshal:
  assumes "fits_leaf z"
  shows "XTyp z = XTypBytes \<Longrightarrow>
      Leaf_UnmarshalMsg B y (eMap F (of_nat (length (leaf_fields F z))) @ concat (map fst (leaf_fields F z)) @ xs) = Inr (loaded_leaf y z, xs)"
    and "XTyp z \<noteq> XTypBytes \<Longrightarrow>
      \<exists>m. Leaf_UnmarshalMsg B y (eMap F (of_nat (length (leaf_fields F z))) @ concat (map fst (leaf_fields F z)) @ xs) =
        Inl (Panics (PanicMessage m))"
  unfolding Leaf_UnmarshalMsg_def Leaf_UnmarshalMsgWithCfg_def Leaf_parses [OF assms]
  by (auto simp: PostLoadHook_def same_fields_def loaded_leaf_def)

end

end
