(* ===== verification/Iterator.thy ===== *)
theory Iterator
  imports TreeFind
begin

text \<open>
  The iterator (\<open>iterator.go\<close>): a stack of checkpoints, the innermost first, each an inner node and
  the byte of the last child visited. The model is for a tree that does not change while it is
  iterated over: a checkpoint holds the node as it is. The loop of \<open>Next\<close> is a partial function;
  that it returns is proved below.
\<close>

section \<open>The operations\<close>

type_synonym checkpoint = "bnode inner \<times> byte option"

record iterator =
  it_tree :: Tree
  stack :: "checkpoint list"
  closed :: bool
  cursor :: key
  terminate :: key
  reverse :: bool
  allowDel :: bool
  it_key :: key
  it_value :: any
  it_leaf :: "leaf option"

definition tree_Iterator :: "Tree \<Rightarrow> key \<Rightarrow> key \<Rightarrow> iterator" where
  "tree_Iterator t start stop = \<lparr>it_tree = t, stack = [], closed = False, cursor = start, terminate = stop,
     reverse = False, allowDel = False, it_key = [], it_value = AnyNil, it_leaf = None\<rparr>"

definition tree_ReverseIterator :: "Tree \<Rightarrow> key \<Rightarrow> key \<Rightarrow> iterator" where
  "tree_ReverseIterator t start stop = \<lparr>it_tree = t, stack = [], closed = False, cursor = stop, terminate = start,
     reverse = True, allowDel = False, it_key = [], it_value = AnyNil, it_leaf = None\<rparr>"

definition it_AllowDeletes :: "iterator \<Rightarrow> iterator" where
  "it_AllowDeletes i = i\<lparr>allowDel := True\<rparr>"

definition it_Reverse :: "iterator \<Rightarrow> iterator" where
  "it_Reverse i = i\<lparr>cursor := terminate i, terminate := cursor i, reverse := True\<rparr>"

definition it_TheLeaf :: "iterator \<Rightarrow> leaf option" where
  "it_TheLeaf i = it_leaf i"

definition it_Value :: "iterator \<Rightarrow> any" where
  "it_Value i = it_value i"

definition it_Key :: "iterator \<Rightarrow> key" where
  "it_Key i = it_key i"

definition inRange :: "iterator \<Rightarrow> key \<Rightarrow> bool" where
  "inRange i key =
     (if \<not> reverse i then Compare key (cursor i) > 0 \<and> (length (terminate i) = 0 \<or> Compare key (terminate i) \<le> 0)
      else (Compare key (cursor i) < 0 \<or> length (cursor i) = 0) \<and>
           (length (terminate i) = 0 \<or> Compare key (terminate i) \<ge> 0))"

text \<open>The results: the iterator, whether the iteration ends here, and whether there is a leaf.\<close>

definition it_init :: "iterator \<Rightarrow> (iterator \<times> bool \<times> bool) res" where
  "it_init i = (case root (it_tree i) of
     None \<Rightarrow> Inr (i\<lparr>closed := True\<rparr>, True, False)
   | Some r \<Rightarrow>
       if isLeaf r then rbind (deref (bleaf r)) (\<lambda>l.
         let i1 = i\<lparr>closed := True\<rparr> in
         if inRange i1 (Key l) then Inr (i1\<lparr>it_key := Key l, it_value := Value l\<rparr>, True, True)
         else Inr (i1, True, False))
       else rbind (deref (binner r)) (\<lambda>n. Inr (i\<lparr>stack := [(n, None)]\<rparr>, False, False)))"

definition it_next :: "iterator \<Rightarrow> bnode inner \<Rightarrow> byte option \<Rightarrow> (byte \<times> bnode option) res" where
  "it_next i n curkey = (if \<not> reverse i then inode_next (Node n) curkey else inode_prev (Node n) curkey)"

text \<open>One step: the results are whether a leaf was reached, and whether to start again (never).\<close>

definition tryAdvance :: "iterator \<Rightarrow> (iterator \<times> bool \<times> bool) res" where
  "tryAdvance i = (case stack i of
     [] \<Rightarrow> Inl NilDereference
   | (n, cur) # prev \<Rightarrow> rbind (it_next i n cur) (\<lambda>(curkey, child). case child of
       None \<Rightarrow> Inr (i\<lparr>stack := prev\<rparr>, False, False)
     | Some c \<Rightarrow>
         let i1 = i\<lparr>stack := (n, Some curkey) # prev\<rparr> in
         if isLeaf c then rbind (deref (bleaf c)) (\<lambda>l.
           if inRange i1 (Key l) then
             Inr (i1\<lparr>it_key := Key l, it_value := Value l, cursor := Key l, it_leaf := Some l\<rparr>, True, False)
           else Inr (i1, False, False))
         else rbind (deref (binner c)) (\<lambda>m. Inr (i1\<lparr>stack := (m, None) # (n, Some curkey) # prev\<rparr>, False, False))))"

partial_function (option) iterate :: "iterator \<Rightarrow> (iterator \<times> bool) res option" where
  "iterate i =
     (if stack i = [] then Some (Inr (i\<lparr>closed := True\<rparr>, False))
      else case tryAdvance i of
        Inl e \<Rightarrow> Some (Inl e)
      | Inr (i1, found, restart) \<Rightarrow>
          if found then Some (Inr (i1, found))
          else if restart then
            (case stack i1 of
               [] \<Rightarrow> Some (Inl NilDereference)
             | _ # prev \<Rightarrow>
                 let i2 = i1\<lparr>stack := prev\<rparr> in
                 if prev = [] then
                   (case it_init i2 of
                      Inl e \<Rightarrow> Some (Inl e)
                    | Inr (i3, exit, next) \<Rightarrow> if exit then Some (Inr (i3, next)) else iterate i3)
                 else iterate i2)
          else iterate i1)"

definition it_Next :: "iterator \<Rightarrow> (iterator \<times> bool) res option" where
  "it_Next i =
     (if closed i then Some (Inr (i, False))
      else if stack i = [] then
        (case it_init i of
           Inl e \<Rightarrow> Some (Inl e)
         | Inr (i1, exit, next) \<Rightarrow> if exit then Some (Inr (i1, next)) else iterate i1)
      else iterate i)"

text \<open>\<open>Ascend\<close> calls the consumer, which has a state and says whether to go on.\<close>

type_synonym 's consumer = "'s \<Rightarrow> key \<Rightarrow> any \<Rightarrow> 's \<times> bool"

partial_function (option) ascend_loop :: "'s consumer \<Rightarrow> iterator \<Rightarrow> 's \<Rightarrow> 's res option" where
  "ascend_loop yield i s = (case it_Next i of
     None \<Rightarrow> None
   | Some (Inl e) \<Rightarrow> Some (Inl e)
   | Some (Inr (i1, ok)) \<Rightarrow>
       if ok then (case yield s (it_Key i1) (it_Value i1) of
         (s1, go) \<Rightarrow> if \<not> go then Some (Inr s1) else ascend_loop yield i1 s1)
       else Some (Inr s))"

definition Ascend :: "Tree \<Rightarrow> key \<Rightarrow> key \<Rightarrow> 's consumer \<Rightarrow> 's \<Rightarrow> 's res option" where
  "Ascend t beg endx yield s = ascend_loop yield (tree_Iterator t beg endx) s"

definition tree_DeepSize :: "Tree \<Rightarrow> int res option" where
  "tree_DeepSize t = Ascend t [] [] (\<lambda>sz k v. (sz + 1, True)) 0"

section \<open>What is left to visit\<close>

text \<open>The children of a node that are still to be visited, in the order of the visit.\<close>

definition todo_kids :: "bool \<Rightarrow> byte option \<Rightarrow> (byte \<Rightarrow> bnode option) \<Rightarrow> (byte \<times> bnode) list" where
  "todo_kids bwd cur f =
     (if bwd then rev (filter (\<lambda>(x, _). from_byte cur (>) x) (entries_of f))
      else filter (\<lambda>(x, _). from_byte cur (<) x) (entries_of f))"

definition visit :: "bool \<Rightarrow> bnode \<Rightarrow> leaf list" where
  "visit bwd b = (if bwd then rev (leaves b) else leaves b)"

definition todo :: "bool \<Rightarrow> checkpoint list \<Rightarrow> leaf list" where
  "todo bwd st = concat (map (\<lambda>(n, cur). concat (map (\<lambda>(k, c). visit bwd c) (todo_kids bwd cur (inode_kid (Node n))))) st)"

definition frame_ok :: "bool \<Rightarrow> checkpoint \<Rightarrow> bool" where
  "frame_ok bwd fr \<longleftrightarrow> (case fr of (n, cur) \<Rightarrow> inode_ok (Node n) \<and> fit (Node n) \<and>
     (\<forall>k c. inode_kid (Node n) k = Some c \<longrightarrow> (\<exists>p. wft p c)) \<and>
     (bwd \<longrightarrow> inode_Kind (Node n) \<noteq> Node256 \<and> kids_all no256 (inode_kid (Node n))))"

lemma filter_before:
  assumes "sorted_wrt (<) (map fst es)" and "rev (filter (\<lambda>(x, _). P x) es) = (b, c) # r"
    and "\<And>x y. P x \<Longrightarrow> (y :: byte) < x \<Longrightarrow> P y"
  shows "rev (filter (\<lambda>(x, _). x < b) es) = r"
  using assms(1,2)
proof (induction es arbitrary: r rule: rev_induct)
  case (snoc e es)
  obtain x d where e: "e = (x, d)" by force
  show ?case
  proof (cases "P x")
    case True
    then have b: "x = b" "r = rev (filter (\<lambda>(x, _). P x) es)" using snoc.prems(2) e by auto
    have "\<forall>(y, _) \<in> set es. y < x" using snoc.prems(1) e by (auto simp: sorted_wrt_append)
    then have "filter (\<lambda>(y, _). y < b) es = es" "filter (\<lambda>(y, _). P y) es = es"
      using b(1) assms(3) [OF True] by (auto simp: filter_id_conv)
    then show ?thesis using e b by simp
  next
    case False
    then have f: "rev (filter (\<lambda>(x, _). P x) es) = (b, c) # r" using snoc.prems(2) e by simp
    have "(b, c) \<in> set (rev (filter (\<lambda>(x, _). P x) es))" unfolding f by simp
    then have "P b" by auto
    then have "\<not> x < b" using assms(3) False by blast
    then show ?thesis using snoc.IH [OF _ f] snoc.prems(1) e by (simp add: sorted_wrt_append)
  qed
qed simp

lemma it_next_todo:
  assumes "frame_ok (reverse i) (n, cur)"
  shows "it_next i n cur = Inr (case todo_kids (reverse i) cur (inode_kid (Node n)) of [] \<Rightarrow> (0, None) | (b, c) # _ \<Rightarrow> (b, Some c))"
  using assms fit_pos [of "Node n"]
  by (auto simp: it_next_def todo_kids_def frame_ok_def nd.next_law first_kid_filter inode_prev_law last_kid_filter)

lemma todo_kids_step:
  assumes "todo_kids bwd cur f = (b, c) # r"
  shows "todo_kids bwd (Some b) f = r" and "f b = Some c"
proof -
  have "(b, c) \<in> set (todo_kids bwd cur f)" using assms by simp
  then show "f b = Some c" by (auto simp: todo_kids_def split: if_splits)
  show "todo_kids bwd (Some b) f = r"
  proof (cases bwd)
    case True
    then have "rev (filter (\<lambda>(x, _). from_byte cur (>) x) (entries_of f)) = (b, c) # r"
      using assms by (simp add: todo_kids_def)
    then have "rev (filter (\<lambda>(x, _). x < b) (entries_of f)) = r"
      by (rule filter_before [OF sorted_entries]) (cases cur; simp)
    then show ?thesis using True by (simp add: todo_kids_def)
  next
    case False
    then have "filter (\<lambda>(x, _). from_byte cur (<) x) (entries_of f) = (b, c) # r"
      using assms by (simp add: todo_kids_def)
    then have "filter (\<lambda>(x, _). b < x) (entries_of f) = r"
      by (rule filter_after [OF sorted_entries]) (cases cur; simp)
    then show ?thesis using False by (simp add: todo_kids_def)
  qed
qed

lemma visit_inner:
  assumes "\<not> isLeaf b" and "binner b = Some n"
  shows "todo bwd [(n, None)] = visit bwd b"
proof -
  have "concat (map (\<lambda>(k, c). rev (leaves c)) (rev es)) = rev (concat (map (\<lambda>(k, c). leaves c) es))" for es :: "(byte \<times> bnode) list"
    by (induction es) auto
  then show ?thesis using assms by (simp add: todo_def todo_kids_def visit_def leaves_inner)
qed

lemma todo_Cons: "todo bwd (fr # st) = todo bwd [fr] @ todo bwd st"
  by (simp add: todo_def)

section \<open>Termination\<close>

text \<open>The steps left: one for each leaf, two for each inner node.\<close>

function weight :: "bnode \<Rightarrow> nat" where
  "weight b = (if isLeaf b then 1 else case binner b of None \<Rightarrow> 0
     | Some n \<Rightarrow> 2 + sum_list (map (\<lambda>(k, c). weight c) (entries_of (inode_kid (Node n)))))"
  by pat_completeness auto
termination
  by (relation "measure size") (auto dest!: kid_slot size_kid_slot size_binner)

declare weight.simps [simp del]

definition frame_weight :: "bool \<Rightarrow> checkpoint \<Rightarrow> nat" where
  "frame_weight bwd fr = (case fr of (n, cur) \<Rightarrow> 1 + sum_list (map (\<lambda>(k, c). weight c) (todo_kids bwd cur (inode_kid (Node n)))))"

definition stack_weight :: "bool \<Rightarrow> checkpoint list \<Rightarrow> nat" where
  "stack_weight bwd st = sum_list (map (frame_weight bwd) st)"

lemma weight_inner: "\<not> isLeaf b \<Longrightarrow> binner b = Some n \<Longrightarrow> weight b = 1 + frame_weight bwd (n, None)"
  by (subst weight.simps) (simp add: frame_weight_def todo_kids_def rev_map flip: rev_map)

lemma weight_pos: "isLeaf b \<Longrightarrow> weight b = 1"
  by (subst weight.simps) simp

section \<open>One call of the loop\<close>

definition frames_ok :: "bool \<Rightarrow> checkpoint list \<Rightarrow> bool" where
  "frames_ok bwd st \<longleftrightarrow> (\<forall>fr \<in> set st. frame_ok bwd fr)"

lemma frame_ok_child:
  assumes "frame_ok bwd (n, cur)" and "inode_kid (Node n) k = Some c" and "\<not> isLeaf c"
  obtains m where "binner c = Some m" and "frame_ok bwd (m, None)"
proof -
  obtain p where w: "wft p c" using assms by (auto simp: frame_ok_def)
  then obtain m where m: "binner c = Some m" "inode_ok (Node m)" "fit (Node m)"
    "\<And>k d. inode_kid (Node m) k = Some d \<Longrightarrow> wft (p @ compressed m @ [k]) d"
    by (rule wft_innerE [OF _ assms(3)]) (rule that)
  have "no256 c" if bwd using assms(1,2) that by (auto simp: frame_ok_def kids_all_def)
  then have "frame_ok bwd (m, None)" using m assms(3) by (auto simp: frame_ok_def no256_iff)
  with m(1) show thesis by (rule that)
qed

definition iterate_post :: "iterator \<Rightarrow> iterator \<Rightarrow> bool \<Rightarrow> bool" where
  "iterate_post i i' ok \<longleftrightarrow> (case dropWhile (\<lambda>l. \<not> inRange i (Key l)) (todo (reverse i) (stack i)) of
     [] \<Rightarrow> \<not> ok \<and> closed i'
   | l # ls \<Rightarrow> ok \<and> stack i' \<noteq> [] \<and> frames_ok (reverse i) (stack i') \<and> todo (reverse i) (stack i') = ls \<and>
       i' = i\<lparr>stack := stack i', it_key := Key l, it_value := Value l, cursor := Key l, it_leaf := Some l\<rparr>)"

lemma inRange_stack [simp]: "inRange (i\<lparr>stack := st\<rparr>) k = inRange i k"
  by (simp add: inRange_def)

lemma iterate_go:
  assumes "stack i \<noteq> []" and "tryAdvance i = Inr (i1, False, False)" and "i1 = i\<lparr>stack := st\<rparr>"
    and "iterate i1 = Some (Inr (i', ok))" and "iterate_post i1 i' ok"
    and "dropWhile (\<lambda>l. \<not> inRange i (Key l)) (todo (reverse i) st) = dropWhile (\<lambda>l. \<not> inRange i (Key l)) (todo (reverse i) (stack i))"
  shows "\<exists>i' ok. iterate i = Some (Inr (i', ok)) \<and> iterate_post i i' ok"
proof -
  have "iterate i = Some (Inr (i', ok))" using assms(1,2,4) by (subst iterate.simps) simp
  moreover have "iterate_post i i' ok"
    using assms(5) unfolding assms(3) iterate_post_def 
    by (cases "dropWhile (\<lambda>l. \<not> inRange i (Key l)) (todo (reverse i) (stack i))") (simp_all add: assms(6) del: dropWhile_eq_Nil_conv)
  ultimately show ?thesis by blast
qed

lemma frame_todo: "todo bwd [(n, cur)] = concat (map (\<lambda>(k, c). visit bwd c) (todo_kids bwd cur (inode_kid (Node n))))"
  by (simp add: todo_def)

lemma iterate_correct:
  "stack i \<noteq> [] \<Longrightarrow> frames_ok (reverse i) (stack i) \<Longrightarrow>
   \<exists>i' ok. iterate i = Some (Inr (i', ok)) \<and> iterate_post i i' ok"
proof (induction "stack_weight (reverse i) (stack i)" arbitrary: i rule: less_induct)
  case less
  let ?b = "reverse i"
  obtain n cur st where st: "stack i = (n, cur) # st" using less.prems(1) by (cases "stack i") auto
  have fr: "frame_ok ?b (n, cur)" "frames_ok ?b st" using less.prems(2) st by (simp_all add: frames_ok_def)
  let ?f = "inode_kid (Node n)"
  show ?case
  proof (cases "todo_kids ?b cur ?f")
    case Nil
    let ?i = "i\<lparr>stack := st\<rparr>"
    have t: "tryAdvance i = Inr (?i, False, False)" using it_next_todo [OF fr(1)] Nil st by (simp add: tryAdvance_def)
    have td: "todo ?b (stack i) = todo ?b st" unfolding st todo_Cons [of _ _ st] frame_todo Nil by simp
    show ?thesis
    proof (cases "st = []")
      case True
      then have "iterate ?i = Some (Inr (?i\<lparr>closed := True\<rparr>, False))" by (subst iterate.simps) simp
      moreover have "iterate_post ?i (?i\<lparr>closed := True\<rparr>) False" using True by (simp add: iterate_post_def todo_def)
      ultimately show ?thesis using td by (intro iterate_go [OF less.prems(1) t refl]) simp_all
    next
      case False
      have "stack_weight ?b st < stack_weight ?b (stack i)" by (simp add: st stack_weight_def frame_weight_def)
      then obtain i' ok where "iterate ?i = Some (Inr (i', ok))" "iterate_post ?i i' ok"
        using less.hyps [of ?i] False fr(2) by auto
      then show ?thesis using td by (intro iterate_go [OF less.prems(1) t refl]) simp_all
    qed
  next
    case (Cons e r)
    obtain k c where e: "e = (k, c)" by force
    note step = todo_kids_step [OF Cons [unfolded e]]
    let ?st = "(n, Some k) # st"
    have fr': "frame_ok ?b (n, Some k)" using fr(1) by (simp add: frame_ok_def)
    have nx: "it_next i n cur = Inr (k, Some c)" using it_next_todo [OF fr(1)] Cons e by simp
    have td: "todo ?b (stack i) = visit ?b c @ todo ?b ?st"
      unfolding st todo_Cons [of _ _ st] frame_todo Cons e step(1) by simp
    have wt: "stack_weight ?b (stack i) = weight c + stack_weight ?b ?st"
      using Cons e step(1) by (simp add: st stack_weight_def frame_weight_def)
    obtain p where w: "wft p c" using fr(1) step(2) by (auto simp: frame_ok_def)
    show ?thesis
    proof (cases "isLeaf c")
      case True
      then obtain l where l: "bleaf c = Some l" using wft_leafD [OF w] by blast
      have v: "visit ?b c = [l]" using True l by (simp add: visit_def leaves_leaf)
      show ?thesis
      proof (cases "inRange i (Key l)")
        case in_range: True
        let ?i = "i\<lparr>stack := ?st, it_key := Key l, it_value := Value l, cursor := Key l, it_leaf := Some l\<rparr>"
        have "tryAdvance i = Inr (?i, True, False)" using nx True l in_range st by (simp add: tryAdvance_def)
        then have "iterate i = Some (Inr (?i, True))" using st by (subst iterate.simps) simp
        moreover have "iterate_post i ?i True" using in_range fr(2) fr' by (simp add: iterate_post_def td v frames_ok_def)
        ultimately show ?thesis by blast
      next
        case out: False
        let ?i = "i\<lparr>stack := ?st\<rparr>"
        have t: "tryAdvance i = Inr (?i, False, False)" using nx True l out st by (simp add: tryAdvance_def)
        have "stack_weight ?b ?st < stack_weight ?b (stack i)" using wt weight_pos [OF True] by simp
        then obtain i' ok where "iterate ?i = Some (Inr (i', ok))" "iterate_post ?i i' ok"
          using less.hyps [of ?i] fr(2) fr' by (auto simp: frames_ok_def)
        then show ?thesis using td v out by (intro iterate_go [OF less.prems(1) t refl]) simp_all
      qed
    next
      case False
      then obtain m where m: "binner c = Some m" "frame_ok ?b (m, None)" by (rule frame_ok_child [OF fr(1) step(2)])
      let ?i = "i\<lparr>stack := (m, None) # ?st\<rparr>"
      have t: "tryAdvance i = Inr (?i, False, False)" using nx False m st by (simp add: tryAdvance_def)
      have "stack_weight ?b ((m, None) # ?st) < stack_weight ?b (stack i)"
        using wt weight_inner [OF False m(1), of ?b] by (simp add: stack_weight_def)
      then obtain i' ok where "iterate ?i = Some (Inr (i', ok))" "iterate_post ?i i' ok"
        using less.hyps [of ?i] fr(2) fr' m(2) by (auto simp: frames_ok_def)
      moreover have "todo ?b ((m, None) # ?st) = todo ?b (stack i)"
        unfolding todo_Cons [of ?b "(m, None)" ?st] visit_inner [OF False m(1)] td ..
      ultimately show ?thesis by (intro iterate_go [OF less.prems(1) t refl]) simp_all
    qed
  qed
qed

section \<open>The whole iteration\<close>

definition todo_of :: "iterator \<Rightarrow> leaf list" where
  "todo_of i = (if closed i then []
     else if stack i = [] then (if reverse i then rev (tree_leaves (it_tree i)) else tree_leaves (it_tree i))
     else todo (reverse i) (stack i))"

definition it_inv :: "iterator \<Rightarrow> bool" where
  "it_inv i \<longleftrightarrow> tree_wf (it_tree i) \<and> (reverse i \<longrightarrow> tree_no256 (it_tree i)) \<and> frames_ok (reverse i) (stack i)"

definition it_sorted :: "iterator \<Rightarrow> bool" where
  "it_sorted i \<longleftrightarrow> sorted_wrt (\<lambda>x y. if reverse i then Key y < Key x else Key x < Key y) (todo_of i)"

definition next_post :: "iterator \<Rightarrow> iterator \<Rightarrow> bool \<Rightarrow> bool" where
  "next_post i i' ok \<longleftrightarrow> (case dropWhile (\<lambda>l. \<not> inRange i (Key l)) (todo_of i) of
     [] \<Rightarrow> \<not> ok \<and> closed i'
   | l # ls \<Rightarrow> ok \<and> it_inv i' \<and> todo_of i' = ls \<and> it_key i' = Key l \<and> it_value i' = Value l \<and>
       reverse i' = reverse i \<and> terminate i' = terminate i \<and> (cursor i' = Key l \<or> ls = []) \<and>
       it_tree i' = it_tree i \<and> (it_leaf i' = Some l \<or> (\<exists>r. root (it_tree i) = Some r \<and> isLeaf r)))"

lemma iterate_next:
  assumes "it_inv i" and "\<not> closed i" and "stack i \<noteq> []"
  shows "\<exists>i' ok. iterate i = Some (Inr (i', ok)) \<and> next_post i i' ok"
proof -
  obtain i' ok where r: "iterate i = Some (Inr (i', ok))" "iterate_post i i' ok"
    using iterate_correct [OF assms(3)] assms(1) unfolding it_inv_def by blast
  have t: "todo_of i = todo (reverse i) (stack i)" using assms by (simp add: todo_of_def)
  have "next_post i i' ok"
  proof (cases "dropWhile (\<lambda>l. \<not> inRange i (Key l)) (todo (reverse i) (stack i))")
    case Nil
    then show ?thesis using r(2) t by (simp add: next_post_def iterate_post_def del: dropWhile_eq_Nil_conv)
  next
    case (Cons l ls)
    then have f: "ok" "stack i' \<noteq> []" "frames_ok (reverse i) (stack i')" "todo (reverse i) (stack i') = ls"
      and i': "i' = i\<lparr>stack := stack i', it_key := Key l, it_value := Value l, cursor := Key l, it_leaf := Some l\<rparr>"
      using r(2) by (simp_all add: iterate_post_def)
    have sel: "reverse i' = reverse i" "terminate i' = terminate i" "cursor i' = Key l" "it_key i' = Key l"
      "it_value i' = Value l" "closed i' = closed i" "it_tree i' = it_tree i" "it_leaf i' = Some l" by (subst i', simp)+
    then show ?thesis using f Cons t assms by (simp add: next_post_def it_inv_def todo_of_def)
  qed
  with r(1) show ?thesis by blast
qed

lemma Next_correct:
  assumes inv: "it_inv i"
  shows "\<exists>i' ok. it_Next i = Some (Inr (i', ok)) \<and> next_post i i' ok"
proof (cases "closed i \<or> stack i \<noteq> []")
  case True
  then show ?thesis using iterate_next [OF inv] by (auto simp: it_Next_def next_post_def todo_of_def)
next
  case False
  then have c: "\<not> closed i" "stack i = []" by auto
  show ?thesis
  proof (cases "root (it_tree i)")
    case None
    then have "todo_of i = []" using c by (simp add: todo_of_def tree_leaves_def)
    then show ?thesis using c None by (simp add: it_Next_def it_init_def next_post_def ex_bool)
  next
    case (Some r)
    then have w: "wft [] r" and n: "reverse i \<longrightarrow> no256 r" using inv by (simp_all add: it_inv_def tree_wf_def tree_no256_def)
    have td: "todo_of i = visit (reverse i) r" using c Some by (simp add: todo_of_def tree_leaves_def visit_def)
    show ?thesis
    proof (cases "isLeaf r")
      case True
      then obtain l where l: "bleaf r = Some l" using wft_leafD [OF w] by blast
      have v: "todo_of i = [l]" using td True l by (simp add: visit_def leaves_leaf)
      have r: "inRange (i\<lparr>closed := True\<rparr>) (Key l) = inRange i (Key l)" by (simp add: inRange_def)
      show ?thesis
        using c Some True l v r inv
        by (simp add: it_Next_def it_init_def Let_def next_post_def it_inv_def todo_of_def ex_bool)
    next
      case False
      obtain m where m: "binner r = Some m" "inode_ok (Node m)" "fit (Node m)"
        "\<And>k d. inode_kid (Node m) k = Some d \<Longrightarrow> wft ([] @ compressed m @ [k]) d"
        by (rule wft_innerE [OF w False]) (rule that)
      let ?i = "i\<lparr>stack := [(m, None)]\<rparr>"
      have "frame_ok (reverse i) (m, None)" using m n False by (auto simp: frame_ok_def no256_iff)
      then have "it_inv ?i" using inv by (simp add: it_inv_def frames_ok_def)
      then obtain i' ok where i': "iterate ?i = Some (Inr (i', ok))" "next_post ?i i' ok"
        using iterate_next [of ?i] c by auto
      have "todo_of ?i = todo_of i" using td visit_inner [OF False m(1)] c by (simp add: todo_of_def)
      then have "next_post i i' ok" using i'(2)
        by (cases "dropWhile (\<lambda>l. \<not> inRange i (Key l)) (todo_of i)") (simp_all add: next_post_def del: dropWhile_eq_Nil_conv)
      moreover have "it_Next i = iterate ?i" using c Some False m(1) by (simp add: it_Next_def it_init_def)
      ultimately show ?thesis using i'(1) by auto
    qed
  qed
qed

text \<open>The consumer is fed the leaves in range, until it stops.\<close>

fun feed :: "'s consumer \<Rightarrow> leaf list \<Rightarrow> 's \<Rightarrow> 's" where
  "feed yield [] s = s"
| "feed yield (l # ls) s = (case yield s (Key l) (Value l) of (s1, go) \<Rightarrow> if \<not> go then s1 else feed yield ls s1)"

lemma Compare_signs: "Compare a b > 0 \<longleftrightarrow> b < a" "Compare a b < 0 \<longleftrightarrow> a < b" "Compare a b \<le> 0 \<longleftrightarrow> a \<le> b" "Compare a b \<ge> 0 \<longleftrightarrow> b \<le> a"
  by (auto simp: Compare_cases)

lemma inRange_iff: "inRange i k \<longleftrightarrow>
   (if reverse i then (k < cursor i \<or> cursor i = []) \<and> (terminate i = [] \<or> terminate i \<le> k)
    else cursor i < k \<and> (terminate i = [] \<or> k \<le> terminate i))"
  by (simp add: inRange_def Compare_signs)

lemma dropWhile_parts:
  assumes "dropWhile (\<lambda>x. \<not> P x) xs = y # ys"
  shows "P y" and "filter P xs = y # filter P ys" and "\<exists>zs. xs = zs @ y # ys"
proof -
  show p: "P y" using assms by (metis dropWhile_eq_Cons_conv)
  show "filter P xs = y # filter P ys" using assms p by (induction xs) (auto split: if_splits)
  show "\<exists>zs. xs = zs @ y # ys" using assms by (metis takeWhile_dropWhile_id)
qed

lemma range_after:
  assumes "it_sorted i" and "dropWhile (\<lambda>l. \<not> inRange i (Key l)) (todo_of i) = l # ls"
    and "reverse i' = reverse i" and "terminate i' = terminate i" and "cursor i' = Key l \<or> ls = []" and "todo_of i' = ls"
  shows "filter (\<lambda>l. inRange i' (Key l)) ls = filter (\<lambda>l. inRange i (Key l)) ls" and "it_sorted i'"
proof -
  note d = dropWhile_parts [OF assms(2)]
  obtain zs where z: "todo_of i = zs @ l # ls" using d(3) by blast
  have s: "sorted_wrt (\<lambda>x y. if reverse i then Key y < Key x else Key x < Key y) (l # ls)"
    using assms(1) unfolding it_sorted_def z sorted_wrt_append by blast
  then show "it_sorted i'" by (simp add: it_sorted_def assms(3,6))
  have "inRange i' (Key x) = inRange i (Key x)" if "x \<in> set ls" for x
  proof -
    have c: "cursor i' = Key l" using assms(5) that by auto
    have x: "if reverse i then Key x < Key l else Key l < Key x" using s that by simp
    show ?thesis using d(1) x unfolding inRange_iff assms(3,4) c by (auto split: if_splits)
  qed
  then show "filter (\<lambda>l. inRange i' (Key l)) ls = filter (\<lambda>l. inRange i (Key l)) ls" by (intro filter_cong) simp_all
qed

lemma ascend_loop_correct:
  "it_inv i \<Longrightarrow> it_sorted i \<Longrightarrow>
   ascend_loop yield i s = Some (Inr (feed yield (filter (\<lambda>l. inRange i (Key l)) (todo_of i)) s))"
proof (induction "length (todo_of i)" arbitrary: i s rule: less_induct)
  case less
  obtain i' ok where n: "it_Next i = Some (Inr (i', ok))" "next_post i i' ok" using Next_correct [OF less.prems(1)] by blast
  show ?case
  proof (cases "dropWhile (\<lambda>l. \<not> inRange i (Key l)) (todo_of i)")
    case Nil
    then have "filter (\<lambda>l. inRange i (Key l)) (todo_of i) = []" by (auto simp: filter_empty_conv)
    moreover have "\<not> ok" using n(2) Nil by (simp add: next_post_def del: dropWhile_eq_Nil_conv)
    ultimately show ?thesis using n(1) by (subst ascend_loop.simps) simp
  next
    case (Cons l ls)
    then have p: "ok" "it_inv i'" "todo_of i' = ls" "it_key i' = Key l" "it_value i' = Value l" "reverse i' = reverse i"
      "terminate i' = terminate i" "cursor i' = Key l \<or> ls = []" using n(2) by (auto simp: next_post_def)
    note d = dropWhile_parts [OF Cons]
    note a = range_after [OF less.prems(2) Cons p(6-8) p(3)]
    have "length ls < length (todo_of i)" using d(3) by auto
    then have ih: "ascend_loop yield i' s1 = Some (Inr (feed yield (filter (\<lambda>l. inRange i (Key l)) ls) s1))" for s1
      using less.hyps [of i' s1] p(2,3) a by simp
    show ?thesis using n(1) p(1,4,5) d(2) ih
      by (subst ascend_loop.simps) (simp add: it_Key_def it_Value_def split: prod.split)
  qed
qed

lemma it_start:
  assumes "tree_wf t"
  shows "it_inv (tree_Iterator t a b)" "it_sorted (tree_Iterator t a b)" "todo_of (tree_Iterator t a b) = tree_leaves t"
    and "tree_no256 t \<Longrightarrow> it_inv (tree_ReverseIterator t a b)" "it_sorted (tree_ReverseIterator t a b)"
    "todo_of (tree_ReverseIterator t a b) = rev (tree_leaves t)"
  using assms tree_sorted [OF assms]
  by (simp_all add: tree_Iterator_def tree_ReverseIterator_def it_inv_def frames_ok_def it_sorted_def todo_of_def
    sorted_wrt_map sorted_wrt_rev)

lemma Ascend_correct:
  assumes "tree_wf t"
  shows "Ascend t beg endx yield s = Some (Inr (feed yield
    (filter (\<lambda>l. beg < Key l \<and> (endx = [] \<or> Key l \<le> endx)) (tree_leaves t)) s))"
proof -
  have "inRange (tree_Iterator t beg endx) k \<longleftrightarrow> beg < k \<and> (endx = [] \<or> k \<le> endx)" for k
    by (simp add: inRange_iff tree_Iterator_def)
  then show ?thesis
    by (simp add: Ascend_def ascend_loop_correct [OF it_start(1,2) [OF assms]] it_start(3) [OF assms])
qed

lemma Descend_correct:
  assumes "tree_wf t" and "tree_no256 t"
  shows "ascend_loop yield (tree_ReverseIterator t start stop) s = Some (Inr (feed yield
    (rev (filter (\<lambda>l. start \<le> Key l \<and> (stop = [] \<or> Key l < stop)) (tree_leaves t))) s))"
proof -
  have "inRange (tree_ReverseIterator t start stop) k \<longleftrightarrow> start \<le> k \<and> (stop = [] \<or> k < stop)" for k
    by (auto simp: inRange_iff tree_ReverseIterator_def)
  then show ?thesis
    by (simp add: ascend_loop_correct [OF it_start(4) [OF assms] it_start(5) [OF assms(1)]] it_start(6) [OF assms(1)]
      rev_filter)
qed

text \<open>
  Callers that ask for the leaf itself: in a tree of two leaves or more, the calls of \<open>Next\<close> go through the
  leaves in range, and \<open>TheLeaf\<close> is each of them.
\<close>

inductive enumerates :: "iterator \<Rightarrow> leaf list \<Rightarrow> bool" where
  enum_end: "it_Next i = Some (Inr (i', False)) \<Longrightarrow> enumerates i []"
| enum_leaf: "it_Next i = Some (Inr (i', True)) \<Longrightarrow> it_TheLeaf i' = Some l \<Longrightarrow> enumerates i' ls \<Longrightarrow> enumerates i (l # ls)"

lemma Next_enumerates:
  "it_inv i \<Longrightarrow> it_sorted i \<Longrightarrow> \<forall>r. root (it_tree i) = Some r \<longrightarrow> \<not> isLeaf r \<Longrightarrow>
   enumerates i (filter (\<lambda>l. inRange i (Key l)) (todo_of i))"
proof (induction "length (todo_of i)" arbitrary: i rule: less_induct)
  case less
  obtain i' ok where n: "it_Next i = Some (Inr (i', ok))" "next_post i i' ok" using Next_correct [OF less.prems(1)] by blast
  show ?case
  proof (cases "dropWhile (\<lambda>l. \<not> inRange i (Key l)) (todo_of i)")
    case Nil
    then have "filter (\<lambda>l. inRange i (Key l)) (todo_of i) = []" by (auto simp: filter_empty_conv)
    moreover have "\<not> ok" using n(2) Nil by (simp add: next_post_def del: dropWhile_eq_Nil_conv)
    ultimately show ?thesis using n(1) enum_end by simp
  next
    case (Cons l ls)
    then have p: "ok" "it_inv i'" "todo_of i' = ls" "reverse i' = reverse i" "terminate i' = terminate i"
      "cursor i' = Key l \<or> ls = []" "it_tree i' = it_tree i" "it_leaf i' = Some l"
      using n(2) less.prems(3) by (auto simp: next_post_def)
    note d = dropWhile_parts [OF Cons]
    note a = range_after [OF less.prems(2) Cons p(4-6) p(3)]
    have "length ls < length (todo_of i)" using d(3) by auto
    then have "enumerates i' (filter (\<lambda>l. inRange i (Key l)) ls)"
      using less.hyps [of i'] p(2,3,7) less.prems(3) a by simp
    then show ?thesis using n(1) p(1,8) d(2) enum_leaf [of i i' l] by (simp add: it_TheLeaf_def)
  qed
qed

lemma tree_enumerates:
  assumes "tree_wf t" and "\<forall>r. root t = Some r \<longrightarrow> \<not> isLeaf r"
  shows "enumerates (tree_Iterator t beg endx) (filter (\<lambda>l. beg < Key l \<and> (endx = [] \<or> Key l \<le> endx)) (tree_leaves t))"
proof -
  have "inRange (tree_Iterator t beg endx) k \<longleftrightarrow> beg < k \<and> (endx = [] \<or> k \<le> endx)" for k
    by (simp add: inRange_iff tree_Iterator_def)
  then show ?thesis
    using Next_enumerates [OF it_start(1,2) [OF assms(1)], of beg endx] assms(2)
    by (simp add: it_start(3) [OF assms(1)]) (simp add: tree_Iterator_def)
qed

lemma feed_count: "feed (\<lambda>sz k v. (sz + 1, True)) ls (n :: int) = n + int (length ls)"
  by (induction ls arbitrary: n) auto

lemma Nil_less: "[] < (k :: key) \<longleftrightarrow> k \<noteq> []"
  by (cases k) simp_all

lemma DeepSize_correct:
  "tree_wf t \<Longrightarrow> tree_DeepSize t = Some (Inr (int (length (filter (\<lambda>l. Key l \<noteq> []) (tree_leaves t)))))"
  by (simp add: tree_DeepSize_def Ascend_correct feed_count Nil_less)

lemma DeepSize_Size:
  assumes "tree_wf t" and "sized t"
  shows "tree_DeepSize t = Some (Inr (tree_Size t - (if [] \<in> tree_keys t then 1 else 0)))"
proof -
  let ?ks = "map Key (tree_leaves t)"
  have one: "length (filter (\<lambda>k. k = x) ks) = (if x \<in> set ks then 1 else 0)" if "distinct ks" for x :: key and ks
    using that by (induction ks) auto
  have "length (filter (\<lambda>k. k = []) ?ks) = (if [] \<in> set ?ks then 1 else 0)" by (rule one [OF tree_distinct [OF assms(1)]])
  moreover have "length (filter (\<lambda>k. k = []) ?ks) + length (filter (\<lambda>k. k \<noteq> []) ?ks) = length ?ks"
    by (rule sum_length_filter_compl)
  moreover have "length (filter (\<lambda>k. k \<noteq> []) ?ks) = length (filter (\<lambda>l. Key l \<noteq> []) (tree_leaves t))"
    by (simp add: filter_map comp_def)
  ultimately show ?thesis using assms(2)
    by (simp add: DeepSize_correct [OF assms(1)] sized_def tree_Size_def tree_keys_def split: if_splits)
qed

lemma feed_collect: "feed (\<lambda>acc k v. (acc @ [(k, v)], True)) ls acc = acc @ map (\<lambda>l. (Key l, Value l)) ls"
  by (induction ls arbitrary: acc) auto

end
