(* ===== verification/TreeCodec.thy ===== *)
theory TreeCodec
  imports WireBytes Iterator
begin

text \<open>
  The hooks of \<open>Tree\<close> around saving (\<open>saver.go\<close>) and the generated serializers of \<open>ByteSliceValue\<close>,
  \<open>SearchModifier\<close> and \<open>Tree\<close> (\<open>tree_gen.go\<close>). The constant \<open>leafByLeaf\<close>, which users are told to change, is an
  argument: with it a tree is serialized without its leaves, which the saver then writes one by one;
  without it the leaves go through the field \<open>Leafz\<close>. New objects get their addresses from a counter.
  A slice is modelled without spare capacity.
\<close>

section \<open>The hooks\<close>

text \<open>The loop of \<open>PreSaveHook\<close> calls the iterator, a partial function.\<close>

partial_function (option) leafz_loop :: "iterator \<Rightarrow> int \<Rightarrow> leaf option list \<Rightarrow> (int \<times> leaf option list) res option" where
  "leafz_loop it i leafz = (case it_Next it of
     None \<Rightarrow> None
   | Some (Inl e) \<Rightarrow> Some (Inl e)
   | Some (Inr (it1, ok)) \<Rightarrow>
       if ok then
         if 0 \<le> i \<and> i < int (length leafz) then leafz_loop it1 (i + 1) (leafz[nat i := it_TheLeaf it1])
         else Some (Inl IndexOutOfRange)
       else Some (Inr (i, leafz)))"

definition tree_PreSaveHook :: "bool \<Rightarrow> Tree \<Rightarrow> Tree res option" where
  "tree_PreSaveHook byLeaf t =
     (if byLeaf then Some (Inr (t\<lparr>Leafz := []\<rparr>))
      else if int (length (Leafz t)) \<noteq> tree_size t \<and> tree_size t < 0 then
        Some (Inl (PanicMessage ''runtime error: makeslice: len out of range''))
      else
        let t1 = (if int (length (Leafz t)) \<noteq> tree_size t then t\<lparr>Leafz := replicate (nat (tree_size t)) None\<rparr> else t)
        in (case leafz_loop (tree_Iterator t1 [] []) 0 (Leafz t1) of
              None \<Rightarrow> None
            | Some (Inl e) \<Rightarrow> Some (Inl e)
            | Some (Inr (i, leafz)) \<Rightarrow>
                if i \<noteq> tree_size t then Some (Inl (PanicMessage ''why not whole set of leaf?''))
                else Some (Inr (t1\<lparr>Leafz := leafz\<rparr>))))"

fun insert_leafz :: "Tree \<Rightarrow> leaf option list \<Rightarrow> Tree res" where
  "insert_leafz t [] = Inr t"
| "insert_leafz t (lf # lfs) = (case lf of
     None \<Rightarrow> Inl (PanicMessage ''why nil leaf?'')
   | Some l \<Rightarrow> rbind (tree_InsertLeaf t l) (\<lambda>(t1, updated). insert_leafz t1 lfs))"

definition tree_PostLoadHook :: "bool \<Rightarrow> Tree \<Rightarrow> Tree res" where
  "tree_PostLoadHook byLeaf t =
     (if byLeaf then Inr t else rbind (insert_leafz t (Leafz t)) (\<lambda>t1. Inr (t1\<lparr>Leafz := []\<rparr>)))"

section \<open>\<open>ByteSliceValue\<close> and \<open>SearchModifier\<close>\<close>

definition ByteSliceValue_DecodeMsg :: "'r msg_reader \<Rightarrow> byte list \<Rightarrow> 'r \<Rightarrow> (byte list \<times> 'r) io" where
  "ByteSliceValue_DecodeMsg dc z r = rbind (top_nil dc r) (\<lambda>(sawTopNil, r1).
     rbind (ReadBytes dc z r1) (\<lambda>(z1, r2). Inr (z1, pop_nil dc sawTopNil r2)))"

definition ByteSliceValue_EncodeMsg :: "'w msg_writer \<Rightarrow> byte list \<Rightarrow> 'w \<Rightarrow> 'w io" where
  "ByteSliceValue_EncodeMsg en z w = WriteBytes en z w"

definition ByteSliceValue_Msgsize :: "'n msg_bytes \<Rightarrow> byte list \<Rightarrow> int" where
  "ByteSliceValue_Msgsize B z = BytesPrefixSize B + int (length z)"

definition ByteSliceValue_MarshalMsg :: "'n msg_bytes \<Rightarrow> byte list \<Rightarrow> byte list \<Rightarrow> byte list io" where
  "ByteSliceValue_MarshalMsg B z b = (let o0 = Require B b (ByteSliceValue_Msgsize B z) in Inr (AppendBytes B o0 z))"

definition ByteSliceValue_UnmarshalMsgWithCfg :: "'n msg_bytes \<Rightarrow> byte list \<Rightarrow> byte list \<Rightarrow> (byte list \<times> byte list) io" where
  "ByteSliceValue_UnmarshalMsgWithCfg B z bts = (case top_nil_bytes B bts of (sawTopNil, s) \<Rightarrow>
     rbind (bytes_or_nil B z s) (\<lambda>(z1, s1). Inr (z1, fst (pop_nil_bytes B sawTopNil s1))))"

definition ByteSliceValue_UnmarshalMsg :: "'n msg_bytes \<Rightarrow> byte list \<Rightarrow> byte list \<Rightarrow> (byte list \<times> byte list) io" where
  "ByteSliceValue_UnmarshalMsg B z bts = ByteSliceValue_UnmarshalMsgWithCfg B z bts"

text \<open>A \<open>SearchModifier\<close> is an \<open>int\<close>; a value read from a stream may be any.\<close>

definition modifier_int :: "SearchModifier \<Rightarrow> int" where
  "modifier_int m = (case m of Exact \<Rightarrow> 0 | GTE \<Rightarrow> 1 | LTE \<Rightarrow> 2 | GT \<Rightarrow> 3 | LT \<Rightarrow> 4)"

definition SearchModifier_DecodeMsg :: "'r msg_reader \<Rightarrow> int \<Rightarrow> 'r \<Rightarrow> (int \<times> 'r) io" where
  "SearchModifier_DecodeMsg dc z r = rbind (top_nil dc r) (\<lambda>(sawTopNil, r1).
     rbind (ReadInt dc r1) (\<lambda>(z1, r2). Inr (z1, pop_nil dc sawTopNil r2)))"

definition SearchModifier_EncodeMsg :: "'w msg_writer \<Rightarrow> int \<Rightarrow> 'w \<Rightarrow> 'w io" where
  "SearchModifier_EncodeMsg en z w = WriteInt en z w"

definition SearchModifier_Msgsize :: "'n msg_bytes \<Rightarrow> int \<Rightarrow> int" where
  "SearchModifier_Msgsize B z = IntSize B"

definition SearchModifier_MarshalMsg :: "'n msg_bytes \<Rightarrow> int \<Rightarrow> byte list \<Rightarrow> byte list io" where
  "SearchModifier_MarshalMsg B z b = (let o0 = Require B b (SearchModifier_Msgsize B z) in Inr (AppendInt B o0 z))"

definition SearchModifier_UnmarshalMsgWithCfg :: "'n msg_bytes \<Rightarrow> int \<Rightarrow> byte list \<Rightarrow> (int \<times> byte list) io" where
  "SearchModifier_UnmarshalMsgWithCfg B z bts = (case top_nil_bytes B bts of (sawTopNil, bts1, nbs) \<Rightarrow>
     rbind (ReadIntBytes B nbs bts1) (\<lambda>(z1, bts2). Inr (z1, fst (pop_nil_bytes B sawTopNil (bts2, nbs)))))"

definition SearchModifier_UnmarshalMsg :: "'n msg_bytes \<Rightarrow> int \<Rightarrow> byte list \<Rightarrow> (int \<times> byte list) io" where
  "SearchModifier_UnmarshalMsg B z bts = SearchModifier_UnmarshalMsgWithCfg B z bts"

section \<open>Trees on a stream\<close>

definition name_Leafz :: "byte list" where
  "name_Leafz = go_string ''Leafz_zid00_slc''"

definition Tree_FieldOrder :: "byte list list" where
  "Tree_FieldOrder = [name_Leafz, [], []]"

definition Tree_FieldSkip :: "bool list" where
  "Tree_FieldSkip = [False, True, True]"

text \<open>\<open>new(Leaf)\<close>, at the address that the counter gives.\<close>

definition new_leaf :: "nat \<Rightarrow> leaf" where
  "new_leaf a = \<lparr>lf_addr = a, Key = [], Value = AnyNil, XTyp = 0, Xdata = [], Keybyte = 0\<rparr>"

definition resize_leafz :: "leaf option list \<Rightarrow> nat \<Rightarrow> leaf option list" where
  "resize_leafz old n = (if length old \<ge> n then take n old else replicate n None)"

fun decode_leafz :: "'r msg_reader \<Rightarrow> nat \<Rightarrow> leaf option list \<Rightarrow> 'r \<Rightarrow> ((leaf option list \<times> nat) \<times> 'r) io" where
  "decode_leafz dc a [] r = Inr (([], a), r)"
| "decode_leafz dc a (old # olds) r =
     (let (n, r1) = IsNil dc r in
      rbind
        (if n then rbind (ReadNil dc r1) (\<lambda>r2. case old of
             None \<Rightarrow> Inr ((None, a), r2)
           | Some l \<Rightarrow> rbind (Leaf_DecodeMsg dc l (PushAlwaysNil dc r2)) (\<lambda>(l1, r3). Inr ((Some l1, a), PopAlwaysNil dc r3)))
         else
           let (l, a1) = (case old of None \<Rightarrow> (new_leaf a, Suc a) | Some l \<Rightarrow> (l, a))
           in rbind (Leaf_DecodeMsg dc l (DedupIndexEachPtr dc r1)) (\<lambda>(l1, r2). Inr ((Some l1, a1), r2)))
        (\<lambda>((x, a1), r2). rbind (decode_leafz dc a1 olds r2) (\<lambda>((xs, a2), r3). Inr ((x # xs, a2), r3))))"

definition Tree_switch :: "'r msg_reader \<Rightarrow> (Tree \<times> nat, 'r) field_switch" where
  "Tree_switch dc field zf r = (case zf of ((z, a), found) \<Rightarrow>
     if field = name_Leafz then
       rbind (ReadArrayHeader dc r) (\<lambda>(n, r1).
       rbind (decode_leafz dc a (resize_leafz (Leafz z) (unat n)) r1) (\<lambda>((v, a1), r2).
         Inr (((z\<lparr>Leafz := v\<rparr>, a1), found[0 := True]), r2)))
     else rbind (Skip dc r) (\<lambda>r1. Inr (((z, a), found), r1)))"

definition Tree_DecodeMsg :: "bool \<Rightarrow> 'r msg_reader \<Rightarrow> Tree \<times> nat \<Rightarrow> 'r \<Rightarrow> ((Tree \<times> nat) \<times> 'r) io" where
  "Tree_DecodeMsg byLeaf dc za r = rbind (decode_struct dc Tree_FieldOrder Tree_FieldSkip (Tree_switch dc) za r) (\<lambda>((z1, a1), r1).
     rbind (lift_io (tree_PostLoadHook byLeaf z1)) (\<lambda>z2. Inr ((z2, a1), r1)))"

definition Tree_fieldsNotEmpty :: "Tree \<Rightarrow> bool list \<Rightarrow> bool list \<times> 32 word" where
  "Tree_fieldsNotEmpty z isempty =
     (if length isempty = 0 then (isempty, 1)
      else let isempty0 = isempty[0 := length (Leafz z) = 0] in (isempty0, if isempty0 ! 0 then 1 - 1 else 1))"

fun encode_leafz :: "'w msg_writer \<Rightarrow> leaf option list \<Rightarrow> 'w \<Rightarrow> 'w io" where
  "encode_leafz en [] w = Inr w"
| "encode_leafz en (lf # lfs) w =
     rbind (case lf of None \<Rightarrow> WriteNil en w | Some l \<Rightarrow> Leaf_EncodeMsg en l w) (encode_leafz en lfs)"

text \<open>What \<open>EncodeMsg\<close> writes after its hook.\<close>

definition Tree_encode :: "'w msg_writer \<Rightarrow> Tree \<Rightarrow> 'w \<Rightarrow> 'w io" where
  "Tree_encode en z w = (case Tree_fieldsNotEmpty z (replicate 3 False) of (isempty, fieldsInUse) \<Rightarrow>
     rbind (WriteMapHeader en (fieldsInUse + 1) w) (\<lambda>w1.
     rbind (Append en [0xa1, 0x40] w1) (\<lambda>w2.
     rbind (WriteStringFromBytes en [0x54, 0x72, 0x65, 0x65] w2) (\<lambda>w3.
     write_field en (isempty ! 0) [0xaf, 0x4c, 0x65, 0x61, 0x66, 0x7a, 0x5f, 0x7a, 0x69, 0x64, 0x30, 0x30, 0x5f, 0x73, 0x6c, 0x63]
       (\<lambda>w. rbind (WriteArrayHeader en (of_nat (length (Leafz z))) w) (encode_leafz en (Leafz z))) w3))))"

definition Tree_EncodeMsg :: "bool \<Rightarrow> 'w msg_writer \<Rightarrow> Tree \<Rightarrow> 'w \<Rightarrow> 'w io option" where
  "Tree_EncodeMsg byLeaf en t w = map_option (\<lambda>m. rbind (lift_io m) (\<lambda>z. Tree_encode en z w)) (tree_PreSaveHook byLeaf t)"

section \<open>Trees on byte slices\<close>

fun leafz_size :: "'n msg_bytes \<Rightarrow> leaf option list \<Rightarrow> int" where
  "leafz_size B [] = 0"
| "leafz_size B (lf # lfs) = (case lf of None \<Rightarrow> NilSize B | Some l \<Rightarrow> Leaf_Msgsize B l) + leafz_size B lfs"

definition Tree_Msgsize :: "'n msg_bytes \<Rightarrow> Tree \<Rightarrow> int" where
  "Tree_Msgsize B z = 1 + 16 + ArrayHeaderSize B + leafz_size B (Leafz z)"

fun marshal_leafz :: "'n msg_bytes \<Rightarrow> leaf option list \<Rightarrow> byte list \<Rightarrow> byte list io" where
  "marshal_leafz B [] b = Inr b"
| "marshal_leafz B (lf # lfs) b =
     rbind (case lf of None \<Rightarrow> Inr (AppendNil B b) | Some l \<Rightarrow> Leaf_MarshalMsg B l b) (marshal_leafz B lfs)"

definition Tree_marshal :: "'n msg_bytes \<Rightarrow> Tree \<Rightarrow> byte list \<Rightarrow> byte list io" where
  "Tree_marshal B z b =
     (let o0 = Require B b (Tree_Msgsize B z) in
      case Tree_fieldsNotEmpty z (replicate 3 False) of (isempty, fieldsInUse) \<Rightarrow>
      let o1 = AppendMapHeader B o0 fieldsInUse
      in if \<not> isempty ! 0 then
           let o2 = o1 @ [0xaf, 0x4c, 0x65, 0x61, 0x66, 0x7a, 0x5f, 0x7a, 0x69, 0x64, 0x30, 0x30, 0x5f, 0x73, 0x6c, 0x63];
               o3 = AppendArrayHeader B o2 (of_nat (length (Leafz z)))
           in marshal_leafz B (Leafz z) o3
         else Inr o1)"

definition Tree_MarshalMsg :: "bool \<Rightarrow> 'n msg_bytes \<Rightarrow> Tree \<Rightarrow> byte list \<Rightarrow> byte list io option" where
  "Tree_MarshalMsg byLeaf B t b = map_option (\<lambda>m. rbind (lift_io m) (\<lambda>z. Tree_marshal B z b)) (tree_PreSaveHook byLeaf t)"

text \<open>
  The elements of \<open>Leafz\<close>; the errors of decoding a nil into an old leaf are dropped, as in the code,
  but not a panic of its hook.
\<close>

definition unmarshal_nil :: "'n msg_bytes \<Rightarrow> leaf option \<Rightarrow> leaf option io" where
  "unmarshal_nil B old = (case old of
     None \<Rightarrow> Inr None
   | Some l \<Rightarrow> (case Leaf_UnmarshalMsg B l (OnlyNilSlice B) of
       Inl (Panics p) \<Rightarrow> Inl (Panics p) | Inl (Fails e) \<Rightarrow> Inr (Some l) | Inr (l1, rest) \<Rightarrow> Inr (Some l1)))"

fun unmarshal_leafz :: "'n msg_bytes \<Rightarrow> nat \<Rightarrow> leaf option list \<Rightarrow> byte list \<times> 'n
    \<Rightarrow> ((leaf option list \<times> nat) \<times> byte list \<times> 'n) io" where
  "unmarshal_leafz B a [] s = Inr (([], a), s)"
| "unmarshal_leafz B a (old # olds) s = (case s of (bts, nbs) \<Rightarrow>
     rbind
       (if AlwaysNil B nbs then rbind (unmarshal_nil B old) (\<lambda>x. Inr ((x, a), bts))
        else if IsNilBytes B bts then rbind (unmarshal_nil B old) (\<lambda>x. Inr ((x, a), drop 1 bts))
        else let (l, a1) = (case old of None \<Rightarrow> (new_leaf a, Suc a) | Some l \<Rightarrow> (l, a))
          in rbind (Leaf_UnmarshalMsg B l bts) (\<lambda>(l1, bts1). Inr ((Some l1, a1), bts1)))
       (\<lambda>((x, a1), bts1). rbind (unmarshal_leafz B a1 olds (bts1, nbs)) (\<lambda>((xs, a2), s2). Inr ((x # xs, a2), s2))))"

definition Tree_switch_bytes :: "'n msg_bytes \<Rightarrow> (Tree \<times> nat, byte list \<times> 'n) field_switch" where
  "Tree_switch_bytes B field zf s = (case zf of ((z, a), found) \<Rightarrow> case s of (bts, nbs) \<Rightarrow>
     if field = name_Leafz then
       if AlwaysNil B nbs then Inr (((z\<lparr>Leafz := []\<rparr>, a), found[0 := True]), s)
       else
         rbind (ReadArrayHeaderBytes B nbs bts) (\<lambda>(n, bts1).
         rbind (unmarshal_leafz B a (resize_leafz (Leafz z) (unat n)) (bts1, nbs)) (\<lambda>((v, a1), s1).
           Inr (((z\<lparr>Leafz := v\<rparr>, a1), found[0 := True]), s1)))
     else rbind (SkipBytes B bts) (\<lambda>bts1. Inr (((z, a), found), bts1, nbs)))"

definition Tree_UnmarshalMsgWithCfg :: "bool \<Rightarrow> 'n msg_bytes \<Rightarrow> Tree \<times> nat \<Rightarrow> byte list \<Rightarrow> ((Tree \<times> nat) \<times> byte list) io" where
  "Tree_UnmarshalMsgWithCfg byLeaf B za bts =
     rbind (unmarshal_struct B Tree_FieldOrder Tree_FieldSkip (Tree_switch_bytes B) za bts) (\<lambda>((z1, a1), bts1).
     rbind (lift_io (tree_PostLoadHook byLeaf z1)) (\<lambda>z2. Inr ((z2, a1), bts1)))"

definition Tree_UnmarshalMsg :: "bool \<Rightarrow> 'n msg_bytes \<Rightarrow> Tree \<times> nat \<Rightarrow> byte list \<Rightarrow> ((Tree \<times> nat) \<times> byte list) io" where
  "Tree_UnmarshalMsg byLeaf B za bts = Tree_UnmarshalMsgWithCfg byLeaf B za bts"

end
