(* ===== verification/TreeWire.thy ===== *)
theory TreeWire
  imports TreeCodec
begin

text \<open>
  Saving and loading whole trees through the field \<open>Leafz\<close> (\<open>tree_gen.go\<close>): what the hooks do to the tree,
  and that the serializers read back the leaves they wrote.
\<close>

section \<open>The hooks\<close>

lemma leafz_loop_enumerates:
  "enumerates it ls \<Longrightarrow> length xs + length ls \<le> length leafz \<Longrightarrow> take (length xs) leafz = xs \<Longrightarrow>
   leafz_loop it (int (length xs)) leafz =
     Some (Inr (int (length xs + length ls), xs @ map Some ls @ drop (length xs + length ls) leafz))"
proof (induction arbitrary: xs leafz rule: enumerates.induct)
  case (enum_end i i')
  then have "leafz = xs @ drop (length xs) leafz" by (metis append_take_drop_id)
  then show ?case using enum_end.hyps by (subst leafz_loop.simps) simp
next
  case (enum_leaf i i' l ls)
  let ?n = "length xs"
  have l: "?n < length leafz" using enum_leaf.prems by simp
  have t: "take (length (xs @ [Some l])) (leafz[?n := Some l]) = xs @ [Some l]"
    using l enum_leaf.prems(2) by (simp add: take_Suc_conv_app_nth)
  have "leafz_loop i' (int (length (xs @ [Some l]))) (leafz[?n := Some l]) =
      Some (Inr (int (length (xs @ [Some l]) + length ls),
        (xs @ [Some l]) @ map Some ls @ drop (length (xs @ [Some l]) + length ls) (leafz[?n := Some l])))"
    using enum_leaf.prems(1) by (intro enum_leaf.IH t) simp
  then show ?case using enum_leaf.hyps(1,2) l by (subst leafz_loop.simps) (simp add: add_ac)
qed

text \<open>The iteration over a whole tree, of no leaf or of two or more, none with the empty key.\<close>

lemma all_enumerated:
  assumes "tree_wf t" and "sized t" and "tree_size t \<noteq> 1" and "[] \<notin> tree_keys t"
  shows "enumerates (tree_Iterator t [] []) (tree_leaves t)"
proof -
  have "\<not> isLeaf r" if "root t = Some r" for r
    using leaf_iff_one [of "[]" r] assms(1-3) that by (simp add: tree_wf_def tree_leaves_def sized_def)
  moreover have "filter (\<lambda>l. [] < Key l \<and> (([] :: key) = [] \<or> Key l \<le> [])) (tree_leaves t) = tree_leaves t"
    using assms(4) by (auto simp: filter_id_conv Nil_less tree_keys_def) (metis imageI)
  ultimately show ?thesis using tree_enumerates [OF assms(1), of "[]" "[]"] by simp
qed

text \<open>
  Without \<open>leafByLeaf\<close> the leaves are recorded in order. A tree of one leaf would record a nil, and the
  empty key would not be recorded, so that the hook panics.
\<close>

lemma PreSaveHook_records:
  assumes "tree_wf t" and "sized t" and "tree_size t \<noteq> 1" and "[] \<notin> tree_keys t"
  shows "tree_PreSaveHook False t = Some (Inr (t\<lparr>Leafz := map Some (tree_leaves t)\<rparr>))"
proof -
  let ?n = "length (tree_leaves t)"
  have n: "tree_size t = int ?n" using assms(2) by (simp add: sized_def)
  let ?t = "if int (length (Leafz t)) \<noteq> tree_size t then t\<lparr>Leafz := replicate (nat (tree_size t)) None\<rparr> else t"
  have len: "length (Leafz ?t) = ?n" using n by simp
  have "tree_wf ?t" "sized ?t" "tree_size ?t \<noteq> 1" "[] \<notin> tree_keys ?t" "tree_leaves ?t = tree_leaves t"
    using assms by (simp_all add: tree_defs tree_keys_def)
  then have "enumerates (tree_Iterator ?t [] []) (tree_leaves t)" using all_enumerated [of ?t] by simp
  then have "leafz_loop (tree_Iterator ?t [] []) (int (length ([] :: leaf option list))) (Leafz ?t) =
      Some (Inr (int (length ([] :: leaf option list) + ?n), [] @ map Some (tree_leaves t) @
        drop (length ([] :: leaf option list) + ?n) (Leafz ?t)))"
    by (rule leafz_loop_enumerates) (use len in auto)
  then have "leafz_loop (tree_Iterator ?t [] []) 0 (Leafz ?t) = Some (Inr (int ?n, map Some (tree_leaves t)))"
    using len by simp
  then show ?thesis using n by (simp add: tree_PreSaveHook_def Let_def)
qed

lemma insert_leafz_all: "insert_leafz t (map Some ls) = insert_all t ls"
  by (induction ls arbitrary: t) (simp_all add: rbind_def split: sum.split)

text \<open>Insertion does not look at \<open>Leafz\<close>.\<close>

lemma InsertLeaf_Leafz: "tree_InsertLeaf (t\<lparr>Leafz := x\<rparr>) l = rbind (tree_InsertLeaf t l) (\<lambda>(t1, u). Inr (t1\<lparr>Leafz := x\<rparr>, u))"
proof (cases "root t")
  case (Some r)
  then show ?thesis by (cases "bnode_insert r l 0") (auto simp: tree_InsertLeaf_def)
qed (simp add: tree_InsertLeaf_def)

lemma insert_all_Leafz: "insert_all (t\<lparr>Leafz := x\<rparr>) ls = rbind (insert_all t ls) (\<lambda>t1. Inr (t1\<lparr>Leafz := x\<rparr>))"
proof (induction ls arbitrary: t)
  case (Cons l ls)
  then show ?case by (cases "tree_InsertLeaf t l") (auto simp: InsertLeaf_Leafz)
qed simp

section \<open>The leaves that are loaded\<close>

text \<open>\<open>zs\<close> are the leaves as the hook prepared them; they are loaded into new leaves.\<close>

fun loaded_leaves :: "nat \<Rightarrow> leaf list \<Rightarrow> leaf list" where
  "loaded_leaves a [] = []"
| "loaded_leaves a (z # zs) = loaded_leaf (new_leaf a) z # loaded_leaves (Suc a) zs"

lemma loaded_leaf_sel [simp]:
  "Key (loaded_leaf y z) = Key z" "Value (loaded_leaf y z) = AnyByteSliceValue (Xdata z)" "lf_addr (loaded_leaf y z) = lf_addr y"
  "lf_addr (new_leaf a) = a"
  by (simp_all add: loaded_leaf_def same_fields_def new_leaf_def)

lemma loaded_leaves_sel [simp]:
  "length (loaded_leaves a zs) = length zs" "map Key (loaded_leaves a zs) = map Key zs"
  "map Value (loaded_leaves a zs) = map (\<lambda>z. AnyByteSliceValue (Xdata z)) zs"
  "map lf_addr (loaded_leaves a zs) = [a..<a + length zs]"
  by (induction zs arbitrary: a) (simp_all add: upt_conv_Cons del: upt_Suc)

text \<open>In general the elements of an old \<open>Leafz\<close> are loaded again.\<close>

fun loaded_into :: "nat \<Rightarrow> leaf option list \<Rightarrow> leaf list \<Rightarrow> leaf option list \<times> nat" where
  "loaded_into a (old # olds) (z # zs) = (let (l, a1) = (case old of None \<Rightarrow> (new_leaf a, Suc a) | Some l \<Rightarrow> (l, a));
     (ls, a2) = loaded_into a1 olds zs in (Some (loaded_leaf l z) # ls, a2))"
| "loaded_into a olds zs = ([], a)"

lemma loaded_into_new: "loaded_into a (replicate (length zs) None) zs = (map Some (loaded_leaves a zs), a + length zs)"
  by (induction zs arbitrary: a) simp_all

text \<open>No two keys of a tree differ by a final zero byte only, so its leaves can be loaded.\<close>

lemma on_path_compat:
  assumes "on_path (q @ [j]) K" and "on_path (q @ [k]) L" and "j \<noteq> k"
  shows "key_compat K L"
proof -
  have *: "\<not> prefix (K @ [0]) L" if p: "on_path (q @ [j]) K" "on_path (q @ [k]) L" "j \<noteq> k" for K L j k
  proof
    assume "prefix (K @ [0]) L"
    then obtain zs where L: "L = K @ 0 # zs" by (auto simp: prefix_def)
    obtain x where K: "K = q @ x" using p(1) by (auto simp: on_path_snoc prefix_def)
    have "key_At K (int (length q)) = j" "key_At L (int (length q)) = k" using p(1,2) by (simp_all add: on_path_snoc)
    then show False using p(3) by (cases x) (auto simp: L K key_At_def nth_append)
  qed
  show ?thesis using * [OF assms] * [OF assms(2,1)] assms(3) by (auto simp: key_compat_def)
qed

lemma wft_compat: "wft p b \<Longrightarrow> l \<in> set (leaves b) \<Longrightarrow> l' \<in> set (leaves b) \<Longrightarrow> key_compat (Key l) (Key l')"
proof (induction rule: wft.induct)
  case (wft_leaf b l0 p)
  then show ?case by (simp add: leaves_leaf)
next
  case (wft_inner b n p)
  then obtain j c k d where c: "inode_kid (Node n) j = Some c" "l \<in> set (leaves c)" and d: "inode_kid (Node n) k = Some d" "l' \<in> set (leaves d)"
    by (auto simp: leaves_inner)
  show ?case
  proof (cases "j = k")
    case True
    then show ?thesis using wft_inner.IH c d by auto
  next
    case False
    have "on_path ((p @ compressed n) @ [j]) (Key l)" "on_path ((p @ compressed n) @ [k]) (Key l')"
      using wft_inner c d wft_leaves_path by fastforce+
    then show ?thesis using False by (rule on_path_compat)
  qed
qed

lemma tree_compat: "tree_wf t \<Longrightarrow> compat_set (tree_keys t)"
  unfolding compat_set_def tree_keys_def
  by (auto simp: tree_leaves_def tree_wf_def intro: wft_compat split: option.splits)

lemma loaded_loadable:
  assumes "tree_wf t" and "map Key zs = map Key (tree_leaves t)"
  shows "loadable (loaded_leaves a zs)"
proof -
  have "set (map Key (loaded_leaves a zs)) = set (map Key (tree_leaves t))" unfolding loaded_leaves_sel(2) assms(2) ..
  then have "Key ` set (loaded_leaves a zs) = tree_keys t" by (simp only: set_map tree_keys_def)
  then show ?thesis
    using tree_sorted [OF assms(1)] assms(2) tree_compat [OF assms(1)] by (simp add: loadable_def del: set_map)
qed

section \<open>Trees on the wire\<close>

definition tree_wire :: "msgp_format \<Rightarrow> leaf list \<Rightarrow> byte list" where
  "tree_wire F zs = eMap F (if zs = [] then 1 else 2) @ fixstr [0x40] @ fixstr [0x54, 0x72, 0x65, 0x65] @
     (if zs = [] then [] else fixstr name_Leafz @ eArray F (of_nat (length zs)) @ concat (map (leaf_wire F) zs))"

lemma Leafz_name: "length name_Leafz = 15" "[0x40] \<noteq> name_Leafz"
  "[0xaf, 0x4c, 0x65, 0x61, 0x66, 0x7a, 0x5f, 0x7a, 0x69, 0x64, 0x30, 0x30, 0x5f, 0x73, 0x6c, 0x63] = 0xaf # name_Leafz"
  by (code_simp)+

text \<open>What \<open>PreSaveHook\<close> does to a leaf that can be saved.\<close>

definition saved_leaf :: "leaf \<Rightarrow> leaf" where
  "saved_leaf lf = (case PreSaveHook lf of Inr z \<Rightarrow> z | Inl _ \<Rightarrow> lf)"

definition savable :: "leaf \<Rightarrow> bool" where
  "savable lf \<longleftrightarrow> (\<exists>x. (Value lf = AnyBytes x \<or> Value lf = AnyByteSliceValue x) \<and> fits_bytes x) \<and> fits_bytes (Key lf)"

lemma savable_hook:
  assumes "savable lf"
  shows "PreSaveHook lf = Inr (saved_leaf lf)" "fits_leaf (saved_leaf lf)" "XTyp (saved_leaf lf) = XTypBytes"
    "Key (saved_leaf lf) = Key lf"
  using assms by (auto simp: savable_def saved_leaf_def PreSaveHook_def fits_leaf_def XTypBytes_def fits_int_def)

text \<open>The bytes of a value, and what they are after a round trip.\<close>

definition value_bytes :: "any \<Rightarrow> byte list" where
  "value_bytes v = (case v of AnyBytes x \<Rightarrow> x | AnyByteSliceValue x \<Rightarrow> x | _ \<Rightarrow> [])"

lemma saved_Xdata: "savable lf \<Longrightarrow> Xdata (saved_leaf lf) = value_bytes (Value lf)"
  by (auto simp: savable_def saved_leaf_def PreSaveHook_def value_bytes_def)

text \<open>The leaves of a tree, saved and loaded again in order, give an exact tree with the same keys and values.\<close>

lemma saved_leaves_load:
  assumes "tree_wf t" and "\<forall>l \<in> set (tree_leaves t). savable l"
  shows "\<exists>t'. insert_all NewArtTree (loaded_leaves a (map saved_leaf (tree_leaves t))) = Inr t' \<and> exact t' \<and>
    map Key (tree_leaves t') = map Key (tree_leaves t) \<and>
    map Value (tree_leaves t') = map (AnyByteSliceValue \<circ> value_bytes \<circ> Value) (tree_leaves t)"
proof -
  let ?zs = "map saved_leaf (tree_leaves t)"
  let ?ls = "loaded_leaves a ?zs"
  have keys: "map Key ?zs = map Key (tree_leaves t)" using assms(2) savable_hook(4) by simp
  have vals: "map (\<lambda>z. AnyByteSliceValue (Xdata z)) ?zs = map (AnyByteSliceValue \<circ> value_bytes \<circ> Value) (tree_leaves t)"
    using assms(2) saved_Xdata by simp
  obtain t' where t': "insert_all NewArtTree ?ls = Inr t'" "exact t'" "map unkeyed (tree_leaves t') = map unkeyed ?ls"
    using load_ascending [OF loaded_loadable [OF assms(1) keys]] by blast
  have "map Key (map unkeyed (tree_leaves t')) = map Key (map unkeyed ?ls)"
    "map Value (map unkeyed (tree_leaves t')) = map Value (map unkeyed ?ls)" unfolding t'(3) by simp_all
  then have "map Key (tree_leaves t') = map Key ?ls" "map Value (tree_leaves t') = map Value ?ls"
    by (simp_all add: comp_def unkeyed_def)
  then show ?thesis using t'(1,2) keys vals by (simp del: map_map)
qed

text \<open>The field \<open>Leafz\<close> read, and missing.\<close>

definition leafz_upd :: "leaf list \<Rightarrow> (Tree \<times> nat) \<times> bool list \<Rightarrow> (Tree \<times> nat) \<times> bool list" where
  "leafz_upd zs zf = (case zf of ((y, a), found) \<Rightarrow> case loaded_into a (resize_leafz (Leafz y) (length zs)) zs of (ls, a1) \<Rightarrow>
     ((y\<lparr>Leafz := ls\<rparr>, a1), found[0 := True]))"

definition leafz_clear :: "nat \<Rightarrow> (Tree \<times> nat) \<times> bool list \<Rightarrow> (Tree \<times> nat) \<times> bool list" where
  "leafz_clear i zf = (case zf of ((y, a), found) \<Rightarrow> ((y\<lparr>Leafz := []\<rparr>, a), found[i := True]))"

context msgp_stream
begin

lemma leafz_written:
  assumes "\<forall>l \<in> set ls. savable l"
  shows "writes out (encode_leafz en (map Some ls) w) (out w @ concat (map (leaf_wire F \<circ> saved_leaf) ls))"
  using assms
proof (induction ls arbitrary: w)
  case (Cons l ls)
  have "writes out (rbind (Leaf_EncodeMsg en l w) (encode_leafz en (map Some ls)))
      (out w @ leaf_wire F (saved_leaf l) @ concat (map (leaf_wire F \<circ> saved_leaf) ls))"
    by (rule writes_seq [OF Leaf_EncodeMsg_writes]) (use Cons savable_hook [of l] in \<open>auto simp: comp_def\<close>)
  then show ?case by (simp add: comp_def)
qed (simp add: writes_def)

lemma Tree_written:
  assumes "\<forall>l \<in> set ls. savable l" and "Leafz z = map Some ls"
  shows "writes out (Tree_encode en z w) (out w @ tree_wire F (map saved_leaf ls))"
proof -
  have fne: "Tree_fieldsNotEmpty z (replicate 3 False) = ([ls = [], False, False], if ls = [] then 0 else 1)"
    using assms(2) by (simp add: Tree_fieldsNotEmpty_def Let_def numeral_eq_Suc)
  have leafz: "writes out (rbind (WriteArrayHeader en (of_nat (length (Leafz z))) w) (encode_leafz en (Leafz z)))
      (out w @ eArray F (of_nat (length ls)) @ concat (map (leaf_wire F \<circ> saved_leaf) ls))" for w
    using assms by (intro writes_seq) (simp_all add: write_array leafz_written)
  have "writes out (Tree_encode en z w) (out w @ eMap F ((if ls = [] then 0 else 1) + 1) @ [0xa1, 0x40] @ fixstr [0x54, 0x72, 0x65, 0x65] @
      (if [ls = [], False, False] ! 0 then [] else fixstr name_Leafz @ eArray F (of_nat (length ls)) @ concat (map (leaf_wire F \<circ> saved_leaf) ls)))"
    unfolding Tree_encode_def fne prod.case Leafz_name(3)
    by (intro writes_seq write_map write_append write_string write_field_writes leafz) (simp_all add: Leafz_name)
  also have "?this \<longleftrightarrow> ?thesis" by (simp add: tree_wire_def fixstr_def comp_def)
  finally show ?thesis .
qed

lemma leafz_read:
  assumes "\<forall>z \<in> set zs. fits_leaf z \<and> XTyp z = XTypBytes"
  shows "length olds = length zs \<Longrightarrow> content r = (0, concat (map (leaf_wire F) zs) @ xs) \<Longrightarrow>
    reads content (decode_leafz dc a olds r) (loaded_into a olds zs) (0, xs)"
  using assms
proof (induction zs arbitrary: a r olds)
  case Nil
  then show ?case by (simp add: reads_def)
next
  case (Cons z zs)
  let ?rest = "concat (map (leaf_wire F) zs) @ xs"
  obtain old olds' where o: "olds = old # olds'" "length olds' = length zs" using Cons.prems(1) by (cases olds) auto
  obtain l a1 where l: "(case old of None \<Rightarrow> (new_leaf a, Suc a) | Some l \<Rightarrow> (l, a)) = (l, a1)" by force
  have z: "fits_leaf z" "XTyp z = XTypBytes" using Cons.prems(3) by auto
  have c: "content r = (0, eMap F (of_nat (Suc (length (leaf_fields F z)))) @ fixstr [0x40] @ fixstr [0x4c, 0x65, 0x61, 0x66] @
     concat (map fst (leaf_fields F z)) @ ?rest)" using Cons.prems(2) by (simp add: leaf_wire_def [of F z])
  obtain r1 where n: "IsNil dc r = (False, r1)" and r1: "content r1 = (0, leaf_wire F z @ ?rest)"
    using not_nil_map [OF c] Cons.prems(2) by auto
  then have "content (DedupIndexEachPtr dc r1) = (0, leaf_wire F z @ ?rest)" by (simp add: dedup)
  then obtain r2 where r2: "Leaf_DecodeMsg dc l (DedupIndexEachPtr dc r1) = Inr (loaded_leaf l z, r2)"
    "content r2 = (0, ?rest)" using Leaf_DecodeMsg_reads [OF z] unfolding reads_def by blast
  have "reads content (decode_leafz dc a1 olds' r2) (loaded_into a1 olds' zs) (0, xs)"
    using Cons.IH o(2) r2(2) Cons.prems(3) by simp
  then obtain r3 where "decode_leafz dc a1 olds' r2 = Inr (loaded_into a1 olds' zs, r3)" "content r3 = (0, xs)"
    unfolding reads_def by blast
  then show ?case using n r2(1) l unfolding o(1) reads_def
    by (cases "loaded_into a1 olds' zs") (simp add: Let_def)
qed

lemma resize_length [simp]: "length (resize_leafz old n) = n"
  by (simp add: resize_leafz_def)

lemma Leafz_field_reads:
  assumes zs: "\<forall>z \<in> set zs. fits_leaf z \<and> XTyp z = XTypBytes" and len: "length zs < 2 ^ 32"
  shows "field_reads at_stream (ReadMapKeyPtr dc) (Tree_switch dc)
    (fixstr name_Leafz @ eArray F (of_nat (length zs)) @ concat (map (leaf_wire F) zs), leafz_upd zs)"
proof (rule value_field_reads)
  fix zf :: "(Tree \<times> nat) \<times> bool list" and r xs
  assume "content r = (0, (eArray F (of_nat (length zs)) @ concat (map (leaf_wire F) zs)) @ xs)"
  then obtain r1 where r1: "ReadArrayHeader dc r = Inr (of_nat (length zs), r1)" "content r1 = (0, concat (map (leaf_wire F) zs) @ xs)"
    using read_array [of r "of_nat (length zs)"] by (fastforce simp: reads_def)
  obtain y :: Tree and a found where zf: "zf = ((y, a), found)" by (metis prod.exhaust)
  have "reads content (decode_leafz dc a (resize_leafz (Leafz y) (length zs)) r1)
      (loaded_into a (resize_leafz (Leafz y) (length zs)) zs) (0, xs)" by (rule leafz_read [OF zs resize_length r1(2)])
  then show "reads content (Tree_switch dc name_Leafz zf r) (leafz_upd zs zf) (0, xs)"
    unfolding reads_def zf by (auto simp: Tree_switch_def r1(1) leafz_upd_def unat_of_nat_32 [OF len] split: prod.split)
qed (simp add: Leafz_name)

lemma Leafz_missing_read:
  assumes "i < length Tree_FieldOrder" and "\<not> Tree_FieldSkip ! i" and "content r = (1, xs)"
  shows "reads content (Tree_switch dc (Tree_FieldOrder ! i) zf r) (leafz_clear i zf) (1, xs)"
proof -
  have i: "i = 0" using assms(1,2) by (auto simp: Tree_FieldOrder_def Tree_FieldSkip_def less_Suc_eq numeral_eq_Suc)
  obtain y a found where zf: "zf = ((y, a), found)" by (metis prod.exhaust)
  obtain r1 where "ReadArrayHeader dc r = Inr (0, r1)" "content r1 = (1, xs)"
    using nil_array [of r 0 xs] assms(3) by (auto simp: reads_def)
  then show ?thesis
    by (simp add: i zf Tree_FieldOrder_def Tree_switch_def leafz_clear_def resize_leafz_def reads_def)
qed

lemma Tree_decoded:
  assumes zs: "\<forall>z \<in> set zs. fits_leaf z \<and> XTyp z = XTypBytes" and len: "length zs < 2 ^ 32" and y: "Leafz y = []"
    and r: "content r = (0, tree_wire F zs @ xs)"
  shows "reads content (decode_struct dc Tree_FieldOrder Tree_FieldSkip (Tree_switch dc) (y, a) r)
    (y\<lparr>Leafz := map Some (loaded_leaves a zs)\<rparr>, a + length zs) (0, xs)"
proof -
  let ?f = "(fixstr name_Leafz @ eArray F (of_nat (length zs)) @ concat (map (leaf_wire F) zs), leafz_upd zs)"
  let ?fs = "type_field [0x54, 0x72, 0x65, 0x65] # present (zs = []) ?f" and ?n = "length Tree_FieldOrder"
  have c: "content r = (0, eMap F (of_nat (length ?fs)) @ concat (map fst ?fs) @ xs)"
    using r by (simp add: tree_wire_def present_def type_field_def)
  have "field_reads at_stream (ReadMapKeyPtr dc) (Tree_switch dc) (type_field [0x54, 0x72, 0x65, 0x65])"
    by (rule type_field_reads) (simp_all add: Tree_switch_def Leafz_name split: prod.split)
  then have fs: "\<forall>f \<in> set ?fs. field_reads at_stream (ReadMapKeyPtr dc) (Tree_switch dc) f"
    using Leafz_field_reads [OF zs len] by (auto simp: present_def)
  have l: "length ?fs < 2 ^ 32" by (simp add: present_def)
  have n: "?n = 3" by (simp add: Tree_FieldOrder_def)
  let ?zf = "fold snd ?fs ((y, a), replicate ?n False)"
  have f: "length (snd ?zf) = ?n" by (simp add: present_def type_field_def leafz_upd_def split: prod.split)
  have "reads content (decode_struct dc Tree_FieldOrder Tree_FieldSkip (Tree_switch dc) (y, a) r)
    (fst (fold leafz_clear (take (unat (of_nat ?n - of_nat (length ?fs) :: 32 word)) (todo_fields (snd ?zf) Tree_FieldSkip ?n 0)) ?zf)) (0, xs)"
    by (rule decode_struct_correct [OF c fs l f]) (use Leafz_missing_read in \<open>auto simp: leafz_clear_def split: prod.split\<close>)
  moreover have "fst (fold leafz_clear (take (unat (of_nat ?n - of_nat (length ?fs) :: 32 word)) (todo_fields (snd ?zf) Tree_FieldSkip ?n 0)) ?zf)
      = (y\<lparr>Leafz := map Some (loaded_leaves a zs)\<rparr>, a + length zs)"
  proof (cases "zs = []")
    case True
    have "unat (of_nat 3 - of_nat 1 :: 32 word) = 3 - 1" by (rule unat_left) simp_all
    then have "unat (of_nat ?n - of_nat (length ?fs) :: 32 word) = 2" using True by (simp add: n present_def)
    moreover have "todo_fields (snd ?zf) Tree_FieldSkip ?n 0 = [0]"
      using True by (simp add: present_def type_field_def n todo_fields_def Tree_FieldSkip_def numeral_eq_Suc upt_rec)
    ultimately show ?thesis using True by (simp add: present_def type_field_def leafz_clear_def)
  next
    case False
    then have "resize_leafz (Leafz y) (length zs) = replicate (length zs) None" using y by (simp add: resize_leafz_def)
    then show ?thesis using False
      by (simp add: present_def type_field_def n todo_fields_def Tree_FieldSkip_def leafz_upd_def loaded_into_new numeral_eq_Suc upt_rec)
  qed
  ultimately show ?thesis by simp
qed

lemma Tree_EncodeMsg_writes:
  assumes "tree_wf t" and "sized t" and "tree_size t \<noteq> 1" and "[] \<notin> tree_keys t" and "\<forall>l \<in> set (tree_leaves t). savable l"
  shows "\<exists>w'. Tree_EncodeMsg False en t w = Some (Inr w') \<and> out w' = out w @ tree_wire F (map saved_leaf (tree_leaves t))"
proof -
  have "writes out (Tree_encode en (t\<lparr>Leafz := map Some (tree_leaves t)\<rparr>) w) (out w @ tree_wire F (map saved_leaf (tree_leaves t)))"
    by (rule Tree_written) (simp_all add: assms(5))
  then show ?thesis
    by (auto simp: Tree_EncodeMsg_def PreSaveHook_records [OF assms(1-4)] writes_def)
qed

lemma Tree_DecodeMsg_reads:
  assumes "tree_wf t" and "\<forall>l \<in> set (tree_leaves t). savable l" and "length (tree_leaves t) < 2 ^ 32"
    and "content r = (0, tree_wire F (map saved_leaf (tree_leaves t)) @ xs)"
  shows "\<exists>t' r'. Tree_DecodeMsg False dc (NewArtTree, a) r = Inr ((t', a + length (tree_leaves t)), r') \<and> content r' = (0, xs) \<and>
    exact t' \<and> map Key (tree_leaves t') = map Key (tree_leaves t) \<and>
    map Value (tree_leaves t') = map (AnyByteSliceValue \<circ> value_bytes \<circ> Value) (tree_leaves t)"
proof -
  let ?zs = "map saved_leaf (tree_leaves t)"
  let ?ls = "loaded_leaves a ?zs"
  obtain r' where d: "decode_struct dc Tree_FieldOrder Tree_FieldSkip (Tree_switch dc) (NewArtTree, a) r =
      Inr ((NewArtTree\<lparr>Leafz := map Some ?ls\<rparr>, a + length ?zs), r')" "content r' = (0, xs)"
    using Tree_decoded [of ?zs NewArtTree r xs a] assms(2-4) savable_hook by (auto simp: reads_def NewArtTree_def)
  obtain t' where t': "insert_all NewArtTree ?ls = Inr t'" "exact t'" "map Key (tree_leaves t') = map Key (tree_leaves t)"
    "map Value (tree_leaves t') = map (AnyByteSliceValue \<circ> value_bytes \<circ> Value) (tree_leaves t)"
    using saved_leaves_load [OF assms(1,2)] by blast
  have "tree_PostLoadHook False (NewArtTree\<lparr>Leafz := map Some ?ls\<rparr>) = Inr (t'\<lparr>Leafz := []\<rparr>)"
    by (simp add: tree_PostLoadHook_def insert_leafz_all insert_all_Leafz t'(1))
  then have "Tree_DecodeMsg False dc (NewArtTree, a) r = Inr ((t'\<lparr>Leafz := []\<rparr>, a + length ?zs), r')"
    by (simp add: Tree_DecodeMsg_def d(1))
  moreover have "exact (t'\<lparr>Leafz := []\<rparr>)" "tree_leaves (t'\<lparr>Leafz := []\<rparr>) = tree_leaves t'"
    using t'(2) by (simp_all add: exact_def tree_defs)
  ultimately show ?thesis using d(2) t'(3,4) by simp
qed

end

end
