(* ===== verification/Saver.thy ===== *)
theory Saver
  imports TreeWire
begin

text \<open>
  \<open>TreeSaver\<close> and \<open>TreeLoader\<close> (\<open>saver.go\<close>): a file has a magic string and a compressed stream, in which a
  byte slice holds the tree without its leaves and the leaves follow one by one. The file and the \<open>s2\<close>
  compression are parameters, like the \<open>msgp\<close> library. The mutex of the saver is left out. The
  constants \<open>leafByLeaf\<close> and \<open>globalFullSkipS2\<close> are arguments.
\<close>

section \<open>The operations\<close>

definition leafByLeaf :: bool where
  "leafByLeaf = True"

definition globalFullSkipS2 :: bool where
  "globalFullSkipS2 = False"

definition ArtTreeSaverMagic :: "byte list" where
  "ArtTreeSaverMagic = go_string ''art.ArtTreeSaverMagic:''"

text \<open>
  \<open>'f\<close> is the \<open>io.Writer\<close>, \<open>'s\<close> the \<open>s2.Writer\<close>, and \<open>'w\<close> the \<open>msgp.Writer\<close> with what is under it. In the same way \<open>'i\<close>,
  \<open>'t\<close> and \<open>'r\<close> for reading. A flush or a close gives the writer back with its error, if any, as the code goes on after one.
\<close>

record ('f, 's, 'w) out_chain =
  FileWrite :: "byte list \<Rightarrow> 'f \<Rightarrow> 'f io"
  S2NewWriter :: "'f \<Rightarrow> 's"
  NewWriter :: "'f + 's \<Rightarrow> 'w"
  FlushW :: "'w \<Rightarrow> 'w \<times> io_error option"
  FlushS2 :: "'w \<Rightarrow> 'w \<times> io_error option"
  CloseS2 :: "'w \<Rightarrow> 'w \<times> io_error option"

record ('i, 't, 'r) in_chain =
  ReadFull :: "nat \<Rightarrow> 'i \<Rightarrow> (byte list \<times> 'i) io"
  S2NewReader :: "'i \<Rightarrow> 't"
  NewReader :: "'i + 't \<Rightarrow> 'r"

record 'w TreeSaver =
  saver_w :: 'w
  numLeafWrit :: int
  saver_tree :: Tree
  skipS2 :: bool

text \<open>\<open>fmt.Errorf\<close> around an error; a panic goes through.\<close>

definition errorf :: "string \<Rightarrow> 'a io \<Rightarrow> 'a io" where
  "errorf msg m = (case m of Inl (Fails e) \<Rightarrow> Inl (Fails (Errorf msg (Some e))) | _ \<Rightarrow> m)"

lemma errorf_Inr [simp]: "errorf msg (Inr x) = Inr x"
  by (simp add: errorf_def)

definition NewTreeSaver :: "bool \<Rightarrow> bool \<Rightarrow> ('f, 's, 'w) out_chain \<Rightarrow> 'w msg_writer \<Rightarrow> 'n msg_bytes \<Rightarrow> Tree \<Rightarrow> 'f \<Rightarrow> 'w TreeSaver io option" where
  "NewTreeSaver byLeaf skip oc en B tree f =
     (case errorf ''error writing ArtTreeSaverMagic'' (FileWrite oc ArtTreeSaverMagic f) of
        Inl e \<Rightarrow> Some (Inl e)
      | Inr f1 \<Rightarrow>
          let w = (if skip then NewWriter oc (Inl f1) else NewWriter oc (Inr (S2NewWriter oc f1))) in
          if byLeaf then
            map_option (\<lambda>m.
              rbind (errorf ''error on MarshalMsg'' m) (\<lambda>bts.
              rbind (errorf ''error on writing to msg.Writer'' (ByteSlice_EncodeMsg en bts w)) (\<lambda>w1.
                Inr \<lparr>saver_w = w1, numLeafWrit = 0, saver_tree = tree, skipS2 = skip\<rparr>)))
              (Tree_MarshalMsg byLeaf B tree [])
          else Some (Inr \<lparr>saver_w = w, numLeafWrit = 0, saver_tree = tree, skipS2 = skip\<rparr>))"

definition NumLeafWrit :: "'w TreeSaver \<Rightarrow> int" where
  "NumLeafWrit s = numLeafWrit s"

text \<open>A leaf that \<open>TheLeaf\<close> does not give is a nil pointer, whose hook dereferences it.\<close>

partial_function (option) save_leaves :: "'w msg_writer \<Rightarrow> iterator \<Rightarrow> int \<Rightarrow> 'w \<Rightarrow> (int \<times> 'w) io option" where
  "save_leaves en it n w = (case it_Next it of
     None \<Rightarrow> None
   | Some (Inl p) \<Rightarrow> Some (Inl (Panics p))
   | Some (Inr (it1, ok)) \<Rightarrow>
       if ok then
         (case it_TheLeaf it1 of
            None \<Rightarrow> Some (Inl (Panics NilDereference))
          | Some lf \<Rightarrow> (case Leaf_EncodeMsg en lf w of
              Inl e \<Rightarrow> Some (Inl e)
            | Inr w1 \<Rightarrow> save_leaves en it1 (n + 1) w1))
       else Some (Inr (n, w)))"

text \<open>The compression is closed also when the flush failed; the error of the flush is the one that is returned.\<close>

definition first_error :: "io_error option \<Rightarrow> io_error option \<Rightarrow> 'a \<Rightarrow> 'a io" where
  "first_error err err2 x = (case err of Some e \<Rightarrow> Inl (Fails e) | None \<Rightarrow> (case err2 of Some e \<Rightarrow> Inl (Fails e) | None \<Rightarrow> Inr x))"

definition finish_save :: "('f, 's, 'w) out_chain \<Rightarrow> 'w TreeSaver \<Rightarrow> 'w TreeSaver io" where
  "finish_save oc s = (case FlushW oc (saver_w s) of (w1, err) \<Rightarrow>
     case (if \<not> skipS2 s then CloseS2 oc w1 else (w1, None)) of (w2, err2) \<Rightarrow> first_error err err2 (s\<lparr>saver_w := w2\<rparr>))"

definition Save :: "bool \<Rightarrow> ('f, 's, 'w) out_chain \<Rightarrow> 'w msg_writer \<Rightarrow> 'w TreeSaver \<Rightarrow> 'w TreeSaver io option" where
  "Save byLeaf oc en s =
     (if byLeaf then
        map_option (\<lambda>m. rbind m (\<lambda>(n, w). finish_save oc (s\<lparr>saver_w := w, numLeafWrit := n\<rparr>)))
          (save_leaves en (tree_Iterator (saver_tree s) [] []) (numLeafWrit s) (saver_w s))
      else
        map_option (\<lambda>m. rbind (errorf ''error on EncodeMsg of tree'' m) (\<lambda>w.
            finish_save oc (s\<lparr>saver_w := w, numLeafWrit := tree_size (saver_tree s)\<rparr>)))
          (Tree_EncodeMsg byLeaf en (saver_tree s) (saver_w s)))"

definition Flush :: "('f, 's, 'w) out_chain \<Rightarrow> 'w TreeSaver \<Rightarrow> 'w TreeSaver io" where
  "Flush oc s = (case FlushW oc (saver_w s) of (w1, err) \<Rightarrow>
     case (if \<not> skipS2 s then FlushS2 oc w1 else (w1, None)) of (w2, err2) \<Rightarrow> first_error err err2 (s\<lparr>saver_w := w2\<rparr>))"

text \<open>A loader; the counter for the addresses of the new leaves goes with it.\<close>

record 'r TreeLoader =
  loader_r :: 'r
  loader_tree :: Tree
  loader_skipS2 :: bool
  loader_next :: nat

definition NewTreeLoader :: "bool \<Rightarrow> bool \<Rightarrow> ('i, 't, 'r) in_chain \<Rightarrow> 'r msg_reader \<Rightarrow> 'n msg_bytes \<Rightarrow> nat \<Rightarrow> 'i \<Rightarrow> 'r TreeLoader io" where
  "NewTreeLoader byLeaf skip I dc B a i =
     rbind (errorf ''error reading ArtTreeSaverMagic'' (ReadFull I (length ArtTreeSaverMagic) i)) (\<lambda>(buf, i1).
     if buf \<noteq> ArtTreeSaverMagic then Inl (Fails (Errorf ''error did not find magic at start'' None))
     else
       let r = (if skip then NewReader I (Inl i1) else NewReader I (Inr (S2NewReader I i1))) in
       if byLeaf then
         rbind (errorf ''error on first tree DecodeMsg'' (ByteSlice_DecodeMsg dc [] r)) (\<lambda>(by1, r1).
         rbind (errorf ''error on first tree UnmarshalMsg'' (Tree_UnmarshalMsg byLeaf B (NewArtTree, a) by1)) (\<lambda>((t, a1), rest).
           Inr \<lparr>loader_r = r1, loader_tree = t, loader_skipS2 = skip, loader_next = a1\<rparr>))
       else Inr \<lparr>loader_r = r, loader_tree = NewArtTree, loader_skipS2 = skip, loader_next = a\<rparr>)"

text \<open>Only an end of file ends the loop without an error.\<close>

partial_function (option) load_leaves :: "'r msg_reader \<Rightarrow> Tree \<Rightarrow> nat \<Rightarrow> 'r \<Rightarrow> Tree io option" where
  "load_leaves dc tree a r = (case Leaf_DecodeMsg dc (new_leaf a) r of
     Inl e \<Rightarrow> if e = Fails EOF then Some (Inr tree) else Some (Inl e)
   | Inr (lf, r1) \<Rightarrow> (case tree_InsertLeaf tree lf of
       Inl p \<Rightarrow> Some (Inl (Panics p))
     | Inr (tree1, updated) \<Rightarrow> load_leaves dc tree1 (Suc a) r1))"

definition Load :: "bool \<Rightarrow> 'r msg_reader \<Rightarrow> 'r TreeLoader \<Rightarrow> Tree io option" where
  "Load byLeaf dc s =
     (if byLeaf then load_leaves dc (loader_tree s) (loader_next s) (loader_r s)
      else Some (rbind (errorf ''error on tree DecodeMsg'' (Tree_DecodeMsg byLeaf dc (loader_tree s, loader_next s) (loader_r s)))
        (\<lambda>((t, a), r). Inr t)))"

section \<open>The loops\<close>

context msgp_stream
begin

lemma save_leaves_writes:
  "enumerates it ls \<Longrightarrow> \<forall>l \<in> set ls. savable l \<Longrightarrow>
   \<exists>w'. save_leaves en it n w = Some (Inr (n + int (length ls), w')) \<and> out w' = out w @ concat (map (leaf_wire F \<circ> saved_leaf) ls)"
proof (induction arbitrary: n w rule: enumerates.induct)
  case (enum_end i i')
  then show ?case by (subst save_leaves.simps) simp
next
  case (enum_leaf i i' l ls)
  have "savable l" using enum_leaf.prems by simp
  then obtain w1 where w1: "Leaf_EncodeMsg en l w = Inr w1" "out w1 = out w @ leaf_wire F (saved_leaf l)"
    using Leaf_EncodeMsg_writes [OF savable_hook(1,2)] by (fastforce simp: writes_def)
  obtain w' where "save_leaves en i' (n + 1) w1 = Some (Inr ((n + 1) + int (length ls), w'))"
    "out w' = out w1 @ concat (map (leaf_wire F \<circ> saved_leaf) ls)" using enum_leaf.IH enum_leaf.prems by fastforce
  then show ?case using enum_leaf.hyps(1,2) w1 by (subst save_leaves.simps) (simp add: add_ac)
qed

lemma load_leaves_reads:
  "\<forall>z \<in> set zs. fits_leaf z \<and> XTyp z = XTypBytes \<Longrightarrow> content r = (0, concat (map (leaf_wire F) zs)) \<Longrightarrow>
   load_leaves dc t a r = Some (lift_io (insert_all t (loaded_leaves a zs)))"
proof (induction zs arbitrary: t a r)
  case Nil
  then show ?case by (subst load_leaves.simps) (simp add: Leaf_DecodeMsg_end)
next
  case (Cons z zs)
  have z: "fits_leaf z" "XTyp z = XTypBytes" "content r = (0, leaf_wire F z @ concat (map (leaf_wire F) zs))"
    using Cons.prems by auto
  obtain r1 where r1: "Leaf_DecodeMsg dc (new_leaf a) r = Inr (loaded_leaf (new_leaf a) z, r1)"
    "content r1 = (0, concat (map (leaf_wire F) zs))"
    using Leaf_DecodeMsg_reads [OF z, of "new_leaf a"] unfolding reads_def by blast
  show ?case
  proof (cases "tree_InsertLeaf t (loaded_leaf (new_leaf a) z)")
    case (Inl p)
    then show ?thesis using r1(1) by (subst load_leaves.simps) simp
  next
    case (Inr tu)
    then show ?thesis using r1 Cons.IH [of r1 "fst tu" "Suc a"] Cons.prems(1) by (subst load_leaves.simps) (cases tu, simp)
  qed
qed

end

section \<open>Files\<close>

text \<open>
  What the saver relies on in the file, the compression and the buffering, when nothing fails: writing appends to the file;
  a new writer is empty, at the end of the file as it is then; a flush loses nothing; and closing puts
  the compressed form of all that was written after what was in the file. A reader of the compressed
  form gives the bytes back.
\<close>

locale msgp_files =
  stm: msgp_stream F en out dc content + slc: msgp_slices F B
  for F :: msgp_format and en :: "'w msg_writer" and out :: "'w \<Rightarrow> byte list" and dc :: "'r msg_reader"
    and content :: "'r \<Rightarrow> nat \<times> byte list" and B :: "'n msg_bytes" +
  fixes oc :: "('f, 's, 'w) out_chain" and fbytes :: "'f \<Rightarrow> byte list" and base :: "'w \<Rightarrow> byte list" and disk :: "'w \<Rightarrow> byte list"
    and ic :: "('i, 't, 'r) in_chain" and ibytes :: "'i \<Rightarrow> byte list" and s2 :: "byte list \<Rightarrow> byte list"
  assumes map_size: "fits_bytes (eMap F k)"
    and base_map: "WriteMapHeader en k w = Inr w' \<Longrightarrow> base w' = base w"
    and base_bytes: "WriteBytes en b w = Inr w' \<Longrightarrow> base w' = base w"
    and base_byte: "WriteByte en c w = Inr w' \<Longrightarrow> base w' = base w"
    and base_int: "WriteInt en j w = Inr w' \<Longrightarrow> base w' = base w"
    and base_append: "Append en b w = Inr w' \<Longrightarrow> base w' = base w"
    and base_string: "WriteStringFromBytes en b w = Inr w' \<Longrightarrow> base w' = base w"
    and file_write: "\<exists>f'. FileWrite oc b f = Inr f' \<and> fbytes f' = fbytes f @ b"
    and new_writer: "out (NewWriter oc (Inr (S2NewWriter oc f))) = []" "base (NewWriter oc (Inr (S2NewWriter oc f))) = fbytes f"
    and flush: "\<exists>w'. FlushW oc w = (w', None) \<and> out w' = out w \<and> base w' = base w"
    and close: "\<exists>w'. CloseS2 oc w = (w', None) \<and> disk w' = base w @ s2 (out w)"
    and read_full: "ibytes i = b @ xs \<Longrightarrow> \<exists>i'. ReadFull ic (length b) i = Inr (b, i') \<and> ibytes i' = xs"
    and new_reader: "ibytes i = s2 b \<Longrightarrow> content (NewReader ic (Inr (S2NewReader ic i))) = (0, b)"
begin

lemma base_write_field:
  assumes "\<And>w w'. val w = Inr w' \<Longrightarrow> base w' = base w"
  shows "write_field en isempty name val w = Inr w' \<Longrightarrow> base w' = base w"
  using assms base_append by (auto simp: write_field_def rbind_eq_Inr split: if_splits)

lemma base_fields:
  "write_field en isempty name (WriteBytes en b) w = Inr w' \<Longrightarrow> base w' = base w"
  "write_field en isempty name (WriteByte en c) w = Inr w' \<Longrightarrow> base w' = base w"
  "write_field en isempty name (WriteInt en j) w = Inr w' \<Longrightarrow> base w' = base w"
  by (erule base_write_field [rotated], erule base_bytes base_byte base_int)+

lemma base_Leaf:
  assumes "Leaf_EncodeMsg en lf w = Inr w'"
  shows "base w' = base w"
proof -
  obtain z where z: "lift_io (PreSaveHook lf) = Inr z" using assms by (auto simp: Leaf_EncodeMsg_def rbind_eq_Inr)
  obtain e k where "Leaf_fieldsNotEmpty z (replicate 5 False) = (e, k)" by force
  with assms z show ?thesis
    by (auto simp: Leaf_EncodeMsg_def rbind_eq_Inr dest!: base_map base_append base_string base_fields)
qed

lemma base_leaves:
  "enumerates it ls \<Longrightarrow> \<forall>l \<in> set ls. savable l \<Longrightarrow> save_leaves en it n w = Some (Inr (k, w')) \<Longrightarrow> base w' = base w"
proof (induction arbitrary: n w rule: enumerates.induct)
  case (enum_end i i')
  then show ?case by (subst (asm) save_leaves.simps) simp
next
  case (enum_leaf i i' l ls)
  then show ?case by (subst (asm) save_leaves.simps) (auto split: sum.splits dest: base_Leaf)
qed

text \<open>The tree without its leaves, in a byte slice.\<close>

lemma root_marshalled: "Tree_MarshalMsg True B t [] = Some (Inr (eMap F 0))"
  by (simp add: Tree_MarshalMsg_def tree_PreSaveHook_def Tree_marshal_def Tree_fieldsNotEmpty_def slc.require slc.append_map Let_def
      numeral_eq_Suc)

lemma root_unmarshalled: "Tree_UnmarshalMsg True B (NewArtTree, a) (eMap F 0) = Inr ((NewArtTree, a), [])"
proof -
  let ?fs = "[] :: (byte list \<times> ((Tree \<times> nat) \<times> bool list \<Rightarrow> (Tree \<times> nat) \<times> bool list)) list"
  let ?n = "length Tree_FieldOrder"
  let ?zf = "fold snd ?fs ((NewArtTree, a), replicate ?n False)"
  have "unmarshal_struct B Tree_FieldOrder Tree_FieldSkip (Tree_switch_bytes B) (NewArtTree, a)
      (eMap F (of_nat (length ?fs)) @ concat (map fst ?fs) @ []) =
    Inr (fst (fold leafz_clear (take (unat (of_nat ?n - of_nat (length ?fs) :: 32 word)) (todo_fields (snd ?zf) Tree_FieldSkip ?n 0)) ?zf), [])"
  proof (rule slc.unmarshal_struct_correct)
    show "Tree_switch_bytes B (Tree_FieldOrder ! i) zf s = Inr (leafz_clear i zf, s) \<and> snd (leafz_clear i zf) = (snd zf)[i := True]"
      if "i < ?n" "\<not> Tree_FieldSkip ! i" "AlwaysNil B (snd s)" for i zf s
    proof -
      have "i = 0" using that(1,2) by (auto simp: Tree_FieldOrder_def Tree_FieldSkip_def less_Suc_eq numeral_eq_Suc)
      then show ?thesis using that(3)
        by (cases s) (simp add: Tree_FieldOrder_def Tree_switch_bytes_def leafz_clear_def split: prod.split)
    qed
  qed simp_all
  moreover have "fst (fold leafz_clear (take (unat (of_nat ?n - of_nat (length ?fs) :: 32 word)) (todo_fields (snd ?zf) Tree_FieldSkip ?n 0)) ?zf) = (NewArtTree, a)"
  proof -
    have "todo_fields (snd ?zf) Tree_FieldSkip ?n 0 = [0]"
      by (simp add: Tree_FieldOrder_def Tree_FieldSkip_def todo_fields_def numeral_eq_Suc upt_rec)
    then show ?thesis by (simp add: Tree_FieldOrder_def leafz_clear_def NewArtTree_def)
  qed
  ultimately show ?thesis
    by (simp add: Tree_UnmarshalMsg_def Tree_UnmarshalMsgWithCfg_def tree_PostLoadHook_def)
qed

text \<open>What the saver puts in the file.\<close>

definition saved_file :: "Tree \<Rightarrow> byte list" where
  "saved_file t = ArtTreeSaverMagic @ s2 (eBytes F (eMap F 0) @ concat (map (leaf_wire F \<circ> saved_leaf) (tree_leaves t)))"

lemma new_saver:
  "\<exists>sv. NewTreeSaver True False oc en B t f = Some (Inr sv) \<and> out (saver_w sv) = eBytes F (eMap F 0) \<and>
    base (saver_w sv) = fbytes f @ ArtTreeSaverMagic \<and> numLeafWrit sv = 0 \<and> saver_tree sv = t \<and> skipS2 sv = False"
proof -
  obtain f1 where f1: "FileWrite oc ArtTreeSaverMagic f = Inr f1" "fbytes f1 = fbytes f @ ArtTreeSaverMagic"
    using file_write by blast
  let ?w = "NewWriter oc (Inr (S2NewWriter oc f1))"
  obtain w1 where "ByteSlice_EncodeMsg en (eMap F 0) ?w = Inr w1" "out w1 = eBytes F (eMap F 0)"
    using stm.ByteSlice_writes [OF map_size, of 0 ?w] new_writer(1) by (auto simp: writes_def)
  moreover from this have "base w1 = base ?w" by (auto simp: ByteSlice_EncodeMsg_def dest: base_bytes)
  ultimately show ?thesis
    using f1 new_writer(2) by (simp add: NewTreeSaver_def root_marshalled)
qed

lemma tree_saved:
  assumes "tree_wf t" and "sized t" and "tree_size t \<noteq> 1" and "[] \<notin> tree_keys t" and "\<forall>l \<in> set (tree_leaves t). savable l"
  shows "\<exists>sv sv'. NewTreeSaver True False oc en B t f = Some (Inr sv) \<and> Save True oc en sv = Some (Inr sv') \<and>
    disk (saver_w sv') = fbytes f @ saved_file t \<and> NumLeafWrit sv' = tree_Size t"
proof -
  obtain sv where sv: "NewTreeSaver True False oc en B t f = Some (Inr sv)" "out (saver_w sv) = eBytes F (eMap F 0)"
    "base (saver_w sv) = fbytes f @ ArtTreeSaverMagic" "numLeafWrit sv = 0" "saver_tree sv = t" "skipS2 sv = False"
    using new_saver by blast
  have e: "enumerates (tree_Iterator t [] []) (tree_leaves t)" by (rule all_enumerated [OF assms(1-4)])
  obtain w where w: "save_leaves en (tree_Iterator t [] []) 0 (saver_w sv) = Some (Inr (int (length (tree_leaves t)), w))"
    "out w = out (saver_w sv) @ concat (map (leaf_wire F \<circ> saved_leaf) (tree_leaves t))"
    using stm.save_leaves_writes [OF e assms(5), of 0] by auto
  have b: "base w = base (saver_w sv)" by (rule base_leaves [OF e assms(5) w(1)])
  obtain w1 where w1: "FlushW oc w = (w1, None)" "out w1 = out w" "base w1 = base w" using flush by blast
  obtain w2 where w2: "CloseS2 oc w1 = (w2, None)" "disk w2 = base w1 @ s2 (out w1)" using close by blast
  have "Save True oc en sv = Some (Inr (sv\<lparr>numLeafWrit := int (length (tree_leaves t)), saver_w := w2\<rparr>))"
    using sv w w1 w2 by (simp add: Save_def finish_save_def first_error_def)
  moreover have "disk w2 = fbytes f @ saved_file t" using w1 w2 w(2) b sv(2,3) by (simp add: saved_file_def)
  ultimately show ?thesis using sv(1) assms(2) by (simp add: NumLeafWrit_def tree_Size_def sized_def)
qed

lemma file_loaded:
  assumes "tree_wf t" and "\<forall>l \<in> set (tree_leaves t). savable l" and "ibytes i = saved_file t"
  shows "\<exists>ld t'. NewTreeLoader True False ic dc B a i = Inr ld \<and> Load True dc ld = Some (Inr t') \<and> exact t' \<and>
    map Key (tree_leaves t') = map Key (tree_leaves t) \<and>
    map Value (tree_leaves t') = map (AnyByteSliceValue \<circ> value_bytes \<circ> Value) (tree_leaves t)"
proof -
  let ?zs = "map saved_leaf (tree_leaves t)"
  let ?stream = "concat (map (leaf_wire F) ?zs)"
  obtain i1 where i1: "ReadFull ic (length ArtTreeSaverMagic) i = Inr (ArtTreeSaverMagic, i1)" "ibytes i1 = s2 (eBytes F (eMap F 0) @ ?stream)"
    using read_full [of i ArtTreeSaverMagic] assms(3) by (auto simp: saved_file_def)
  let ?r = "NewReader ic (Inr (S2NewReader ic i1))"
  have "content ?r = (0, eBytes F (eMap F 0) @ ?stream)" by (rule new_reader [OF i1(2)])
  then obtain r1 where r1: "ByteSlice_DecodeMsg dc [] ?r = Inr (eMap F 0, r1)" "content r1 = (0, ?stream)"
    using stm.ByteSlice_reads [OF map_size] by (fastforce simp: reads_def)
  let ?ld = "\<lparr>loader_r = r1, loader_tree = NewArtTree, loader_skipS2 = False, loader_next = a\<rparr>"
  have ld: "NewTreeLoader True False ic dc B a i = Inr ?ld"
    using i1(1) r1(1) by (simp add: NewTreeLoader_def root_unmarshalled)
  obtain t' where t': "insert_all NewArtTree (loaded_leaves a ?zs) = Inr t'" "exact t'"
    "map Key (tree_leaves t') = map Key (tree_leaves t)"
    "map Value (tree_leaves t') = map (AnyByteSliceValue \<circ> value_bytes \<circ> Value) (tree_leaves t)"
    using saved_leaves_load [OF assms(1,2)] by blast
  have "Load True dc ?ld = Some (Inr t')"
    using stm.load_leaves_reads [of ?zs r1 NewArtTree a] r1(2) assms(2) savable_hook t'(1) by (auto simp: Load_def)
  then show ?thesis using ld t'(2-4) by blast
qed

end

end
