(* ===== verification/MessagePack.thy ===== *)
theory MessagePack
  imports Saver
begin

text \<open>
  An implementation of the interfaces of \<open>Wire\<close>, \<open>WireBytes\<close> and \<open>Saver\<close>: the MessagePack format with \<open>fixmap\<close> and
  \<open>map32\<close>, \<open>fixarray\<close> and \<open>array32\<close>, \<open>bin32\<close>, \<open>uint8\<close>, \<open>int64\<close>, \<open>fixstr\<close> and \<open>nil\<close>, on lists of bytes, and a compression
  that stores its input. It shows that the laws hold together, and the examples run on it.
\<close>

section \<open>The format\<close>

text \<open>Numbers in big-endian order.\<close>

fun be :: "nat \<Rightarrow> nat \<Rightarrow> byte list" where
  "be 0 v = []"
| "be (Suc n) v = be n (v div 256) @ [of_nat (v mod 256)]"

definition unbe :: "byte list \<Rightarrow> nat" where
  "unbe bs = foldl (\<lambda>a b. a * 256 + unat b) 0 bs"

lemma length_be [simp]: "length (be n v) = n"
  by (induction n arbitrary: v) simp_all

lemma unbe_be: "v < 256 ^ n \<Longrightarrow> unbe (be n v) = v"
proof (induction n arbitrary: v)
  case (Suc n)
  then have "unbe (be n (v div 256)) = v div 256" by (intro Suc.IH) (simp add: less_mult_imp_div_less mult.commute)
  moreover have "unat (of_nat (v mod 256) :: byte) = v mod 256" by (simp add: unat_of_nat take_bit_nat_eq_self)
  ultimately show ?case by (simp add: unbe_def)
qed (simp add: unbe_def)

definition mp_map :: "32 word \<Rightarrow> byte list" where
  "mp_map k = (if k < 16 then [0x80 + of_nat (unat k)] else 0xdf # be 4 (unat k))"

definition mp_array :: "32 word \<Rightarrow> byte list" where
  "mp_array k = (if k < 16 then [0x90 + of_nat (unat k)] else 0xdd # be 4 (unat k))"

definition mp_bytes :: "byte list \<Rightarrow> byte list" where
  "mp_bytes b = 0xc6 # be 4 (length b) @ b"

definition mp_byte :: "byte \<Rightarrow> byte list" where
  "mp_byte x = [0xcc, x]"

definition mp_int :: "int \<Rightarrow> byte list" where
  "mp_int i = 0xd3 # be 8 (unat (word_of_int i :: 64 word))"

definition mp_format :: msgp_format where
  "mp_format = \<lparr>eMap = mp_map, eArray = mp_array, eBytes = mp_bytes, eByte = mp_byte, eInt = mp_int, eNil = [0xc0]\<rparr>"

section \<open>Reading\<close>

text \<open>Each reader fails with \<open>EOF\<close> at the end of the input, and with another error on a byte it does not expect.\<close>

definition get_bytes :: "nat \<Rightarrow> byte list \<Rightarrow> (byte list \<times> byte list) io" where
  "get_bytes n bs = (if n \<le> length bs then Inr (take n bs, drop n bs) else Inl (Fails (IOError 1)))"

definition get_sized :: "byte \<Rightarrow> byte \<Rightarrow> byte list \<Rightarrow> (32 word \<times> byte list) io" where
  "get_sized small large bs = (case bs of
     [] \<Rightarrow> Inl (Fails EOF)
   | b # rest \<Rightarrow>
       if small \<le> b \<and> b < small + 16 then Inr (of_nat (unat b - unat small), rest)
       else if b = large then rbind (get_bytes 4 rest) (\<lambda>(n, rest1). Inr (of_nat (unbe n), rest1))
       else Inl (Fails (IOError 2)))"

definition get_bin :: "byte list \<Rightarrow> (byte list \<times> byte list) io" where
  "get_bin bs = (case bs of
     [] \<Rightarrow> Inl (Fails EOF)
   | b # rest \<Rightarrow>
       if b = 0xc6 then rbind (get_bytes 4 rest) (\<lambda>(n, rest1). get_bytes (unbe n) rest1) else Inl (Fails (IOError 3)))"

definition get_byte :: "byte list \<Rightarrow> (byte \<times> byte list) io" where
  "get_byte bs = (case bs of b # x # rest \<Rightarrow> if b = 0xcc then Inr (x, rest) else Inl (Fails (IOError 4)) | _ \<Rightarrow> Inl (Fails EOF))"

definition get_int :: "byte list \<Rightarrow> (int \<times> byte list) io" where
  "get_int bs = (case bs of
     [] \<Rightarrow> Inl (Fails EOF)
   | b # rest \<Rightarrow>
       if b = 0xd3 then rbind (get_bytes 8 rest) (\<lambda>(n, rest1). Inr (sint (of_nat (unbe n) :: 64 word), rest1))
       else Inl (Fails (IOError 5)))"

definition get_str :: "byte list \<Rightarrow> (byte list \<times> byte list) io" where
  "get_str bs = (case bs of
     [] \<Rightarrow> Inl (Fails EOF)
   | b # rest \<Rightarrow> if 0xa0 \<le> b \<and> b < 0xc0 then get_bytes (unat b - 0xa0) rest else Inl (Fails (IOError 6)))"

definition get_nil :: "byte list \<Rightarrow> byte list io" where
  "get_nil bs = (case bs of b # rest \<Rightarrow> if b = 0xc0 then Inr rest else Inl (Fails (IOError 7)) | [] \<Rightarrow> Inl (Fails EOF))"

definition is_nil_byte :: "byte list \<Rightarrow> bool" where
  "is_nil_byte bs = (case bs of b # rest \<Rightarrow> b = 0xc0 | [] \<Rightarrow> False)"

lemma get_bytes_append: "length b = n \<Longrightarrow> get_bytes n (b @ xs) = Inr (b, xs)"
  by (simp add: get_bytes_def)

lemma small_header:
  assumes "k < (16 :: 32 word)" and "small = 0x80 \<or> small = (0x90 :: byte)"
  shows "small \<le> small + of_nat (unat k)" "small + of_nat (unat k) < small + 16"
    "of_nat (unat (small + of_nat (unat k)) - unat small) = k"
proof -
  have k: "unat k < 16" using assms(1) by (simp add: word_less_nat_alt)
  define j where "j = (of_nat (unat k) :: byte)"
  have j: "unat j = unat k" unfolding j_def using k by (simp only: unat_of_nat) (simp add: take_bit_nat_eq_self)
  have u: "unat (small + j) = unat small + unat k" and s: "unat (small + 16) = unat small + 16"
    using k j assms(2) by (auto simp: unat_word_ariths)
  have "small \<le> small + j" "small + j < small + 16" using k by (simp_all add: word_le_nat_alt word_less_nat_alt u s)
  then show "small \<le> small + of_nat (unat k)" "small + of_nat (unat k) < small + 16" by (simp_all only: j_def)
  have "of_nat (unat (small + j) - unat small) = k" by (simp add: u)
  then show "of_nat (unat (small + of_nat (unat k)) - unat small) = k" by (simp only: j_def)
qed

lemma get_map: "get_sized 0x80 0xdf (mp_map k @ xs) = Inr (k, xs)"
proof (cases "k < 16")
  case True
  then show ?thesis using small_header [OF True, of "0x80"] by (simp add: get_sized_def mp_map_def)
next
  case False
  have "unbe (be 4 (unat k)) = unat k" using unsigned_less [of k] by (intro unbe_be) simp
  then show ?thesis using False by (simp add: get_sized_def mp_map_def get_bytes_append)
qed

lemma get_array: "get_sized 0x90 0xdd (mp_array k @ xs) = Inr (k, xs)"
proof (cases "k < 16")
  case True
  then show ?thesis using small_header [OF True, of "0x90"] by (simp add: get_sized_def mp_array_def)
next
  case False
  have "unbe (be 4 (unat k)) = unat k" using unsigned_less [of k] by (intro unbe_be) simp
  then show ?thesis using False by (simp add: get_sized_def mp_array_def get_bytes_append)
qed

lemma get_bin: "fits_bytes b \<Longrightarrow> get_bin (mp_bytes b @ xs) = Inr (b, xs)"
  by (simp add: get_bin_def mp_bytes_def fits_bytes_def get_bytes_append unbe_be)

lemma get_byte: "get_byte (mp_byte x @ xs) = Inr (x, xs)"
  by (simp add: get_byte_def mp_byte_def)

lemma get_int:
  assumes "fits_int i"
  shows "get_int (mp_int i @ xs) = Inr (i, xs)"
proof -
  have "unbe (be 8 (unat (word_of_int i :: 64 word))) = unat (word_of_int i :: 64 word)"
    using unsigned_less [of "word_of_int i :: 64 word"] by (intro unbe_be) simp
  moreover have "sint (word_of_int i :: 64 word) = i"
    using assms by (simp add: fits_int_def signed_of_int signed_take_bit_int_eq_self)
  ultimately show ?thesis by (simp add: get_int_def mp_int_def get_bytes_append)
qed

lemma get_str:
  assumes "length s < 32"
  shows "get_str (fixstr s @ xs) = Inr (s, xs)"
proof -
  have "unat (of_nat (length s) :: byte) = length s" using assms by (simp add: unat_of_nat take_bit_nat_eq_self)
  then have u: "unat (0xa0 + of_nat (length s) :: byte) = 0xa0 + length s" using assms by (simp add: unat_word_ariths)
  then have "(0xa0 :: byte) \<le> 0xa0 + of_nat (length s)" "0xa0 + of_nat (length s) < (0xc0 :: byte)"
    using assms by (simp_all add: word_le_nat_alt word_less_nat_alt)
  then show ?thesis by (simp add: get_str_def fixstr_def u get_bytes_append)
qed

lemma not_nil:
  "\<not> is_nil_byte (mp_map k @ xs)" "\<not> is_nil_byte (mp_bytes b @ xs)" "\<not> is_nil_byte (mp_int i @ xs)"
proof -
  have "0x80 + of_nat (unat k) \<noteq> (0xc0 :: byte)" if "k < 16"
    using small_header(2) [OF that, of "0x80"] by (auto simp: word_less_nat_alt)
  then show "\<not> is_nil_byte (mp_map k @ xs)" by (auto simp: is_nil_byte_def mp_map_def)
qed (simp_all add: is_nil_byte_def mp_bytes_def mp_int_def)

lemma at_end [simp]: "get_sized small large [] = Inl (Fails EOF)" "\<not> is_nil_byte []" "is_nil_byte (0xc0 # xs)" "get_nil (0xc0 # xs) = Inr xs"
  by (simp_all add: get_sized_def is_nil_byte_def get_nil_def)

section \<open>The library\<close>

text \<open>The writer: what was in the file, what was written since, and the file. The reader: its nil modes and its bytes.\<close>

type_synonym mp_w = "byte list \<times> byte list \<times> byte list"

definition put :: "byte list \<Rightarrow> mp_w \<Rightarrow> mp_w io" where
  "put b w = (case w of (base, bs, disk) \<Rightarrow> Inr (base, bs @ b, disk))"

definition mp_writer :: "mp_w msg_writer" where
  "mp_writer = \<lparr>WriteMapHeader = (\<lambda>k. put (mp_map k)), Append = put, WriteStringFromBytes = (\<lambda>s. put (fixstr s)),
     WriteBytes = (\<lambda>b. put (mp_bytes b)), WriteByte = (\<lambda>x. put (mp_byte x)), WriteInt = (\<lambda>i. put (mp_int i)),
     WriteArrayHeader = (\<lambda>k. put (mp_array k)), WriteNil = put [0xc0]\<rparr>"

definition nilable :: "'a \<Rightarrow> (byte list \<Rightarrow> ('a \<times> byte list) io) \<Rightarrow> nat \<times> byte list \<Rightarrow> ('a \<times> nat \<times> byte list) io" where
  "nilable d get r = (case r of (n, bs) \<Rightarrow> if n > 0 then Inr (d, r) else rbind (get bs) (\<lambda>(x, bs1). Inr (x, n, bs1)))"

definition skip_nil :: "(byte list \<Rightarrow> byte list io) \<Rightarrow> nat \<times> byte list \<Rightarrow> (nat \<times> byte list) io" where
  "skip_nil get r = (case r of (n, bs) \<Rightarrow> if n > 0 then Inr r else rbind (get bs) (\<lambda>bs1. Inr (n, bs1)))"

definition mp_reader :: "(nat \<times> byte list) msg_reader" where
  "mp_reader = \<lparr>IsNil = (\<lambda>r. (fst r > 0 \<or> is_nil_byte (snd r), r)), ReadNil = skip_nil get_nil,
     PushAlwaysNil = (\<lambda>(n, bs). (Suc n, bs)), PopAlwaysNil = (\<lambda>(n, bs). (n - 1, bs)),
     ReadMapHeader = nilable 0 (get_sized 0x80 0xdf), ReadMapKeyPtr = nilable [] get_str, ReadBytes = (\<lambda>old. nilable [] get_bin),
     ReadByte = nilable 0 get_byte, ReadInt = nilable 0 get_int, ReadArrayHeader = nilable 0 (get_sized 0x90 0xdd),
     Skip = skip_nil (\<lambda>bs. rbind (get_str bs) (\<lambda>(s, rest). Inr rest)), DedupIndexEachPtr = (\<lambda>r. r)\<rparr>"

text \<open>The stack of nils holds the bytes that were left when each nil mode began.\<close>

definition mp_slices :: "byte list list msg_bytes" where
  "mp_slices = \<lparr>Require = (\<lambda>b n. b), AppendMapHeader = (\<lambda>b k. b @ mp_map k), AppendBytes = (\<lambda>b v. b @ mp_bytes v),
     AppendByte = (\<lambda>b x. b @ mp_byte x), AppendInt = (\<lambda>b i. b @ mp_int i), AppendArrayHeader = (\<lambda>b k. b @ mp_array k),
     AppendNil = (\<lambda>b. b @ [0xc0]), IsNilBytes = is_nil_byte, nbsInit = [], AlwaysNil = (\<lambda>n. n \<noteq> []),
     nbsPush = (\<lambda>bts n. ([0xc0], bts # n)), nbsPop = (\<lambda>n. (hd n, tl n)),
     ReadMapHeaderBytes = (\<lambda>n. get_sized 0x80 0xdf), ReadMapKeyZC = (\<lambda>n. get_str), ReadBytesBytes = (\<lambda>n bts old. get_bin bts),
     ReadByteBytes = (\<lambda>n bts. if n \<noteq> [] then Inr (0, bts) else get_byte bts),
     ReadIntBytes = (\<lambda>n bts. if n \<noteq> [] then Inr (0, bts) else get_int bts), ReadArrayHeaderBytes = (\<lambda>n. get_sized 0x90 0xdd),
     SkipBytes = (\<lambda>bs. rbind (get_str bs) (\<lambda>(s, rest). Inr rest)), OnlyNilSlice = [0xc0],
     BytesPrefixSize = 5, ByteSize = 2, IntSize = 9, ArrayHeaderSize = 5, NilSize = 1\<rparr>"

definition mp_out :: "(byte list, byte list, mp_w) out_chain" where
  "mp_out = \<lparr>FileWrite = (\<lambda>b f. Inr (f @ b)), S2NewWriter = (\<lambda>f. f),
     NewWriter = (\<lambda>x. case x of Inl f \<Rightarrow> (f, [], f) | Inr f \<Rightarrow> (f, [], f)), FlushW = (\<lambda>w. (w, None)), FlushS2 = (\<lambda>w. (w, None)),
     CloseS2 = (\<lambda>(base, bs, disk). ((base, bs, base @ bs), None))\<rparr>"

definition mp_in :: "(byte list, byte list, nat \<times> byte list) in_chain" where
  "mp_in = \<lparr>ReadFull = get_bytes, S2NewReader = (\<lambda>i. i), NewReader = (\<lambda>x. case x of Inl i \<Rightarrow> (0, i) | Inr i \<Rightarrow> (0, i))\<rparr>"

section \<open>The laws\<close>

lemmas mp_gets = get_map get_array get_bin get_byte get_int get_str not_nil

interpretation mp: msgp_stream mp_format mp_writer "\<lambda>w. fst (snd w)" mp_reader "\<lambda>r. r"
  by unfold_locales
    (auto simp: mp_format_def mp_writer_def mp_reader_def writes_def reads_def put_def nilable_def skip_nil_def mp_gets
      split: prod.splits)

interpretation mpb: msgp_slices mp_format mp_slices
  by unfold_locales
    (auto simp: mp_format_def mp_slices_def mp_gets)

interpretation mpf: msgp_files mp_format mp_writer "\<lambda>w. fst (snd w)" mp_reader "\<lambda>r. r" mp_slices mp_out "\<lambda>f. f" fst
    "\<lambda>w. snd (snd w)" mp_in "\<lambda>i. i" "\<lambda>b. b"
  by unfold_locales
    (auto simp: mp_format_def mp_writer_def mp_out_def mp_in_def put_def fits_bytes_def mp_map_def get_bytes_append split: prod.splits)

end
