(* ===== verification/Samples.thy ===== *)
theory Samples
  imports TreeFind
begin

text \<open>
  Concrete trees, on which the properties are instantiated. They are built by the model's own
  operations, and their invariants come from the lemmas about those operations.
\<close>

definition sample_leaves :: "leaf list" where
  "sample_leaves = [NewLeaf 0 [1, 2] (AnyInt 10) [], NewLeaf 1 [1, 3, 5] (AnyInt 20) [], NewLeaf 2 [1, 3, 6] (AnyInt 30) [],
     NewLeaf 3 [4] (AnyInt 40) []]"

definition sample_tree :: Tree where
  "sample_tree = (case insert_all NewArtTree sample_leaves of Inr t \<Rightarrow> t | Inl e \<Rightarrow> NewArtTree)"

lemma prefix_simps: "prefix (x # xs) (y # ys) \<longleftrightarrow> x = y \<and> prefix xs ys" "\<not> prefix (x # xs) []" "prefix [] ys"
  by simp_all

lemma sample_loadable: "loadable sample_leaves"
  by (simp add: loadable_def sample_leaves_def NewLeaf_def compat_set_def key_compat_def)

lemma sample_exact: "exact sample_tree"
  and sample_tree_leaves: "map unkeyed (tree_leaves sample_tree) = map unkeyed sample_leaves"
  using load_ascending [OF sample_loadable] by (auto simp: sample_tree_def)

lemma sample_facts: "tree_wf sample_tree" "sized sample_tree" "tree_counted sample_tree" "tree_cached sample_tree"
  using sample_exact by (simp_all add: exact_def)

lemma sample_keys: "map Key (tree_leaves sample_tree) = [[1, 2], [1, 3, 5], [1, 3, 6], [4]]"
  "length (tree_leaves sample_tree) = 4"
proof -
  have "map Key (map unkeyed (tree_leaves sample_tree)) = [[1, 2], [1, 3, 5], [1, 3, 6], [4]]"
    unfolding sample_tree_leaves by (simp add: sample_leaves_def NewLeaf_def)
  then show "map Key (tree_leaves sample_tree) = [[1, 2], [1, 3, 5], [1, 3, 6], [4]]" by (simp add: comp_def)
  then have "length (map Key (tree_leaves sample_tree)) = 4" by (simp only:) simp
  then show "length (tree_leaves sample_tree) = 4" by simp
qed

lemma sample_no256: "tree_no256 sample_tree"
  by (rule tree_few_no256) (simp_all add: sample_facts sample_keys)

lemma sample_root: "root sample_tree \<noteq> None"
  using sample_keys(2) by (cases "root sample_tree") (simp_all add: tree_leaves_def)

lemma sample_key_set: "tree_keys sample_tree = {[1, 2], [1, 3, 5], [1, 3, 6], [4]}"
  using arg_cong [OF sample_keys(1), of set] by (simp add: tree_keys_def)

lemma sample_addrs: "l \<in> set (tree_leaves sample_tree) \<Longrightarrow> lf_addr l < 4"
proof -
  assume "l \<in> set (tree_leaves sample_tree)"
  then have "unkeyed l \<in> set (map unkeyed sample_leaves)" unfolding sample_tree_leaves [symmetric] by simp
  then have "lf_addr (unkeyed l) \<in> lf_addr ` unkeyed ` set sample_leaves" by (metis imageI set_map)
  then have "lf_addr l \<in> set (map lf_addr sample_leaves)" by (simp add: image_image)
  then show ?thesis by (auto simp: sample_leaves_def NewLeaf_def)
qed

lemma sample_storable:
  assumes "4 \<le> lf_addr lf" and "\<forall>K \<in> {[1, 2], [1, 3, 5], [1, 3, 6], [4]}. key_compat K (Key lf)"
  shows "storable sample_tree lf"
proof (unfold storable_def, intro ballI conjI impI)
  fix l assume l: "l \<in> set (tree_leaves sample_tree)"
  then have "Key l \<in> tree_keys sample_tree" by (simp add: tree_keys_def)
  then show "key_compat (Key l) (Key lf)" using assms(2) unfolding sample_key_set by blast
  show "unkeyed l = unkeyed lf" if "lf_addr l = lf_addr lf" using sample_addrs [OF l] assms(1) that by simp
qed

lemma sample_filter:
  assumes "xs = filter (\<lambda>l. P (Key l)) (tree_leaves sample_tree)"
    and "ks = filter P [[1, 2], [1, 3, 5], [1, 3, 6], [4]]"
  shows "map Key xs = ks"
  unfolding assms sample_keys(1) [symmetric] by (simp add: filter_map comp_def)

lemma sample_some_leaf: "K \<in> tree_keys sample_tree \<Longrightarrow> P K \<Longrightarrow> \<exists>l \<in> set (tree_leaves sample_tree). P (Key l)"
  by (auto simp: tree_keys_def)

end
