(* ===== verification/Roundtrips.thy ===== *)
theory Roundtrips
  imports MessagePack Samples
begin

text \<open>
  The properties of saving and loading (\<open>saver.go\<close>, \<open>leaf_gen.go\<close>, \<open>tree_gen.go\<close>), under the laws of the libraries
  (the locales of \<open>Wire\<close>, \<open>WireBytes\<close> and \<open>Saver\<close>), and their examples on the implementation of \<open>MessagePack\<close>.
\<close>

section \<open>A tree of byte values\<close>

definition stored_leaves :: "leaf list" where
  "stored_leaves = [NewLeaf 0 [1, 2] (AnyBytes [10]) [], NewLeaf 1 [1, 3, 5] (AnyByteSliceValue []) [], NewLeaf 2 [4] (AnyBytes [8, 9]) [7]]"

definition stored_tree :: Tree where
  "stored_tree = (case insert_all NewArtTree stored_leaves of Inr t \<Rightarrow> t | Inl e \<Rightarrow> NewArtTree)"

lemma stored_loadable: "loadable stored_leaves"
  by (simp add: loadable_def stored_leaves_def NewLeaf_def compat_set_def key_compat_def)

lemma stored_exact: "exact stored_tree" "map unkeyed (tree_leaves stored_tree) = map unkeyed stored_leaves"
  using load_ascending [OF stored_loadable] by (auto simp: stored_tree_def)

lemma stored_facts: "tree_wf stored_tree" "sized stored_tree" "tree_size stored_tree = 3" "length (tree_leaves stored_tree) = 3"
proof -
  show "tree_wf stored_tree" "sized stored_tree" using stored_exact(1) by (simp_all add: exact_def)
  have "length (map unkeyed (tree_leaves stored_tree)) = 3" unfolding stored_exact(2) by (simp add: stored_leaves_def)
  then show "length (tree_leaves stored_tree) = 3" by simp
  then show "tree_size stored_tree = 3" using stored_exact(1) by (simp add: exact_def sized_def)
qed

lemma stored_map:
  assumes "\<And>l. f (unkeyed l) = f l"
  shows "map f (tree_leaves stored_tree) = map f stored_leaves"
  using arg_cong [OF stored_exact(2), of "map f"] assms by (simp add: comp_def)

lemma stored_keys: "map Key (tree_leaves stored_tree) = [[1, 2], [1, 3, 5], [4]]" "[] \<notin> tree_keys stored_tree"
proof -
  show k: "map Key (tree_leaves stored_tree) = [[1, 2], [1, 3, 5], [4]]"
    by (subst stored_map) (simp_all add: stored_leaves_def NewLeaf_def unkeyed_def)
  have "tree_keys stored_tree = set (map Key (tree_leaves stored_tree))" by (simp add: tree_keys_def)
  then show "[] \<notin> tree_keys stored_tree" unfolding k by simp
qed

lemma stored_values: "map Value (tree_leaves stored_tree) = [AnyBytes [10], AnyByteSliceValue [], AnyBytes [8, 9]]"
  by (subst stored_map) (simp_all add: stored_leaves_def NewLeaf_def unkeyed_def)

lemma stored_savable: "\<forall>l \<in> set (tree_leaves stored_tree). savable l"
proof -
  have "map savable (tree_leaves stored_tree) = map savable stored_leaves"
    by (rule stored_map) (simp add: savable_def unkeyed_def)
  also have "\<dots> = [True, True, True]" by (simp add: stored_leaves_def NewLeaf_def savable_def fits_bytes_def)
  finally have "set (map savable (tree_leaves stored_tree)) = {True}" by simp
  then show ?thesis by auto
qed

section \<open>Files\<close>

text \<open>
  C17. A tree that is saved and loaded again has the same keys, in the same order, with the same bytes as
  values (as \<open>ByteSliceValue\<close>), whatever was in the file before; the loaded tree is well formed, with exact
  size, counts and cached sums. The conditions: no reading or writing of the file fails; the size of the tree is exact and not 1 (with
  one leaf \<open>Save\<close> panics); no leaf has the empty key (\<open>Save\<close> would leave it out without an error); and the values are bytes.
  Keys and values are shorter than \<open>2 ^ 32\<close> bytes, which is what MessagePack can hold.
\<close>

theorem save_load:
  assumes "msgp_files F en out dc content B oc fbytes base disk ic ibytes s2"
    and "tree_wf t" and "sized t" and "tree_size t \<noteq> 1" and "[] \<notin> tree_keys t" and "\<forall>l \<in> set (tree_leaves t). savable l"
  shows "\<exists>sv sv' X. NewTreeSaver leafByLeaf globalFullSkipS2 oc en B t f = Some (Inr sv) \<and>
    Save leafByLeaf oc en sv = Some (Inr sv') \<and> NumLeafWrit sv' = tree_Size t \<and> disk (saver_w sv') = fbytes f @ X \<and>
    (\<forall>i. ibytes i = X \<longrightarrow> (\<exists>ld t'. NewTreeLoader leafByLeaf globalFullSkipS2 ic dc B a i = Inr ld \<and>
       Load leafByLeaf dc ld = Some (Inr t') \<and> exact t' \<and> map Key (tree_leaves t') = map Key (tree_leaves t) \<and>
       map Value (tree_leaves t') = map (AnyByteSliceValue \<circ> value_bytes \<circ> Value) (tree_leaves t)))"
  unfolding leafByLeaf_def globalFullSkipS2_def
  using msgp_files.tree_saved [OF assms(1) assms(2-6), of f] msgp_files.file_loaded [OF assms(1) assms(2,6)] by metis

theorem save_load_witness:
  "\<exists>sv sv' ld t'. NewTreeSaver leafByLeaf globalFullSkipS2 mp_out mp_writer mp_slices stored_tree [1, 2, 3] = Some (Inr sv) \<and>
    Save leafByLeaf mp_out mp_writer sv = Some (Inr sv') \<and>
    NewTreeLoader leafByLeaf globalFullSkipS2 mp_in mp_reader mp_slices 0 (drop 3 (snd (snd (saver_w sv')))) = Inr ld \<and>
    Load leafByLeaf mp_reader ld = Some (Inr t') \<and> map Key (tree_leaves t') = [[1, 2], [1, 3, 5], [4]] \<and>
    map Value (tree_leaves t') = [AnyByteSliceValue [10], AnyByteSliceValue [], AnyByteSliceValue [8, 9]]"
proof -
  have "map (AnyByteSliceValue \<circ> value_bytes \<circ> Value) (tree_leaves stored_tree) =
      map (AnyByteSliceValue \<circ> value_bytes) (map Value (tree_leaves stored_tree))" by simp
  also have "\<dots> = [AnyByteSliceValue [10], AnyByteSliceValue [], AnyByteSliceValue [8, 9]]"
    unfolding stored_values by (simp add: value_bytes_def)
  finally have v: "map (AnyByteSliceValue \<circ> value_bytes \<circ> Value) (tree_leaves stored_tree) = \<dots>" .
  show ?thesis
    using save_load [OF mpf.msgp_files_axioms stored_facts(1,2) _ stored_keys(2) stored_savable, of "[1, 2, 3]" 0]
    by (auto simp: stored_facts(3) stored_keys(1) v)
qed

text \<open>
  C18. Without \<open>leafByLeaf\<close> the generated code round trips a tree through its field \<open>Leafz\<close>: decoding what was encoded,
  into a new tree, gives the same keys and values, and leaves the rest of the stream. The conditions are those of saving: the size of the
  tree is exact and not 1 (the hook would record a nil leaf), no leaf has the empty key (the hook would panic), the values are bytes, keys and
  values are shorter than \<open>2 ^ 32\<close> bytes, and there are fewer than \<open>2 ^ 32\<close> leaves.
\<close>

theorem tree_codec_roundtrip:
  assumes "msgp_stream F en out dc content"
    and "tree_wf t" and "sized t" and "tree_size t \<noteq> 1" and "[] \<notin> tree_keys t" and "\<forall>l \<in> set (tree_leaves t). savable l"
    and "length (tree_leaves t) < 2 ^ 32"
  shows "\<exists>w' X. Tree_EncodeMsg False en t w = Some (Inr w') \<and> out w' = out w @ X \<and>
    (\<forall>r xs. content r = (0, X @ xs) \<longrightarrow> (\<exists>t' r'.
       Tree_DecodeMsg False dc (NewArtTree, a) r = Inr ((t', a + length (tree_leaves t)), r') \<and> content r' = (0, xs) \<and>
       exact t' \<and> map Key (tree_leaves t') = map Key (tree_leaves t) \<and>
       map Value (tree_leaves t') = map (AnyByteSliceValue \<circ> value_bytes \<circ> Value) (tree_leaves t)))"
  using msgp_stream.Tree_EncodeMsg_writes [OF assms(1-6), of w] msgp_stream.Tree_DecodeMsg_reads [OF assms(1,2,6,7)] by metis

theorem tree_codec_roundtrip_witness:
  "\<exists>w' t' r'. Tree_EncodeMsg False mp_writer stored_tree ([], [], []) = Some (Inr w') \<and>
    Tree_DecodeMsg False mp_reader (NewArtTree, 5) (0, fst (snd w') @ [42]) = Inr ((t', 8), r') \<and> r' = (0, [42]) \<and>
    map Key (tree_leaves t') = [[1, 2], [1, 3, 5], [4]]"
  using tree_codec_roundtrip [OF mp.msgp_stream_axioms stored_facts(1,2) _ stored_keys(2) stored_savable, of "([], [], [])" 5]
  by (auto simp: stored_facts(3,4) stored_keys(1) dest: spec [of _ "[42]"])

section \<open>Leaves and byte slices\<close>

text \<open>
  C19. The stream codec of leaves: a leaf that its hook accepts, and whose fields MessagePack can hold, is written, and read into any old
  leaf, whose four fields become those of the leaf, empty ones included, and whose value becomes the bytes; the rest of the
  stream is left. A leaf whose type tag the hook does not know is written too, but makes reading panic.
\<close>

theorem leaf_stream_roundtrip:
  assumes "msgp_stream F en out dc content" and "PreSaveHook lf = Inr z" and "fits_leaf z"
  shows "\<exists>w' X. Leaf_EncodeMsg en lf w = Inr w' \<and> out w' = out w @ X \<and>
    (\<forall>r xs. content r = (0, X @ xs) \<longrightarrow>
       (if XTyp z = XTypBytes then \<exists>r'. Leaf_DecodeMsg dc y r = Inr (loaded_leaf y z, r') \<and> content r' = (0, xs)
        else \<exists>m. Leaf_DecodeMsg dc y r = Inl (Panics (PanicMessage m))))"
  using msgp_stream.Leaf_EncodeMsg_writes [OF assms, of w] msgp_stream.Leaf_DecodeMsg_reads [OF assms(1,3)]
    msgp_stream.Leaf_DecodeMsg_panics [OF assms(1,3)]
  unfolding writes_def reads_def by metis

theorem leaf_stream_roundtrip_witness:
  "\<exists>w' r'. Leaf_EncodeMsg mp_writer (NewLeaf 3 [1, 2] (AnyBytes [9]) []) ([], [], []) = Inr w' \<and>
    Leaf_DecodeMsg mp_reader (new_leaf 8) (0, fst (snd w')) = Inr (loaded_leaf (new_leaf 8) (NewLeaf 3 [1, 2] (AnyBytes [9]) [9]), r')"
proof -
  let ?l = "NewLeaf 3 [1, 2] (AnyBytes [9]) []" and ?z = "NewLeaf 3 [1, 2] (AnyBytes [9]) [9]"
  have "PreSaveHook ?l = Inr ?z" "fits_leaf ?z" "XTyp ?z = XTypBytes"
    by (simp_all add: PreSaveHook_def NewLeaf_def XTypBytes_def fits_leaf_def fits_bytes_def fits_int_def)
  then show ?thesis
    using leaf_stream_roundtrip [OF mp.msgp_stream_axioms, of ?l ?z "([], [], [])" "new_leaf 8"] by (auto dest: spec [of _ "[]"])
qed

text \<open>
  C20. The codec of leaves on byte slices: \<open>MarshalMsg\<close> of a leaf that its hook accepts, and whose fields MessagePack can hold, appends to
  its argument, whatever the type tag is. When the tag after the hook is the one of bytes, \<open>UnmarshalMsg\<close> reads the fields back into any
  old leaf, with the bytes as value, and returns the bytes that follow; with any other tag, which the hook leaves on a leaf with a nil
  value, \<open>UnmarshalMsg\<close> panics.
\<close>

theorem leaf_bytes_roundtrip:
  assumes "msgp_slices F B" and "PreSaveHook lf = Inr z" and "fits_leaf z"
  shows "\<exists>X. Leaf_MarshalMsg B lf b = Inr (b @ X) \<and>
    (\<forall>y xs. if XTyp z = XTypBytes then Leaf_UnmarshalMsg B y (X @ xs) = Inr (loaded_leaf y z, xs)
       else \<exists>m. Leaf_UnmarshalMsg B y (X @ xs) = Inl (Panics (PanicMessage m)))"
  using msgp_slices.Leaf_marshal [OF assms, of b] msgp_slices.Leaf_unmarshal [OF assms(1,3)] by (metis append_assoc)

theorem leaf_bytes_roundtrip_witness:
  "\<exists>X. Leaf_MarshalMsg mp_slices (NewLeaf 3 [1, 2] (AnyBytes [9]) []) [5] = Inr (5 # X) \<and>
    Leaf_UnmarshalMsg mp_slices (new_leaf 8) (X @ [6]) = Inr (loaded_leaf (new_leaf 8) (NewLeaf 3 [1, 2] (AnyBytes [9]) [9]), [6])"
proof -
  let ?l = "NewLeaf 3 [1, 2] (AnyBytes [9]) []" and ?z = "NewLeaf 3 [1, 2] (AnyBytes [9]) [9]"
  have "PreSaveHook ?l = Inr ?z" "fits_leaf ?z" "XTyp ?z = XTypBytes"
    by (simp_all add: PreSaveHook_def NewLeaf_def XTypBytes_def fits_leaf_def fits_bytes_def fits_int_def)
  then show ?thesis using leaf_bytes_roundtrip [OF mpb.msgp_slices_axioms, of ?l ?z "[5]"] by auto
qed

text \<open>
  The stream codec of \<open>TestBytes\<close> reads back what it wrote, unless the bytes are empty: then the decoder leaves
  the bytes of its receiver as they were.
\<close>

theorem test_bytes_roundtrip:
  assumes "msgp_stream F en out dc content" and "fits_bytes (Slc z)"
  shows "\<exists>w' X. TestBytes_EncodeMsg en z w = Inr w' \<and> out w' = out w @ X \<and>
    (\<forall>r xs. content r = (0, X @ xs) \<longrightarrow>
       (\<exists>r'. TestBytes_DecodeMsg dc y r = Inr (if Slc z = [] then y else z, r') \<and> content r' = (0, xs)))"
  using msgp_stream.TestBytes_writes [OF assms, of w] msgp_stream.TestBytes_reads [OF assms]
  unfolding writes_def reads_def by metis

section \<open>Errors\<close>

lemma one_leaf_Next:
  assumes "root t = Some (bnodeLeaf l)" and "Key l \<noteq> []"
  shows "\<exists>i'. it_Next (tree_Iterator t [] []) = Some (Inr (i', True)) \<and> it_TheLeaf i' = None"
proof -
  have "inRange (tree_Iterator t [] []\<lparr>closed := True\<rparr>) (Key l)"
    using assms(2) by (simp add: inRange_iff tree_Iterator_def Nil_less)
  then show ?thesis using assms(1)
    by (simp add: it_Next_def it_init_def it_TheLeaf_def Let_def) (simp add: tree_Iterator_def)
qed

text \<open>
  C21. Saving a tree of one leaf, under a key that is not empty, panics: the iterator returns the key and the value
  but not the leaf, and the saver encodes the nil pointer.
\<close>

theorem save_one_leaf_panics:
  assumes "root (saver_tree sv) = Some (bnodeLeaf l)" and "Key l \<noteq> []"
  shows "Save True oc en sv = Some (Inl (Panics NilDereference))"
proof -
  obtain i' where "it_Next (tree_Iterator (saver_tree sv) [] []) = Some (Inr (i', True))" "it_TheLeaf i' = None"
    using one_leaf_Next [OF assms] by blast
  then have "save_leaves en (tree_Iterator (saver_tree sv) [] []) n w = Some (Inl (Panics NilDereference))" for n w
    by (subst save_leaves.simps) simp
  then show ?thesis by (simp add: Save_def)
qed

theorem save_one_leaf_panics_witness:
  "\<exists>t u. tree_Insert 0 NewArtTree [1] (AnyBytes [2]) = Inr (t, u) \<and>
    Save True mp_out mp_writer \<lparr>saver_w = ([], [], []), numLeafWrit = 0, saver_tree = t, skipS2 = False\<rparr> = Some (Inl (Panics NilDereference))"
proof -
  let ?l = "NewLeaf 0 [1] (AnyBytes [2]) []"
  have "tree_Insert 0 NewArtTree [1] (AnyBytes [2]) = Inr (NewArtTree\<lparr>tree_size := 1, root := Some (bnodeLeaf ?l)\<rparr>, False)"
    by (simp add: tree_Insert_def tree_InsertLeaf_def NewArtTree_def)
  moreover have "Key ?l \<noteq> []" by (simp add: NewLeaf_def)
  ultimately show ?thesis
    using save_one_leaf_panics [of "\<lparr>saver_w = ([], [], []), numLeafWrit = 0, saver_tree = NewArtTree\<lparr>tree_size := 1, root := Some (bnodeLeaf ?l)\<rparr>,
      skipS2 = False\<rparr>" ?l mp_out mp_writer] by (simp add: ex_bool)
qed

end
