(* ===== verification/NodeCalls.thy ===== *)
theory NodeCalls
  imports LeafOps
begin

text \<open>
  Histories of one node: the calls that an inner node makes on it when a child is added, exchanged or removed (\<open>addChild\<close> after \<open>grow\<close>,
  \<open>replace\<close>, \<open>shrink\<close>; \<open>inner.go\<close>), and the map from bytes to children that they refine. The type of the node always fits the number of
  its children.
\<close>

datatype node_call = AddKid byte bnode | SetKid byte bnode | DelKid byte

fun node_do :: "bnode inode \<Rightarrow> node_call \<Rightarrow> bnode inode res" where
  "node_do nd (AddKid k c) = rbind (if inode_full nd then rbind (inode_grow nd) deref else Inr nd) (\<lambda>nd1. inode_addChild nd1 k c)"
| "node_do nd (SetKid k c) = rbind (inode_child nd k) (\<lambda>(i, old). rbind (inode_replace nd i (Some c) False) (\<lambda>(nd1, old). Inr nd1))"
| "node_do nd (DelKid k) = rbind (inode_child nd k) (\<lambda>(i, old). rbind (inode_replace nd i None True) (\<lambda>(nd1, old).
     if inode_min nd \<and> inode_Kind nd \<noteq> Node4 then inode_shrink nd1 else Inr nd1))"

fun node_do_all :: "bnode inode \<Rightarrow> node_call list \<Rightarrow> bnode inode res" where
  "node_do_all nd [] = Inr nd"
| "node_do_all nd (c # cs) = rbind (node_do nd c) (\<lambda>nd1. node_do_all nd1 cs)"

text \<open>The map, with the cached sums left out.\<close>

fun node_spec :: "(byte \<Rightarrow> bnode option) \<Rightarrow> node_call \<Rightarrow> byte \<Rightarrow> bnode option" where
  "node_spec f (AddKid k c) = f(k \<mapsto> set_pren 0 c)"
| "node_spec f (SetKid k c) = f(k \<mapsto> set_pren 0 c)"
| "node_spec f (DelKid k) = f(k := None)"

text \<open>
  When the inner node makes the calls: it adds where there is no child, exchanges or removes one that is there, and keeps two children, since
  it replaces itself by the last one before.
\<close>

fun node_call_ok :: "(byte \<Rightarrow> bnode option) \<Rightarrow> node_call \<Rightarrow> bool" where
  "node_call_ok f (AddKid k c) \<longleftrightarrow> f k = None"
| "node_call_ok f (SetKid k c) \<longleftrightarrow> f k \<noteq> None"
| "node_call_ok f (DelKid k) \<longleftrightarrow> f k \<noteq> None \<and> 2 < length (entries_of f)"

fun node_calls_ok :: "(byte \<Rightarrow> bnode option) \<Rightarrow> node_call list \<Rightarrow> bool" where
  "node_calls_ok f [] \<longleftrightarrow> True"
| "node_calls_ok f (c # cs) \<longleftrightarrow> node_call_ok f c \<and> node_calls_ok (node_spec f c) cs"

text \<open>The numbers of children for which each type is used.\<close>

definition kind_range :: "Kind \<Rightarrow> int set" where
  "kind_range k = (case k of Node4 \<Rightarrow> {2..4} | Node16 \<Rightarrow> {5..16} | Node48 \<Rightarrow> {17..48} | Node256 \<Rightarrow> {49..256} | Leafy \<Rightarrow> {})"

lemma node_step:
  assumes ok: "inode_ok nd" "fit nd" and call: "node_call_ok (erase (inode_kid nd)) c"
  shows "\<exists>nd'. node_do nd c = Inr nd' \<and> inode_ok nd' \<and> fit nd' \<and> erase (inode_kid nd') = node_spec (erase (inode_kid nd)) c"
proof (cases c)
  case (AddKid k c)
  then have "inode_kid nd k = None" using call by simp
  from inode_add [OF ok this, of c] show ?thesis using AddKid by auto
next
  case (SetKid k c')
  then obtain old where "inode_kid nd k = Some old" using call by auto
  then obtain i where i: "inode_child nd k = Inr (i, Some old)" using nd.child_law [OF ok(1), of k] by auto
  obtain nd1 where n: "inode_replace nd i (Some c') False = Inr (nd1, Some old)" "inode_ok nd1" "inode_kid nd1 = (inode_kid nd)(k \<mapsto> c')"
    using ndw.write_through [OF ok(1) i, of c'] by blast
  have "length (entries_of (inode_kid nd1)) = length (entries_of (inode_kid nd))"
    using SetKid \<open>inode_kid nd k = Some old\<close> unfolding n(3) by (subst (2) entries_split [of _ k]) (simp add: entries_upd)
  then have "fit nd1" using ok(2) replace_Kind [OF n(1)] nd.nchild_law [OF ok(1)] nd.nchild_law [OF n(2)] by (simp add: fit_def)
  then show ?thesis using SetKid i n by simp
next
  case (DelKid k)
  then obtain old where old: "inode_kid nd k = Some old" and two: "2 < length (entries_of (inode_kid nd))" using call by (auto simp: length_entries_erase)
  then obtain i where i: "inode_child nd k = Inr (i, Some old)" using nd.child_law [OF ok(1), of k] by auto
  have "\<not> (inode_Kind nd = Node4 \<and> inode_min nd)" using two nd.nchild_law [OF ok(1)] ok(2) by (cases nd) (auto simp: resize_defs)
  from inode_del [OF ok i this] show ?thesis using DelKid i by auto
qed

lemma node_steps:
  "inode_ok nd \<Longrightarrow> fit nd \<Longrightarrow> node_calls_ok (erase (inode_kid nd)) cs \<Longrightarrow>
   \<exists>nd'. node_do_all nd cs = Inr nd' \<and> inode_ok nd' \<and> fit nd' \<and> erase (inode_kid nd') = fold (\<lambda>c f. node_spec f c) cs (erase (inode_kid nd))"
proof (induction cs arbitrary: nd)
  case (Cons c cs)
  then obtain nd' where "node_do nd c = Inr nd'" "inode_ok nd'" "fit nd'" "erase (inode_kid nd') = node_spec (erase (inode_kid nd)) c"
    using node_step [of nd c] by auto
  with Cons.IH [of nd'] Cons.prems(3) show ?case by simp
qed simp

lemma kind_range_iff: "inode_ok nd \<Longrightarrow> inode_nchild nd \<in> kind_range (inode_Kind nd) \<longleftrightarrow> fit nd"
proof -
  assume ok: "inode_ok nd"
  have "length (entries_of (inode_kid nd)) \<le> length all_bytes" unfolding entries_of_def by simp
  then have all: "inode_nchild nd \<le> 256" using nd.nchild_law [OF ok] by (simp add: all_bytes_def range256_def del: upt_rec_numeral)
  show ?thesis
  proof (cases nd)
    case (N4 n)
    then show ?thesis using ok arr_repD(4) [of 4] by (auto simp: resize_defs kind_range_def fit_def node4_ok_def arr_ok_iff arr_rep_def)
  next
    case (N16 n)
    then show ?thesis using ok by (auto simp: resize_defs kind_range_def fit_def node16_ok_def arr_ok_iff arr_rep_def)
  next
    case (N48 n)
    then have ok48: "node48_ok n" using ok by (simp add: inode_ok_def)
    let ?ks = "filter (\<lambda>k. k \<noteq> 0) (keys48 n)"
    have "unat ` set ?ks \<subseteq> {1..48}" using ok48 by (auto simp: node48_ok_def Suc_le_eq unat_gt_0)
    then have "card (unat ` set ?ks) \<le> card {1..48 :: nat}" by (intro card_mono) simp_all
    moreover have "card (unat ` set ?ks) = length ?ks"
      using ok48 by (subst card_image) (auto intro: inj_onI word_unat_eq_iff [THEN iffD2] simp: distinct_card node48_ok_def simp del: set_filter)
    ultimately have "lth48 n \<le> 48" using ok48 by (simp add: node48_ok_def)
    then show ?thesis using N48 by (auto simp: resize_defs kind_range_def fit_def)
  next
    case (N256 n)
    then show ?thesis using all by (auto simp: resize_defs kind_range_def fit_def)
  qed
qed

text \<open>An example: two children, three more and one less.\<close>

definition two_kids :: "bnode inode" where
  "two_kids = N4 (Mk4 2 [1, 2, 0, 0] [Some (bnodeLeaf (NewLeaf 0 [1] AnyNil [])), Some (bnodeLeaf (NewLeaf 1 [2] AnyNil [])), None, None])"

text \<open>
  C35. However children are added, exchanged and removed, as long as a child is there when it is exchanged or removed, is absent when it is added, and
  two are left: no call panics, the node has the children of a map on which the same is done, and its type is the one for the number of its
  children: 2 to 4, 5 to 16, 17 to 48, or 49 to 256.
\<close>

theorem node_type_fits:
  assumes "inode_ok nd" and "inode_nchild nd \<in> kind_range (inode_Kind nd)" and "node_calls_ok (erase (inode_kid nd)) cs"
  shows "\<exists>nd'. node_do_all nd cs = Inr nd' \<and> inode_ok nd' \<and> inode_nchild nd' \<in> kind_range (inode_Kind nd') \<and>
    erase (inode_kid nd') = fold (\<lambda>c f. node_spec f c) cs (erase (inode_kid nd))"
  using node_steps [OF assms(1) _ assms(3)] assms(2) by (auto simp: kind_range_iff assms(1))

theorem node_type_fits_witness:
  "\<exists>nd'. node_do_all two_kids [AddKid 9 (bnodeLeaf (NewLeaf 2 [9] AnyNil [])), AddKid 4 (bnodeLeaf (NewLeaf 3 [4] AnyNil [])),
      AddKid 7 (bnodeLeaf (NewLeaf 4 [7] AnyNil [])), DelKid 2] = Inr nd' \<and> inode_nchild nd' \<in> kind_range (inode_Kind nd') \<and>
    inode_kid nd' 2 = None \<and> inode_kid nd' 7 \<noteq> None"
proof -
  let ?l = "\<lambda>a k. bnodeLeaf (NewLeaf a [k] AnyNil [])"
  have r: "arr_rep 4 [(1, ?l 0 1), (2, ?l 1 2)] 2 [1, 2, 0, 0] [Some (?l 0 1), Some (?l 1 2), None, None]"
    by (simp add: arr_rep_def numeral_eq_Suc)
  have two: "inode_ok two_kids" "erase (inode_kid two_kids) = [1 \<mapsto> set_pren 0 (?l 0 1), 2 \<mapsto> set_pren 0 (?l 1 2)]"
    using arr_okI [OF r] by (auto simp: two_kids_def inode_ok_def inode_kid_def node4_ok_def node4_kid_def erase_def fun_eq_iff)
  have range: "inode_nchild two_kids \<in> kind_range (inode_Kind two_kids)"
    by (simp add: two_kids_def inode_nchild_def node4_nchild_def kind_range_def)
  have "entries_of (\<lambda>_. None :: bnode option) = []" by (simp add: entries_eq_Nil)
  then have calls: "node_calls_ok (erase (inode_kid two_kids)) [AddKid 9 (?l 2 9), AddKid 4 (?l 3 4), AddKid 7 (?l 4 7), DelKid 2]"
    unfolding two(2) by (simp add: length_entries_upd)
  from node_type_fits [OF two(1) range calls] obtain nd' where nd': "node_do_all two_kids [AddKid 9 (?l 2 9), AddKid 4 (?l 3 4), AddKid 7 (?l 4 7), DelKid 2] = Inr nd'"
    "inode_nchild nd' \<in> kind_range (inode_Kind nd')" and e: "erase (inode_kid nd') = fold (\<lambda>c f. node_spec f c)
      [AddKid 9 (?l 2 9), AddKid 4 (?l 3 4), AddKid 7 (?l 4 7), DelKid 2] [1 \<mapsto> set_pren 0 (?l 0 1), 2 \<mapsto> set_pren 0 (?l 1 2)]"
    unfolding two(2) by blast
  have "erase (inode_kid nd') 2 = None" "erase (inode_kid nd') 7 \<noteq> None" unfolding e by simp_all
  then show ?thesis using nd' by (auto simp: erase_def)
qed

end
