(* ===== verification/TreeLocks.thy ===== *)
theory TreeLocks
  imports Histories Samples "HOL-Library.Multiset"
begin

text \<open>
  Goroutines that share one tree (\<open>tree.go\<close>). Each public operation is a sequence of steps: the calls of the
  methods of \<open>Rwmut\<close>, and the body between them, which begins and ends at different times. What a body does
  is the operation of \<open>TreeApi\<close>, on the tree that it found when it began; that this tree does not change under it
  is a theorem. \<open>sync.RWMutex\<close> is modelled as documented: a \<open>Lock\<close> first announces itself, from then on no new reader
  gets the lock, and it has the lock when the readers have left.
\<close>

section \<open>The operations\<close>

datatype request =
    ReqCall call
  | ReqInsertLeaf leaf
  | ReqFind SearchModifier key
  | ReqAt int
  | ReqAtv int
  | ReqLeafIndex leaf

datatype answer =
    AnsCall outcome
  | AnsFind "leaf option \<times> int \<times> bool"
  | AnsAt "leaf option \<times> bool"
  | AnsAtv "any \<times> bool"
  | AnsIndex "int \<times> bool"

fun perform :: "world \<Rightarrow> request \<Rightarrow> (world \<times> answer) res" where
  "perform w (ReqCall c) = rbind (exec w c) (\<lambda>(w', out). Inr (w', AnsCall out))"
| "perform (a, t) (ReqInsertLeaf lf) = rbind (tree_InsertLeaf t lf) (\<lambda>(t', u). Inr ((a, t'), AnsCall (Updated u)))"
| "perform (a, t) (ReqFind smod K) = rbind (tree_Find t smod K) (\<lambda>r. Inr ((a, t), AnsFind r))"
| "perform (a, t) (ReqAt i) = rbind (tree_At t i) (\<lambda>r. Inr ((a, t), AnsAt r))"
| "perform (a, t) (ReqAtv i) = rbind (tree_Atv t i) (\<lambda>r. Inr ((a, t), AnsAtv r))"
| "perform (a, t) (ReqLeafIndex lf) = rbind (tree_LeafIndex t lf) (\<lambda>r. Inr ((a, t), AnsIndex r))"

fun writes_tree :: "request \<Rightarrow> bool" where
  "writes_tree (ReqCall (CallInsert K v)) = True"
| "writes_tree (ReqCall (CallInsertX K v x)) = True"
| "writes_tree (ReqCall (CallRemove K)) = True"
| "writes_tree (ReqInsertLeaf lf) = True"
| "writes_tree _ = False"

section \<open>The steps of the operations\<close>

datatype lock_op = RLockOp | RUnlockOp | AnnounceOp | LockOp | UnlockOp | BeginOp | EndOp

text \<open>\<open>Rwmut.Lock()\<close> is two steps, the announcement and the acquisition. The argument is \<open>SkipLocking\<close>.\<close>

definition InsertLeaf_steps :: "bool \<Rightarrow> lock_op list" where
  "InsertLeaf_steps skip = (if \<not> skip then [AnnounceOp, LockOp] else []) @ [BeginOp, EndOp] @ (if \<not> skip then [UnlockOp] else [])"

definition Remove_steps :: "bool \<Rightarrow> lock_op list" where
  "Remove_steps skip = (if \<not> skip then [AnnounceOp, LockOp] else []) @ [BeginOp, EndOp] @ (if \<not> skip then [UnlockOp] else [])"

definition Find_steps :: "bool \<Rightarrow> lock_op list" where
  "Find_steps skip = (if \<not> skip then [RLockOp] else []) @ [BeginOp, EndOp] @ (if \<not> skip then [RUnlockOp] else [])"

definition Size_steps :: "bool \<Rightarrow> lock_op list" where
  "Size_steps skip = (if skip then [BeginOp, EndOp] else [RLockOp, BeginOp, EndOp, RUnlockOp])"

definition IsEmpty_steps :: "bool \<Rightarrow> lock_op list" where
  "IsEmpty_steps skip = (if skip then [BeginOp, EndOp] else [RLockOp, BeginOp, EndOp, RUnlockOp])"

definition At_steps :: "bool \<Rightarrow> lock_op list" where
  "At_steps skip = (if skip then [BeginOp, EndOp] else [RLockOp, BeginOp, EndOp, RUnlockOp])"

definition Atv_steps :: "bool \<Rightarrow> lock_op list" where
  "Atv_steps skip = (if skip then [BeginOp, EndOp] else [RLockOp, BeginOp, EndOp, RUnlockOp])"

text \<open>\<open>LeafIndex\<close> takes the read lock, whatever \<open>SkipLocking\<close> says, and \<open>Find\<close> takes it again below.\<close>

definition LeafIndex_steps :: "bool \<Rightarrow> lock_op list" where
  "LeafIndex_steps skip = [RLockOp] @ Find_steps skip @ [RUnlockOp]"

fun steps_of :: "bool \<Rightarrow> request \<Rightarrow> lock_op list" where
  "steps_of skip (ReqCall (CallInsert K v)) = InsertLeaf_steps skip"
| "steps_of skip (ReqCall (CallInsertX K v x)) = InsertLeaf_steps skip"
| "steps_of skip (ReqCall (CallRemove K)) = Remove_steps skip"
| "steps_of skip (ReqCall (CallFindExact K)) = Find_steps skip"
| "steps_of skip (ReqCall CallSize) = Size_steps skip"
| "steps_of skip (ReqCall CallIsEmpty) = IsEmpty_steps skip"
| "steps_of skip (ReqInsertLeaf lf) = InsertLeaf_steps skip"
| "steps_of skip (ReqFind smod K) = Find_steps skip"
| "steps_of skip (ReqAt i) = At_steps skip"
| "steps_of skip (ReqAtv i) = Atv_steps skip"
| "steps_of skip (ReqLeafIndex lf) = LeafIndex_steps skip"

text \<open>
  What is left to do when the body panics: the deferred calls. The writers and \<open>Find\<close> have one that gives the lock back; \<open>Size\<close>,
  \<open>IsEmpty\<close>, \<open>At\<close> and \<open>Atv\<close> have none, and of \<open>LeafIndex\<close> only the deferred call of \<open>Find\<close> runs.
\<close>

fun deferred_steps :: "bool \<Rightarrow> request \<Rightarrow> lock_op list" where
  "deferred_steps skip (ReqCall (CallInsert K v)) = (if \<not> skip then [UnlockOp] else [])"
| "deferred_steps skip (ReqCall (CallInsertX K v x)) = (if \<not> skip then [UnlockOp] else [])"
| "deferred_steps skip (ReqCall (CallRemove K)) = (if \<not> skip then [UnlockOp] else [])"
| "deferred_steps skip (ReqInsertLeaf lf) = (if \<not> skip then [UnlockOp] else [])"
| "deferred_steps skip (ReqCall (CallFindExact K)) = (if \<not> skip then [RUnlockOp] else [])"
| "deferred_steps skip (ReqFind smod K) = (if \<not> skip then [RUnlockOp] else [])"
| "deferred_steps skip (ReqLeafIndex lf) = (if \<not> skip then [RUnlockOp] else [])"
| "deferred_steps skip _ = []"

section \<open>Goroutines\<close>

text \<open>A goroutine in an operation: the request, the steps that are left, and the tree that its body found.\<close>

datatype task = Idle | Task request "lock_op list" "world option"

record shared =
  memory :: world
  rw_owner :: "nat option"
  rw_held :: bool
  rw_readers :: "nat multiset"
  tasks :: "nat \<Rightarrow> task"
  performed :: "(nat \<times> request \<times> answer res) list"

definition fresh_system :: "world \<Rightarrow> shared" where
  "fresh_system w = \<lparr>memory = w, rw_owner = None, rw_held = False, rw_readers = {#}, tasks = (\<lambda>g. Idle), performed = []\<rparr>"

definition set_task :: "nat \<Rightarrow> task \<Rightarrow> shared \<Rightarrow> shared" where
  "set_task g k s = s\<lparr>tasks := (tasks s)(g := k)\<rparr>"

text \<open>
  A body that panics runs its deferred calls and returns to its caller, which recovers (otherwise the process ends, and there is
  nothing to say). A writer that panics may have changed the tree before: what it leaves is any tree.
\<close>

inductive gstep :: "bool \<Rightarrow> request set \<Rightarrow> shared \<Rightarrow> shared \<Rightarrow> bool" for skip Q where
  invoke: "tasks s g = Idle \<Longrightarrow> q \<in> Q \<Longrightarrow> gstep skip Q s (set_task g (Task q (steps_of skip q) None) s)"
| return: "tasks s g = Task q [] sn \<Longrightarrow> gstep skip Q s (set_task g Idle s)"
| rlock: "tasks s g = Task q (RLockOp # os) sn \<Longrightarrow> rw_owner s = None \<Longrightarrow>
    gstep skip Q s (set_task g (Task q os sn) (s\<lparr>rw_readers := add_mset g (rw_readers s)\<rparr>))"
| runlock: "tasks s g = Task q (RUnlockOp # os) sn \<Longrightarrow>
    gstep skip Q s (set_task g (Task q os sn) (s\<lparr>rw_readers := rw_readers s - {#g#}\<rparr>))"
| announce: "tasks s g = Task q (AnnounceOp # os) sn \<Longrightarrow> rw_owner s = None \<Longrightarrow>
    gstep skip Q s (set_task g (Task q os sn) (s\<lparr>rw_owner := Some g\<rparr>))"
| lock: "tasks s g = Task q (LockOp # os) sn \<Longrightarrow> rw_owner s = Some g \<Longrightarrow> rw_readers s = {#} \<Longrightarrow>
    gstep skip Q s (set_task g (Task q os sn) (s\<lparr>rw_held := True\<rparr>))"
| unlock: "tasks s g = Task q (UnlockOp # os) sn \<Longrightarrow>
    gstep skip Q s (set_task g (Task q os sn) (s\<lparr>rw_owner := None, rw_held := False\<rparr>))"
| body_begins: "tasks s g = Task q (BeginOp # os) sn \<Longrightarrow> gstep skip Q s (set_task g (Task q os (Some (memory s))) s)"
| body_ends: "tasks s g = Task q (EndOp # os) (Some w) \<Longrightarrow> perform w q = Inr (w', a) \<Longrightarrow>
    gstep skip Q s (set_task g (Task q os None) (s\<lparr>memory := (if writes_tree q then w' else memory s),
      performed := performed s @ [(g, q, Inr a)]\<rparr>))"
| body_panics: "tasks s g = Task q (EndOp # os) (Some w) \<Longrightarrow> perform w q = Inl e \<Longrightarrow> (\<not> writes_tree q \<Longrightarrow> w' = memory s) \<Longrightarrow>
    gstep skip Q s (set_task g (Task q (deferred_steps skip q) None) (s\<lparr>memory := w', performed := performed s @ [(g, q, Inl e)]\<rparr>))"

abbreviation gsteps :: "bool \<Rightarrow> request set \<Rightarrow> shared \<Rightarrow> shared \<Rightarrow> bool" where
  "gsteps skip Q \<equiv> (gstep skip Q)\<^sup>*\<^sup>*"

text \<open>
  The requests one after the other, each without interruption, with their answers or panics: from one tree to another. Only
  after a writer that panicked there is a choice.
\<close>

inductive in_turn_from :: "world \<Rightarrow> (request \<times> answer res) list \<Rightarrow> world \<Rightarrow> bool" for w where
  nothing: "in_turn_from w [] w"
| answers: "in_turn_from w rs w1 \<Longrightarrow> perform w1 q = Inr (w2, a) \<Longrightarrow> in_turn_from w (rs @ [(q, Inr a)]) w2"
| panics: "in_turn_from w rs w1 \<Longrightarrow> perform w1 q = Inl e \<Longrightarrow> (\<not> writes_tree q \<Longrightarrow> w2 = w1) \<Longrightarrow> in_turn_from w (rs @ [(q, Inl e)]) w2"





lemma reading_call_keeps: "\<not> writes_tree (ReqCall c) \<Longrightarrow> exec w c = Inr (w', out) \<Longrightarrow> w' = w"
  by (cases w; cases c) (auto simp: rbind_eq_Inr)

lemma reader_keeps: "\<not> writes_tree q \<Longrightarrow> perform w q = Inr (w', a) \<Longrightarrow> w' = w"
  by (induction w q rule: perform.induct) (auto simp: rbind_eq_Inr dest: reading_call_keeps)

section \<open>The invariant\<close>

definition is_reader :: "lock_op list \<Rightarrow> nat" where
  "is_reader os = count_list os RUnlockOp - count_list os RLockOp"

definition announced :: "lock_op list \<Rightarrow> bool" where
  "announced os \<longleftrightarrow> UnlockOp \<in> set os \<and> AnnounceOp \<notin> set os"

definition has_lock :: "lock_op list \<Rightarrow> bool" where
  "has_lock os \<longleftrightarrow> UnlockOp \<in> set os \<and> LockOp \<notin> set os"

fun task_ok :: "shared \<Rightarrow> nat \<Rightarrow> task \<Rightarrow> bool" where
  "task_ok s g Idle \<longleftrightarrow> rw_owner s \<noteq> Some g"
| "task_ok s g (Task q os sn) \<longleftrightarrow> suffix os (steps_of False q) \<and> is_reader os \<le> count (rw_readers s) g \<and>
     (sn \<noteq> None \<longleftrightarrow> os \<noteq> [] \<and> hd os = EndOp) \<and> (\<forall>w. sn = Some w \<longrightarrow> w = memory s) \<and>
     (announced os \<longleftrightarrow> rw_owner s = Some g) \<and> (announced os \<longrightarrow> (has_lock os \<longleftrightarrow> rw_held s))"

definition locks_ok :: "shared \<Rightarrow> bool" where
  "locks_ok s \<longleftrightarrow> (\<forall>g. task_ok s g (tasks s g)) \<and> (rw_held s \<longrightarrow> rw_owner s \<noteq> None \<and> rw_readers s = {#})"

text \<open>The steps that are left, by the kind of the request.\<close>

lemma writer_steps: "writes_tree q \<Longrightarrow> steps_of False q = [AnnounceOp, LockOp, BeginOp, EndOp, UnlockOp]"
  by (induction q rule: writes_tree.induct) (simp_all add: InsertLeaf_steps_def Remove_steps_def)

lemma reader_steps: "\<not> writes_tree q \<Longrightarrow> steps_of False q = [RLockOp, BeginOp, EndOp, RUnlockOp] \<or>
    steps_of False q = [RLockOp, RLockOp, BeginOp, EndOp, RUnlockOp, RUnlockOp] \<and> (\<exists>lf. q = ReqLeafIndex lf)"
  by (induction q rule: writes_tree.induct)
    (simp_all add: Find_steps_def Size_steps_def IsEmpty_steps_def At_steps_def Atv_steps_def LeafIndex_steps_def)

lemma suffix_simps: "suffix xs (y # ys) \<longleftrightarrow> xs = y # ys \<or> suffix xs ys" "suffix xs [] \<longleftrightarrow> xs = []"
  by (auto simp: suffix_Cons)

lemma deferred_suffix: "suffix (deferred_steps False q) (steps_of False q)"
  by (induction q rule: writes_tree.induct)
    (simp_all add: InsertLeaf_steps_def Remove_steps_def Find_steps_def LeafIndex_steps_def suffix_simps)

lemma deferred_cases:
  "writes_tree q \<and> deferred_steps False q = [UnlockOp] \<or>
    \<not> writes_tree q \<and> (deferred_steps False q = [] \<or> deferred_steps False q = [RUnlockOp])"
  by (induction q rule: writes_tree.induct) simp_all

lemmas op_counts = is_reader_def announced_def has_lock_def


lemma mutual_exclusion:
  assumes "locks_ok s" and "tasks s g = Task q os sn" and "writes_tree q" and "has_lock os"
    and "tasks s g' = Task q' os' (Some w)" and "g' \<noteq> g"
  shows False
proof -
  have k: "task_ok s g (tasks s g)" "task_ok s g' (tasks s g')" using assms(1) by (simp_all add: locks_ok_def)
  have "announced os" using k(1) assms(2-4) writer_steps by (auto simp: suffix_simps op_counts)
  then have o: "rw_owner s = Some g" "rw_held s" using k(1) assms(2,4) by auto
  then have none: "rw_readers s = {#}" using assms(1) by (simp add: locks_ok_def)
  have o': "hd os' = EndOp" "os' \<noteq> []" "\<not> announced os'" "is_reader os' = 0" "suffix os' (steps_of False q')"
    using k(2) assms(5,6) o none by auto
  show False
  proof (cases "writes_tree q'")
    case True
    then show False using o' writer_steps [of q'] by (auto simp: suffix_simps op_counts)
  next
    case False
    then show False using o' reader_steps [of q'] by (auto simp: suffix_simps op_counts)
  qed
qed

text \<open>A step of one goroutine leaves what is said of the others.\<close>

lemma locks_ok_step:
  assumes "locks_ok s" and "task_ok s' g (tasks s' g)" and "rw_held s' \<longrightarrow> rw_owner s' \<noteq> None \<and> rw_readers s' = {#}"
    and "\<And>h. h \<noteq> g \<Longrightarrow> tasks s' h = tasks s h" and "\<And>h. h \<noteq> g \<Longrightarrow> count (rw_readers s') h = count (rw_readers s) h"
    and "\<And>h. h \<noteq> g \<Longrightarrow> rw_owner s' = Some h \<longleftrightarrow> rw_owner s = Some h"
    and "\<And>h. h \<noteq> g \<Longrightarrow> rw_owner s = Some h \<Longrightarrow> rw_held s' = rw_held s"
    and "\<And>h q os w. h \<noteq> g \<Longrightarrow> tasks s h = Task q os (Some w) \<Longrightarrow> memory s' = memory s"
  shows "locks_ok s'"
  unfolding locks_ok_def
proof (intro conjI allI assms(3))
  fix h
  show "task_ok s' h (tasks s' h)"
  proof (cases "h = g")
    case False
    have k: "task_ok s h (tasks s h)" using assms(1) by (simp add: locks_ok_def)
    show ?thesis
    proof (cases "tasks s h")
      case Idle
      then show ?thesis using k assms(4,6) [OF False] by simp
    next
      case (Task q os sn)
      then show ?thesis using k assms(4-7) [OF False] assms(8) [OF False, of q os] by auto
    qed
  qed (simp add: assms(2))
qed


lemma set_task_sel [simp]:
  "tasks (set_task g k s) = (tasks s)(g := k)" "memory (set_task g k s) = memory s" "rw_owner (set_task g k s) = rw_owner s"
  "rw_held (set_task g k s) = rw_held s" "rw_readers (set_task g k s) = rw_readers s" "performed (set_task g k s) = performed s"
  by (simp_all add: set_task_def)

text \<open>The steps that a request can have left, after its first ones.\<close>

lemma steps_left:
  assumes "suffix os (steps_of False q)"
  shows "writes_tree q \<and> os \<in> {[AnnounceOp, LockOp, BeginOp, EndOp, UnlockOp], [LockOp, BeginOp, EndOp, UnlockOp],
       [BeginOp, EndOp, UnlockOp], [EndOp, UnlockOp], [UnlockOp], []} \<or>
    \<not> writes_tree q \<and> os \<in> {[RLockOp, BeginOp, EndOp, RUnlockOp], [BeginOp, EndOp, RUnlockOp], [EndOp, RUnlockOp], [RUnlockOp], []} \<or>
    \<not> writes_tree q \<and> os \<in> {[RLockOp, RLockOp, BeginOp, EndOp, RUnlockOp, RUnlockOp], [RLockOp, BeginOp, EndOp, RUnlockOp, RUnlockOp],
       [BeginOp, EndOp, RUnlockOp, RUnlockOp], [EndOp, RUnlockOp, RUnlockOp], [RUnlockOp, RUnlockOp]}"
  using assms writer_steps [of q] reader_steps [of q] by (cases "writes_tree q") (auto simp: suffix_simps)

lemma gstep_locks_ok:
  assumes "gstep False Q s s'" and "locks_ok s"
  shows "locks_ok s'"
  using assms(1)
proof cases
  case (invoke g q)
  have "task_ok s' g (tasks s' g)"
    using assms(2) invoke writer_steps [of q] reader_steps [of q]
    by (cases "writes_tree q") (auto simp: locks_ok_def op_counts dest!: spec [of _ g])
  then show ?thesis
    using assms(2) invoke by (intro locks_ok_step [OF assms(2), of s' g]) (auto simp: locks_ok_def)
next
  case (return g q sn)
  then have "task_ok s g (Task q [] sn)" using assms(2) unfolding locks_ok_def by metis
  then have "task_ok s' g (tasks s' g)" using return by (simp add: op_counts)
  then show ?thesis
    using assms(2) return by (intro locks_ok_step [OF assms(2), of s' g]) (auto simp: locks_ok_def)
next
  case (rlock g q os sn)
  then have k: "task_ok s g (Task q (RLockOp # os) sn)" using assms(2) unfolding locks_ok_def by metis
  then have "task_ok s' g (tasks s' g)" using rlock steps_left [of "RLockOp # os" q] by (auto simp: op_counts dest: suffix_ConsD)
  then show ?thesis
    using assms(2) rlock by (intro locks_ok_step [OF assms(2), of s' g]) (auto simp: locks_ok_def)
next
  case (runlock g q os sn)
  then have k: "task_ok s g (Task q (RUnlockOp # os) sn)" using assms(2) unfolding locks_ok_def by metis
  then have "task_ok s' g (tasks s' g)" using runlock steps_left [of "RUnlockOp # os" q] by (auto simp: op_counts dest: suffix_ConsD)
  then show ?thesis
    using assms(2) runlock by (intro locks_ok_step [OF assms(2), of s' g]) (auto simp: locks_ok_def)
next
  case (announce g q os sn)
  then have k: "task_ok s g (Task q (AnnounceOp # os) sn)" using assms(2) unfolding locks_ok_def by metis
  have "\<not> rw_held s" using assms(2) announce by (auto simp: locks_ok_def)
  then have "task_ok s' g (tasks s' g)" using k announce steps_left [of "AnnounceOp # os" q] by (auto simp: op_counts dest: suffix_ConsD)
  then show ?thesis
    using assms(2) announce by (intro locks_ok_step [OF assms(2), of s' g]) (auto simp: locks_ok_def)
next
  case (lock g q os sn)
  then have k: "task_ok s g (Task q (LockOp # os) sn)" using assms(2) unfolding locks_ok_def by metis
  then have "task_ok s' g (tasks s' g)" using lock steps_left [of "LockOp # os" q] by (auto simp: op_counts dest: suffix_ConsD)
  then show ?thesis
    using assms(2) lock by (intro locks_ok_step [OF assms(2), of s' g]) (auto simp: locks_ok_def)
next
  case (unlock g q os sn)
  then have k: "task_ok s g (Task q (UnlockOp # os) sn)" using assms(2) unfolding locks_ok_def by metis
  then have o: "os = []" "rw_owner s = Some g" using steps_left [of "UnlockOp # os" q] by (auto simp: op_counts)
  then have "task_ok s' g (tasks s' g)" using k unlock by (auto simp: op_counts)
  then show ?thesis
    using assms(2) unlock o by (intro locks_ok_step [OF assms(2), of s' g]) (auto simp: locks_ok_def)
next
  case (body_begins g q os sn)
  then have k: "task_ok s g (Task q (BeginOp # os) sn)" using assms(2) unfolding locks_ok_def by metis
  then have "task_ok s' g (tasks s' g)" using body_begins steps_left [of "BeginOp # os" q] by (auto simp: op_counts dest: suffix_ConsD)
  then show ?thesis
    using assms(2) body_begins by (intro locks_ok_step [OF assms(2), of s' g]) (auto simp: locks_ok_def)
next
  case (body_ends g q os w w' a)
  then have k: "task_ok s g (Task q (EndOp # os) (Some w))" using assms(2) unfolding locks_ok_def by metis
  then have t: "task_ok s' g (tasks s' g)" using body_ends steps_left [of "EndOp # os" q] by (auto simp: op_counts dest: suffix_ConsD)
  have "memory s' = memory s" if "h \<noteq> g" "tasks s h = Task q' os' (Some w2)" for h q' os' w2
  proof -
    have "\<not> writes_tree q"
      using mutual_exclusion [OF assms(2) body_ends(2) _ _ that(2,1)] k steps_left [of "EndOp # os" q] by (auto simp: op_counts)
    then show ?thesis using body_ends by simp
  qed
  then show ?thesis
    using assms(2) body_ends t by (intro locks_ok_step [OF assms(2), of s' g]) (auto simp: locks_ok_def)
next
  case (body_panics g q os w e w')
  then have k: "task_ok s g (Task q (EndOp # os) (Some w))" using assms(2) unfolding locks_ok_def by metis
  have "suffix (deferred_steps False q) (steps_of False q)" by (rule deferred_suffix)
  moreover have "is_reader (deferred_steps False q) \<le> is_reader (EndOp # os)" "announced (deferred_steps False q) = announced (EndOp # os)"
    "has_lock (deferred_steps False q) = has_lock (EndOp # os)" "deferred_steps False q = [] \<or> hd (deferred_steps False q) \<noteq> EndOp"
    using k steps_left [of "EndOp # os" q] deferred_cases [of q] by (auto simp: op_counts)
  ultimately have t: "task_ok s' g (tasks s' g)" using k body_panics by auto
  have "memory s' = memory s" if "h \<noteq> g" "tasks s h = Task q' os' (Some w2)" for h q' os' w2
  proof -
    have "\<not> writes_tree q"
      using mutual_exclusion [OF assms(2) body_panics(2) _ _ that(2,1)] k steps_left [of "EndOp # os" q] by (auto simp: op_counts)
    then show ?thesis using body_panics by simp
  qed
  then show ?thesis
    using assms(2) body_panics t by (intro locks_ok_step [OF assms(2), of s' g]) (auto simp: locks_ok_def)
qed


lemma gsteps_locks_ok: "gsteps False Q s s' \<Longrightarrow> locks_ok s \<Longrightarrow> locks_ok s'"
  by (induction rule: rtranclp_induct) (auto dest: gstep_locks_ok)

lemma fresh_locks_ok: "locks_ok (fresh_system w)"
  by (simp add: locks_ok_def fresh_system_def)

section \<open>Linearisability\<close>

text \<open>What was performed is what the requests do one after the other, in the order in which the bodies ended.\<close>

definition linear :: "world \<Rightarrow> shared \<Rightarrow> bool" where
  "linear w s \<longleftrightarrow> in_turn_from w (map snd (performed s)) (memory s)"

lemma gstep_linear:
  assumes "gstep False Q s s'" and "locks_ok s" and "linear w s"
  shows "linear w s'"
  using assms(1)
proof cases
  case (body_ends g q os w1 w' a)
  have "task_ok s g (Task q (EndOp # os) (Some w1))" using assms(2) body_ends(2) unfolding locks_ok_def by metis
  then have "w1 = memory s" by simp
  then have p: "perform (memory s) q = Inr (w', a)" and m: "memory s' = w'"
    using body_ends reader_keeps [of q w1 w' a] by auto
  then show ?thesis
    using body_ends in_turn_from.answers [OF assms(3) [unfolded linear_def] p] by (simp add: linear_def)
next
  case (body_panics g q os w1 e w')
  have "task_ok s g (Task q (EndOp # os) (Some w1))" using assms(2) body_panics(2) unfolding locks_ok_def by metis
  then have p: "perform (memory s) q = Inl e" using body_panics(3) by simp
  show ?thesis
    using body_panics in_turn_from.panics [OF assms(3) [unfolded linear_def] p, of w'] by (simp add: linear_def)
qed (use assms(3) in \<open>simp_all add: linear_def\<close>)

lemma gsteps_linear: "gsteps False Q s s' \<Longrightarrow> locks_ok s \<Longrightarrow> linear w s \<Longrightarrow> linear w s'"
  by (induction rule: rtranclp_induct) (blast intro: gstep_linear gsteps_locks_ok)+

definition requests_in :: "request set \<Rightarrow> shared \<Rightarrow> bool" where
  "requests_in Q s \<longleftrightarrow> (\<forall>g q os sn. tasks s g = Task q os sn \<longrightarrow> q \<in> Q) \<and> (\<forall>(g, q, a) \<in> set (performed s). q \<in> Q)"

lemma gstep_requests: "gstep skip Q s s' \<Longrightarrow> requests_in Q s \<Longrightarrow> requests_in Q s'"
  unfolding requests_in_def by (induction rule: gstep.induct) (auto split: if_splits)

lemma gsteps_requests: "gsteps skip Q s s' \<Longrightarrow> requests_in Q s \<Longrightarrow> requests_in Q s'"
  by (induction rule: rtranclp_induct) (auto intro: gstep_requests)

lemma fresh_requests: "requests_in Q (fresh_system w)"
  by (simp add: requests_in_def fresh_system_def)

text \<open>The calls of \<open>Histories\<close> one after the other.\<close>

lemma spec_all_snoc: "spec_all m (cs @ [c]) =
    (fst (spec (fst (spec_all m cs)) c), snd (spec_all m cs) @ [snd (spec (fst (spec_all m cs)) c)])"
  by (induction cs arbitrary: m) (auto split: prod.splits)

lemma calls_in_turn:
  assumes "compat_set U" and "in_turn_from w rs w'" and "world_ok U w" and "fst ` set rs \<subseteq> {ReqCall c |c. call_ok U c}"
  shows "\<exists>cs. map fst rs = map ReqCall cs \<and> map snd rs = map (Inr \<circ> AnsCall) (snd (spec_all (values_of (snd w)) cs)) \<and>
    world_ok U w' \<and> values_of (snd w') = fst (spec_all (values_of (snd w)) cs)"
  using assms(2,4)
proof induction
  case nothing
  then show ?case using assms(3) by (intro exI [of _ "[]"]) simp
next
  case (answers rs w1 q w2 a)
  then obtain cs where cs: "map fst rs = map ReqCall cs" "map snd rs = map (Inr \<circ> AnsCall) (snd (spec_all (values_of (snd w)) cs))"
    "world_ok U w1" "values_of (snd w1) = fst (spec_all (values_of (snd w)) cs)" by auto
  obtain c where c: "q = ReqCall c" "call_ok U c" using answers.prems by auto
  obtain b t where w1: "w1 = (b, t)" by force
  from exec_refines [OF assms(1) cs(3) [unfolded w1] c(2)] show ?case
    using answers.hyps c(1) cs w1 by (intro exI [of _ "cs @ [c]"]) (auto simp: spec_all_snoc)
next
  case (panics rs w1 q e w2)
  then have w: "world_ok U w1" by auto
  obtain c where c: "q = ReqCall c" "call_ok U c" using panics.prems by auto
  obtain b t where w1: "w1 = (b, t)" by force
  from exec_refines [OF assms(1) w [unfolded w1] c(2)] show ?case using panics.hyps c(1) w1 by auto
qed

section \<open>Progress\<close>

text \<open>
  The requests that give their locks back, whether they answer or panic: the others take the read lock twice, or can panic
  without giving it back.
\<close>

fun gives_back :: "request \<Rightarrow> bool" where
  "gives_back (ReqCall c) \<longleftrightarrow> True"
| "gives_back (ReqInsertLeaf lf) \<longleftrightarrow> True"
| "gives_back (ReqFind smod K) \<longleftrightarrow> True"
| "gives_back _ \<longleftrightarrow> False"

fun held_by :: "task \<Rightarrow> nat" where
  "held_by Idle = 0"
| "held_by (Task q os sn) = is_reader os"

definition balanced :: "shared \<Rightarrow> bool" where
  "balanced s \<longleftrightarrow> (\<forall>g. count (rw_readers s) g = held_by (tasks s g)) \<and> finite {g. tasks s g \<noteq> Idle}"

lemma balancedI:
  assumes "balanced s" and "\<And>h. h \<noteq> g \<Longrightarrow> tasks s' h = tasks s h \<and> count (rw_readers s') h = count (rw_readers s) h"
    and "count (rw_readers s') g = held_by (tasks s' g)"
  shows "balanced s'"
proof -
  have "{h. tasks s' h \<noteq> Idle} \<subseteq> insert g {h. tasks s h \<noteq> Idle}" using assms(2) by auto
  then have "finite {h. tasks s' h \<noteq> Idle}" using assms(1) by (auto simp: balanced_def intro: finite_subset)
  moreover have "count (rw_readers s') h = held_by (tasks s' h)" for h
    using assms by (cases "h = g") (simp_all add: balanced_def)
  ultimately show ?thesis by (simp add: balanced_def)
qed

lemma gives_back_panic:
  "gives_back q \<Longrightarrow> perform w q = Inl e \<Longrightarrow> \<not> writes_tree q \<Longrightarrow> deferred_steps False q = [RUnlockOp]"
proof (induction w q rule: perform.induct)
  case (1 w c)
  then show ?case by (cases c; cases w) auto
qed auto

lemma gives_back_steps:
  "gives_back q \<Longrightarrow> \<not> writes_tree q \<Longrightarrow> steps_of False q = [RLockOp, BeginOp, EndOp, RUnlockOp]"
  using reader_steps [of q] by auto

lemma gstep_balanced:
  assumes "gstep False Q s s'" and "locks_ok s" and "balanced s" and "requests_in Q s" and "\<forall>q \<in> Q. gives_back q"
  shows "balanced s'"
  using assms(1)
proof cases
  case (invoke g q)
  have "held_by (tasks s g) = 0" using invoke by simp
  then have "count (rw_readers s') g = held_by (tasks s' g)"
    using assms(3) invoke writer_steps [of q] reader_steps [of q] by (cases "writes_tree q") (auto simp: balanced_def op_counts)
  then show ?thesis using invoke by (intro balancedI [OF assms(3), of g]) auto
next
  case (body_panics g q os w e w')
  have k: "task_ok s g (Task q (EndOp # os) (Some w))" using assms(2) body_panics(2) unfolding locks_ok_def by metis
  have q: "gives_back q" using assms(4,5) body_panics(2) unfolding requests_in_def by blast
  have b: "count (rw_readers s) g = is_reader (EndOp # os)" using assms(3) body_panics(2) by (auto simp: balanced_def dest!: spec [of _ g])
  have "is_reader (deferred_steps False q) = is_reader (EndOp # os)"
  proof (cases "writes_tree q")
    case True
    then show ?thesis using k steps_left [of "EndOp # os" q] deferred_cases [of q] by (auto simp: op_counts)
  next
    case False
    then have "os = [RUnlockOp]" using k gives_back_steps [OF q] by (auto simp: suffix_simps)
    then show ?thesis using gives_back_panic [OF q body_panics(3) False] by (simp add: op_counts)
  qed
  then show ?thesis using body_panics b by (intro balancedI [OF assms(3), of g]) auto
next
  case (return g q sn)
  then have "count (rw_readers s) g = 0" using assms(3) by (auto simp: balanced_def op_counts dest!: spec [of _ g])
  then show ?thesis using return by (intro balancedI [OF assms(3), of g]) auto
next
  case (rlock g q os sn)
  have "task_ok s g (Task q (RLockOp # os) sn)" using assms(2) rlock(2) unfolding locks_ok_def by metis
  moreover have "count (rw_readers s) g = is_reader (RLockOp # os)" using assms(3) rlock(2) by (auto simp: balanced_def dest!: spec [of _ g])
  ultimately show ?thesis using rlock steps_left [of "RLockOp # os" q]
    by (intro balancedI [OF assms(3), of g]) (auto simp: op_counts)
next
  case (runlock g q os sn)
  have "task_ok s g (Task q (RUnlockOp # os) sn)" using assms(2) runlock(2) unfolding locks_ok_def by metis
  moreover have "count (rw_readers s) g = is_reader (RUnlockOp # os)" using assms(3) runlock(2) by (auto simp: balanced_def dest!: spec [of _ g])
  ultimately show ?thesis using runlock steps_left [of "RUnlockOp # os" q]
    by (intro balancedI [OF assms(3), of g]) (auto simp: op_counts)
next
  case (announce g q os sn)
  then have "count (rw_readers s) g = is_reader (AnnounceOp # os)" using assms(3) by (auto simp: balanced_def dest!: spec [of _ g])
  then show ?thesis using announce by (intro balancedI [OF assms(3), of g]) (auto simp: op_counts)
next
  case (lock g q os sn)
  then have "count (rw_readers s) g = is_reader (LockOp # os)" using assms(3) by (auto simp: balanced_def dest!: spec [of _ g])
  then show ?thesis using lock by (intro balancedI [OF assms(3), of g]) (auto simp: op_counts)
next
  case (unlock g q os sn)
  then have "count (rw_readers s) g = is_reader (UnlockOp # os)" using assms(3) by (auto simp: balanced_def dest!: spec [of _ g])
  then show ?thesis using unlock by (intro balancedI [OF assms(3), of g]) (auto simp: op_counts)
next
  case (body_begins g q os sn)
  then have "count (rw_readers s) g = is_reader (BeginOp # os)" using assms(3) by (auto simp: balanced_def dest!: spec [of _ g])
  then show ?thesis using body_begins by (intro balancedI [OF assms(3), of g]) (auto simp: op_counts)
next
  case (body_ends g q os w w' a)
  then have "count (rw_readers s) g = is_reader (EndOp # os)" using assms(3) by (auto simp: balanced_def dest!: spec [of _ g])
  then show ?thesis using body_ends by (intro balancedI [OF assms(3), of g]) (auto simp: op_counts)
qed


text \<open>What the requests that give their locks back keep.\<close>

definition calm :: "request set \<Rightarrow> shared \<Rightarrow> bool" where
  "calm Q s \<longleftrightarrow> locks_ok s \<and> balanced s \<and> requests_in Q s"

lemma gstep_calm: "gstep False Q s s' \<Longrightarrow> \<forall>q \<in> Q. gives_back q \<Longrightarrow> calm Q s \<Longrightarrow> calm Q s'"
  unfolding calm_def using gstep_locks_ok gstep_balanced gstep_requests by blast

lemma gsteps_calm: "gsteps False Q s s' \<Longrightarrow> \<forall>q \<in> Q. gives_back q \<Longrightarrow> calm Q s \<Longrightarrow> calm Q s'"
  by (induction rule: rtranclp_induct) (auto intro: gstep_calm)

lemma fresh_calm: "calm Q (fresh_system w)"
  using fresh_locks_ok fresh_requests by (simp add: calm_def balanced_def) (simp add: fresh_system_def)

text \<open>The steps that are left to all goroutines together.\<close>

fun steps_to_go :: "task \<Rightarrow> nat" where
  "steps_to_go Idle = 0"
| "steps_to_go (Task q os sn) = Suc (length os)"

definition all_to_go :: "shared \<Rightarrow> nat" where
  "all_to_go s = (\<Sum>g \<in> {g. tasks s g \<noteq> Idle}. steps_to_go (tasks s g))"

lemma all_to_go_less:
  assumes "finite {g. tasks s g \<noteq> Idle}" and "tasks s g \<noteq> Idle" and "steps_to_go k < steps_to_go (tasks s g)"
    and "tasks s' = (tasks s)(g := k)"
  shows "all_to_go s' < all_to_go s"
proof -
  let ?B = "{g. tasks s g \<noteq> Idle}"
  have z: "steps_to_go (tasks s' h) = 0" if "h \<notin> {h. tasks s' h \<noteq> Idle}" for h using that by simp
  have "all_to_go s' = (\<Sum>h \<in> ?B. steps_to_go (tasks s' h))"
    unfolding all_to_go_def by (rule sum.mono_neutral_left) (use assms in auto)
  also have "\<dots> < (\<Sum>h \<in> ?B. steps_to_go (tasks s h))"
    by (rule sum_strict_mono_ex1) (use assms in \<open>auto simp: less_imp_le intro: bexI [of _ g]\<close>)
  finally show ?thesis by (simp add: all_to_go_def)
qed

text \<open>A goroutine that is not blocked by the lock has a step.\<close>

lemma body_step:
  assumes "calm Q s" and "\<forall>q \<in> Q. gives_back q" and t: "tasks s g = Task q (EndOp # os) sn"
  shows "\<exists>s'. gstep False Q s s' \<and> all_to_go s' < all_to_go s"
proof -
  have fin: "finite {g. tasks s g \<noteq> Idle}" using assms(1) by (simp add: calm_def balanced_def)
  have k: "task_ok s g (Task q (EndOp # os) sn)" using assms(1) t unfolding calm_def locks_ok_def by metis
  then have sn: "sn = Some (memory s)" by auto
  show ?thesis
  proof (cases "perform (memory s) q")
    case (Inl e)
    have "suffix (EndOp # os) (steps_of False q)" using k by simp
    then have "length (deferred_steps False q) < Suc (length os)"
      using steps_left [of "EndOp # os" q] deferred_cases [of q] by auto
    then show ?thesis
      using body_panics [of s g q os "memory s" e "memory s" False Q] t sn Inl
      by (intro exI conjI) (assumption | rule all_to_go_less [OF fin, of g "Task q (deferred_steps False q) None"] | simp)+
  next
    case (Inr r)
    obtain w' a where "r = (w', a)" by (cases r)
    then show ?thesis
      using body_ends [of s g q os "memory s" w' a False Q] t sn Inr
      by (intro exI conjI) (assumption | rule all_to_go_less [OF fin, of g "Task q os None"] | simp)+
  qed
qed

lemma free_step:
  assumes "calm Q s" and "\<forall>q \<in> Q. gives_back q" and t: "tasks s g = Task q os sn"
    and "os = [] \<or> hd os \<notin> {RLockOp, AnnounceOp, LockOp}"
  shows "\<exists>s'. gstep False Q s s' \<and> all_to_go s' < all_to_go s"
proof -
  have fin: "finite {g. tasks s g \<noteq> Idle}" using assms(1) by (simp add: calm_def balanced_def)
  show ?thesis
  proof (cases os)
    case Nil
    then show ?thesis using return [of s g q sn False Q] t by (intro exI conjI) (assumption | rule all_to_go_less [OF fin, of g Idle] | simp)+
  next
    case (Cons o1 os')
    consider "o1 = EndOp" | "o1 = RUnlockOp" | "o1 = UnlockOp" | "o1 = BeginOp" using assms(4) Cons by (cases o1) auto
    then show ?thesis
    proof cases
      case 1
      then show ?thesis using body_step [OF assms(1,2)] t Cons by blast
    next
      case 2
      then show ?thesis using runlock [of s g q os' sn False Q] t Cons
        by (intro exI conjI) (simp | rule all_to_go_less [OF fin, of g "Task q os' sn"])+
    next
      case 3
      then show ?thesis using unlock [of s g q os' sn False Q] t Cons
        by (intro exI conjI) (simp | rule all_to_go_less [OF fin, of g "Task q os' sn"])+
    next
      case 4
      then show ?thesis using body_begins [of s g q os' sn False Q] t Cons
        by (intro exI conjI) (simp | rule all_to_go_less [OF fin, of g "Task q os' (Some (memory s))"])+
    qed
  qed
qed


lemma reader_free:
  assumes "calm Q s" and "\<forall>q \<in> Q. gives_back q" and "r \<in># rw_readers s"
  shows "\<exists>q os sn. tasks s r = Task q os sn \<and> os \<noteq> [] \<and> hd os \<notin> {RLockOp, AnnounceOp, LockOp}"
proof -
  have "count (rw_readers s) r = held_by (tasks s r)" using assms(1) by (simp add: calm_def balanced_def)
  then have h: "held_by (tasks s r) > 0" using assms(3) by (metis count_greater_zero_iff)
  then obtain q os sn where t: "tasks s r = Task q os sn" by (cases "tasks s r") auto
  have q: "gives_back q" using assms(1,2) t unfolding calm_def requests_in_def by blast
  have k: "task_ok s r (Task q os sn)" using assms(1) t unfolding calm_def locks_ok_def by metis
  then have suf: "suffix os (steps_of False q)" by simp
  have r: "is_reader os > 0" using h t by simp
  have "os \<noteq> [] \<and> hd os \<notin> {RLockOp, AnnounceOp, LockOp}"
  proof (cases "writes_tree q")
    case True
    then have "is_reader os = 0" using steps_left [OF suf] by (auto simp: is_reader_def)
    then show ?thesis using r by simp
  next
    case False
    then have "os \<in> {[RLockOp, BeginOp, EndOp, RUnlockOp], [BeginOp, EndOp, RUnlockOp], [EndOp, RUnlockOp], [RUnlockOp], []}"
      using suf gives_back_steps [OF q] by (simp add: suffix_simps)
    then show ?thesis using r by (auto simp: is_reader_def)
  qed
  then show ?thesis using t by blast
qed

lemma owner_step:
  assumes "calm Q s" and "\<forall>q \<in> Q. gives_back q" and "rw_owner s = Some h"
  shows "\<exists>s'. gstep False Q s s' \<and> all_to_go s' < all_to_go s"
proof -
  have fin: "finite {g. tasks s g \<noteq> Idle}" using assms(1) by (simp add: calm_def balanced_def)
  have k: "task_ok s h (tasks s h)" using assms(1) by (simp add: calm_def locks_ok_def)
  then obtain q os sn where t: "tasks s h = Task q os sn" and a: "announced os" and suf: "suffix os (steps_of False q)"
    using assms(3) by (cases "tasks s h") auto
  show ?thesis
  proof (cases "os \<noteq> [] \<and> hd os = LockOp")
    case False
    then have "os = [] \<or> hd os \<notin> {RLockOp, AnnounceOp, LockOp}" using a steps_left [OF suf] by (auto simp: op_counts)
    then show ?thesis by (rule free_step [OF assms(1,2) t])
  next
    case True
    then obtain os' where os: "os = LockOp # os'" by (cases os) auto
    show ?thesis
    proof (cases "rw_readers s = {#}")
      case True
      then show ?thesis using lock [of s h q os' sn False Q] t os assms(3)
        by (intro exI conjI) (simp | rule all_to_go_less [OF fin, of h "Task q os' sn"])+
    next
      case False
      then obtain r where "r \<in># rw_readers s" by blast
      then obtain q' os' sn' where "tasks s r = Task q' os' sn'" "os' \<noteq> []" "hd os' \<notin> {RLockOp, AnnounceOp, LockOp}"
        using reader_free [OF assms(1,2)] by metis
      then show ?thesis using free_step [OF assms(1,2)] by blast
    qed
  qed
qed

lemma calm_progress:
  assumes "calm Q s" and "\<forall>q \<in> Q. gives_back q" and "tasks s g \<noteq> Idle"
  shows "\<exists>s'. gstep False Q s s' \<and> all_to_go s' < all_to_go s"
proof (cases "rw_owner s")
  case (Some h)
  then show ?thesis by (rule owner_step [OF assms(1,2)])
next
  case None
  have fin: "finite {g. tasks s g \<noteq> Idle}" using assms(1) by (simp add: calm_def balanced_def)
  obtain q os sn where t: "tasks s g = Task q os sn" using assms(3) by (cases "tasks s g") auto
  have k: "task_ok s g (Task q os sn)" using assms(1) t unfolding calm_def locks_ok_def by metis
  then have nl: "\<not> (os \<noteq> [] \<and> hd os = LockOp)" using None steps_left [of os q] by (auto simp: op_counts)
  show ?thesis
  proof (cases "os \<noteq> [] \<and> (hd os = RLockOp \<or> hd os = AnnounceOp)")
    case False
    then show ?thesis using nl by (intro free_step [OF assms(1,2) t]) auto
  next
    case True
    then obtain os' where "os = RLockOp # os' \<or> os = AnnounceOp # os'" by (cases os) auto
    then show ?thesis
    proof
      assume "os = RLockOp # os'"
      then show ?thesis using rlock [of s g q os' sn False Q] t None
        by (intro exI conjI) (simp | rule all_to_go_less [OF fin, of g "Task q os' sn"])+
    next
      assume "os = AnnounceOp # os'"
      then show ?thesis using announce [of s g q os' sn False Q] t None
        by (intro exI conjI) (simp | rule all_to_go_less [OF fin, of g "Task q os' sn"])+
    qed
  qed
qed

lemma calm_finishes:
  assumes "\<forall>q \<in> Q. gives_back q" and "calm Q s"
  shows "\<exists>s'. gsteps False Q s s' \<and> (\<forall>g. tasks s' g = Idle)"
  using assms(2)
proof (induction "all_to_go s" arbitrary: s rule: less_induct)
  case less
  show ?case
  proof (cases "\<forall>g. tasks s g = Idle")
    case False
    then obtain s1 where s1: "gstep False Q s s1" "all_to_go s1 < all_to_go s"
      using calm_progress [OF less.prems assms(1)] by blast
    with less.hyps [OF s1(2) gstep_calm [OF s1(1) assms(1) less.prems]] show ?thesis
      by (meson converse_rtranclp_into_rtranclp)
  qed blast
qed

section \<open>Locks that are not given back\<close>

text \<open>
  A goroutine that left with a read lock: \<open>At\<close> on an empty tree panics and does not give the lock back. From then on
  no writer gets the lock, and the tree never changes.
\<close>

definition leaked :: "nat \<Rightarrow> shared \<Rightarrow> bool" where
  "leaked g s \<longleftrightarrow> held_by (tasks s g) < count (rw_readers s) g"

lemma gstep_leaked:
  assumes "gstep False Q s s'" and "locks_ok s" and "leaked g s"
  shows "leaked g s' \<and> memory s' = memory s"
  using assms(1)
proof cases
  case (body_ends h q os w w' a)
  have k: "task_ok s h (Task q (EndOp # os) (Some w))" using assms(2) body_ends(2) unfolding locks_ok_def by metis
  have "rw_readers s \<noteq> {#}" using assms(3) by (auto simp: leaked_def)
  then have "\<not> rw_held s" using assms(2) by (auto simp: locks_ok_def)
  then have "\<not> writes_tree q" using k steps_left [of "EndOp # os" q] by (auto simp: op_counts)
  then show ?thesis using body_ends assms(3) by (auto simp: leaked_def op_counts)
next
  case (body_panics h q os w e w')
  have k: "task_ok s h (Task q (EndOp # os) (Some w))" using assms(2) body_panics(2) unfolding locks_ok_def by metis
  have "rw_readers s \<noteq> {#}" using assms(3) by (auto simp: leaked_def)
  then have "\<not> rw_held s" using assms(2) by (auto simp: locks_ok_def)
  then have "\<not> writes_tree q" using k steps_left [of "EndOp # os" q] by (auto simp: op_counts)
  moreover have "is_reader (deferred_steps False q) \<le> is_reader (EndOp # os)"
    using k steps_left [of "EndOp # os" q] deferred_cases [of q] by (auto simp: op_counts)
  ultimately show ?thesis using body_panics assms(3) by (auto simp: leaked_def)
next
  case (rlock h q os sn)
  have "task_ok s h (Task q (RLockOp # os) sn)" using assms(2) rlock(2) unfolding locks_ok_def by metis
  then show ?thesis using rlock assms(3) steps_left [of "RLockOp # os" q] by (auto simp: leaked_def op_counts)
next
  case (runlock h q os sn)
  have "task_ok s h (Task q (RUnlockOp # os) sn)" using assms(2) runlock(2) unfolding locks_ok_def by metis
  then show ?thesis using runlock assms(3) steps_left [of "RUnlockOp # os" q] by (auto simp: leaked_def op_counts)
next
  case (invoke h q)
  then show ?thesis using assms(3) writer_steps [of q] reader_steps [of q]
    by (cases "writes_tree q") (auto simp: leaked_def op_counts)
qed (use assms(3) in \<open>auto simp: leaked_def op_counts split: if_splits\<close>)

lemma gsteps_leaked:
  assumes "gsteps False Q s s'" and "locks_ok s" and "leaked g s"
  shows "leaked g s' \<and> memory s' = memory s \<and> \<not> rw_held s'"
  using assms(1)
proof (induction rule: rtranclp_induct)
  case base
  then show ?case using assms(2,3) by (auto simp: leaked_def locks_ok_def)
next
  case (step y z)
  have y: "locks_ok y" using gsteps_locks_ok [OF step.hyps(1) assms(2)] .
  have z: "locks_ok z" using gstep_locks_ok [OF step.hyps(2) y] .
  have "leaked g z" "memory z = memory s" using gstep_leaked [OF step.hyps(2) y] step.IH by auto
  then show ?case using z by (auto simp: leaked_def locks_ok_def)
qed


text \<open>
  \<open>LeafIndex\<close> has the read lock, a writer has announced itself, and the second \<open>RLock\<close> of \<open>LeafIndex\<close> waits for the writer:
  whatever other goroutines do, nothing goes on.
\<close>

definition wedged :: "request \<Rightarrow> request \<Rightarrow> shared \<Rightarrow> bool" where
  "wedged r q s \<longleftrightarrow> rw_owner s = Some 1 \<and> rw_readers s = {#0#} \<and>
     tasks s 0 = Task r [RLockOp, BeginOp, EndOp, RUnlockOp, RUnlockOp] None \<and>
     tasks s 1 = Task q [LockOp, BeginOp, EndOp, UnlockOp] None \<and>
     (\<forall>g. g \<noteq> 0 \<longrightarrow> g \<noteq> 1 \<longrightarrow> tasks s g = Idle \<or> (\<exists>p. tasks s g = Task p (steps_of False p) None))"

lemma first_step: "steps_of False p = o1 # os \<Longrightarrow> o1 = RLockOp \<or> o1 = AnnounceOp" "steps_of False p \<noteq> []"
  using writer_steps [of p] reader_steps [of p] by (cases "writes_tree p"; fastforce)+

lemma wedged_heads:
  assumes "wedged r q s" and "tasks s g = Task p os sn"
  shows "\<exists>o1 os'. os = o1 # os' \<and> (o1 = RLockOp \<or> o1 = AnnounceOp \<or> o1 = LockOp)"
proof -
  consider "g = 0" | "g = 1" | "g \<noteq> 0" "g \<noteq> 1" by blast
  then show ?thesis
  proof cases
    case 3
    then have "tasks s g = Idle \<or> (\<exists>p. tasks s g = Task p (steps_of False p) None)"
      using assms(1) unfolding wedged_def by blast
    then have "os = steps_of False p" using assms(2) by auto
    then show ?thesis using first_step [of p] by (metis list.exhaust)
  qed (use assms in \<open>auto simp: wedged_def\<close>)
qed

lemma gstep_wedged:
  assumes "gstep False Q s s'" and "wedged r q s"
  shows "wedged r q s' \<and> memory s' = memory s \<and> performed s' = performed s"
  using assms(1)
proof cases
  case (invoke g p)
  then have "g \<noteq> 0" "g \<noteq> 1" using assms(2) unfolding wedged_def by (metis task.distinct(1))+
  then show ?thesis using invoke assms(2) by (simp add: wedged_def)
next
  case (rlock g p os sn)
  then show ?thesis using assms(2) by (simp add: wedged_def)
next
  case (announce g p os sn)
  then show ?thesis using assms(2) by (simp add: wedged_def)
next
  case (lock g p os sn)
  then show ?thesis using assms(2) by (simp add: wedged_def)
next
  case (return g p sn)
  then show ?thesis using wedged_heads [OF assms(2) return(2)] by simp
next
  case (runlock g p os sn)
  then show ?thesis using wedged_heads [OF assms(2) runlock(2)] by simp
next
  case (unlock g p os sn)
  then show ?thesis using wedged_heads [OF assms(2) unlock(2)] by simp
next
  case (body_begins g p os sn)
  then show ?thesis using wedged_heads [OF assms(2) body_begins(2)] by simp
next
  case (body_ends g p os w w' a)
  then show ?thesis using wedged_heads [OF assms(2) body_ends(2)] by simp
next
  case (body_panics g p os w e w')
  then show ?thesis using wedged_heads [OF assms(2) body_panics(2)] by simp
qed

lemma gsteps_wedged:
  "gsteps False Q s s' \<Longrightarrow> wedged r q s \<Longrightarrow> wedged r q s' \<and> memory s' = memory s \<and> performed s' = performed s"
  by (induction rule: rtranclp_induct) (simp, metis gstep_wedged)

lemma wedged_reachable:
  assumes "ReqLeafIndex lf \<in> Q" and "q \<in> Q" and "writes_tree q"
  shows "\<exists>s. gsteps False Q (fresh_system w) s \<and> wedged (ReqLeafIndex lf) q s \<and> memory s = w \<and> performed s = []"
proof -
  let ?s0 = "fresh_system w" and ?r = "ReqLeafIndex lf" and ?os = "[RLockOp, BeginOp, EndOp, RUnlockOp, RUnlockOp]"
  let ?s1 = "set_task 0 (Task ?r (RLockOp # ?os) None) ?s0"
  let ?s2 = "set_task 0 (Task ?r ?os None) (?s1\<lparr>rw_readers := {#0#}\<rparr>)"
  let ?s3 = "set_task 1 (Task q (AnnounceOp # [LockOp, BeginOp, EndOp, UnlockOp]) None) ?s2"
  let ?s4 = "set_task 1 (Task q [LockOp, BeginOp, EndOp, UnlockOp] None) (?s3\<lparr>rw_owner := Some 1\<rparr>)"
  have "gstep False Q ?s0 ?s1"
    using invoke [of ?s0 0 ?r Q False] assms(1) by (simp add: fresh_system_def LeafIndex_steps_def Find_steps_def)
  moreover have "gstep False Q ?s1 ?s2" using rlock [of ?s1 0 ?r ?os None False Q] by (simp add: fresh_system_def)
  moreover have "gstep False Q ?s2 ?s3"
    using invoke [of ?s2 1 q Q False] assms(2) writer_steps [OF assms(3)] by (simp add: fresh_system_def)
  moreover have "gstep False Q ?s3 ?s4" using announce [of ?s3 1 q "[LockOp, BeginOp, EndOp, UnlockOp]" None False Q]
    by (simp add: fresh_system_def)
  ultimately have "gsteps False Q ?s0 ?s4" by (meson r_into_rtranclp rtranclp.rtrancl_into_rtrancl)
  then show ?thesis by (rule_tac x = ?s4 in exI) (simp add: wedged_def fresh_system_def)
qed

section \<open>Examples\<close>

text \<open>A request that runs alone.\<close>

definition quiet :: "shared \<Rightarrow> bool" where
  "quiet s \<longleftrightarrow> rw_owner s = None \<and> \<not> rw_held s \<and> rw_readers s = {#} \<and> (\<forall>g. tasks s g = Idle)"

lemma quiet_fresh: "quiet (fresh_system w)"
  by (simp add: quiet_def fresh_system_def)

lemma runs_alone:
  assumes "quiet s" and "q \<in> Q" and "writes_tree q" and "perform (memory s) q = Inr (w', a)"
  shows "\<exists>s'. gsteps False Q s s' \<and> quiet s' \<and> memory s' = w' \<and> performed s' = performed s @ [(g, q, Inr a)]"
proof -
  let ?t = "\<lambda>os sn s. set_task g (Task q os sn) s"
  let ?s1 = "?t [AnnounceOp, LockOp, BeginOp, EndOp, UnlockOp] None s"
  let ?s2 = "?t [LockOp, BeginOp, EndOp, UnlockOp] None (?s1\<lparr>rw_owner := Some g\<rparr>)"
  let ?s3 = "?t [BeginOp, EndOp, UnlockOp] None (?s2\<lparr>rw_held := True\<rparr>)"
  let ?s4 = "?t [EndOp, UnlockOp] (Some (memory ?s3)) ?s3"
  let ?s5 = "?t [UnlockOp] None (?s4\<lparr>memory := w', performed := performed ?s4 @ [(g, q, Inr a)]\<rparr>)"
  let ?s6 = "?t [] None (?s5\<lparr>rw_owner := None, rw_held := False\<rparr>)"
  let ?s7 = "set_task g Idle ?s6"
  note quiet = assms(1) [unfolded quiet_def]
  have "gstep False Q s ?s1" using invoke [of s g q Q False] quiet assms(2) writer_steps [OF assms(3)] by simp
  moreover have "gstep False Q ?s1 ?s2" using announce [of ?s1 g q _ None False Q] quiet by simp
  moreover have "gstep False Q ?s2 ?s3" using lock [of ?s2 g q _ None False Q] quiet by simp
  moreover have "gstep False Q ?s3 ?s4" using body_begins [of ?s3 g q _ None False Q] by simp
  moreover have "gstep False Q ?s4 ?s5" using body_ends [of ?s4 g q _ "memory ?s3" w' a False Q] assms(3,4) by simp
  moreover have "gstep False Q ?s5 ?s6" using unlock [of ?s5 g q _ None False Q] by simp
  moreover have "gstep False Q ?s6 ?s7" using return [of ?s6 g q None False Q] by simp
  ultimately have "gsteps False Q s ?s7" by (meson r_into_rtranclp rtranclp.rtrancl_into_rtrancl)
  then show ?thesis using quiet by (intro exI [of _ ?s7]) (simp add: quiet_def)
qed


text \<open>An insertion by one goroutine, and then a removal by another.\<close>

definition two_calls :: "request list" where
  "two_calls = [ReqCall (CallInsert [1] (AnyInt 5)), ReqCall (CallRemove [1])]"

lemma two_calls_run:
  assumes "set two_calls \<subseteq> Q"
  shows "\<exists>s. gsteps False Q (fresh_system (0, NewArtTree)) s \<and>
    performed s = [(0, ReqCall (CallInsert [1] (AnyInt 5)), Inr (AnsCall (Updated False))),
      (1, ReqCall (CallRemove [1]), Inr (AnsCall (Removed True (AnyInt 5))))]"
proof -
  let ?q1 = "ReqCall (CallInsert [1] (AnyInt 5))" and ?q2 = "ReqCall (CallRemove [1])"
  have U: "compat_set {[1]}" by (simp add: compat_set_def key_compat_def)
  obtain a1 t1 where 1: "exec (0, NewArtTree) (CallInsert [1] (AnyInt 5)) = Inr ((a1, t1), Updated False)"
    "world_ok {[1]} (a1, t1)" "values_of t1 = Map.empty([1] \<mapsto> AnyInt 5)"
    using exec_refines [OF U world_empty, of "CallInsert [1] (AnyInt 5)" 0] by auto
  obtain w2 where 2: "exec (a1, t1) (CallRemove [1]) = Inr (w2, Removed True (AnyInt 5))"
    using exec_refines [OF U 1(2), of "CallRemove [1]"] 1(3) by auto
  obtain s1 where s1: "gsteps False Q (fresh_system (0, NewArtTree)) s1" "quiet s1" "memory s1 = (a1, t1)"
    "performed s1 = [(0, ?q1, Inr (AnsCall (Updated False)))]"
    using runs_alone [OF quiet_fresh, of ?q1 Q "(0, NewArtTree)" "(a1, t1)" "AnsCall (Updated False)" 0] assms 1(1)
    by (auto simp: two_calls_def fresh_system_def)
  obtain s2 where s2: "gsteps False Q s1 s2" "performed s2 = performed s1 @ [(1, ?q2, Inr (AnsCall (Removed True (AnyInt 5))))]"
    using runs_alone [OF s1(2), of ?q2 Q w2 "AnsCall (Removed True (AnyInt 5))" 1] assms 2 s1(3) by (auto simp: two_calls_def)
  then show ?thesis using s1(1,4) by (intro exI [of _ s2]) (auto intro: rtranclp_trans)
qed

section \<open>The properties\<close>

text \<open>
  C2. Any number of goroutines that call \<open>Insert\<close>, \<open>InsertX\<close>, \<open>Remove\<close>, \<open>FindExact\<close>, \<open>Size\<close> and \<open>IsEmpty\<close> on a shared new tree
  with its own locking get, without a panic, the answers that the same calls give on a plain map, in the order in which their bodies end;
  the tree represents that map and stays well formed. Two conditions, as for histories of one goroutine: no key that any of them inserts
  begins with another such key and a zero byte after it, and nobody looks up the empty key with \<open>FindExact\<close>.
\<close>

theorem tree_goroutine_safe:
  assumes "compat_set U" and "Q \<subseteq> {ReqCall c |c. call_ok U c}" and "gsteps False Q (fresh_system (0, NewArtTree)) s"
  shows "\<exists>cs. map (fst \<circ> snd) (performed s) = map ReqCall cs \<and>
    map (snd \<circ> snd) (performed s) = map (Inr \<circ> AnsCall) (snd (spec_all Map.empty cs)) \<and>
    tree_wf (snd (memory s)) \<and> sized (snd (memory s)) \<and> values_of (snd (memory s)) = fst (spec_all Map.empty cs)"
proof -
  let ?w = "(0, NewArtTree) :: world" and ?rs = "map snd (performed s)"
  have "requests_in Q s" by (rule gsteps_requests [OF assms(3) fresh_requests])
  then have c: "fst ` set ?rs \<subseteq> {ReqCall c |c. call_ok U c}"
    using assms(2) by (fastforce simp: requests_in_def)
  have "linear ?w s"
    by (rule gsteps_linear [OF assms(3) fresh_locks_ok]) (simp add: linear_def fresh_system_def in_turn_from.nothing)
  then have r: "in_turn_from ?w ?rs (memory s)" by (simp add: linear_def)
  from calls_in_turn [OF assms(1) r world_empty c] show ?thesis by (auto simp: world_ok_def)
qed

theorem tree_goroutine_safe_witness:
  "\<exists>s :: shared. performed s = [(0, ReqCall (CallInsert [1] (AnyInt 5)), Inr (AnsCall (Updated False))),
      (1, ReqCall (CallRemove [1]), Inr (AnsCall (Removed True (AnyInt 5))))] \<and>
    tree_wf (snd (memory s)) \<and> values_of (snd (memory s)) = Map.empty"
proof -
  let ?Q = "{ReqCall c |c. call_ok {[1]} c}"
  have U: "compat_set {[1]}" by (simp add: compat_set_def key_compat_def)
  obtain s where s: "gsteps False ?Q (fresh_system (0, NewArtTree)) s"
    "performed s = [(0, ReqCall (CallInsert [1] (AnyInt 5)), Inr (AnsCall (Updated False))),
      (1, ReqCall (CallRemove [1]), Inr (AnsCall (Removed True (AnyInt 5))))]"
    using two_calls_run [of ?Q] by (auto simp: two_calls_def)
  obtain cs where cs: "map (fst \<circ> snd) (performed s) = map ReqCall cs" "tree_wf (snd (memory s))"
    "values_of (snd (memory s)) = fst (spec_all Map.empty cs)"
    using tree_goroutine_safe [OF U _ s(1)] by auto
  have "cs = [CallInsert [1] (AnyInt 5), CallRemove [1]]" using cs(1) unfolding s(2) by (cases cs; cases "tl cs") auto
  then show ?thesis using s(2) cs by (intro exI [of _ s]) auto
qed



text \<open>
  C37. No deadlock: from every reachable state of goroutines that call \<open>Insert\<close>, \<open>InsertX\<close>, \<open>InsertLeaf\<close>, \<open>Remove\<close>, \<open>FindExact\<close>, \<open>Size\<close>,
  \<open>IsEmpty\<close> and \<open>Find\<close> on a shared tree, whatever the tree and the keys are, all calls that are under way can finish, readers and
  writers alike, also those that panic: their deferred calls give the lock back. \<open>LeafIndex\<close>, \<open>At\<close> and \<open>Atv\<close> are left out, which do not.
\<close>

theorem tree_calls_finish:
  assumes "\<forall>q \<in> Q. gives_back q" and "gsteps False Q (fresh_system w) s"
  shows "\<exists>s'. gsteps False Q s s' \<and> (\<forall>g. tasks s' g = Idle)"
  using calm_finishes [OF assms(1) gsteps_calm [OF assms(2,1) fresh_calm]] .

theorem tree_calls_finish_witness:
  "\<exists>s s'. tasks s 7 \<noteq> Idle \<and> tasks s' 7 = Idle \<and> gsteps False {ReqCall (CallInsert [1] AnyNil)} s s'"
proof -
  let ?Q = "{ReqCall (CallInsert [1] AnyNil)}" and ?s = "fresh_system (0, NewArtTree)"
  let ?s1 = "set_task 7 (Task (ReqCall (CallInsert [1] AnyNil)) (steps_of False (ReqCall (CallInsert [1] AnyNil))) None) ?s"
  have "gstep False ?Q ?s ?s1" by (rule invoke) (simp_all add: fresh_system_def)
  then obtain s' where "gsteps False ?Q ?s1 s'" "\<forall>g. tasks s' g = Idle"
    using tree_calls_finish [of ?Q "(0, NewArtTree)" ?s1] by auto
  then show ?thesis by (intro exI [of _ ?s1] exI [of _ s']) simp
qed

text \<open>
  C38. \<open>LeafIndex\<close> can deadlock the tree: it takes the read lock and calls \<open>Find\<close>, which takes it again; when a writer calls \<open>Lock\<close> in between,
  each waits for the other, and no operation on the tree ever goes on.
\<close>

theorem leaf_index_deadlocks:
  assumes "ReqLeafIndex lf \<in> Q" and "q \<in> Q" and "writes_tree q"
  shows "\<exists>s. gsteps False Q (fresh_system w) s \<and> tasks s 0 \<noteq> Idle \<and> tasks s 1 \<noteq> Idle \<and>
    (\<forall>s'. gsteps False Q s s' \<longrightarrow> tasks s' 0 = tasks s 0 \<and> tasks s' 1 = tasks s 1 \<and> memory s' = w \<and> performed s' = [])"
proof -
  obtain s where s: "gsteps False Q (fresh_system w) s" "wedged (ReqLeafIndex lf) q s" "memory s = w" "performed s = []"
    using wedged_reachable [OF assms] by blast
  have "tasks s' 0 = tasks s 0 \<and> tasks s' 1 = tasks s 1 \<and> memory s' = w \<and> performed s' = []" if "gsteps False Q s s'" for s'
    using gsteps_wedged [OF that s(2)] s(2-4) by (simp add: wedged_def)
  moreover have "tasks s 0 \<noteq> Idle" "tasks s 1 \<noteq> Idle" using s(2) by (simp_all add: wedged_def)
  ultimately show ?thesis using s(1) by blast
qed

theorem leaf_index_deadlocks_witness:
  "\<exists>s. tasks s 0 \<noteq> Idle \<and> (\<forall>s'. gsteps False UNIV s s' \<longrightarrow> tasks s' 0 = tasks s 0 \<and> performed s' = [])"
proof -
  have "writes_tree (ReqCall (CallRemove [1]))" by simp
  then show ?thesis using leaf_index_deadlocks [of "NewLeaf 0 [1] AnyNil []" UNIV "ReqCall (CallRemove [1])" "(0, NewArtTree)", OF UNIV_I UNIV_I] by metis
qed

text \<open>
  \<open>At\<close> on an empty tree panics with the read lock in its hands; a program that recovers has a tree whose writers
  wait for ever.
\<close>

theorem at_panic_keeps_lock:
  assumes "ReqAt i \<in> Q" and "0 \<le> i" and "root (snd w) = None"
  shows "\<exists>s. gsteps False Q (fresh_system w) s \<and> performed s = [(0, ReqAt i, Inl NilDereference)] \<and> tasks s 0 = Idle \<and>
    (\<forall>s'. gsteps False Q s s' \<longrightarrow> memory s' = w \<and> \<not> rw_held s')"
proof -
  let ?t = "\<lambda>os sn s. set_task 0 (Task (ReqAt i) os sn) s" and ?s0 = "fresh_system w"
  let ?s1 = "?t [RLockOp, BeginOp, EndOp, RUnlockOp] None ?s0"
  let ?s2 = "?t [BeginOp, EndOp, RUnlockOp] None (?s1\<lparr>rw_readers := {#0#}\<rparr>)"
  let ?s3 = "?t [EndOp, RUnlockOp] (Some w) ?s2"
  let ?s4 = "?t [] None (?s3\<lparr>memory := w, performed := [(0, ReqAt i, Inl NilDereference)]\<rparr>)"
  let ?s5 = "set_task 0 Idle ?s4"
  have p: "perform w (ReqAt i) = Inl NilDereference" using assms(2,3) by (cases w) (simp add: tree_At_def)
  have 1: "gstep False Q ?s0 ?s1" using invoke [of ?s0 0 "ReqAt i" Q False] assms(1) by (simp add: fresh_system_def At_steps_def)
  have 2: "gstep False Q ?s1 ?s2" using rlock [of ?s1 0 "ReqAt i" _ None False Q] by (simp add: fresh_system_def)
  have 3: "gstep False Q ?s2 ?s3" using body_begins [of ?s2 0 "ReqAt i" _ None False Q] by (simp add: fresh_system_def)
  have 4: "gstep False Q ?s3 ?s4" using body_panics [of ?s3 0 "ReqAt i" _ w NilDereference w False Q] p by (simp add: fresh_system_def)
  have 5: "gstep False Q ?s4 ?s5" using return [of ?s4 0 "ReqAt i" None False Q] by simp
  have r: "gsteps False Q ?s0 ?s5" using 1 2 3 4 5 by (meson r_into_rtranclp rtranclp.rtrancl_into_rtrancl)
  have "leaked 0 ?s5" by (simp add: leaked_def fresh_system_def)
  then have "memory s' = w \<and> \<not> rw_held s'" if "gsteps False Q ?s5 s'" for s'
    using gsteps_leaked [OF that gsteps_locks_ok [OF r fresh_locks_ok]] by (simp add: fresh_system_def)
  then show ?thesis using r by (intro exI [of _ ?s5]) (simp add: fresh_system_def)
qed

end
