(* ===== verification/MapSpec.thy ===== *)
theory MapSpec
  imports Prelude
begin

text \<open>
  What the concurrent maps of \<open>attic/\<close> promise (the documentation of \<open>sync.Map\<close>): the calls, and what each does
  to a map and returns. The locale \<open>map_impl\<close> is the contract of an implementation; it is interpreted
  on the hash trie and on the map of two maps.
\<close>

text \<open>
  \<open>Delete\<close> and \<open>Store\<close> return nothing. A pair of a value and a flag that says whether it was found is an
  option.
\<close>

datatype ('k, 'v) map_call =
    MLoad 'k
  | MStore 'k 'v
  | MLoadOrStore 'k 'v
  | MSwap 'k 'v
  | MCompareAndSwap 'k 'v 'v
  | MLoadAndDelete 'k
  | MDelete 'k
  | MCompareAndDelete 'k 'v
  | MClear

datatype 'v map_result = RNone | RFound "'v option" | RLoaded 'v bool | RFlag bool

fun map_spec :: "('k \<rightharpoonup> 'v) \<Rightarrow> ('k, 'v) map_call \<Rightarrow> ('k \<rightharpoonup> 'v) \<times> 'v map_result" where
  "map_spec m (MLoad k) = (m, RFound (m k))"
| "map_spec m (MStore k v) = (m(k \<mapsto> v), RNone)"
| "map_spec m (MLoadOrStore k v) = (case m k of Some w \<Rightarrow> (m, RLoaded w True) | None \<Rightarrow> (m(k \<mapsto> v), RLoaded v False))"
| "map_spec m (MSwap k v) = (m(k \<mapsto> v), RFound (m k))"
| "map_spec m (MCompareAndSwap k old new) = (if m k = Some old then (m(k \<mapsto> new), RFlag True) else (m, RFlag False))"
| "map_spec m (MLoadAndDelete k) = (m(k := None), RFound (m k))"
| "map_spec m (MDelete k) = (m(k := None), RNone)"
| "map_spec m (MCompareAndDelete k old) = (if m k = Some old then (m(k := None), RFlag True) else (m, RFlag False))"
| "map_spec m MClear = (Map.empty, RNone)"

fun map_specs :: "('k \<rightharpoonup> 'v) \<Rightarrow> ('k, 'v) map_call list \<Rightarrow> ('k \<rightharpoonup> 'v) \<times> 'v map_result list" where
  "map_specs m [] = (m, [])"
| "map_specs m (c # cs) = (let (m1, r) = map_spec m c; (m2, rs) = map_specs m1 cs in (m2, r # rs))"

fun run_calls :: "('s \<Rightarrow> ('k, 'v) map_call \<Rightarrow> ('s \<times> 'v map_result) res) \<Rightarrow> 's \<Rightarrow> ('k, 'v) map_call list \<Rightarrow> ('s \<times> 'v map_result list) res" where
  "run_calls run s [] = Inr (s, [])"
| "run_calls run s (c # cs) = rbind (run s c) (\<lambda>(s1, r). rbind (run_calls run s1 cs) (\<lambda>(s2, rs). Inr (s2, r # rs)))"

locale map_impl =
  fixes run :: "'s \<Rightarrow> ('k, 'v) map_call \<Rightarrow> ('s \<times> 'v map_result) res"
    and inv :: "'s \<Rightarrow> bool"
    and content :: "'s \<Rightarrow> 'k \<rightharpoonup> 'v"
    and new :: 's
  assumes new_inv: "inv new"
    and new_content: "content new = Map.empty"
    and run_refines: "inv s \<Longrightarrow> \<exists>s'. run s c = Inr (s', snd (map_spec (content s) c)) \<and> inv s' \<and>
      content s' = fst (map_spec (content s) c)"
begin

lemma calls_refine:
  "inv s \<Longrightarrow> \<exists>s'. run_calls run s cs = Inr (s', snd (map_specs (content s) cs)) \<and> inv s' \<and>
    content s' = fst (map_specs (content s) cs)"
proof (induction cs arbitrary: s)
  case (Cons c cs)
  obtain s1 where s1: "run s c = Inr (s1, snd (map_spec (content s) c))" "inv s1" "content s1 = fst (map_spec (content s) c)"
    using run_refines [OF Cons.prems] by blast
  from Cons.IH [OF s1(2)] show ?case by (auto simp: s1 Let_def split: prod.splits)
qed simp

lemma history_refines:
  "\<exists>s. run_calls run new cs = Inr (s, snd (map_specs Map.empty cs)) \<and> inv s \<and> content s = fst (map_specs Map.empty cs)"
  using calls_refine [OF new_inv, of cs] by (simp add: new_content)

end

text \<open>A loop over pairs that calls a consumer until it returns false; the consumer has a state of its own.\<close>

fun yield_all :: "('k \<Rightarrow> 'v \<Rightarrow> 'a \<Rightarrow> 'a \<times> bool) \<Rightarrow> ('k \<times> 'v) list \<Rightarrow> 'a \<Rightarrow> 'a \<times> bool" where
  "yield_all f [] a = (a, True)"
| "yield_all f ((k, v) # ps) a = (case f k v a of (a1, again) \<Rightarrow> if again then yield_all f ps a1 else (a1, False))"

lemma yield_all_append:
  "yield_all f (ps @ qs) a = (case yield_all f ps a of (a1, again) \<Rightarrow> if again then yield_all f qs a1 else (a1, False))"
  by (induction f ps a rule: yield_all.induct) (auto split: prod.splits)

end
