(* ===== verification/Traversal.thy ===== *)
theory Traversal
  imports Samples MapSpec
begin

text \<open>
  Walks over the nodes of a tree that the tests and the debug output use: the depth-first search of \<open>iterator.go\<close>, which calls a consumer
  on each node after its children, the loops \<open>rfirst\<close> and \<open>rlast\<close> of \<open>inner.go\<close>, and the remaining methods of \<open>Inner\<close> and \<open>bnode\<close> that
  pass a call on to the node (\<open>node.go\<close>).
\<close>

section \<open>Methods that pass a call on\<close>

definition inner_gte :: "bnode inner \<Rightarrow> byte option \<Rightarrow> (byte \<times> bnode option) res" where
  "inner_gte n k = inode_gte (Node n) k"

definition inner_gt :: "bnode inner \<Rightarrow> byte option \<Rightarrow> (byte \<times> bnode option) res" where
  "inner_gt n k = inode_gt (Node n) k"

definition inner_lte :: "bnode inner \<Rightarrow> byte option \<Rightarrow> (byte \<times> bnode option) res" where
  "inner_lte n k = inode_lte (Node n) k"

definition inner_lt :: "bnode inner \<Rightarrow> byte option \<Rightarrow> (byte \<times> bnode option) res" where
  "inner_lt n k = inode_lt (Node n) k"

definition inner_first :: "bnode inner \<Rightarrow> (byte \<times> bnode option) res" where
  "inner_first n = inode_first (Node n)"

definition inner_last :: "bnode inner \<Rightarrow> (byte \<times> bnode option) res" where
  "inner_last n = inode_last (Node n)"

definition bnode_prev :: "bnode \<Rightarrow> byte option \<Rightarrow> (byte \<times> bnode option) res" where
  "bnode_prev a k = (if isLeaf a then Inr (0, None) else rbind (deref (binner a)) (\<lambda>n. inode_prev (Node n) k))"

definition bnode_next :: "bnode \<Rightarrow> byte option \<Rightarrow> (byte \<times> bnode option) res" where
  "bnode_next a k = (if isLeaf a then Inr (0, None) else rbind (deref (binner a)) (\<lambda>n. inode_next (Node n) k))"

definition bnode_redoPren :: "bnode \<Rightarrow> bnode res" where
  "bnode_redoPren a = (if isLeaf a then Inr a
     else rbind (deref (binner a)) (\<lambda>n. rbind (inode_redoPren (Node n)) (\<lambda>nd. 
       Inr (set_inner a (Inner (compressed n) (SubN n) nd (innerKeybyte n))))))"

section \<open>The loops to the first and the last leaf\<close>

partial_function (option) rfirst_loop :: "bnode option \<Rightarrow> leaf option res option" where
  "rfirst_loop b = (case b of
     None \<Rightarrow> Some (Inl NilDereference)
   | Some a \<Rightarrow>
       if isLeaf a then Some (Inr (bleaf a))
       else case bnode_first a of Inl e \<Rightarrow> Some (Inl e) | Inr r \<Rightarrow> rfirst_loop (snd r))"

definition rfirst :: "bnode inner \<Rightarrow> leaf option res option" where
  "rfirst n = (case inner_first n of Inl e \<Rightarrow> Some (Inl e) | Inr (k, b) \<Rightarrow> rfirst_loop b)"

partial_function (option) rlast_loop :: "bnode option \<Rightarrow> leaf option res option" where
  "rlast_loop b = (case b of
     None \<Rightarrow> Some (Inl NilDereference)
   | Some a \<Rightarrow>
       if isLeaf a then Some (Inr (bleaf a))
       else case bnode_last a of Inl e \<Rightarrow> Some (Inl e) | Inr r \<Rightarrow> rlast_loop (snd r))"

definition rlast :: "bnode inner \<Rightarrow> leaf option res option" where
  "rlast n = (case inner_last n of Inl e \<Rightarrow> Some (Inl e) | Inr (k, b) \<Rightarrow> rlast_loop b)"

lemma rfirst_loop_correct: "wft p b \<Longrightarrow> rfirst_loop (Some b) = Some (Inr (Some (hd (leaves b))))"
proof (induction rule: wft.induct)
  case (wft_leaf b l p)
  then show ?case by (subst rfirst_loop.simps) (simp add: leaves_leaf)
next
  case (wft_inner b n p)
  have kw: "kids_wft (p @ compressed n) (inode_kid (Node n))" using wft_inner.hyps(5) by (simp add: kids_wft_def)
  obtain x k c where f: "inode_first (Node n) = Inr (x, Some c)" "inode_kid (Node n) k = Some c"
    and h: "hd (kids_leaves (inode_kid (Node n))) = hd (leaves c)"
    using kids_leaves_first [OF wft_inner.hyps(3,4) kw] by blast
  with wft_inner.IH [OF f(2)] wft_inner.hyps(1,2) show ?case
    by (subst rfirst_loop.simps) (simp add: bnode_first_def leaves_inner')
qed

lemma rlast_loop_correct: "wft p b \<Longrightarrow> rlast_loop (Some b) = Some (Inr (Some (last (leaves b))))"
proof (induction rule: wft.induct)
  case (wft_leaf b l p)
  then show ?case by (subst rlast_loop.simps) (simp add: leaves_leaf)
next
  case (wft_inner b n p)
  have kw: "kids_wft (p @ compressed n) (inode_kid (Node n))" using wft_inner.hyps(5) by (simp add: kids_wft_def)
  obtain x k c where f: "inode_last (Node n) = Inr (x, Some c)" "inode_kid (Node n) k = Some c"
    and h: "last (kids_leaves (inode_kid (Node n))) = last (leaves c)"
    using kids_leaves_last [OF wft_inner.hyps(3,4) kw] by blast
  with wft_inner.IH [OF f(2)] wft_inner.hyps(1,2) show ?case
    by (subst rlast_loop.simps) (simp add: bnode_last_def leaves_inner')
qed

section \<open>Depth-first search\<close>

text \<open>
  The children in the order of the loops of \<open>visit\<close>, each read from its array when its turn comes; the byte and the depth that \<open>visit\<close> is
  given are not used.
\<close>

definition visit_children :: "'c inode \<Rightarrow> 'c option res list" where
  "visit_children nd = (case nd of
     N4 n \<Rightarrow> map (\<lambda>i. Inr (children4 n ! i)) (filter (\<lambda>i. int i < lth4 n) [0..<length (children4 n)])
   | N16 n \<Rightarrow> map (\<lambda>i. Inr (children16 n ! i)) (filter (\<lambda>i. int i < lth16 n) [0..<length (children16 n)])
   | N48 n \<Rightarrow> map (\<lambda>k. at_idx (children48 n) (uint k - 1)) (filter (\<lambda>k. k \<noteq> 0) (keys48 n))
   | N256 n \<Rightarrow> map Inr (filter (\<lambda>c. c \<noteq> None) (children256 n)))"

text \<open>A bound for the children that are left to visit.\<close>

definition visit_bound :: "bnode option res list \<Rightarrow> nat" where
  "visit_bound cs = Max (insert 0 {size b |b. Inr (Some b) \<in> set cs})"

lemma finite_visit: "finite {size b |b. Inr (Some b) \<in> set (cs :: bnode option res list)}"
proof -
  have "{size b |b. Inr (Some b) \<in> set cs} \<subseteq> (\<lambda>c. case c of Inr (Some b) \<Rightarrow> size b | _ \<Rightarrow> 0) ` set cs" by force
  then show ?thesis by (rule finite_subset) simp
qed

lemma visit_bound_Cons: "visit_bound cs \<le> visit_bound (c # cs)" "size b \<le> visit_bound (Inr (Some b) # cs)"
proof -
  have "finite (insert 0 {size b |b. Inr (Some b) \<in> set (c # cs)})" using finite_visit [of "c # cs"] by simp
  then show "visit_bound cs \<le> visit_bound (c # cs)" unfolding visit_bound_def by (rule Max_mono [rotated 2]) auto
  have "finite (insert 0 {size x |x. Inr (Some x) \<in> set (Inr (Some b) # cs)})" using finite_visit [of "Inr (Some b) # cs"] by simp
  then show "size b \<le> visit_bound (Inr (Some b) # cs)" unfolding visit_bound_def by (rule Max_ge) auto
qed

lemma visit_bound_less: "0 < m \<Longrightarrow> (\<And>c. Inr (Some c) \<in> set cs \<Longrightarrow> size c < m) \<Longrightarrow> visit_bound cs < m"
  unfolding visit_bound_def using finite_visit [of cs] by (auto simp: Max_less_iff)

lemma nth_memI: "i < length xs \<Longrightarrow> xs ! i = x \<Longrightarrow> x \<in> set xs"
  by auto

lemma visit_children_slots: "Inr (Some c) \<in> set (visit_children nd) \<Longrightarrow> Some c \<in> set (inode_slots nd)"
  by (cases nd) (auto simp: visit_children_def inode_slots_def intro: at_idx_mem sym nth_memI dest!: sym [of "Inr (Some c)"] sym [of "Some c"])

lemma visit_bound_node:
  assumes "binner b = Some n"
  shows "visit_bound (visit_children (Node n)) < size b"
proof (rule visit_bound_less)
  show "0 < size b" by (cases b) simp
  show "size c < size b" if "Inr (Some c) \<in> set (visit_children (Node n))" for c
    using size_kid_slot [OF visit_children_slots [OF that]] size_binner [OF assms] by simp
qed

function dfs_visit :: "(bnode \<Rightarrow> bool \<Rightarrow> 'a \<Rightarrow> 'a \<times> bool) \<Rightarrow> bnode \<Rightarrow> 'a \<Rightarrow> ('a \<times> bool) res"
  and dfs_visit_all :: "(bnode \<Rightarrow> bool \<Rightarrow> 'a \<Rightarrow> 'a \<times> bool) \<Rightarrow> bnode option res list \<Rightarrow> 'a \<Rightarrow> ('a \<times> bool) res" where
  "dfs_visit yield b a =
     (if isLeaf b then Inr (yield b True a)
      else rbind (deref (binner b)) (\<lambda>n. rbind (dfs_visit_all yield (visit_children (Node n)) a) (\<lambda>(a1, again).
        if again then Inr (yield b True a1) else Inr (a1, False))))"
| "dfs_visit_all yield [] a = Inr (a, True)"
| "dfs_visit_all yield (c # cs) a =
     rbind c (\<lambda>c. rbind (deref c) (\<lambda>b. rbind (dfs_visit yield b a) (\<lambda>(a1, again).
       if again then dfs_visit_all yield cs a1 else Inr (a1, False))))"
  by pat_completeness auto

termination
  by (relation "inv_image (less_than <*lex*> less_than <*lex*> less_than)
      (case_sum (\<lambda>(y, b, a). (size b, 0, 0)) (\<lambda>(y, cs, a). (visit_bound cs, 1, length cs)))")
    (auto simp: visit_bound_node intro: le_neq_implies_less visit_bound_Cons)

declare dfs_visit.simps [simp del]

definition dfs :: "bnode option \<Rightarrow> (bnode \<Rightarrow> bool \<Rightarrow> 'a \<Rightarrow> 'a \<times> bool) \<Rightarrow> 'a \<Rightarrow> 'a res" where
  "dfs r yield a = rbind (deref r) (\<lambda>b.
     if isLeaf b then Inr (fst (yield b True a))
     else rbind (dfs_visit yield b a) (\<lambda>(a1, again). Inr a1))"

text \<open>The nodes in the order of the visits.\<close>

function postorder :: "bnode \<Rightarrow> bnode list" where
  "postorder b = (if isLeaf b then [b]
     else (case binner b of None \<Rightarrow> [] | Some n \<Rightarrow> concat (map (\<lambda>(k, c). postorder c) (entries_of (inode_kid (Node n))))) @ [b])"
  by pat_completeness auto
termination
  by (relation "measure size") (auto dest!: kid_slot size_kid_slot size_binner)

declare postorder.simps [simp del]

lemma visit_children_entries:
  assumes "inode_ok nd"
  shows "visit_children nd = map (\<lambda>(k, c). Inr (Some c)) (entries_of (inode_kid nd))"
proof -
  have idx: "filter (\<lambda>c. c \<noteq> None) cs = map (\<lambda>(k, c). Some c) (idx_entries i cs)" for cs :: "'c option list" and i
    by (induction i cs rule: idx_entries.induct) auto
  have arr: "map (\<lambda>i. Inr (cs ! i)) (filter (\<lambda>i. int i < lth) [0..<length cs]) = map (\<lambda>(k, c). Inr (Some c)) (entries_of (arr_kid ks cs))"
    if ok: "arr_ok N lth ks cs" for N lth ks and cs :: "'c option list"
  proof -
    obtain es where r: "arr_rep N es lth ks cs" and e: "entries_of (arr_kid ks cs) = es" using ok by (rule arr_okE)
    note r = arr_repD(1-6) [OF r] and lth = r [unfolded arr_rep_def]
    have "filter (\<lambda>i. int i < lth) [0..<length cs] = [0..<length es]"
    proof -
      have "[0..<length cs] = [0..<length es] @ [length es..<length cs]" using r(2,4) upt_add_eq_append [of 0 "length es" "length cs - length es"] by simp
      then show ?thesis using lth by (simp add: filter_empty_conv)
    qed
    then show ?thesis unfolding e using r(6) r(2,4) by (auto intro!: nth_equalityI simp: slot_nth split_def)
  qed
  show ?thesis
  proof (cases nd)
    case (N4 n)
    then show ?thesis using assms arr [of 4] by (simp add: inode_ok_def inode_kid_def visit_children_def node4_ok_def node4_kid_def)
  next
    case (N16 n)
    then show ?thesis using assms arr [of 16] by (simp add: inode_ok_def inode_kid_def visit_children_def node16_ok_def node16_kid_def)
  next
    case (N48 n)
    then have ok: "node48_ok n" using assms by (simp add: inode_ok_def)
    have "map (\<lambda>k. at_idx (children48 n) (uint k - 1)) (filter (\<lambda>k. k \<noteq> 0) (keys48 n)) =
      map Inr (filter (\<lambda>c. c \<noteq> None) (key_slots (children48 n) (keys48 n)))"
    proof -
      have "at_idx (children48 n) (uint k - 1) = Inr (slot (children48 n) (unat k - 1)) \<and> slot (children48 n) (unat k - 1) \<noteq> None"
        if k: "k \<in> set (keys48 n)" "k \<noteq> 0" for k
      proof -
        obtain i where i: "i < 256" "keys48 n ! i = k" using k(1) ok by (auto simp: in_set_conv_nth node48_ok_def)
        show ?thesis using node48_slot [OF ok i(1)] i(2) k(2) ok by (auto simp: slot_nth node48_ok_def)
      qed
      then have "map (\<lambda>k. at_idx (children48 n) (uint k - 1)) (filter (\<lambda>k. k \<noteq> 0) ks) =
        map Inr (filter (\<lambda>c. c \<noteq> None) (key_slots (children48 n) ks))" if "set ks \<subseteq> set (keys48 n)" for ks
        using that by (induction ks) (auto simp: key_slots_def)
      then show ?thesis by blast
    qed
    then show ?thesis using N48 idx [of "key_slots (children48 n) (keys48 n)" 0] idx_entries_48 [OF ok]
      by (simp add: inode_kid_def visit_children_def comp_def split_def)
  next
    case (N256 n)
    then show ?thesis using assms idx [of "children256 n" 0] idx_entries_256 [of n]
      by (simp add: inode_ok_def inode_kid_def visit_children_def comp_def split_def)
  qed
qed

lemma postorder_simps:
  "isLeaf b \<Longrightarrow> postorder b = [b]"
  "\<not> isLeaf b \<Longrightarrow> binner b = Some n \<Longrightarrow> postorder b = concat (map (\<lambda>(k, c). postorder c) (entries_of (inode_kid (Node n)))) @ [b]"
  by (simp_all add: postorder.simps [of b])

abbreviation flagged :: "bnode list \<Rightarrow> (bnode \<times> bool) list" where
  "flagged bs \<equiv> map (\<lambda>b. (b, True)) bs"

lemma visit_all_correct:
  "\<forall>(k, c) \<in> set es. \<forall>a. dfs_visit yield c a = Inr (yield_all yield (flagged (postorder c)) a) \<Longrightarrow>
   dfs_visit_all yield (map (\<lambda>(k, c). Inr (Some c)) es) a =
     Inr (yield_all yield (flagged (concat (map (\<lambda>(k, c). postorder c) es))) a)"
  by (induction es arbitrary: a) (auto simp: yield_all_append split: prod.split)

lemma visit_correct: "wft p b \<Longrightarrow> dfs_visit yield b a = Inr (yield_all yield (flagged (postorder b)) a)"
proof (induction arbitrary: a rule: wft.induct)
  case (wft_leaf b l p)
  then show ?case by (simp add: dfs_visit.simps [of yield b] postorder_simps split: prod.split)
next
  case (wft_inner b n p)
  have "dfs_visit_all yield (visit_children (Node n)) a' = Inr (yield_all yield (flagged (concat (map (\<lambda>(k, c). postorder c) (entries_of (inode_kid (Node n)))))) a')" for a'
    unfolding visit_children_entries [OF wft_inner.hyps(3)] by (rule visit_all_correct) (auto simp: wft_inner.IH)
  then show ?case using wft_inner.hyps(1,2)
    by (simp add: dfs_visit.simps [of yield b] postorder_simps yield_all_append split: prod.split)
qed

lemma postorder_leaves: "wft p b \<Longrightarrow> map bleaf (filter isLeaf (postorder b)) = map Some (leaves b)"
proof (induction rule: wft.induct)
  case (wft_leaf b l p)
  then show ?case by (simp add: postorder_simps leaves_leaf)
next
  case (wft_inner b n p)
  have "map bleaf (filter isLeaf (concat (map (\<lambda>(k, c). postorder c) es))) = map Some (concat (map (\<lambda>(k, c). leaves c) es))"
    if "set es \<subseteq> set (entries_of (inode_kid (Node n)))" for es
    using that by (induction es) (auto simp: wft_inner.IH)
  then show ?case using wft_inner.hyps(1,2) by (simp add: postorder_simps leaves_inner)
qed

lemma yield_collect: "yield_all (\<lambda>b flag bs. (bs @ [b], True)) (flagged xs) ys = (ys @ xs, True)"
  by (induction xs arbitrary: ys) simp_all

lemma rfirst_loop_inner: "\<not> isLeaf b \<Longrightarrow> binner b = Some n \<Longrightarrow> rfirst_loop (Some b) = rfirst n"
  by (subst rfirst_loop.simps) (auto simp: rfirst_def inner_first_def bnode_first_def split: sum.split)

lemma rlast_loop_inner: "\<not> isLeaf b \<Longrightarrow> binner b = Some n \<Longrightarrow> rlast_loop (Some b) = rlast n"
  by (subst rlast_loop.simps) (auto simp: rlast_def inner_last_def bnode_last_def split: sum.split)

section \<open>The properties\<close>

text \<open>
  C34. The depth-first search of a well-formed tree does not panic: it calls the consumer on the nodes in postorder, each with true, until the consumer
  returns false. The leaves among the nodes are the leaves of the tree, in the order of the keys.
\<close>

theorem dfs_visits_nodes:
  assumes "tree_wf t" and "root t = Some b"
  shows "dfs (root t) yield a = Inr (fst (yield_all yield (flagged (postorder b)) a)) \<and>
    map bleaf (filter isLeaf (postorder b)) = map Some (tree_leaves t)"
proof -
  have w: "wft [] b" using assms by (simp add: tree_wf_def)
  have "dfs (root t) yield a = Inr (fst (yield_all yield (flagged (postorder b)) a))"
    using visit_correct [OF w, of yield a] assms(2)
    by (cases "isLeaf b") (auto simp: dfs_def postorder_simps split: prod.split)
  then show ?thesis using postorder_leaves [OF w] assms(2) by (simp add: tree_leaves_def)
qed

theorem dfs_visits_nodes_witness:
  "\<exists>bs. dfs (root sample_tree) (\<lambda>b flag bs. (bs @ [b], True)) [] = Inr bs \<and>
    map bleaf (filter isLeaf bs) = map Some (tree_leaves sample_tree)"
proof -
  obtain b where "root sample_tree = Some b" using sample_root by blast
  then show ?thesis using dfs_visits_nodes [OF sample_facts(1), of b "\<lambda>b flag bs. (bs @ [b], True)" "[]"]
    by (simp add: yield_collect)
qed

text \<open>
  The loops of \<open>rfirst\<close> and \<open>rlast\<close> end on every well-formed inner node, at any depth, and return the first and the last leaf below it.
\<close>

theorem rfirst_rlast_return:
  assumes "wft p b" and "\<not> isLeaf b" and "binner b = Some n"
  shows "rfirst n = Some (Inr (Some (hd (leaves b)))) \<and> rlast n = Some (Inr (Some (last (leaves b))))"
  using rfirst_loop_correct [OF assms(1)] rlast_loop_correct [OF assms(1)] rfirst_loop_inner [OF assms(2,3)] rlast_loop_inner [OF assms(2,3)]
  by simp

end
