(* ===== verification/RaceLock.thy ===== *)
theory RaceLock
  imports Prelude
begin

text \<open>
  The lock of the builds with the race detector (\<open>attic/optimistic_lock_race.go\<close>): a mutex and a
  condition variable simulate a lock that one reader or one writer holds, with a queue of waiters.

  A method runs under the mutex, except while it waits on the condition variable. So it is a
  sequence of atomic parts: the part from the call to the first wait or to the return, and for each
  wake-up the part from there to the next wait or to the return. Each part is a function of the lock; the
  waits of the code are the values of \<open>wait_point\<close>. The broadcast that \<open>RUnlock\<close>, \<open>Unlock\<close> and \<open>UnlockObsolete\<close> defer
  runs when the mutex has been given back: it is a step of its own, and others can run before it. The number of the goroutine, which the code reads from
  the runtime, is the argument \<open>gn\<close>; the messages of the panics leave it out. The second half runs any number of goroutines.
\<close>

section \<open>The lock\<close>

datatype simu = simu_Unlocked | simu_ReadLocked | simu_WriteLocked

record race_olock =
  simu_state :: simu
  race_cv :: bool
  race_version :: "64 word"
  race_writer :: int
  race_reader :: int
  waiters :: "int list"

definition new_race_olock :: race_olock where
  "new_race_olock = \<lparr>simu_state = simu_Unlocked, race_cv = False, race_version = 0, race_writer = 0, race_reader = 0, waiters = []\<rparr>"

text \<open>\<open>init\<close> makes the condition variable once; each method calls it when there is none.\<close>

definition race_init :: "race_olock \<Rightarrow> race_olock" where
  "race_init ol = (if race_cv ol then ol else ol\<lparr>race_cv := True\<rparr>)"

definition myTurnToRead :: "int \<Rightarrow> race_olock \<Rightarrow> (bool \<times> race_olock) res" where
  "myTurnToRead gn ol =
     (if race_writer ol = 0 \<and> race_reader ol = 0 then
        rbind (at_idx (waiters ol) 0) (\<lambda>w.
          if w = gn then Inr (True, ol\<lparr>waiters := tl (waiters ol), race_reader := gn\<rparr>) else Inr (False, ol))
      else Inr (False, ol))"

definition myTurnToWrite :: "int \<Rightarrow> race_olock \<Rightarrow> (bool \<times> race_olock) res" where
  "myTurnToWrite gn ol =
     (if race_writer ol = 0 \<and> race_reader ol = 0 then
        rbind (at_idx (waiters ol) 0) (\<lambda>w.
          if w = gn then Inr (True, ol\<lparr>waiters := tl (waiters ol), race_writer := gn\<rparr>) else Inr (False, ol))
      else Inr (False, ol))"

text \<open>\<open>append(ol.waiters[:i], ol.waiters[i+1:]...)\<close> at the first \<open>i\<close> that holds the goroutine.\<close>

definition doneWaiting :: "int \<Rightarrow> race_olock \<Rightarrow> race_olock" where
  "doneWaiting gn ol = ol\<lparr>waiters := remove1 gn (waiters ol)\<rparr>"

definition writing :: "int \<Rightarrow> race_olock \<Rightarrow> race_olock" where
  "writing gn ol = (doneWaiting gn ol)\<lparr>race_writer := gn, race_reader := 0\<rparr>"

definition amWriting :: "int \<Rightarrow> race_olock \<Rightarrow> bool" where
  "amWriting gn ol \<longleftrightarrow> race_writer ol = gn"

definition doneWriting :: "race_olock \<Rightarrow> race_olock" where
  "doneWriting ol = ol\<lparr>race_writer := 0\<rparr>"

definition waiting :: "int \<Rightarrow> race_olock \<Rightarrow> race_olock" where
  "waiting gn ol = (if gn \<in> set (waiters ol) then ol else ol\<lparr>waiters := waiters ol @ [gn]\<rparr>)"

definition reading :: "int \<Rightarrow> race_olock \<Rightarrow> race_olock" where
  "reading gn ol = (doneWaiting gn ol)\<lparr>race_reader := gn, race_writer := 0\<rparr>"

definition amReading :: "int \<Rightarrow> race_olock \<Rightarrow> bool" where
  "amReading gn ol \<longleftrightarrow> race_reader ol = gn"

definition doneReading :: "race_olock \<Rightarrow> race_olock" where
  "doneReading ol = ol\<lparr>race_reader := 0\<rparr>"

section \<open>The parts of the methods\<close>

text \<open>
  The loops that wait: the first of \<open>RLock\<close> (found write-locked) and the second (found read-locked) are
  the same loop; \<open>Upgrade\<close> and \<open>Lock\<close> have two each.
\<close>

datatype wait_point = RLock_wait | Upgrade_wait_written | Upgrade_wait_read | Lock_wait_written | Lock_wait_read

text \<open>
  How a part ends: the method returns, with a version and a flag where it has such results, or it
  waits. The Boolean of a part that waits says that it called \<open>Broadcast\<close> before; that of a part that returns says that
  a deferred \<open>Broadcast\<close> is to follow.
\<close>

datatype part_end = Returned "64 word" bool | Asleep wait_point

type_synonym part = "(race_olock \<times> bool \<times> part_end) res"

definition finish :: "race_olock \<Rightarrow> part" where
  "finish ol = Inr (ol, False, Returned 0 False)"

text \<open>One round of a waiting loop: the test, and either what follows the loop or the wait.\<close>

definition wait_read :: "int \<Rightarrow> wait_point \<Rightarrow> (race_olock \<Rightarrow> race_olock) \<Rightarrow> race_olock \<Rightarrow> part" where
  "wait_read gn wp after ol =
     (if simu_state ol = simu_Unlocked then
        rbind (myTurnToRead gn ol) (\<lambda>(mine, ol1).
          if mine then (let ol2 = after ol1 in Inr (ol2, False, Returned (race_version ol2) False))
          else Inr (ol1, False, Asleep wp))
      else Inr (ol, False, Asleep wp))"

definition wait_write :: "int \<Rightarrow> wait_point \<Rightarrow> bool \<Rightarrow> (race_olock \<Rightarrow> race_olock) \<Rightarrow> race_olock \<Rightarrow> part" where
  "wait_write gn wp broadcast after ol =
     (if simu_state ol = simu_Unlocked then
        rbind (myTurnToWrite gn ol) (\<lambda>(mine, ol1).
          if mine then finish (after ol1) else Inr (ol1, broadcast, Asleep wp))
      else Inr (ol, broadcast, Asleep wp))"

text \<open>The part that a goroutine runs when it wakes up at a wait.\<close>

definition resume :: "int \<Rightarrow> wait_point \<Rightarrow> race_olock \<Rightarrow> part" where
  "resume gn wp ol = (case wp of
     RLock_wait \<Rightarrow> wait_read gn wp (\<lambda>ol. ol\<lparr>simu_state := simu_ReadLocked\<rparr>) ol
   | Upgrade_wait_written \<Rightarrow> wait_write gn wp True (\<lambda>ol. ol\<lparr>simu_state := simu_WriteLocked\<rparr>) ol
   | Upgrade_wait_read \<Rightarrow> wait_write gn wp False
       (\<lambda>ol. ol\<lparr>simu_state := simu_WriteLocked, race_version := race_version ol + 2\<rparr>) ol
   | Lock_wait_written \<Rightarrow> wait_write gn wp False (\<lambda>ol. ol\<lparr>simu_state := simu_WriteLocked\<rparr>) ol
   | Lock_wait_read \<Rightarrow> wait_write gn wp True (\<lambda>ol. ol\<lparr>simu_state := simu_WriteLocked\<rparr>) ol)"

definition race_RLock :: "int \<Rightarrow> race_olock \<Rightarrow> part" where
  "race_RLock gn ol0 = (let ol = race_init ol0 in
     case simu_state ol of
       simu_WriteLocked \<Rightarrow> resume gn RLock_wait (waiting gn ol)
     | simu_ReadLocked \<Rightarrow>
         if amReading gn ol then Inr (ol, False, Returned (race_version ol) False)
         else resume gn RLock_wait (waiting gn ol)
     | simu_Unlocked \<Rightarrow>
         let ol1 = reading gn (ol\<lparr>simu_state := simu_ReadLocked\<rparr>)
         in Inr (ol1, False, Returned (race_version ol1) False))"

definition race_RUnlock :: "int \<Rightarrow> race_olock \<Rightarrow> part" where
  "race_RUnlock gn ol0 = (let ol = race_init ol0 in
     if \<not> amReading gn ol then Inr (ol, True, Returned 0 False)
     else let ol1 = doneReading ol in
       case simu_state ol1 of
         simu_WriteLocked \<Rightarrow> Inl (PanicMessage ''how to deal with: an RUnlock() call when WriteLocked.'')
       | simu_ReadLocked \<Rightarrow> Inr (ol1\<lparr>simu_state := simu_Unlocked\<rparr>, True, Returned 0 False)
       | simu_Unlocked \<Rightarrow> Inr (ol1, True, Returned 0 False))"

definition race_Upgrade :: "int \<Rightarrow> race_olock \<Rightarrow> part" where
  "race_Upgrade gn ol0 = (let ol = race_init ol0 in
     case simu_state ol of
       simu_WriteLocked \<Rightarrow>
         if amWriting gn ol then finish ol
         else resume gn Upgrade_wait_written (waiting gn ol)
     | simu_ReadLocked \<Rightarrow>
         if amReading gn ol then
           finish ((writing gn ol)\<lparr>simu_state := simu_WriteLocked, race_version := race_version ol + 2\<rparr>)
         else resume gn Upgrade_wait_read ol
     | simu_Unlocked \<Rightarrow>
         finish ((writing gn (ol\<lparr>simu_state := simu_WriteLocked\<rparr>))\<lparr>race_version := race_version ol + 2\<rparr>))"

text \<open>The version never counts as changed.\<close>

definition race_Check :: "race_olock \<Rightarrow> 64 word \<Rightarrow> bool" where
  "race_Check ol version = False"

definition race_Lock :: "int \<Rightarrow> race_olock \<Rightarrow> part" where
  "race_Lock gn ol0 = (let ol = race_init ol0 in
     case simu_state ol of
       simu_WriteLocked \<Rightarrow>
         if amWriting gn ol then finish ol
         else resume gn Lock_wait_written (waiting gn ol)
     | simu_ReadLocked \<Rightarrow>
         if amReading gn ol then finish (writing gn (ol\<lparr>simu_state := simu_WriteLocked\<rparr>))
         else resume gn Lock_wait_read (waiting gn ol)
     | simu_Unlocked \<Rightarrow> finish ((writing gn ol)\<lparr>simu_state := simu_WriteLocked\<rparr>))"

definition race_Unlock :: "int \<Rightarrow> race_olock \<Rightarrow> part" where
  "race_Unlock gn ol0 = (let ol = race_init ol0 in
     if \<not> amWriting gn ol then Inl (PanicMessage ''non writer calls unlock?!?'')
     else let ol1 = doneWriting ol in
       case simu_state ol1 of
         simu_WriteLocked \<Rightarrow>
           Inr (ol1\<lparr>race_version := race_version ol1 + 2, simu_state := simu_Unlocked\<rparr>, True, Returned 0 False)
       | simu_ReadLocked \<Rightarrow> Inl (PanicMessage ''writer unlock happens when read locked??'')
       | simu_Unlocked \<Rightarrow> Inr (ol1, True, Returned 0 False))"

definition race_UnlockObsolete :: "int \<Rightarrow> race_olock \<Rightarrow> part" where
  "race_UnlockObsolete gn ol0 = (let ol = race_init ol0 in
     if \<not> amWriting gn ol then Inl (PanicMessage ''non writer calls UnlockObsolete?!?'')
     else Inr ((doneWriting ol)\<lparr>simu_state := simu_Unlocked\<rparr>, True, Returned 0 False))"

section \<open>Goroutines\<close>

text \<open>
  A goroutine is outside the lock's methods, asleep at a wait, woken and not yet run, or about to run its deferred broadcast,
  without the mutex, before it returns. \<open>Broadcast\<close> wakes all that are asleep.
\<close>

datatype race_pc = Outside | Sleeping wait_point | Woken wait_point | Broadcasting

datatype race_call = CallRLock | CallRUnlock | CallUpgrade | CallLock | CallUnlock | CallUnlockObsolete

definition race_run :: "race_call \<Rightarrow> int \<Rightarrow> race_olock \<Rightarrow> part" where
  "race_run c = (case c of CallRLock \<Rightarrow> race_RLock | CallRUnlock \<Rightarrow> race_RUnlock | CallUpgrade \<Rightarrow> race_Upgrade
     | CallLock \<Rightarrow> race_Lock | CallUnlock \<Rightarrow> race_Unlock | CallUnlockObsolete \<Rightarrow> race_UnlockObsolete)"

definition wake :: "race_pc \<Rightarrow> race_pc" where
  "wake p = (case p of Sleeping wp \<Rightarrow> Woken wp | _ \<Rightarrow> p)"

type_synonym race_world = "race_olock \<times> (int \<Rightarrow> race_pc)"

definition end_part :: "(int \<Rightarrow> race_pc) \<Rightarrow> int \<Rightarrow> race_olock \<times> bool \<times> part_end \<Rightarrow> race_world" where
  "end_part pcs gn r = (case r of (ol, broadcast, e) \<Rightarrow> (ol, case e of
     Returned v b \<Rightarrow> pcs(gn := if broadcast then Broadcasting else Outside)
   | Asleep wp \<Rightarrow> (if broadcast then wake \<circ> pcs else pcs)(gn := Sleeping wp)))"

text \<open>
  The calls that the code's users make: only the writer unlocks, and \<open>Upgrade\<close> is not called while
  another goroutine reads (the caller has read-locked before, and there is one reader).
\<close>

definition in_turn :: "race_call \<Rightarrow> int \<Rightarrow> race_olock \<Rightarrow> bool" where
  "in_turn c gn ol \<longleftrightarrow> (case c of CallUnlock \<Rightarrow> amWriting gn ol | CallUnlockObsolete \<Rightarrow> amWriting gn ol
     | CallUpgrade \<Rightarrow> simu_state ol = simu_ReadLocked \<longrightarrow> amReading gn ol | _ \<Rightarrow> True)"

inductive race_step :: "race_world \<Rightarrow> race_world \<Rightarrow> bool" where
  call: "0 < gn \<Longrightarrow> pcs gn = Outside \<Longrightarrow> in_turn c gn ol \<Longrightarrow> race_run c gn ol = Inr r \<Longrightarrow>
    race_step (ol, pcs) (end_part pcs gn r)"
| wakeup: "pcs gn = Woken wp \<Longrightarrow> resume gn wp ol = Inr r \<Longrightarrow> race_step (ol, pcs) (end_part pcs gn r)"
| broadcast: "pcs gn = Broadcasting \<Longrightarrow> race_step (ol, pcs) (ol, (wake \<circ> pcs)(gn := Outside))"

inductive_cases race_stepE: "race_step (ol, pcs) w"

inductive race_reach :: "race_world \<Rightarrow> bool" where
  start: "race_reach (new_race_olock, \<lambda>_. Outside)"
| next_step: "race_reach w \<Longrightarrow> race_step w w' \<Longrightarrow> race_reach w'"

section \<open>The invariant\<close>

text \<open>
  The state says who holds the lock. The queue holds each waiting goroutine once. When the lock is
  free and somebody waits, the head of the queue has been woken, or a broadcast is about to come.
\<close>

definition holders_ok :: "race_olock \<Rightarrow> bool" where
  "holders_ok ol \<longleftrightarrow> (case simu_state ol of
     simu_Unlocked \<Rightarrow> race_writer ol = 0 \<and> race_reader ol = 0
   | simu_ReadLocked \<Rightarrow> race_writer ol = 0 \<and> 0 < race_reader ol
   | simu_WriteLocked \<Rightarrow> 0 < race_writer ol \<and> race_reader ol = 0)"

definition waits :: "race_pc \<Rightarrow> bool" where
  "waits p \<longleftrightarrow> p \<noteq> Outside \<and> p \<noteq> Broadcasting"

definition queue_ok :: "int list \<Rightarrow> (int \<Rightarrow> race_pc) \<Rightarrow> bool" where
  "queue_ok ws pcs \<longleftrightarrow> distinct ws \<and> (\<forall>g. g \<in> set ws \<longleftrightarrow> waits (pcs g)) \<and> (\<forall>g. waits (pcs g) \<longrightarrow> 0 < g)"

definition head_woken :: "race_olock \<Rightarrow> (int \<Rightarrow> race_pc) \<Rightarrow> bool" where
  "head_woken ol pcs \<longleftrightarrow> (simu_state ol = simu_Unlocked \<longrightarrow> waiters ol \<noteq> [] \<longrightarrow>
     (\<exists>wp. pcs (hd (waiters ol)) = Woken wp) \<or> (\<exists>h. pcs h = Broadcasting))"

definition race_inv :: "race_world \<Rightarrow> bool" where
  "race_inv w \<longleftrightarrow> (case w of (ol, pcs) \<Rightarrow> holders_ok ol \<and> queue_ok (waiters ol) pcs \<and> head_woken ol pcs)"

lemma wake_simps [simp]: "wake p = Outside \<longleftrightarrow> p = Outside" "wake (Woken wp) = Woken wp" "wake p \<noteq> Sleeping wp"
  "wake p = Broadcasting \<longleftrightarrow> p = Broadcasting"
  by (cases p; simp add: wake_def)+

lemma waits_simps [simp]: "waits (Sleeping wp)" "waits (Woken wp)" "\<not> waits Outside" "\<not> waits Broadcasting" "waits (wake p) \<longleftrightarrow> waits p"
  by (simp_all add: waits_def)

lemma waits_cases: "waits p \<Longrightarrow> (\<exists>wp. p = Sleeping wp) \<or> (\<exists>wp. p = Woken wp)"
  by (cases p) simp_all

lemma waits_wake: "waits p \<Longrightarrow> \<exists>wp. wake p = Woken wp"
  using waits_cases [of p] by (auto simp: wake_def)

lemma race_init_sel [simp]:
  "simu_state (race_init ol) = simu_state ol" "race_version (race_init ol) = race_version ol"
  "race_writer (race_init ol) = race_writer ol" "race_reader (race_init ol) = race_reader ol"
  "waiters (race_init ol) = waiters ol"
  by (simp_all add: race_init_def)

lemma ex_bool_iff [simp]: "Ex Not" "\<exists>x. x"
  by blast+

text \<open>Where the queue is not empty, the turn goes to its head and nobody panics.\<close>

lemma myTurn_queued:
  assumes "waiters ol \<noteq> []"
  shows "myTurnToRead gn ol = Inr (if race_writer ol = 0 \<and> race_reader ol = 0 \<and> hd (waiters ol) = gn
      then (True, ol\<lparr>waiters := tl (waiters ol), race_reader := gn\<rparr>) else (False, ol))"
    and "myTurnToWrite gn ol = Inr (if race_writer ol = 0 \<and> race_reader ol = 0 \<and> hd (waiters ol) = gn
      then (True, ol\<lparr>waiters := tl (waiters ol), race_writer := gn\<rparr>) else (False, ol))"
  using assms by (cases "waiters ol"; auto simp: myTurnToRead_def myTurnToWrite_def at_idx_def)+

definition waits_in :: "race_olock \<Rightarrow> (int \<Rightarrow> race_pc) \<Rightarrow> int \<Rightarrow> bool" where
  "waits_in ol pcs gn \<longleftrightarrow> 0 < gn \<and> pcs gn \<noteq> Broadcasting \<and> distinct (waiters ol) \<and>
     (\<forall>g. g \<in> set (waiters ol) \<longleftrightarrow> waits (pcs g) \<or> g = gn) \<and> (\<forall>g. waits (pcs g) \<longrightarrow> 0 < g) \<and> holders_ok ol \<and>
     (simu_state ol = simu_Unlocked \<longrightarrow> hd (waiters ol) = gn \<or> (\<exists>wp. pcs (hd (waiters ol)) = Woken wp) \<or> (\<exists>h. pcs h = Broadcasting))"

text \<open>A round of a waiting loop takes the lock exactly when it is free and the goroutine is the head.\<close>

lemma resume_eq:
  assumes "waits_in ol pcs gn"
  shows "\<exists>r. resume gn wp ol = Inr r \<and> (if simu_state ol = simu_Unlocked \<and> hd (waiters ol) = gn
    then \<exists>v. (case r of (ol', b, e) \<Rightarrow> waiters ol' = tl (waiters ol) \<and> \<not> b \<and> e = Returned v False \<and> holders_ok ol' \<and>
      simu_state ol' \<noteq> simu_Unlocked \<and> (race_reader ol' = gn \<or> race_writer ol' = gn))
    else \<exists>b. r = (ol, b, Asleep wp))"
proof -
  have ne: "waiters ol \<noteq> []" using assms unfolding waits_in_def by (metis empty_iff list.set(1))
  have h: "holders_ok ol" "0 < gn" using assms by (simp_all add: waits_in_def)
  show ?thesis
    by (cases wp; use h in \<open>auto simp: resume_def wait_read_def wait_write_def myTurn_queued [OF ne] Let_def finish_def holders_ok_def split: simu.splits\<close>)
qed

lemma resume_inv:
  assumes "waits_in ol pcs gn"
  shows "\<exists>r. resume gn wp ol = Inr r \<and> race_inv (end_part pcs gn r)"
proof (cases "simu_state ol = simu_Unlocked \<and> hd (waiters ol) = gn")
  case True
  then obtain r v where r: "resume gn wp ol = Inr r" "case r of (ol', b, e) \<Rightarrow> waiters ol' = tl (waiters ol) \<and> \<not> b \<and> e = Returned v False \<and> holders_ok ol' \<and>
      simu_state ol' \<noteq> simu_Unlocked \<and> (race_reader ol' = gn \<or> race_writer ol' = gn)" using resume_eq [OF assms, of wp] by auto
  have "gn \<notin> set (tl (waiters ol))" "set (waiters ol) = insert gn (set (tl (waiters ol)))"
    using assms True unfolding waits_in_def by (cases "waiters ol"; auto)+
  with r assms show ?thesis
    by (cases r; auto simp: race_inv_def end_part_def queue_ok_def head_woken_def waits_in_def distinct_tl; blast)
next
  case False
  then obtain b where "resume gn wp ol = Inr (ol, b, Asleep wp)" using resume_eq [OF assms, of wp] by auto
  moreover have "waiters ol \<noteq> []" using assms unfolding waits_in_def by (metis empty_iff list.set(1))
  ultimately show ?thesis using assms False
    by (auto simp: race_inv_def end_part_def queue_ok_def head_woken_def waits_in_def)
qed

text \<open>A call of a goroutine that is outside: it returns, or it joins the queue of a lock that is held.\<close>

lemma call_waits:
  assumes "race_inv (ol, pcs)" and "pcs gn = Outside" and "0 < gn" and "simu_state ol \<noteq> simu_Unlocked"
  shows "waits_in (waiting gn (race_init ol)) pcs gn"
  using assms by (auto simp: waits_in_def waiting_def race_inv_def queue_ok_def holders_ok_def split: simu.splits)

lemma call_returns:
  assumes "race_inv (ol, pcs)" and "pcs gn = Outside" and "0 < gn" and "waiters ol' = waiters ol"
    and "holders_ok ol'" and "simu_state ol' = simu_Unlocked \<Longrightarrow> simu_state ol = simu_Unlocked \<or> b"
  shows "race_inv (end_part pcs gn (ol', b, Returned v d))"
proof -
  have q: "gn \<notin> set (waiters ol)" "queue_ok (waiters ol) pcs" "head_woken ol pcs"
    using assms by (auto simp: race_inv_def queue_ok_def)
  have "head_woken ol' (snd (end_part pcs gn (ol', b, Returned v d)))"
  proof (cases "simu_state ol' = simu_Unlocked \<and> waiters ol \<noteq> [] \<and> \<not> b")
    case True
    then have "hd (waiters ol) \<in> set (waiters ol)" by simp
    then have h: "hd (waiters ol) \<noteq> gn" using q by auto
    have "(\<exists>wp. pcs (hd (waiters ol)) = Woken wp) \<or> (\<exists>h. h \<noteq> gn \<and> pcs h = Broadcasting)"
      using q(3) True assms(2,6) unfolding head_woken_def by (metis race_pc.distinct(5))
    then show ?thesis using True h assms(4) by (auto simp: head_woken_def end_part_def)
  qed (auto simp: head_woken_def assms(4) end_part_def)
  with q assms show ?thesis by (auto simp: race_inv_def end_part_def queue_ok_def)
qed

lemma not_queued: "race_inv (ol, pcs) \<Longrightarrow> pcs gn = Outside \<Longrightarrow> remove1 gn (waiters ol) = waiters ol"
  by (auto simp: race_inv_def queue_ok_def remove1_idem)

lemmas race_defs = race_RLock_def race_RUnlock_def race_Upgrade_def race_Lock_def race_Unlock_def race_UnlockObsolete_def
  reading_def writing_def doneReading_def doneWriting_def amReading_def amWriting_def doneWaiting_def finish_def Let_def

lemma call_cases:
  assumes "holders_ok ol" and "0 < gn" and "in_turn c gn ol" and "remove1 gn (waiters ol) = waiters ol"
  shows "(\<exists>ol' b v d. race_run c gn ol = Inr (ol', b, Returned v d) \<and> waiters ol' = waiters ol \<and> holders_ok ol' \<and>
      (simu_state ol' = simu_Unlocked \<longrightarrow> simu_state ol = simu_Unlocked \<or> b)) \<or>
    simu_state ol \<noteq> simu_Unlocked \<and> (\<exists>wp. race_run c gn ol = resume gn wp (waiting gn (race_init ol)))"
  using assms by (cases c; cases "simu_state ol"; simp add: race_run_def race_defs in_turn_def holders_ok_def split: if_split; blast?)

lemma call_inv:
  assumes inv: "race_inv (ol, pcs)" and o: "pcs gn = Outside" and gn: "0 < gn" and turn: "in_turn c gn ol"
  shows "\<exists>r. race_run c gn ol = Inr r \<and> race_inv (end_part pcs gn r)"
proof -
  have "holders_ok ol" using inv by (simp add: race_inv_def)
  from call_cases [OF this gn turn not_queued [OF inv o]] show ?thesis
    using resume_inv [OF call_waits [OF inv o gn]] call_returns [OF inv o gn] by metis
qed

lemma waiting_in_queue:
  assumes "race_inv (ol, pcs)" and "waits (pcs gn)"
  shows "waits_in ol pcs gn"
proof -
  have q: "queue_ok (waiters ol) pcs" "holders_ok ol" "head_woken ol pcs" using assms(1) by (simp_all add: race_inv_def)
  then have "0 < gn" "gn \<in> set (waiters ol)" using assms(2) by (simp_all add: queue_ok_def)
  then show ?thesis using q assms(2) by (auto simp: waits_in_def queue_ok_def head_woken_def)
qed

lemma wakeup_inv:
  assumes "race_inv (ol, pcs)" and "pcs gn = Woken wp"
  shows "\<exists>r. resume gn wp ol = Inr r \<and> race_inv (end_part pcs gn r)"
  by (rule resume_inv [OF waiting_in_queue [OF assms(1)]]) (simp add: assms(2))

lemma broadcast_inv:
  assumes "race_inv (ol, pcs)" and "pcs gn = Broadcasting"
  shows "race_inv (ol, (wake \<circ> pcs)(gn := Outside))"
proof -
  have q: "queue_ok (waiters ol) pcs" using assms(1) by (simp add: race_inv_def)
  have "\<exists>wp. ((wake \<circ> pcs)(gn := Outside)) (hd (waiters ol)) = Woken wp" if "waiters ol \<noteq> []"
  proof -
    have "hd (waiters ol) \<in> set (waiters ol)" using that by simp
    then have "waits (pcs (hd (waiters ol)))" using q unfolding queue_ok_def by blast
    then have "hd (waiters ol) \<noteq> gn" using assms(2) by auto
    then show ?thesis using waits_wake [OF \<open>waits (pcs (hd (waiters ol)))\<close>] by simp
  qed
  moreover have "queue_ok (waiters ol) ((wake \<circ> pcs)(gn := Outside))" using q assms(2) by (auto simp: queue_ok_def)
  ultimately show ?thesis using assms(1) by (auto simp: race_inv_def head_woken_def)
qed

lemma race_step_inv: "race_step w w' \<Longrightarrow> race_inv w \<Longrightarrow> race_inv w'"
proof (induction rule: race_step.induct)
  case (call gn pcs c ol r)
  then show ?case using call_inv [of ol pcs gn c] by auto
next
  case (wakeup pcs gn wp ol r)
  then show ?case using wakeup_inv [of ol pcs gn wp] by auto
next
  case (broadcast pcs gn ol)
  then show ?case using broadcast_inv [of ol pcs gn] by auto
qed

lemma race_reach_inv: "race_reach w \<Longrightarrow> race_inv w"
proof (induction rule: race_reach.induct)
  case start
  show ?case by (simp add: race_inv_def holders_ok_def queue_ok_def head_woken_def new_race_olock_def)
qed (rule race_step_inv)

text \<open>A state for the examples: 1 locked and unlocked, and 2, which wanted to read, has been woken.\<close>

definition sample_race_lock :: race_olock where
  "sample_race_lock = \<lparr>simu_state = simu_Unlocked, race_cv = True, race_version = 2, race_writer = 0, race_reader = 0, waiters = [2]\<rparr>"

definition sample_race_pcs :: "int \<Rightarrow> race_pc" where
  "sample_race_pcs = (\<lambda>_. Outside)(2 := Woken RLock_wait)"

lemma sample_race_reach: "race_reach (sample_race_lock, sample_race_pcs)"
proof -
  let ?o = "\<lambda>_. Outside :: race_pc" and ?l = "new_race_olock\<lparr>race_cv := True, race_writer := 1, simu_state := simu_WriteLocked\<rparr>"
  let ?s = "?o(2 := Sleeping RLock_wait)"
  have const: "?o(x := Outside) = ?o" for x by (rule fun_upd_idem) simp
  note defs = const race_run_def race_defs race_init_def new_race_olock_def end_part_def in_turn_def resume_def wait_read_def waiting_def
    wake_def sample_race_lock_def sample_race_pcs_def
  have "race_step (new_race_olock, ?o) (?l, ?o)"
    using race_step.call [of 1 ?o CallLock new_race_olock "(?l, False, Returned 0 False)"] by (simp add: defs)
  moreover have "race_step (?l, ?o) (?l\<lparr>waiters := [2]\<rparr>, ?s)"
    using race_step.call [of 2 ?o CallRLock ?l "(?l\<lparr>waiters := [2]\<rparr>, False, Asleep RLock_wait)"] by (simp add: defs)
  moreover have "race_step (?l\<lparr>waiters := [2]\<rparr>, ?s) (end_part ?s 1 (sample_race_lock, True, Returned 0 False))"
    by (rule race_step.call [where c = CallUnlock]) (simp_all add: defs)
  moreover have "race_step (end_part ?s 1 (sample_race_lock, True, Returned 0 False)) (sample_race_lock, sample_race_pcs)"
  proof -
    have "race_step (sample_race_lock, ?s(1 := Broadcasting)) (sample_race_lock, (wake \<circ> ?s(1 := Broadcasting))(1 := Outside))"
      by (rule race_step.broadcast) simp
    moreover have "(wake \<circ> ?s(1 := Broadcasting))(1 := Outside) = sample_race_pcs" by (simp add: defs fun_eq_iff)
    ultimately show ?thesis by (simp add: end_part_def)
  qed
  ultimately show ?thesis using race_reach.intros by metis
qed

section \<open>Exclusion, and the order of the waiters\<close>

text \<open>
  C22. However goroutines interleave, the lock has at most one reader or one writer, and its state says which.
  No method panics: only the writer unlocks, the branches that the code marks as not seen
  are not reached, and the head of the queue is there when it is looked at. This needs that nobody
  calls \<open>Upgrade\<close> while another goroutine reads.
\<close>

theorem race_lock_excludes:
  assumes "race_reach (ol, pcs)"
  shows "(race_reader ol = 0 \<or> race_writer ol = 0) \<and>
    (race_reader ol \<noteq> 0 \<longleftrightarrow> simu_state ol = simu_ReadLocked) \<and> (race_writer ol \<noteq> 0 \<longleftrightarrow> simu_state ol = simu_WriteLocked) \<and>
    (\<forall>gn c. 0 < gn \<longrightarrow> pcs gn = Outside \<longrightarrow> in_turn c gn ol \<longrightarrow> (\<exists>r. race_run c gn ol = Inr r)) \<and>
    (\<forall>gn wp. pcs gn = Woken wp \<longrightarrow> (\<exists>r. resume gn wp ol = Inr r))"
proof -
  have inv: "race_inv (ol, pcs)" by (rule race_reach_inv [OF assms])
  then have "(race_reader ol = 0 \<or> race_writer ol = 0) \<and>
      (race_reader ol \<noteq> 0 \<longleftrightarrow> simu_state ol = simu_ReadLocked) \<and> (race_writer ol \<noteq> 0 \<longleftrightarrow> simu_state ol = simu_WriteLocked)"
    by (auto simp: race_inv_def holders_ok_def split: simu.splits)
  then show ?thesis using call_inv [OF inv] wakeup_inv [OF inv] by metis
qed

theorem race_lock_excludes_witness:
  "(\<exists>r. race_run CallLock 1 sample_race_lock = Inr r) \<and> (\<exists>r. resume 2 RLock_wait sample_race_lock = Inr r)"
  using race_lock_excludes [OF sample_race_reach] by (simp add: in_turn_def sample_race_pcs_def)

text \<open>
  C23. No wake-up is lost: when the lock is free and goroutines wait, the one that has waited longest has been woken, or a goroutine
  has still to run its deferred broadcast, which wakes it. When it runs while the lock is free it takes the lock and leaves the queue,
  and so it can get there; the others that have been woken, when they run, change nothing and wait again. A goroutine that calls
  \<open>Lock\<close> while the lock is free takes it at once, before all who wait. As before, only the writer unlocks, and nobody calls \<open>Upgrade\<close>
  while another goroutine reads.
\<close>

theorem race_queue_served:
  assumes "race_reach (ol, pcs)" and "simu_state ol = simu_Unlocked" and "waiters ol = g # ws"
  shows "(\<exists>wp ol' v. (pcs g = Woken wp \<or> pcs g = Sleeping wp \<and> (\<exists>h. pcs h = Broadcasting)) \<and>
      resume g wp ol = Inr (ol', False, Returned v False) \<and> waiters ol' = ws \<and> (race_reader ol' = g \<or> race_writer ol' = g)) \<and>
    (\<exists>ol' pcs'. race_step\<^sup>*\<^sup>* (ol, pcs) (ol', pcs') \<and> pcs' g = Outside \<and> waiters ol' = ws \<and> (race_reader ol' = g \<or> race_writer ol' = g)) \<and>
    (\<forall>g' wp. pcs g' = Woken wp \<longrightarrow> g' \<noteq> g \<longrightarrow> (\<exists>b. resume g' wp ol = Inr (ol, b, Asleep wp))) \<and>
    (\<exists>ol'. race_run CallLock gn ol = Inr (ol', False, Returned 0 False) \<and> race_writer ol' = gn)"
proof -
  have inv: "race_inv (ol, pcs)" by (rule race_reach_inv [OF assms(1)])
  have "g \<in> set (waiters ol)" using assms(3) by simp
  then have g: "waits (pcs g)" using inv unfolding race_inv_def queue_ok_def by blast
  then obtain wp where wp: "pcs g = Woken wp \<or> pcs g = Sleeping wp \<and> (\<exists>h. pcs h = Broadcasting)"
    using inv assms(2,3) waits_cases [OF g] by (auto simp: race_inv_def head_woken_def)
  obtain ol' v where r: "resume g wp ol = Inr (ol', False, Returned v False)" "waiters ol' = ws" "race_reader ol' = g \<or> race_writer ol' = g"
    using resume_eq [OF waiting_in_queue [OF inv g], of wp] assms(2,3) by auto
  have turn: "race_step (ol, pcs') (ol', pcs'(g := Outside))" if "pcs' g = Woken wp" for pcs'
    using race_step.wakeup [of pcs' g wp ol, OF that r(1)] by (simp add: end_part_def)
  have "\<exists>pcs'. race_step\<^sup>*\<^sup>* (ol, pcs) (ol', pcs') \<and> pcs' g = Outside"
  proof (cases "pcs g = Woken wp")
    case True
    then show ?thesis using turn [of pcs] by (intro exI [of _ "pcs(g := Outside)"]) auto
  next
    case False
    then obtain h where h: "pcs h = Broadcasting" "pcs g = Sleeping wp" using wp by auto
    let ?p = "(wake \<circ> pcs)(h := Outside)"
    have "?p g = Woken wp" using h by (auto simp: wake_def)
    then have "race_step (ol, ?p) (ol', ?p(g := Outside))" by (rule turn)
    moreover have "race_step (ol, pcs) (ol, ?p)" by (rule race_step.broadcast) (rule h(1))
    ultimately show ?thesis by (intro exI [of _ "?p(g := Outside)"]) (auto intro: converse_rtranclp_into_rtranclp)
  qed
  moreover have "\<exists>b. resume g' wp' ol = Inr (ol, b, Asleep wp')" if "pcs g' = Woken wp'" "g' \<noteq> g" for g' wp'
    using resume_eq [OF waiting_in_queue [OF inv], of g' wp'] assms(3) that by auto
  moreover have "\<exists>ol'. race_run CallLock gn ol = Inr (ol', False, Returned 0 False) \<and> race_writer ol' = gn"
    using assms(2) by (simp add: race_run_def race_defs)
  ultimately show ?thesis using wp r by blast
qed

theorem race_queue_served_witness:
  "\<exists>ol' v. resume 2 RLock_wait sample_race_lock = Inr (ol', False, Returned v False) \<and> waiters ol' = []"
proof -
  have q: "simu_state sample_race_lock = simu_Unlocked" "waiters sample_race_lock = [2]" by (simp_all add: sample_race_lock_def)
  show ?thesis using conjunct1 [OF race_queue_served [OF sample_race_reach q]] by (auto simp: sample_race_pcs_def)
qed

text \<open>
  C24. A goroutine that calls \<open>Upgrade\<close> while another one reads and nobody waits goes to sleep without
  joining the queue. When the reader unlocks, with nobody in the queue still, its broadcast wakes the goroutine, which looks at the head
  of the empty queue and panics.
\<close>

theorem upgrade_of_other_reader_panics:
  assumes "simu_state ol = simu_ReadLocked" and "race_writer ol = 0" and "race_reader ol \<noteq> gn" and "waiters ol = []"
  shows "\<exists>ol' ol''. race_Upgrade gn ol = Inr (ol', False, Asleep Upgrade_wait_read) \<and> waiters ol' = [] \<and>
    race_RUnlock (race_reader ol) ol' = Inr (ol'', True, Returned 0 False) \<and>
    resume gn Upgrade_wait_read ol'' = Inl IndexOutOfRange"
  using assms by (simp add: race_defs resume_def wait_write_def myTurnToWrite_def at_idx_def race_init_def)

theorem upgrade_of_other_reader_panics_witness:
  "\<exists>ol' ol''. race_Upgrade 2 (reading 1 (new_race_olock\<lparr>simu_state := simu_ReadLocked\<rparr>)) = Inr (ol', False, Asleep Upgrade_wait_read) \<and>
    race_RUnlock 1 ol' = Inr (ol'', True, Returned 0 False) \<and> resume 2 Upgrade_wait_read ol'' = Inl IndexOutOfRange"
proof -
  let ?ol = "reading 1 (new_race_olock\<lparr>simu_state := simu_ReadLocked\<rparr>)"
  have "simu_state ?ol = simu_ReadLocked" "race_writer ?ol = 0" "race_reader ?ol = 1" "waiters ?ol = []"
    by (simp_all add: reading_def doneWaiting_def new_race_olock_def)
  with upgrade_of_other_reader_panics [of ?ol 2] show ?thesis by auto
qed

end
