(* ===== verification/Printing.thy ===== *)
theory Printing
  imports Traversal Msgp RaceLock
begin

text \<open>
  The strings that the tree prints itself as (\<open>String\<close>, \<open>FlatString\<close>, \<open>DepthString\<close> and what they call, in \<open>tree.go\<close>, \<open>inner.go\<close>,
  \<open>node.go\<close>, \<open>leaf.go\<close> and the files of the four node types). A Go string is the list of its bytes. The verbs of \<open>fmt\<close> that the code
  uses are decimal and hexadecimal numbers and strings as they are; the text of \<open>%p\<close> for a leaf or an inner node, its address,
  is a parameter.
\<close>

section \<open>Formatting\<close>

fun dec_nat :: "nat \<Rightarrow> byte list" where
  "dec_nat n = (if n < 10 then [of_nat (48 + n)] else dec_nat (n div 10) @ [of_nat (48 + n mod 10)])"

declare dec_nat.simps [simp del]

definition dec_int :: "int \<Rightarrow> byte list" where
  "dec_int i = (if i < 0 then 45 # dec_nat (nat (- i)) else dec_nat (nat i))"

definition hex_digit :: "nat \<Rightarrow> byte" where
  "hex_digit d = of_nat (if d < 10 then 48 + d else 87 + d)"

text \<open>\<open>%x\<close> of a byte has no leading zero, \<open>%x\<close> of bytes has two digits for each.\<close>

definition hex_byte :: "byte \<Rightarrow> byte list" where
  "hex_byte b = (if unat b < 16 then [hex_digit (unat b)] else [hex_digit (unat b div 16), hex_digit (unat b mod 16)])"

definition hex_bytes :: "byte list \<Rightarrow> byte list" where
  "hex_bytes bs = concat (map (\<lambda>b. [hex_digit (unat b div 16), hex_digit (unat b mod 16)]) bs)"

text \<open>\<open>string(b)\<close> of a byte is the UTF-8 encoding of the character with that number.\<close>

definition utf8_byte :: "byte \<Rightarrow> byte list" where
  "utf8_byte b = (if unat b < 128 then [b] else [of_nat (192 + unat b div 64), of_nat (128 + unat b mod 64)])"

definition go_Repeat :: "byte list \<Rightarrow> int \<Rightarrow> byte list res" where
  "go_Repeat s n = (if n < 0 then Inl (PanicMessage ''strings: negative Repeat count'') else Inr (concat (replicate (nat n) s)))"

text \<open>Slicing an array up to an index.\<close>

definition slice_to :: "'a list \<Rightarrow> int \<Rightarrow> 'a list res" where
  "slice_to xs n = (if 0 \<le> n \<and> n \<le> int (length xs) then Inr (take (nat n) xs) else Inl IndexOutOfRange)"

section \<open>Constants\<close>

definition Kind_String :: "Kind \<Rightarrow> byte list" where
  "Kind_String k = (case k of
     Leafy \<Rightarrow> go_string ''leaf'' | Node4 \<Rightarrow> go_string ''node4'' | Node16 \<Rightarrow> go_string ''node16''
   | Node48 \<Rightarrow> go_string ''node48'' | Node256 \<Rightarrow> go_string ''node256'')"

definition smod_String :: "SearchModifier \<Rightarrow> byte list" where
  "smod_String smod = (case smod of
     Exact \<Rightarrow> go_string ''Exact'' | GTE \<Rightarrow> go_string ''GTE'' | LTE \<Rightarrow> go_string ''LTE''
   | GT \<Rightarrow> go_string ''GT'' | LT \<Rightarrow> go_string ''LT'')"

definition simu_String :: "simu \<Rightarrow> byte list" where
  "simu_String s = (case s of
     simu_Unlocked \<Rightarrow> go_string ''simu_Unlocked'' | simu_ReadLocked \<Rightarrow> go_string ''simu_ReadLocked''
   | simu_WriteLocked \<Rightarrow> go_string ''simu_WriteLocked'')"

section \<open>The keys of a node\<close>

definition comma :: "byte list" where
  "comma = go_string '', ''"

text \<open>One key, as in the loops of all four node types.\<close>

definition key_text :: "byte \<Rightarrow> byte list" where
  "key_text k = (if k = 0 then go_string ''zero''
     else if k < 33 \<or> k > 126 then go_string ''0x'' @ hex_byte k else [39] @ utf8_byte k @ [39])"

fun keys_text_loop :: "byte list \<Rightarrow> nat list \<Rightarrow> byte list \<Rightarrow> byte list res" where
  "keys_text_loop ks [] s = Inr s"
| "keys_text_loop ks (i # is) s = (let s1 = (if i > 0 then s @ comma else s) in
     rbind (at_idx ks (int i)) (\<lambda>k. keys_text_loop ks is (s1 @ key_text k)))"

definition node4_childkeysString :: "'c node4 \<Rightarrow> byte list res" where
  "node4_childkeysString n = rbind (keys_text_loop (keys4 n) [0..<nat (lth4 n)] (go_string ''['')) (\<lambda>s. Inr (s @ go_string '']''))"

definition node16_childkeysString :: "'c node16 \<Rightarrow> byte list res" where
  "node16_childkeysString n = rbind (keys_text_loop (keys16 n) [0..<nat (lth16 n)] (go_string ''['')) (\<lambda>s. Inr (s @ go_string '']''))"

fun keys48_text_loop :: "nat \<Rightarrow> 16 word list \<Rightarrow> byte list \<Rightarrow> byte list" where
  "keys48_text_loop i [] s = s"
| "keys48_text_loop i (k # ks) s = keys48_text_loop (Suc i) ks
     (if k = 0 then s else (if length s > 1 then s @ comma else s) @ key_text (of_nat i))"

definition node48_childkeysString :: "'c node48 \<Rightarrow> byte list res" where
  "node48_childkeysString n = Inr (keys48_text_loop 0 (keys48 n) (go_string ''['') @ go_string '']'')"

fun keys256_text_loop :: "nat \<Rightarrow> 'c option list \<Rightarrow> byte list \<Rightarrow> byte list" where
  "keys256_text_loop k [] s = s"
| "keys256_text_loop k (ch # chs) s = keys256_text_loop (Suc k) chs
     (if ch \<noteq> None then (if s \<noteq> [] then s @ comma else s) @ key_text (of_nat k) else s)"

definition node256_childkeysString :: "'c node256 \<Rightarrow> byte list res" where
  "node256_childkeysString n = Inr (keys256_text_loop 0 (children256 n) (go_string ''['') @ go_string '']'')"

definition inode_childkeysString :: "'c inode \<Rightarrow> byte list res" where
  "inode_childkeysString nd = (case nd of
     N4 n \<Rightarrow> node4_childkeysString n | N16 n \<Rightarrow> node16_childkeysString n
   | N48 n \<Rightarrow> node48_childkeysString n | N256 n \<Rightarrow> node256_childkeysString n)"

text \<open>\<open>String\<close> of the node types. That of \<open>node4\<close> appends all the keys in every round.\<close>

fun node4_text_loop :: "'c node4 \<Rightarrow> nat list \<Rightarrow> byte list \<Rightarrow> byte list res" where
  "node4_text_loop n [] s = Inr s"
| "node4_text_loop n (i # is) s = (let s1 = (if i > 0 then s @ go_string '','' else s) in
     rbind (slice_to (keys4 n) (lth4 n)) (\<lambda>ks. node4_text_loop n is (s1 @ ks)))"

definition node4_String :: "'c node4 \<Rightarrow> byte list res" where
  "node4_String n = rbind (node4_text_loop n [0..<nat (lth4 n)] (go_string ''n4[keys: '')) (\<lambda>s. Inr (s @ go_string '']''))"

definition node16_String :: "'c node16 \<Rightarrow> byte list res" where
  "node16_String n = rbind (slice_to (keys16 n) (lth16 n)) (\<lambda>ks. Inr (go_string ''n16['' @ hex_bytes ks @ go_string '']''))"

fun node48_text_loop :: "'c option list \<Rightarrow> nat \<Rightarrow> 16 word list \<Rightarrow> byte list \<Rightarrow> byte list res" where
  "node48_text_loop chs i [] b = Inr b"
| "node48_text_loop chs i (idx # ks) b =
     (if idx = 0 then node48_text_loop chs (Suc i) ks b
      else rbind (at_idx chs (uint idx - 1)) (\<lambda>child.
        node48_text_loop chs (Suc i) ks (if child \<noteq> None then b @ hex_bytes [of_nat i] else b)))"

definition node48_String :: "'c node48 \<Rightarrow> byte list res" where
  "node48_String n = rbind (node48_text_loop (children48 n) 0 (keys48 n) (go_string ''n48['')) (\<lambda>b. Inr (b @ go_string '']''))"

definition node256_String :: "'c node256 \<Rightarrow> byte list res" where
  "node256_String n = Inr (go_string ''n256['' @
     concat (map (\<lambda>i. if children256 n ! i \<noteq> None then hex_bytes [of_nat i] else []) [0..<length (children256 n)]) @ go_string '']'')"

section \<open>Leaves\<close>

definition viznl :: "byte list \<Rightarrow> byte list" where
  "viznl s = (if s = [10] then [92, 110] else s)"

definition viznlString :: "byte list \<Rightarrow> byte list" where
  "viznlString bs = concat (map (\<lambda>c. if c = 10 then [92, 110] else [c]) bs)"

definition indent :: "byte list" where
  "indent = go_string ''    ''"

definition leaf_text :: "(leaf \<Rightarrow> byte list) \<Rightarrow> leaf \<Rightarrow> byte list \<Rightarrow> byte list" where
  "leaf_text addr n rep = rep @ [32] @ addr n @ go_string '' leaf: key '' @ [39] @ viznlString (Key n) @ [39] @ go_string '' (len '' @
     dec_int (int (length (Key n))) @ go_string '')'' @ [10]"

definition leaf_FlatString :: "(leaf \<Rightarrow> byte list) \<Rightarrow> leaf \<Rightarrow> int \<Rightarrow> int \<Rightarrow> byte list res" where
  "leaf_FlatString addr n depth recurse = rbind (go_Repeat indent depth) (\<lambda>rep. Inr (leaf_text addr n rep))"

definition leaf_String :: "(leaf \<Rightarrow> byte list) \<Rightarrow> leaf \<Rightarrow> byte list res" where
  "leaf_String addr lf = leaf_FlatString addr lf 0 0"

definition leaf_str :: "leaf \<Rightarrow> byte list" where
  "leaf_str n = Key n"

text \<open>The names of the types that the switch of \<open>DepthString\<close> does not list are a parameter.\<close>

definition value_text :: "(nat \<Rightarrow> byte list) \<Rightarrow> any \<Rightarrow> byte list" where
  "value_text type_name v = (case v of
     AnyBytes x \<Rightarrow> x
   | AnyByteSliceValue x \<Rightarrow> x
   | AnyInt x \<Rightarrow> go_string ''int value: '' @ [39] @ dec_int x @ [39]
   | AnyTestBytes x \<Rightarrow> x
   | AnyNil \<Rightarrow> go_string ''opaque <nil>''
   | AnyOther t \<Rightarrow> go_string ''opaque '' @ type_name t)"

definition leaf_DepthString :: "(nat \<Rightarrow> byte list) \<Rightarrow> leaf \<Rightarrow> int \<Rightarrow> byte list \<Rightarrow> int \<Rightarrow> byte list res" where
  "leaf_DepthString type_name lf depth prior recurse = rbind (go_Repeat indent depth) (\<lambda>rep.
     Inr (rep @ go_string '' Leaf{'' @ [10] @
       rep @ go_string ''       key: '' @ [34] @ Key lf @ [34] @ go_string '' (len '' @ dec_int (int (length (Key lf))) @ go_string ''),'' @ [10] @
       rep @ go_string ''     value: '' @ [34] @ value_text type_name (Value lf) @ [34, 44, 10] @
       rep @ go_string '' }'' @ [10]))"

section \<open>Inner nodes and trees\<close>

record addresses =
  leaf_at :: "leaf \<Rightarrow> byte list"
  inner_at :: "bnode inner \<Rightarrow> byte list"

text \<open>The line of an inner node: the indentation and the keys of the children are computed before.\<close>

definition inner_text :: "addresses \<Rightarrow> bnode inner \<Rightarrow> int \<Rightarrow> byte list \<Rightarrow> byte list \<Rightarrow> byte list" where
  "inner_text P n depth rep keys =
     (let keystr = (if innerKeybyte n = 0 then go_string ''(zero)'' else utf8_byte (innerKeybyte n)) in
      rep @ [32] @ inner_at P n @ [32] @ Kind_String (inner_Kind n) @ go_string '', key '' @ [39] @ keystr @ [39] @
        go_string '' childkeys: '' @ keys @ go_string '' (treedepth '' @ dec_int depth @ go_string '') compressed='' @ [39] @
        compressed n @ [39] @ go_string '' path='' @ [39] @ go_string ''(paths commented out atm)'' @ [39] @
        go_string '' (subN: '' @ dec_int (SubN n) @ go_string '')'' @ [10])"

definition inner_line :: "addresses \<Rightarrow> bnode inner \<Rightarrow> int \<Rightarrow> byte list res" where
  "inner_line P n depth = rbind (go_Repeat indent depth) (\<lambda>rep. rbind (inode_childkeysString (Node n)) (\<lambda>keys.
     Inr (inner_text P n depth rep keys)))"

text \<open>The loop over the children carries the byte of the last one, nil at first. A nil inner node panics.\<close>

function bnode_FlatString :: "addresses \<Rightarrow> bnode \<Rightarrow> int \<Rightarrow> int \<Rightarrow> byte list res"
  and flat_loop :: "addresses \<Rightarrow> bnode inode \<Rightarrow> byte option \<Rightarrow> int \<Rightarrow> int \<Rightarrow> byte list \<Rightarrow> byte list res" where
  "bnode_FlatString P a depth recurse =
     (if isLeaf a then rbind (deref (bleaf a)) (\<lambda>lf. leaf_FlatString (leaf_at P) lf depth recurse)
      else rbind (deref (binner a)) (\<lambda>n. rbind (inner_line P n depth) (\<lambda>s.
        if recurse = 0 then Inr s else flat_loop P (Node n) None depth recurse s)))"
| "flat_loop P nd k depth recurse s =
     rbind (inode_next nd k) (\<lambda>(key, node). case node of
       None \<Rightarrow> Inr s
     | Some c \<Rightarrow> rbind (bnode_FlatString P c (depth + 1) (recurse - 1)) (\<lambda>t. flat_loop P nd (Some key) depth recurse (s @ t)))"
  by pat_completeness auto
termination
  by (relation "measures [case_sum (\<lambda>(P, a, _). size a) (\<lambda>(P, nd, _). size_inode size nd),
      case_sum (\<lambda>_. 0) (\<lambda>(_, _, k, _). case k of None \<Rightarrow> 257 | Some x \<Rightarrow> 256 - unat x)]")
    (auto dest: size_node_below size_next next_decreases)

declare bnode_FlatString.simps [simp del] flat_loop.simps [simp del]

definition inner_FlatString :: "addresses \<Rightarrow> bnode inner \<Rightarrow> int \<Rightarrow> int \<Rightarrow> byte list res" where
  "inner_FlatString P n depth recurse = rbind (inner_line P n depth) (\<lambda>s.
     if recurse = 0 then Inr s else flat_loop P (Node n) None depth recurse s)"

definition inner_String :: "addresses \<Rightarrow> bnode inner \<Rightarrow> byte list res" where
  "inner_String P n = inner_FlatString P n 0 0"

definition bnode_String :: "addresses \<Rightarrow> bnode option \<Rightarrow> byte list res" where
  "bnode_String P a = (case a of
     None \<Rightarrow> Inr []
   | Some b \<Rightarrow> if isLeaf b then rbind (deref (bleaf b)) (leaf_String (leaf_at P)) else rbind (deref (binner b)) (inner_String P))"

definition tree_String :: "addresses \<Rightarrow> Tree \<Rightarrow> byte list res" where
  "tree_String P t = (let sz = tree_Size t in
     case root t of
       None \<Rightarrow> Inr (go_string ''empty tree'')
     | Some r \<Rightarrow> rbind (bnode_FlatString P r 0 (-1)) (\<lambda>s. Inr (go_string ''tree of size '' @ dec_int sz @ go_string '': '' @ s)))"

definition tree_FlatString :: "addresses \<Rightarrow> Tree \<Rightarrow> byte list res" where
  "tree_FlatString P t = (let sz = tree_Size t in
     case root t of
       None \<Rightarrow> Inr (go_string ''empty tree'')
     | Some r \<Rightarrow> rbind (bnode_FlatString P r 0 (-1)) (\<lambda>s. Inr (go_string ''tree of size '' @ dec_int sz @ go_string '': '' @ [10] @ s)))"

text \<open>The range of the keys below a node.\<close>

definition inner_rangestr :: "bnode inner \<Rightarrow> byte list res option" where
  "inner_rangestr n = (case rfirst n of None \<Rightarrow> None | Some lo \<Rightarrow> (case rlast n of None \<Rightarrow> None | Some hi \<Rightarrow>
     Some (rbind lo (\<lambda>f. rbind (deref f) (\<lambda>f. rbind hi (\<lambda>l. rbind (deref l) (\<lambda>l.
       Inr (go_string '' with range ['' @ leaf_str f @ go_string '' :to: '' @ leaf_str l @ go_string '']''))))))))"

definition bnode_rangestr :: "bnode \<Rightarrow> byte list res option" where
  "bnode_rangestr b = (if isLeaf b then Some (Inr []) else case binner b of
     None \<Rightarrow> Some (Inl NilDereference) | Some n \<Rightarrow> inner_rangestr n)"


section \<open>What the keys of a node look like\<close>

definition commas :: "byte list list \<Rightarrow> byte list" where
  "commas ts = concat (map (\<lambda>t. comma @ t) ts)"

definition joined :: "byte list list \<Rightarrow> byte list" where
  "joined ts = (case ts of [] \<Rightarrow> [] | t # r \<Rightarrow> t @ commas r)"

lemma commas_simps [simp]: "commas [] = []" "commas (t # ts) = comma @ t @ commas ts" "commas (xs @ ys) = commas xs @ commas ys"
  by (simp_all add: commas_def)

lemma joined_simps [simp]: "joined [] = []" "joined (t # ts) = t @ commas ts"
  by (simp_all add: joined_def)

lemma key_text_nonempty [simp]: "key_text k \<noteq> []"
  by (simp add: key_text_def go_string_def)

text \<open>The keys of the children, in order; a \<open>node256\<close> has a comma before the first.\<close>

definition child_texts :: "'c inode \<Rightarrow> byte list list" where
  "child_texts nd = map (key_text \<circ> fst) (entries_of (inode_kid nd))"

definition keys_spec :: "'c inode \<Rightarrow> byte list" where
  "keys_spec nd = go_string ''['' @ (if inode_Kind nd = Node256 then commas (child_texts nd) else joined (child_texts nd)) @ go_string '']''"

lemma keys_text_loop_concat:
  "\<forall>i \<in> set is. i < length ks \<Longrightarrow>
    keys_text_loop ks is s = Inr (s @ concat (map (\<lambda>i. (if i > 0 then comma else []) @ key_text (ks ! i)) is))"
  by (induction "is" arbitrary: s) (simp_all add: at_idx_ok Let_def)

lemma keys_text_loop_correct:
  assumes "n \<le> length ks"
  shows "keys_text_loop ks [0..<n] s = Inr (s @ joined (map key_text (take n ks)))"
proof (cases n)
  case (Suc m)
  obtain k r where ks: "ks = k # r" using assms Suc by (cases ks) auto
  have r: "take m r = map (\<lambda>i. r ! i) [0..<m]" using assms Suc ks by (intro nth_equalityI) simp_all
  have "[0..<Suc m] = 0 # map Suc [0..<m]" by (simp add: upt_conv_Cons map_Suc_upt del: upt_Suc)
  then show ?thesis
    using keys_text_loop_concat [of "[0..<n]" ks s] assms by (simp add: Suc ks r commas_def comp_def del: upt_Suc)
qed simp

lemma keys_text_array:
  assumes "arr_ok N lth ks cs"
  shows "keys_text_loop ks [0..<nat lth] s = Inr (s @ joined (map (key_text \<circ> fst) (entries_of (arr_kid ks cs))))"
proof -
  obtain es where r: "arr_rep N es lth ks cs" and e: "entries_of (arr_kid ks cs) = es" using assms by (rule arr_okE)
  have l: "nat lth \<le> length ks" "map fst es = take (nat lth) ks"
    using r by (auto simp: arr_rep_def)
  show ?thesis
  proof (cases "nat lth = 0")
    case True
    then show ?thesis using l(2) by (simp add: e)
  next
    case False
    have "map (key_text \<circ> fst) es = map key_text (take (nat lth) ks)" unfolding l(2) [symmetric] by simp
    then show ?thesis using keys_text_loop_correct [OF l(1), of s] by (simp add: e)
  qed
qed

lemma keys48_text_correct:
  assumes "\<forall>k \<in> set ks. k \<noteq> 0 \<longrightarrow> slot cs (unat k - 1) \<noteq> None" and "s \<noteq> []"
  shows "keys48_text_loop i ks s = s @ (let ts = map (key_text \<circ> fst) (idx_entries i (key_slots cs ks)) in if length s > 1 then commas ts else joined ts)"
  using assms
proof (induction i ks s rule: keys48_text_loop.induct)
  case (2 i k ks s)
  have l: "length s > 0" "length (key_text (of_nat i)) > 0" using 2(3) by simp_all
  show ?case
  proof (cases "k = 0")
    case True
    then show ?thesis using 2 by (simp add: key_slots_def)
  next
    case False
    then obtain c where "slot cs (unat k - 1) = Some c" using 2(2) by auto
    moreover have "length ((if length s > 1 then s @ comma else s) @ key_text (of_nat i)) > 1" using l by (simp only: length_append split: if_splits) linarith
    ultimately show ?thesis using 2(1) [of] 2(2) False by (simp add: key_slots_def Let_def)
  qed
qed (simp add: key_slots_def)

lemma keys256_text_correct:
  "s \<noteq> [] \<Longrightarrow> keys256_text_loop i cs s = s @ commas (map (key_text \<circ> fst) (idx_entries i cs))"
proof (induction i cs s rule: keys256_text_loop.induct)
  case (2 i c cs s)
  then show ?case by (cases c) auto
qed simp

lemma childkeysString_correct:
  assumes "inode_ok nd"
  shows "inode_childkeysString nd = Inr (keys_spec nd)"
proof (cases nd)
  case (N4 n)
  then show ?thesis using assms keys_text_array [of 4 "lth4 n" "keys4 n" "children4 n"]
    by (simp add: inode_childkeysString_def node4_childkeysString_def keys_spec_def child_texts_def inode_ok_def inode_kid_def
      node4_ok_def node4_kid_def)
next
  case (N16 n)
  then show ?thesis using assms keys_text_array [of 16 "lth16 n" "keys16 n" "children16 n"]
    by (simp add: inode_childkeysString_def node16_childkeysString_def keys_spec_def child_texts_def inode_ok_def inode_kid_def
      node16_ok_def node16_kid_def)
next
  case (N48 n)
  then have ok: "node48_ok n" using assms by (simp add: inode_ok_def)
  have "slot (children48 n) (unat k - 1) \<noteq> None" if k: "k \<in> set (keys48 n)" "k \<noteq> 0" for k
  proof -
    obtain i where i: "i < 256" "keys48 n ! i = k" using k(1) ok by (auto simp: in_set_conv_nth node48_ok_def)
    show ?thesis using node48_slot [OF ok i(1)] i(2) k(2) ok by (auto simp: slot_nth node48_ok_def)
  qed
  then show ?thesis using N48 keys48_text_correct [of "keys48 n" "children48 n" "go_string ''[''" 0] idx_entries_48 [OF ok]
    by (simp add: inode_childkeysString_def node48_childkeysString_def keys_spec_def child_texts_def inode_kid_def
      go_string_def Let_def)
next
  case (N256 n)
  then show ?thesis using assms keys256_text_correct [of "go_string ''[''" 0 "children256 n"] idx_entries_256 [of n]
    by (simp add: inode_childkeysString_def node256_childkeysString_def keys_spec_def child_texts_def inode_ok_def inode_kid_def
      go_string_def)
qed


lemma node256_keys_start: "node256_childkeysString n = Inr (go_string ''['' @ commas (map (key_text \<circ> fst) (idx_entries 0 (children256 n))) @ go_string '']'')"
  using keys256_text_correct [of "go_string ''[''" 0 "children256 n"] by (simp add: node256_childkeysString_def go_string_def)

text \<open>\<open>String\<close> of a \<open>node4\<close> has all its keys once for each key.\<close>

lemma node4_text_loop_correct:
  assumes "0 \<le> lth4 n" and "lth4 n \<le> int (length (keys4 n))"
  shows "node4_text_loop n is s = Inr (s @ concat (map (\<lambda>i. (if i > 0 then go_string '','' else []) @ take (nat (lth4 n)) (keys4 n)) is))"
  using assms by (induction "is" arbitrary: s) (simp_all add: slice_to_def Let_def)

lemma node4_String_repeats:
  assumes "node4_ok n"
  shows "node4_String n = Inr (go_string ''n4[keys: '' @
    concat (map (\<lambda>i. (if i > 0 then go_string '','' else []) @ take (nat (lth4 n)) (keys4 n)) [0..<nat (lth4 n)]) @ go_string '']'')"
proof -
  have "arr_ok 4 (lth4 n) (keys4 n) (children4 n)" using assms by (simp add: node4_ok_def)
  then obtain es where "arr_rep 4 es (lth4 n) (keys4 n) (children4 n)" by (rule arr_okE)
  then have "0 \<le> lth4 n" "lth4 n \<le> int (length (keys4 n))" by (auto simp: arr_rep_def)
  then show ?thesis using node4_text_loop_correct [of n] by (simp add: node4_String_def)
qed

section \<open>Outlines\<close>

text \<open>
  The text of a subtree: that of each node, before those of its children, in the order of the keys; the indentation is the
  depth, and \<open>recurse\<close> bounds the levels, unless it is negative.
\<close>

definition spaces :: "int \<Rightarrow> byte list" where
  "spaces depth = concat (replicate (nat depth) indent)"

function outline :: "addresses \<Rightarrow> bnode \<Rightarrow> int \<Rightarrow> int \<Rightarrow> byte list list" where
  "outline P b depth recurse =
     (if isLeaf b then (case bleaf b of None \<Rightarrow> [] | Some l \<Rightarrow> [leaf_text (leaf_at P) l (spaces depth)])
      else (case binner b of None \<Rightarrow> []
        | Some n \<Rightarrow> inner_text P n depth (spaces depth) (keys_spec (Node n)) #
            (if recurse = 0 then []
             else concat (map (\<lambda>(k, c). outline P c (depth + 1) (recurse - 1)) (entries_of (inode_kid (Node n)))))))"
  by pat_completeness auto
termination
  by (relation "measure (\<lambda>(P, b, d, r). size b)") (auto dest!: kid_slot size_kid_slot size_binner)

declare outline.simps [simp del]

lemma go_Repeat_ok: "0 \<le> d \<Longrightarrow> go_Repeat indent d = Inr (spaces d)"
  by (simp add: go_Repeat_def spaces_def)

lemma flat_loop_correct:
  assumes "inode_ok nd"
    and kids: "\<And>k c. inode_kid nd k = Some c \<Longrightarrow> bnode_FlatString P c (depth + 1) (recurse - 1) = Inr (line_of c)"
    and "filter (\<lambda>(x, _). from_byte k (<) x) (entries_of (inode_kid nd)) = es"
  shows "flat_loop P nd k depth recurse s = Inr (s @ concat (map (\<lambda>(k, c). line_of c) es))"
  using assms(3)
proof (induction es arbitrary: k s)
  case Nil
  then have "inode_next nd k = Inr (0, None)" using nd.next_law [OF assms(1), of k] by (simp add: first_kid_filter)
  then show ?case by (simp add: flat_loop.simps [of P nd k])
next
  case (Cons e es)
  obtain b c where e: "e = (b, c)" by force
  let ?f = "inode_kid nd"
  have "(b, c) \<in> set (filter (\<lambda>(x, _). from_byte k (<) x) (entries_of ?f))" unfolding Cons.prems(1) e by simp
  then have c: "?f b = Some c" by simp
  have n: "inode_next nd k = Inr (b, Some c)"
    using nd.next_law [OF assms(1), of k] Cons.prems(1) e by (simp add: first_kid_filter)
  have f: "filter (\<lambda>(x, _). from_byte (Some b) (<) x) (entries_of ?f) = es"
    unfolding from_byte_simps
    by (rule filter_after [OF sorted_entries Cons.prems(1) [unfolded e]]) (cases k; auto)
  show ?case using Cons.IH [OF f] by (simp add: flat_loop.simps [of P nd k] n kids [OF c] e)
qed

lemma concat_twice: "concat (concat xss) = concat (map concat xss)"
  by (induction xss) simp_all

lemma FlatString_correct:
  "wft p b \<Longrightarrow> 0 \<le> depth \<Longrightarrow> bnode_FlatString P b depth recurse = Inr (concat (outline P b depth recurse))"
proof (induction arbitrary: depth recurse rule: wft.induct)
  case (wft_leaf b l p)
  then show ?case by (simp add: bnode_FlatString.simps [of P b] outline.simps [of P b] leaf_FlatString_def go_Repeat_ok)
next
  case (wft_inner b n p)
  have "filter (\<lambda>(x, _). from_byte None (<) x) (entries_of (inode_kid (Node n))) = entries_of (inode_kid (Node n))" by simp
  then have "flat_loop P (Node n) None depth recurse s =
      Inr (s @ concat (map (\<lambda>(k, c). concat (outline P c (depth + 1) (recurse - 1))) (entries_of (inode_kid (Node n)))))" for s
    using wft_inner.IH wft_inner.prems
    by (intro flat_loop_correct [where line_of = "\<lambda>c. concat (outline P c (depth + 1) (recurse - 1))"] wft_inner.hyps(3)) auto
  then show ?case using wft_inner.hyps(1,2) wft_inner.prems childkeysString_correct [OF wft_inner.hyps(3)]
    by (simp add: bnode_FlatString.simps [of P b] outline.simps [of P b] inner_line_def go_Repeat_ok concat_twice split_def comp_def)
qed

text \<open>There is a text for each node.\<close>

lemma outline_length: "wft p b \<Longrightarrow> recurse < 0 \<Longrightarrow> length (outline P b depth recurse) = length (postorder b)"
proof (induction arbitrary: depth recurse rule: wft.induct)
  case (wft_leaf b l p)
  then show ?case by (simp add: outline.simps [of P b] postorder_simps)
next
  case (wft_inner b n p)
  have "length (concat (map (\<lambda>(k, c). outline P c (depth + 1) (recurse - 1)) es)) = length (concat (map (\<lambda>(k, c). postorder c) es))"
    if "set es \<subseteq> set (entries_of (inode_kid (Node n)))" for es
    using that wft_inner.IH wft_inner.prems by (induction es) auto
  then show ?case using wft_inner.hyps(1,2) wft_inner.prems by (simp add: outline.simps [of P b] postorder_simps)
qed

section \<open>Lines\<close>

text \<open>
  The text of a node is one line, unless the line break is the byte that leads to an inner node or is in its compressed path, which
  are printed as they are. The keys of leaves and the bytes of children are printed without line breaks.
\<close>

definition is_line :: "byte list \<Rightarrow> bool" where
  "is_line s \<longleftrightarrow> s \<noteq> [] \<and> last s = 10 \<and> 10 \<notin> set (butlast s)"

definition unbroken :: "addresses \<Rightarrow> bnode \<Rightarrow> bool" where
  "unbroken P b \<longleftrightarrow> (if isLeaf b then case bleaf b of None \<Rightarrow> True | Some l \<Rightarrow> 10 \<notin> set (leaf_at P l)
     else case binner b of None \<Rightarrow> True
       | Some n \<Rightarrow> innerKeybyte n \<noteq> 10 \<and> 10 \<notin> set (compressed n) \<and> 10 \<notin> set (inner_at P n))"

lemma is_line_snoc [simp]: "is_line (s @ [10]) \<longleftrightarrow> 10 \<notin> set s"
  by (simp add: is_line_def)

lemma viznlString_no_newline: "10 \<notin> set (viznlString bs)"
  by (auto simp: viznlString_def split: if_splits)

lemma not_newline: "10 < n \<Longrightarrow> n < 256 \<Longrightarrow> (of_nat n :: byte) \<noteq> 10"
proof
  assume n: "10 < n" "n < 256" and "(of_nat n :: byte) = 10"
  then have "unat (of_nat n :: byte) = 10" by simp
  moreover have "unat (of_nat n :: byte) = n" using n by (simp add: unat_of_nat take_bit_nat_eq_self)
  ultimately show False using n by simp
qed

lemma byte_less: "unat (b :: byte) < 256"
  using unsigned_less [of b] by simp

lemma dec_no_newline: "10 \<notin> set (dec_nat n)" "10 \<notin> set (dec_int i)"
proof -
  show n: "10 \<notin> set (dec_nat n)" for n
  proof (induction n rule: dec_nat.induct)
    case (1 n)
    then show ?case using not_newline [of "48 + n"] not_newline [of "48 + n mod 10"]
      by (subst dec_nat.simps) (auto simp del: of_nat_add)
  qed
  show "10 \<notin> set (dec_int i)" using n by (simp add: dec_int_def)
qed

lemma hex_no_newline: "10 \<notin> set (hex_byte b)"
proof -
  have "hex_digit d \<noteq> 10" if "d < 16" for d
    using that not_newline [of "48 + d"] not_newline [of "87 + d"] by (auto simp: hex_digit_def simp del: of_nat_add)
  moreover have "unat b div 16 < 16" using byte_less [of b] by linarith
  ultimately show ?thesis by (auto simp: hex_byte_def)
qed

lemma utf8_no_newline: "b \<noteq> 10 \<Longrightarrow> 10 \<notin> set (utf8_byte b)"
proof -
  have "unat b div 64 < 4" using byte_less [of b] by linarith
  then have "(of_nat (192 + unat b div 64) :: byte) \<noteq> 10" "(of_nat (128 + unat b mod 64) :: byte) \<noteq> 10"
    by (intro not_newline; simp)+
  then show "b \<noteq> 10 \<Longrightarrow> 10 \<notin> set (utf8_byte b)" by (auto simp: utf8_byte_def simp del: of_nat_add)
qed

lemma key_text_no_newline: "10 \<notin> set (key_text k)"
  using hex_no_newline [of k] utf8_no_newline [of k] by (cases "k = 10") (auto simp: key_text_def go_string_def)

lemma keys_spec_no_newline: "10 \<notin> set (keys_spec nd)"
proof -
  have c: "10 \<notin> set (commas ts)" if "\<forall>t \<in> set ts. 10 \<notin> set t" for ts
    using that by (induction ts) (auto simp: comma_def go_string_def)
  have t: "\<forall>t \<in> set (child_texts nd). 10 \<notin> set t" using key_text_no_newline by (auto simp: child_texts_def)
  then have "10 \<notin> set (joined (child_texts nd))" using c by (cases "child_texts nd") simp_all
  then show ?thesis using c [OF t] by (simp add: keys_spec_def go_string_def)
qed

lemma spaces_no_newline: "10 \<notin> set (spaces d)"
  by (auto simp: spaces_def indent_def go_string_def)

lemma leaf_text_line: "10 \<notin> set (addr l) \<Longrightarrow> is_line (leaf_text addr l (spaces d))"
  unfolding leaf_text_def append_assoc [symmetric] is_line_snoc
  using spaces_no_newline [of d] viznlString_no_newline [of "Key l"] dec_no_newline(2) by (simp add: go_string_def)

lemma inner_text_line:
  assumes "innerKeybyte n \<noteq> 10" and "10 \<notin> set (compressed n)" and "10 \<notin> set (inner_at P n)"
  shows "is_line (inner_text P n d (spaces e) (keys_spec nd))"
  unfolding inner_text_def Let_def append_assoc [symmetric] is_line_snoc
  using assms spaces_no_newline [of e] keys_spec_no_newline [of nd] dec_no_newline(2) utf8_no_newline [OF assms(1)]
  by (simp add: go_string_def Kind_String_def split: Kind.split)

lemma outline_is_lines:
  "wft p b \<Longrightarrow> \<forall>x \<in> set (postorder b). unbroken P x \<Longrightarrow> s \<in> set (outline P b depth recurse) \<Longrightarrow> is_line s"
proof (induction arbitrary: depth recurse s rule: wft.induct)
  case (wft_leaf b l p)
  then show ?case by (simp add: outline.simps [of P b] postorder_simps unbroken_def leaf_text_line)
next
  case (wft_inner b n p)
  have b: "unbroken P b" using wft_inner.prems(1) wft_inner.hyps(1,2) by (simp add: postorder_simps)
  have kids: "is_line t" if "(k, c) \<in> set (entries_of (inode_kid (Node n)))" "t \<in> set (outline P c e r)" for k c t e r
  proof -
    have "\<forall>x \<in> set (postorder c). unbroken P x" using wft_inner.prems(1) wft_inner.hyps(1,2) that(1)
      by (force simp: postorder_simps simp del: set_entries)
    then show ?thesis using wft_inner.IH that by auto
  qed
  from wft_inner.prems(2) wft_inner.hyps(1,2) consider
      "s = inner_text P n depth (spaces depth) (keys_spec (Node n))"
    | k c where "(k, c) \<in> set (entries_of (inode_kid (Node n)))" "s \<in> set (outline P c (depth + 1) (recurse - 1))"
    by (auto simp: outline.simps [of P b] split: if_splits)
  then show ?case
  proof cases
    case 1
    then show ?thesis using b wft_inner.hyps(1,2) by (simp add: unbroken_def inner_text_line)
  qed (rule kids)
qed

section \<open>Numbers\<close>

text \<open>What a decimal number says, with \<open>None\<close> for anything else, as \<open>strconv.Atoi\<close> reads it without a sign.\<close>

definition is_digit :: "byte \<Rightarrow> bool" where
  "is_digit b \<longleftrightarrow> 48 \<le> b \<and> b \<le> 57"

definition undec :: "byte list \<Rightarrow> nat" where
  "undec ds = foldl (\<lambda>a d. a * 10 + (unat d - 48)) 0 ds"

lemma digit_byte: "d < 10 \<Longrightarrow> unat (of_nat (48 + d) :: byte) = 48 + d"
  by (simp only: unat_of_nat) (simp add: take_bit_nat_eq_self)

lemma is_digit_byte: "d < 10 \<Longrightarrow> is_digit (of_nat (48 + d))"
  using digit_byte [of d] unfolding is_digit_def word_le_nat_alt by (simp del: of_nat_add)

lemma undec_dec: "undec (dec_nat n) = n"
proof (induction n rule: dec_nat.induct)
  case (1 n)
  show ?case
  proof (cases "n < 10")
    case True
    then show ?thesis using digit_byte [of n] by (simp add: dec_nat.simps [of n] undec_def del: of_nat_add)
  next
    case False
    then show ?thesis using 1 digit_byte [of "n mod 10"] by (simp add: dec_nat.simps [of n] undec_def del: of_nat_add)
  qed
qed

lemma dec_digits: "\<forall>d \<in> set (dec_nat n). is_digit d"
proof (induction n rule: dec_nat.induct)
  case (1 n)
  then show ?case using is_digit_byte [of n] is_digit_byte [of "n mod 10"] by (subst dec_nat.simps) (simp del: of_nat_add)
qed

lemma dec_nonempty: "dec_nat n \<noteq> []"
  by (subst dec_nat.simps) simp

lemma dec_length: "n < 10 ^ k \<Longrightarrow> 0 < k \<Longrightarrow> length (dec_nat n) \<le> k"
proof (induction n arbitrary: k rule: dec_nat.induct)
  case (1 n)
  show ?case
  proof (cases "n < 10")
    case False
    then obtain j where k: "k = Suc j" "0 < j" using 1(2,3) by (cases k; cases "k - 1") auto
    then have "n div 10 < 10 ^ j" using 1(2) by (simp add: less_mult_imp_div_less mult.commute)
    then show ?thesis using 1(1) [OF False _ k(2)] False k by (subst dec_nat.simps) simp
  qed (use 1 in \<open>subst dec_nat.simps, simp\<close>)
qed


section \<open>The properties\<close>

text \<open>
  C39. Printing a well-formed tree that is not empty does not panic, and gives a text for each node of the tree: every inner node before
  its children, these in the order of their bytes, indented by the depth, with the bytes of its children listed. With a bound on the
  levels only the nodes above it are printed. The text of each node is one line, provided that the line break is in no compressed path of
  an inner node, is not the byte that leads to one, and is in no address: the code prints these as they are, unlike the keys of leaves.
\<close>

theorem tree_prints_outline:
  assumes "tree_wf t" and "root t = Some b"
  shows "tree_FlatString P t = Inr (go_string ''tree of size '' @ dec_int (tree_size t) @ go_string '': '' @ [10] @ concat (outline P b 0 (-1))) \<and>
    length (outline P b 0 (-1)) = length (postorder b) \<and>
    bnode_FlatString P b 0 r = Inr (concat (outline P b 0 r)) \<and>
    ((\<forall>x \<in> set (postorder b). unbroken P x) \<longrightarrow> (\<forall>s \<in> set (outline P b 0 r). is_line s))"
proof -
  have w: "wft [] b" using assms by (simp add: tree_wf_def)
  show ?thesis
    using FlatString_correct [OF w, where depth = 0 and P = P] outline_length [OF w, where recurse = "-1" and depth = 0 and P = P] assms(2)
      outline_is_lines [OF w, where depth = 0 and recurse = r and P = P]
    by (simp add: tree_FlatString_def tree_Size_def)
qed

theorem tree_prints_outline_witness:
  "\<exists>b s. root sample_tree = Some b \<and> tree_FlatString \<lparr>leaf_at = (\<lambda>l. [108]), inner_at = (\<lambda>n. [105])\<rparr> sample_tree = Inr s \<and>
    take 16 s = go_string ''tree of size 4: ''"
proof -
  obtain b where b: "root sample_tree = Some b" using sample_root by blast
  have "tree_size sample_tree = 4" using sample_facts(2) sample_keys(2) by (simp add: sized_def)
  then have "dec_int (tree_size sample_tree) = [52]" by (simp add: dec_int_def dec_nat.simps [of 4])
  then show ?thesis using tree_prints_outline [OF sample_facts(1) b] b by (auto simp: go_string_def)
qed

end
