(* ===== verification/Process.thy ===== *)
theory Process
  imports Printing
begin

text \<open>
  What the repository has around the tree: the number of the running goroutine (\<open>attic/optimistic_lock_race.go\<close>), stack dumps and
  their filter (\<open>vprint.go\<close>, \<open>filterstacks.go\<close>), log lines and exits (\<open>vprint.go\<close>), an unused factory (\<open>dserz.go\<close>) and the cells of
  a demonstration (\<open>attic/atomicpointer/ap.go\<close>). What the runtime says (stack traces, the caller's file and line, the time) is an
  argument; of a call of \<open>runtime.Stack\<close> it is the whole trace, of which the call writes as much as fits.
\<close>

section \<open>The number of a goroutine\<close>

text \<open>\<open>strconv.Atoi\<close>, with \<open>None\<close> for an error.\<close>

definition go_Atoi :: "byte list \<Rightarrow> int option" where
  "go_Atoi s = (let neg = (s \<noteq> [] \<and> hd s = 45); ds = (if s \<noteq> [] \<and> (hd s = 45 \<or> hd s = 43) then tl s else s) in
     if ds = [] \<or> \<not> list_all is_digit ds then None
     else let v = undec ds in
       if neg then (if v \<le> 2 ^ 63 then Some (- int v) else None)
       else (if v < 2 ^ 63 then Some (int v) else None))"

text \<open>The message of an error of \<open>Atoi\<close> is left out.\<close>

definition Atoi_or_panic :: "byte list \<Rightarrow> int res" where
  "Atoi_or_panic s = (case go_Atoi s of None \<Rightarrow> Inl (PanicMessage ''strconv.Atoi'') | Some n \<Rightarrow> Inr n)"

function goro_scan :: "byte list \<Rightarrow> nat \<Rightarrow> nat res" where
  "goro_scan buf i = rbind (at_idx buf (int i)) (\<lambda>b. if b \<noteq> 32 \<and> i < 30 then goro_scan buf (Suc i) else Inr i)"
  by pat_completeness auto
termination by (relation "measure (\<lambda>(buf, i). 31 - i)") auto

declare goro_scan.simps [simp del]

definition GoroNumber :: "byte list \<Rightarrow> int res" where
  "GoroNumber trace = (let buf = take 48 trace in rbind (goro_scan buf 10) (\<lambda>i. Atoi_or_panic (drop 10 (take i buf))))"

lemma goro_scan_digits:
  "i + length ds < 30 \<Longrightarrow> length pre = i \<Longrightarrow> 32 \<notin> set ds \<Longrightarrow> goro_scan (pre @ ds @ 32 # rest) i = Inr (i + length ds)"
proof (induction ds arbitrary: i pre)
  case Nil
  then show ?case by (subst goro_scan.simps) (simp add: at_idx_def nth_append)
next
  case (Cons d ds)
  have "goro_scan ((pre @ [d]) @ ds @ 32 # rest) (Suc i) = Inr (Suc i + length ds)"
    using Cons.prems by (intro Cons.IH) auto
  then show ?case using Cons.prems by (subst goro_scan.simps) (simp add: at_idx_def nth_append)
qed

lemma Atoi_dec: "n < 2 ^ 63 \<Longrightarrow> go_Atoi (dec_nat n) = Some (int n)"
proof -
  assume n: "n < 2 ^ 63"
  obtain d ds where d: "dec_nat n = d # ds" using dec_nonempty [of n] by (cases "dec_nat n") auto
  have "is_digit d" using dec_digits [of n] d by simp
  then have "d \<noteq> 45" "d \<noteq> 43" by (auto simp: is_digit_def)
  moreover have "list_all is_digit (dec_nat n)" using dec_digits [of n] by (simp add: list_all_iff)
  ultimately show ?thesis using n undec_dec [of n] d by (simp add: go_Atoi_def)
qed

section \<open>Stack dumps\<close>

text \<open>
  The loop doubles the buffer until the trace does not fill it. The trace can change between two calls: \<open>traces j\<close> is the trace at
  the \<open>j\<close>-th call.
\<close>

partial_function (option) stacks_loop :: "(nat \<Rightarrow> byte list) \<Rightarrow> nat \<Rightarrow> nat \<Rightarrow> byte list option" where
  "stacks_loop traces j sz = (let n = min sz (length (traces j)) in
     if n < sz then Some (take n (traces j)) else stacks_loop traces (Suc j) (2 * sz))"

definition allstacks :: "(nat \<Rightarrow> byte list) \<Rightarrow> byte list option" where
  "allstacks traces = stacks_loop traces 0 8192"

definition thisStack :: "byte list \<Rightarrow> byte list" where
  "thisStack trace = take 8192 trace"

lemma stacks_loop_returns:
  assumes "\<forall>j. length (traces j) < bound" and "0 < sz"
  shows "\<exists>j. stacks_loop traces i sz = Some (traces j)"
  using assms(2)
proof (induction "bound - sz" arbitrary: i sz rule: less_induct)
  case less
  show ?case
  proof (cases "length (traces i) < sz")
    case True
    then show ?thesis by (subst stacks_loop.simps) (auto simp: Let_def)
  next
    case False
    then have "sz < bound" using assms(1) by (metis le_less_trans not_less)
    then have "\<exists>j. stacks_loop traces (Suc i) (2 * sz) = Some (traces j)" using less.prems by (intro less.hyps) simp_all
    then show ?thesis using False by (subst stacks_loop.simps) (simp add: Let_def)
  qed
qed

text \<open>\<open>strings.Split\<close> and \<open>strings.Join\<close> at blank lines, and \<open>strings.Contains\<close>.\<close>

fun split_blank :: "byte list \<Rightarrow> byte list list" where
  "split_blank [] = [[]]"
| "split_blank [c] = [[c]]"
| "split_blank (c # d # r) = (if c = 10 \<and> d = 10 then [] # split_blank r
     else case split_blank (d # r) of [] \<Rightarrow> [[c]] | s # ss \<Rightarrow> (c # s) # ss)"

fun join_blank :: "byte list list \<Rightarrow> byte list" where
  "join_blank [] = []"
| "join_blank [s] = s"
| "join_blank (s # ss) = s @ [10, 10] @ join_blank ss"

definition go_Contains :: "byte list \<Rightarrow> byte list \<Rightarrow> bool" where
  "go_Contains s sub \<longleftrightarrow> list_ex (\<lambda>i. take (length sub) (drop i s) = sub) [0..<Suc (length s)]"

definition gc_stack :: "byte list \<Rightarrow> bool" where
  "gc_stack s \<longleftrightarrow> go_Contains s (go_string ''GC sweep wait'') \<or> go_Contains s (go_string ''GC scavenge wait'') \<or>
     go_Contains s (go_string ''runtime/mgcsweep.go'') \<or> go_Contains s (go_string ''runtime/mgcscavenge.go'')"

text \<open>What the handler of \<open>SIGQUIT\<close> writes to the standard error, and the exit code.\<close>

definition sigquit_handler :: "(nat \<Rightarrow> byte list) \<Rightarrow> (byte list \<times> int) option" where
  "sigquit_handler traces = (case stacks_loop traces 0 (2 ^ 20) of
     None \<Rightarrow> None
   | Some buf \<Rightarrow> let filtered = filter (\<lambda>stack. \<not> gc_stack stack) (split_blank buf) in
       Some ([10] @ go_string ''SIGQUIT: quit after filtering.'' @ [10] @ go_string ''filterstacks.go filtered stacks:'' @ [10, 10] @
         join_blank filtered, 1))"

lemma split_blank_nonempty: "split_blank s \<noteq> []"
  by (induction s rule: split_blank.induct) (auto split: list.splits)

lemma join_blank_Cons: "ss \<noteq> [] \<Longrightarrow> join_blank (s # ss) = s @ [10, 10] @ join_blank ss"
  by (cases ss) simp_all

lemma join_blank_push: "join_blank ((c # s) # ss) = c # join_blank (s # ss)"
  by (cases ss) simp_all

lemma join_split: "join_blank (split_blank s) = s"
proof (induction s rule: split_blank.induct)
  case (3 c d r)
  show ?case
  proof (cases "c = 10 \<and> d = 10")
    case True
    then show ?thesis using 3(1) split_blank_nonempty [of r] by (simp add: join_blank_Cons)
  next
    case False
    obtain s ss where s: "split_blank (d # r) = s # ss" using split_blank_nonempty [of "d # r"] by (cases "split_blank (d # r)") auto
    then show ?thesis using 3(2) False by (auto simp: join_blank_push)
  qed
qed simp_all

lemma no_gc_no_change: "\<forall>s \<in> set (split_blank buf). \<not> gc_stack s \<Longrightarrow> join_blank (filter (\<lambda>s. \<not> gc_stack s) (split_blank buf)) = buf"
  by (simp add: join_split)

section \<open>The goroutines in a dump\<close>

text \<open>\<open>bufio.Scanner\<close>: lines without their ends; it stops at a line of 64 KB or more.\<close>

fun raw_lines :: "byte list \<Rightarrow> byte list list" where
  "raw_lines [] = []"
| "raw_lines (c # r) = (if c = 10 then [] # raw_lines r
     else case raw_lines r of [] \<Rightarrow> [[c]] | l # ls \<Rightarrow> (c # l) # ls)"

definition drop_cr :: "byte list \<Rightarrow> byte list" where
  "drop_cr l = (if l \<noteq> [] \<and> last l = 13 then butlast l else l)"

definition scan_lines :: "byte list \<Rightarrow> byte list list" where
  "scan_lines s = map drop_cr (takeWhile (\<lambda>l. length l < 65536) (raw_lines s))"

text \<open>The leftmost match of \<open>goroutine (\d+) \[\<close> in a line, and its digits.\<close>

definition match_here :: "byte list \<Rightarrow> byte list option" where
  "match_here s = (if take 10 s = go_string ''goroutine '' then
     (let ds = takeWhile is_digit (drop 10 s); r = drop (length ds) (drop 10 s) in
      if ds \<noteq> [] \<and> take 2 r = [32, 91] then Some ds else None) else None)"

fun find_match :: "byte list \<Rightarrow> byte list option" where
  "find_match [] = None"
| "find_match (c # s) = (case match_here (c # s) of Some ds \<Rightarrow> Some ds | None \<Rightarrow> find_match s)"

definition line_ids :: "byte list \<Rightarrow> int list" where
  "line_ids line = (case find_match line of None \<Rightarrow> [] | Some ds \<Rightarrow> (case go_Atoi ds of None \<Rightarrow> [] | Some n \<Rightarrow> [n]))"

definition GetGoroutineIDs :: "byte list \<Rightarrow> int set" where
  "GetGoroutineIDs trace = set (concat (map line_ids (scan_lines (take (1024 * 1024) trace))))"

lemma find_match_header: "find_match (go_string ''goroutine '' @ dec_nat n @ [32, 91] @ rest) = Some (dec_nat n)"
proof -
  let ?s = "go_string ''goroutine '' @ dec_nat n @ [32, 91] @ rest"
  have l: "length (go_string ''goroutine '') = 10" by (simp add: go_string_def)
  have "takeWhile is_digit (dec_nat n @ 32 # 91 # rest) = dec_nat n"
    using dec_digits [of n] by (subst takeWhile_append2) (auto simp: is_digit_def)
  then have m: "match_here ?s = Some (dec_nat n)" using dec_nonempty [of n] l by (simp add: match_here_def Let_def)
  obtain c s where "?s = c # s" by (cases ?s) (simp_all add: go_string_def)
  then show ?thesis using m by simp
qed

lemma line_ids_header: "n < 2 ^ 63 \<Longrightarrow> line_ids (go_string ''goroutine '' @ dec_nat n @ [32, 91] @ rest) = [int n]"
  by (simp only: line_ids_def find_match_header) (simp add: Atoi_dec)

lemma raw_lines_line: "10 \<notin> set l \<Longrightarrow> raw_lines (l @ 10 # s) = l # raw_lines s"
proof (induction l)
  case (Cons c l)
  then show ?case by (cases l) auto
qed simp

section \<open>Log lines and exits\<close>

text \<open>The last element of a path, with slashes at its end left out.\<close>

definition path_Base :: "byte list \<Rightarrow> byte list" where
  "path_Base p = (if p = [] then [46] else
     let q = rev (dropWhile (\<lambda>c. c = 47) (rev p)) in
     if q = [] then [47] else rev (takeWhile (\<lambda>c. c \<noteq> 47) (rev q)))"

definition fileLine :: "(byte list \<times> nat) option \<Rightarrow> byte list" where
  "fileLine at_caller = (case at_caller of None \<Rightarrow> [] | Some (name, line) \<Rightarrow> path_Base name @ [58] @ dec_nat line)"

text \<open>\<open>msg\<close> is the formatted message, \<open>now\<close> the time stamp, and the last argument what was written so far.\<close>

definition tsPrintf :: "bool \<Rightarrow> nat \<Rightarrow> (byte list \<times> nat) option \<Rightarrow> byte list \<Rightarrow> byte list \<Rightarrow> byte list \<Rightarrow> byte list" where
  "tsPrintf showPid myPid at_caller now msg written =
     (let w1 = (if showPid
          then written @ [10] @ fileLine at_caller @ go_string '' [pid '' @ dec_nat myPid @ go_string ''] '' @ now @ [32]
          else written @ [10] @ fileLine at_caller @ [32] @ now @ [32])
      in w1 @ msg @ [10])"

definition log_pp :: "bool \<Rightarrow> (byte list \<Rightarrow> byte list) \<Rightarrow> byte list \<Rightarrow> byte list" where
  "log_pp verboseVerbose print written = (if verboseVerbose then print written else written)"

definition log_vv :: "bool \<Rightarrow> (byte list \<Rightarrow> byte list) \<Rightarrow> byte list \<Rightarrow> byte list" where
  "log_vv forceQuiet print written = (if \<not> forceQuiet then print written else written)"

definition log_p :: "bool \<Rightarrow> (byte list \<Rightarrow> byte list) \<Rightarrow> byte list \<Rightarrow> byte list" where
  "log_p verbose print written = (if verbose then print written else written)"

definition panicOn :: "string option \<Rightarrow> unit res" where
  "panicOn err = (case err of None \<Rightarrow> Inr () | Some e \<Rightarrow> Inl (PanicMessage e))"

text \<open>\<open>stop_msg\<close> (\<open>stop\<close> in the code) and \<open>stopOn\<close>: what is written to the standard error, and the exit code; \<open>None\<close> when the program goes on.\<close>

definition stop_msg :: "(byte list \<times> nat) option \<Rightarrow> byte list \<Rightarrow> byte list \<times> int" where
  "stop_msg at_caller msg = (fileLine at_caller @ go_string '': '' @ msg @ [10], 1)"

definition stopOn :: "(byte list \<times> nat) option \<Rightarrow> byte list option \<Rightarrow> (byte list \<times> int) option" where
  "stopOn at_caller err = (case err of None \<Rightarrow> None | Some msg \<Rightarrow> Some (fileLine at_caller @ go_string '': '' @ msg @ [10], 1))"

section \<open>Nil interfaces\<close>

text \<open>The kinds of \<open>reflect\<close> that \<open>IsNil\<close> of a reflected value distinguishes: it panics for an array.\<close>

datatype reflect_kind = RPtr | RArray | RMap | RSlice | RChan | RFunc | ROther

definition reflect_IsNil :: "reflect_kind \<Rightarrow> bool \<Rightarrow> bool res" where
  "reflect_IsNil k is_nil = (if k = RArray \<or> k = ROther then Inl (PanicMessage ''reflect.Value.IsNil'') else Inr is_nil)"

definition IsNil_face :: "(reflect_kind \<times> bool) option \<Rightarrow> bool res" where
  "IsNil_face face = (case face of
     None \<Rightarrow> Inr True
   | Some (k, is_nil) \<Rightarrow> if k \<in> {RPtr, RArray, RMap, RSlice, RChan} then reflect_IsNil k is_nil else Inr False)"

lemma IsNil_face_cases:
  "IsNil_face None = Inr True" "IsNil_face (Some (RArray, is_nil)) = Inl (PanicMessage ''reflect.Value.IsNil'')"
  "k \<in> {RPtr, RMap, RSlice, RChan} \<Longrightarrow> IsNil_face (Some (k, is_nil)) = Inr is_nil"
  "k = RFunc \<or> k = ROther \<Longrightarrow> IsNil_face (Some (k, is_nil)) = Inr False"
  by (auto simp: IsNil_face_def reflect_IsNil_def)

section \<open>The factory and the cells\<close>

datatype new_value =
    FreshNode4 "bnode node4" | FreshNode16 "bnode node16" | FreshNode48 "bnode node48" | FreshNode256 "bnode node256"
  | FreshLeaf leaf | FreshInner

definition NewValueAsInterface :: "nat \<Rightarrow> int \<Rightarrow> string \<Rightarrow> new_value res" where
  "NewValueAsInterface addr zid typename =
     (if typename = ''node4'' then Inr (FreshNode4 (Mk4 0 (replicate 4 0) (replicate 4 None)))
      else if typename = ''node16'' then Inr (FreshNode16 (Mk16 0 (replicate 16 0) (replicate 16 None)))
      else if typename = ''node48'' then Inr (FreshNode48 (Mk48 0 (replicate 256 0) (replicate 48 None)))
      else if typename = ''node256'' then Inr (FreshNode256 (Mk256 0 (replicate 256 None)))
      else if typename = ''Leaf'' then Inr (FreshLeaf \<lparr>lf_addr = addr, Key = [], Value = AnyNil, XTyp = 0, Xdata = [], Keybyte = 0\<rparr>)
      else if typename = ''Inner'' then Inr FreshInner
      else Inl (PanicMessage (''arg! add case for '' @ typename)))"

text \<open>A load before the first store follows a nil pointer.\<close>

record 'n atomic_node =
  nodePtr :: "'n option"
  bytesPtr :: "byte list option"

definition StoreInode :: "'n \<Rightarrow> 'n atomic_node \<Rightarrow> 'n atomic_node" where
  "StoreInode n a = a\<lparr>nodePtr := Some n\<rparr>"

definition LoadInode :: "'n atomic_node \<Rightarrow> 'n res" where
  "LoadInode a = deref (nodePtr a)"

definition StoreBytes :: "byte list \<Rightarrow> 'n atomic_node \<Rightarrow> 'n atomic_node" where
  "StoreBytes bs a = a\<lparr>bytesPtr := Some bs\<rparr>"

definition LoadBytes :: "'n atomic_node \<Rightarrow> byte list res" where
  "LoadBytes a = deref (bytesPtr a)"

lemma atomic_cells:
  "LoadInode (StoreInode n a) = Inr n" "LoadBytes (StoreBytes bs a) = Inr bs"
  "LoadInode (StoreBytes bs a) = LoadInode a" "LoadBytes (StoreInode n a) = LoadBytes a"
  by (simp_all add: LoadInode_def LoadBytes_def StoreInode_def StoreBytes_def)

section \<open>The properties\<close>

text \<open>
  The number of a goroutine is read back from the header of its stack trace, whatever follows; the traces of all goroutines are
  returned in full by the loop that doubles its buffer, when their length is bounded, however they change meanwhile; and
  filtering a dump without stacks of the garbage collector leaves it as it is.
\<close>

theorem goroutine_number_read:
  assumes "n < 2 ^ 63" and "\<forall>j. length (traces j) < bound"
  shows "GoroNumber (go_string ''goroutine '' @ dec_nat n @ 32 # rest) = Inr (int n) \<and>
    line_ids (go_string ''goroutine '' @ dec_nat n @ [32, 91] @ rest) = [int n] \<and>
    (\<exists>j. allstacks traces = Some (traces j))"
proof -
  let ?p = "go_string ''goroutine ''"
  have p: "length ?p = 10" by (simp add: go_string_def)
  have "n < 10 ^ 19" using assms(1) by simp
  then have l: "length (dec_nat n) \<le> 19" by (rule dec_length) simp
  have s: "32 \<notin> set (dec_nat n)" using dec_digits [of n] by (auto simp: is_digit_def)
  have b: "take 48 (?p @ dec_nat n @ 32 # rest) = ?p @ dec_nat n @ 32 # take (37 - length (dec_nat n)) rest"
  proof -
    obtain k where k: "48 - length ?p - length (dec_nat n) = Suc k" "k = 37 - length (dec_nat n)" using l p by (cases "38 - length (dec_nat n)") auto
    then show ?thesis using l p by simp
  qed
  have "goro_scan (take 48 (?p @ dec_nat n @ 32 # rest)) 10 = Inr (10 + length (dec_nat n))"
    unfolding b using goro_scan_digits [of 10 "dec_nat n" ?p] l s p by simp
  moreover have "drop 10 (take (10 + length (dec_nat n)) (take 48 (?p @ dec_nat n @ 32 # rest))) = dec_nat n"
    unfolding b using p by simp
  ultimately have "GoroNumber (?p @ dec_nat n @ 32 # rest) = Inr (int n)"
    using Atoi_dec [OF assms(1)] by (simp only: GoroNumber_def Let_def rbind_Inr Atoi_or_panic_def) simp
  moreover have "\<exists>j. allstacks traces = Some (traces j)"
    unfolding allstacks_def by (rule stacks_loop_returns [OF assms(2)]) simp
  ultimately show ?thesis using line_ids_header [OF assms(1)] by blast
qed

end
