(* ===== verification/GreenWrap.thy ===== *)
theory GreenWrap
  imports WireBytes
begin

text \<open>
  The generated serializers of \<open>GreenWrapp\<close>, a struct with one field of type \<open>any\<close> (\<open>serz/green.go\<close>, \<open>serz/green_gen.go\<close>).
  The loop over the fields is that of \<open>Msgp\<close>. How the library writes and reads an interface value is a record of
  operations, in addition to those of \<open>Msgp\<close>; the locales at the end state what the code relies on in them.
\<close>

section \<open>Interface values\<close>

text \<open>The methods of \<open>msgp\<close> on a Go \<open>any\<close>, whose values have the type \<open>'i\<close>.\<close>

record ('i, 'w, 'r, 'n) msg_intf =
  WriteIntf :: "'i \<Rightarrow> 'w \<Rightarrow> 'w io"
  ReadIntf :: "'r \<Rightarrow> ('i \<times> 'r) io"
  AppendIntf :: "byte list \<Rightarrow> 'i \<Rightarrow> byte list io"
  ReadIntfBytes :: "'n \<Rightarrow> byte list \<Rightarrow> ('i \<times> byte list) io"
  GuessSize :: "'i \<Rightarrow> int"

record 'i green_wrapp =
  Inside :: 'i

section \<open>The generated code\<close>

definition name_Inside :: "byte list" where
  "name_Inside = go_string ''Inside_zid00_ifc''"

definition GreenWrapp_DecodeFieldOrder :: "byte list list" where
  "GreenWrapp_DecodeFieldOrder = [name_Inside]"

definition GreenWrapp_DecodeFieldSkip :: "bool list" where
  "GreenWrapp_DecodeFieldSkip = [False]"

definition GreenWrapp_UnmarshalFieldOrder :: "byte list list" where
  "GreenWrapp_UnmarshalFieldOrder = [name_Inside]"

definition GreenWrapp_UnmarshalFieldSkip :: "bool list" where
  "GreenWrapp_UnmarshalFieldSkip = [False]"

definition GreenWrapp_switch :: "'r msg_reader \<Rightarrow> ('i, 'w, 'r, 'n) msg_intf \<Rightarrow> ('i green_wrapp, 'r) field_switch" where
  "GreenWrapp_switch dc I field zf r = (case zf of (z, found) \<Rightarrow>
     if field = name_Inside then
       rbind (ReadIntf I r) (\<lambda>(v, r1). Inr ((z\<lparr>Inside := v\<rparr>, found[0 := True]), r1))
     else rbind (Skip dc r) (\<lambda>r1. Inr ((z, found), r1)))"

definition GreenWrapp_DecodeMsg :: "'r msg_reader \<Rightarrow> ('i, 'w, 'r, 'n) msg_intf \<Rightarrow> 'i green_wrapp \<Rightarrow> 'r \<Rightarrow> ('i green_wrapp \<times> 'r) io" where
  "GreenWrapp_DecodeMsg dc I z r =
     decode_struct dc GreenWrapp_DecodeFieldOrder GreenWrapp_DecodeFieldSkip (GreenWrapp_switch dc I) z r"

text \<open>The field is never empty.\<close>

definition GreenWrapp_fieldsNotEmpty :: "'i green_wrapp \<Rightarrow> bool list \<Rightarrow> bool list \<times> 32 word" where
  "GreenWrapp_fieldsNotEmpty z isempty =
     (if length isempty = 0 then (isempty, 1)
      else let isempty0 = isempty[0 := False] in (isempty0, if isempty0 ! 0 then 1 - 1 else 1))"

definition GreenWrapp_EncodeMsg :: "'w msg_writer \<Rightarrow> ('i, 'w, 'r, 'n) msg_intf \<Rightarrow> 'i green_wrapp \<Rightarrow> 'w \<Rightarrow> 'w io" where
  "GreenWrapp_EncodeMsg en I z w = (case GreenWrapp_fieldsNotEmpty z (replicate 1 False) of (isempty, fieldsInUse) \<Rightarrow>
     rbind (WriteMapHeader en (fieldsInUse + 1) w) (\<lambda>w1.
     rbind (Append en [0xa1, 0x40] w1) (\<lambda>w2.
     rbind (WriteStringFromBytes en [0x47, 0x72, 0x65, 0x65, 0x6e, 0x57, 0x72, 0x61, 0x70, 0x70] w2) (\<lambda>w3.
     write_field en (isempty ! 0) [0xb0, 0x49, 0x6e, 0x73, 0x69, 0x64, 0x65, 0x5f, 0x7a, 0x69, 0x64, 0x30, 0x30, 0x5f, 0x69, 0x66, 0x63]
       (WriteIntf I (Inside z)) w3))))"

definition GreenWrapp_Msgsize :: "('i, 'w, 'r, 'n) msg_intf \<Rightarrow> 'i green_wrapp \<Rightarrow> int" where
  "GreenWrapp_Msgsize I z = 1 + 17 + GuessSize I (Inside z)"

definition GreenWrapp_MarshalMsg :: "'n msg_bytes \<Rightarrow> ('i, 'w, 'r, 'n) msg_intf \<Rightarrow> 'i green_wrapp \<Rightarrow> byte list \<Rightarrow> byte list io" where
  "GreenWrapp_MarshalMsg B I z b =
     (let o0 = Require B b (GreenWrapp_Msgsize I z) in
      case GreenWrapp_fieldsNotEmpty z (replicate 1 False) of (isempty, fieldsInUse) \<Rightarrow>
      let o1 = AppendMapHeader B o0 fieldsInUse
      in if \<not> isempty ! 0 then
           AppendIntf I (o1 @ [0xb0, 0x49, 0x6e, 0x73, 0x69, 0x64, 0x65, 0x5f, 0x7a, 0x69, 0x64, 0x30, 0x30, 0x5f, 0x69, 0x66, 0x63]) (Inside z)
         else Inr o1)"

definition GreenWrapp_switch_bytes :: "'n msg_bytes \<Rightarrow> ('i, 'w, 'r, 'n) msg_intf \<Rightarrow> ('i green_wrapp, byte list \<times> 'n) field_switch" where
  "GreenWrapp_switch_bytes B I field zf s = (case zf of (z, found) \<Rightarrow> case s of (bts, nbs) \<Rightarrow>
     if field = name_Inside then
       rbind (ReadIntfBytes I nbs bts) (\<lambda>(v, bts1). Inr ((z\<lparr>Inside := v\<rparr>, found[0 := True]), bts1, nbs))
     else rbind (SkipBytes B bts) (\<lambda>bts1. Inr ((z, found), bts1, nbs)))"

definition GreenWrapp_UnmarshalMsgWithCfg :: "'n msg_bytes \<Rightarrow> ('i, 'w, 'r, 'n) msg_intf \<Rightarrow> 'i green_wrapp \<Rightarrow> byte list
    \<Rightarrow> ('i green_wrapp \<times> byte list) io" where
  "GreenWrapp_UnmarshalMsgWithCfg B I z bts =
     unmarshal_struct B GreenWrapp_UnmarshalFieldOrder GreenWrapp_UnmarshalFieldSkip (GreenWrapp_switch_bytes B I) z bts"

definition GreenWrapp_UnmarshalMsg :: "'n msg_bytes \<Rightarrow> ('i, 'w, 'r, 'n) msg_intf \<Rightarrow> 'i green_wrapp \<Rightarrow> byte list
    \<Rightarrow> ('i green_wrapp \<times> byte list) io" where
  "GreenWrapp_UnmarshalMsg B I z bts = GreenWrapp_UnmarshalMsgWithCfg B I z bts"

section \<open>What is on the wire\<close>

definition green_type :: "byte list" where
  "green_type = [0x47, 0x72, 0x65, 0x65, 0x6e, 0x57, 0x72, 0x61, 0x70, 0x70]"

definition green_field :: "('i \<Rightarrow> byte list) \<Rightarrow> ('i \<Rightarrow> 'i) \<Rightarrow> 'i green_wrapp
    \<Rightarrow> byte list \<times> ('i green_wrapp \<times> bool list \<Rightarrow> 'i green_wrapp \<times> bool list)" where
  "green_field eIntf read_as z = (fixstr name_Inside @ eIntf (Inside z), \<lambda>(y, found). (y\<lparr>Inside := read_as (Inside z)\<rparr>, found[0 := True]))"

lemma green_names:
  "[0xb0, 0x49, 0x6e, 0x73, 0x69, 0x64, 0x65, 0x5f, 0x7a, 0x69, 0x64, 0x30, 0x30, 0x5f, 0x69, 0x66, 0x63] = 0xb0 # name_Inside"
  "0xb0 # name_Inside = fixstr name_Inside" "length name_Inside = 16" "length green_type = 10" "[0x40] \<noteq> name_Inside"
  by (code_simp)+

lemma green_fields_present: "GreenWrapp_fieldsNotEmpty z (replicate 1 False) = ([False], 1)"
  by (simp add: GreenWrapp_fieldsNotEmpty_def)

text \<open>The struct after its field was read and the missing fields, if any, were cleared: there are none left to clear.\<close>

lemma green_effect:
  fixes z :: "'i green_wrapp"
  assumes "fs = [green_field eIntf read_as z] \<or> fs = [type_field ty, green_field eIntf read_as z]"
  shows "fold snd fs (y, [False]) = (z\<lparr>Inside := read_as (Inside z)\<rparr>, [True])"
  using assms by (cases y; cases z) (auto simp: green_field_def type_field_def)

lemma no_todo: "todo_fields [True] skips (Suc 0) 0 = []"
  by (simp add: todo_fields_def)

section \<open>Streams\<close>

text \<open>
  The library writes the values of the types it knows (\<open>fits\<close>), and reads back a value that need not be of the same Go type
  (\<open>read_as\<close>): any integer comes back as an \<open>int64\<close> or a \<open>uint64\<close>.
\<close>

locale msgp_intf_stream = msgp_stream F en out dc content
  for F :: msgp_format and en :: "'w msg_writer" and out :: "'w \<Rightarrow> byte list"
    and dc :: "'r msg_reader" and content :: "'r \<Rightarrow> nat \<times> byte list" +
  fixes I :: "('i, 'w, 'r, 'n) msg_intf" and eIntf :: "'i \<Rightarrow> byte list" and fits :: "'i \<Rightarrow> bool" and read_as :: "'i \<Rightarrow> 'i" and nil :: 'i
  assumes write_intf: "fits v \<Longrightarrow> writes out (WriteIntf I v w) (out w @ eIntf v)"
    and read_intf: "fits v \<Longrightarrow> content r = (0, eIntf v @ xs) \<Longrightarrow> reads content (ReadIntf I r) (read_as v) (0, xs)"
    and nil_intf: "content r = (Suc n, xs) \<Longrightarrow> reads content (ReadIntf I r) nil (Suc n, xs)"
begin

definition green_wire :: "'i green_wrapp \<Rightarrow> byte list" where
  "green_wire z = eMap F 2 @ fixstr [0x40] @ fixstr green_type @ fixstr name_Inside @ eIntf (Inside z)"

lemma GreenWrapp_writes:
  assumes "fits (Inside z)"
  shows "writes out (GreenWrapp_EncodeMsg en I z w) (out w @ green_wire z)"
proof -
  have "writes out (GreenWrapp_EncodeMsg en I z w) (out w @ eMap F (1 + 1) @ [0xa1, 0x40] @ fixstr green_type @
      (if [False] ! 0 then [] else fixstr name_Inside @ eIntf (Inside z)))"
    unfolding GreenWrapp_EncodeMsg_def green_fields_present prod.case green_names(1) green_type_def [symmetric]
    by (intro writes_seq write_map write_append write_string write_field_writes write_intf assms) (simp_all add: green_names)
  also have "?this \<longleftrightarrow> ?thesis" by (simp add: green_wire_def fixstr_def)
  finally show ?thesis .
qed

lemma GreenWrapp_switch_reads:
  "reads content (ReadIntf I r) v c \<Longrightarrow>
    reads content (GreenWrapp_switch dc I name_Inside (y, found) r) (y\<lparr>Inside := v\<rparr>, found[0 := True]) c"
  by (auto simp: GreenWrapp_switch_def reads_def)

lemma GreenWrapp_fields_read:
  assumes "fits (Inside z)"
  shows "\<forall>f \<in> set [type_field green_type, green_field eIntf read_as z]. field_reads at_stream (ReadMapKeyPtr dc) (GreenWrapp_switch dc I) f"
proof -
  have "field_reads at_stream (ReadMapKeyPtr dc) (GreenWrapp_switch dc I) (type_field green_type)"
    by (rule type_field_reads) (simp_all add: GreenWrapp_switch_def green_names split: prod.split)
  moreover have "field_reads at_stream (ReadMapKeyPtr dc) (GreenWrapp_switch dc I) (green_field eIntf read_as z)"
    unfolding green_field_def
  proof (rule value_field_reads)
    show "reads content (GreenWrapp_switch dc I name_Inside zf r) ((\<lambda>(y, found). (y\<lparr>Inside := read_as (Inside z)\<rparr>, found[0 := True])) zf) (0, xs)"
      if "content r = (0, eIntf (Inside z) @ xs)" for zf r xs
      by (cases zf) (simp add: GreenWrapp_switch_reads read_intf [OF assms that])
  qed (simp add: green_names)
  ultimately show ?thesis by simp
qed

text \<open>
  The decoder counts one field, the encoder writes two with the type: the number of missing fields wraps
  around, and the loop ends because no field is left to clear.
\<close>

lemma GreenWrapp_reads:
  assumes "fits (Inside z)" and r: "content r = (0, green_wire z @ xs)"
  shows "reads content (GreenWrapp_DecodeMsg dc I y r) (z\<lparr>Inside := read_as (Inside z)\<rparr>) (0, xs)"
proof -
  let ?fs = "[type_field green_type, green_field eIntf read_as z]" and ?order = GreenWrapp_DecodeFieldOrder
  let ?clear = "\<lambda>i (y :: 'i green_wrapp, found). (y\<lparr>Inside := nil\<rparr>, found[i := True])"
  have c: "content r = (0, eMap F (of_nat (length ?fs)) @ concat (map fst ?fs) @ xs)"
    using r by (simp add: green_wire_def green_field_def type_field_def)
  have n: "length ?order = Suc 0" by (simp add: GreenWrapp_DecodeFieldOrder_def)
  have e: "fold snd ?fs (y, replicate (length ?order) False) = (z\<lparr>Inside := read_as (Inside z)\<rparr>, [True])"
    using green_effect [of ?fs eIntf read_as z green_type y] by (simp add: n)
  have "reads content (GreenWrapp_DecodeMsg dc I y r)
    (fst (fold ?clear (take (unat (of_nat (length ?order) - of_nat (length ?fs) :: 32 word))
      (todo_fields (snd (fold snd ?fs (y, replicate (length ?order) False))) GreenWrapp_DecodeFieldSkip (length ?order) 0))
      (fold snd ?fs (y, replicate (length ?order) False)))) (0, xs)"
    unfolding GreenWrapp_DecodeMsg_def
  proof (rule decode_struct_correct [OF c GreenWrapp_fields_read [OF assms(1)]])
    show "reads content (GreenWrapp_switch dc I (?order ! i) zf s) (?clear i zf) (1, xs) \<and> snd (?clear i zf) = (snd zf)[i := True]"
      if "i < length ?order" "content s = (1, xs)" for i zf s
    proof -
      have "i = 0" using that(1) n by simp
      moreover note nil_intf [of s 0 xs, folded One_nat_def, OF that(2)]
      ultimately show ?thesis by (cases zf) (simp add: GreenWrapp_DecodeFieldOrder_def GreenWrapp_switch_reads del: One_nat_def)
    qed
    show "length (snd (fold snd ?fs (y, replicate (length ?order) False))) = length ?order" unfolding e by (simp add: n)
  qed simp
  then show ?thesis unfolding e by (simp add: n no_todo)
qed

end

section \<open>Byte slices\<close>

text \<open>The values of the types that the library does not know are \<open>refused\<close>: it returns an error.\<close>

locale msgp_intf_slices = msgp_slices F B
  for F :: msgp_format and B :: "'n msg_bytes" +
  fixes I :: "('i, 'w, 'r, 'n) msg_intf" and eIntf :: "'i \<Rightarrow> byte list" and fits :: "'i \<Rightarrow> bool" and read_as :: "'i \<Rightarrow> 'i" and nil :: 'i
    and refused :: "'i \<Rightarrow> bool"
  assumes append_intf: "fits v \<Longrightarrow> AppendIntf I b v = Inr (b @ eIntf v)"
    and append_intf_error: "refused v \<Longrightarrow> \<exists>e. AppendIntf I b v = Inl e"
    and parse_intf: "\<not> AlwaysNil B nbs \<Longrightarrow> fits v \<Longrightarrow> ReadIntfBytes I nbs (eIntf v @ xs) = Inr (read_as v, xs)"
    and nil_intf: "AlwaysNil B nbs \<Longrightarrow> ReadIntfBytes I nbs bts = Inr (nil, bts)"
begin

definition green_bytes :: "'i green_wrapp \<Rightarrow> byte list" where
  "green_bytes z = eMap F 1 @ fixstr name_Inside @ eIntf (Inside z)"

lemma GreenWrapp_marshal:
  "fits (Inside z) \<Longrightarrow> GreenWrapp_MarshalMsg B I z b = Inr (b @ green_bytes z)"
  unfolding GreenWrapp_MarshalMsg_def green_fields_present green_names(1)
  by (simp add: append_intf require append_map green_bytes_def green_names)

lemma GreenWrapp_marshal_error: "refused (Inside z) \<Longrightarrow> \<exists>e. GreenWrapp_MarshalMsg B I z b = Inl e"
  unfolding GreenWrapp_MarshalMsg_def green_fields_present by (simp add: append_intf_error)

lemma GreenWrapp_switch_parses:
  "ReadIntfBytes I (snd s) (fst s) = Inr (v, bts) \<Longrightarrow>
    GreenWrapp_switch_bytes B I name_Inside (y, found) s = Inr ((y\<lparr>Inside := v\<rparr>, found[0 := True]), bts, snd s)"
  by (cases s) (simp add: GreenWrapp_switch_bytes_def)

lemma GreenWrapp_unmarshal:
  assumes "fits (Inside z)"
  shows "GreenWrapp_UnmarshalMsg B I y (green_bytes z @ xs) = Inr (z\<lparr>Inside := read_as (Inside z)\<rparr>, xs)"
proof -
  let ?fs = "[green_field eIntf read_as z]" and ?order = GreenWrapp_UnmarshalFieldOrder
  let ?clear = "\<lambda>i (y :: 'i green_wrapp, found). (y\<lparr>Inside := nil\<rparr>, found[i := True])"
  have n: "length ?order = Suc 0" by (simp add: GreenWrapp_UnmarshalFieldOrder_def)
  have e: "fold snd ?fs (y, replicate (length ?order) False) = (z\<lparr>Inside := read_as (Inside z)\<rparr>, [True])"
    using green_effect [of ?fs eIntf read_as z green_type y] by (simp add: n)
  have b: "green_bytes z @ xs = eMap F (of_nat (length ?fs)) @ concat (map fst ?fs) @ xs"
    by (simp add: green_bytes_def green_field_def)
  have f: "\<forall>f \<in> set ?fs. field_reads at_bytes (\<lambda>(bts, nbs). rbind (ReadMapKeyZC B nbs bts) (\<lambda>(field, bts'). Inr (field, bts', nbs)))
      (GreenWrapp_switch_bytes B I) f"
    unfolding green_field_def
    by (simp, rule value_field_parses) (simp_all add: green_names GreenWrapp_switch_parses parse_intf assms split: prod.split)
  have "unmarshal_struct B ?order GreenWrapp_UnmarshalFieldSkip (GreenWrapp_switch_bytes B I) y (green_bytes z @ xs) =
    Inr (fst (fold ?clear (take (unat (of_nat (length ?order) - of_nat (length ?fs) :: 32 word))
      (todo_fields (snd (fold snd ?fs (y, replicate (length ?order) False))) GreenWrapp_UnmarshalFieldSkip (length ?order) 0))
      (fold snd ?fs (y, replicate (length ?order) False))), xs)"
    unfolding b
  proof (rule unmarshal_struct_correct [OF f])
    show "GreenWrapp_switch_bytes B I (?order ! i) zf s = Inr (?clear i zf, s) \<and> snd (?clear i zf) = (snd zf)[i := True]"
      if "i < length ?order" "AlwaysNil B (snd s)" for i zf s
    proof -
      have "i = 0" using that(1) n by simp
      then show ?thesis
        by (cases zf) (simp add: GreenWrapp_UnmarshalFieldOrder_def GreenWrapp_switch_parses nil_intf [OF that(2)])
    qed
    show "length (snd (fold snd ?fs (y, replicate (length ?order) False))) = length ?order" unfolding e by (simp add: n)
  qed simp
  then show ?thesis unfolding e by (simp add: n GreenWrapp_UnmarshalMsg_def GreenWrapp_UnmarshalMsgWithCfg_def no_todo)
qed

end

end
