(* ===== verification/GreenWire.thy ===== *)
theory GreenWire
  imports GreenWrap MessagePack
begin

text \<open>
  The locales of \<open>GreenWrap\<close> on the implementation of \<open>MessagePack\<close>, where an interface holds nil, an \<open>int\<close>, an \<open>int64\<close>, bytes or
  a value of a type that has no encoding, and the round trip of the wrapper (\<open>serz/green_gen.go\<close>).
\<close>

section \<open>Interface values in MessagePack\<close>

datatype mp_value = MpNil | MpInt int | MpInt64 int | MpBytes "byte list" | MpOther nat

definition mp_fits :: "mp_value \<Rightarrow> bool" where
  "mp_fits v = (case v of MpNil \<Rightarrow> True | MpInt i \<Rightarrow> fits_int i | MpInt64 i \<Rightarrow> fits_int i | MpBytes b \<Rightarrow> fits_bytes b | MpOther n \<Rightarrow> False)"

text \<open>Integers are encoded alike, and read as \<open>int64\<close>.\<close>

definition mp_read_as :: "mp_value \<Rightarrow> mp_value" where
  "mp_read_as v = (case v of MpInt i \<Rightarrow> MpInt64 i | _ \<Rightarrow> v)"

definition mp_refused :: "mp_value \<Rightarrow> bool" where
  "mp_refused v = (case v of MpOther n \<Rightarrow> True | _ \<Rightarrow> False)"

definition mp_value :: "mp_value \<Rightarrow> byte list" where
  "mp_value v = (case v of MpInt i \<Rightarrow> mp_int i | MpInt64 i \<Rightarrow> mp_int i | MpBytes b \<Rightarrow> mp_bytes b | _ \<Rightarrow> [0xc0])"

definition get_value :: "byte list \<Rightarrow> (mp_value \<times> byte list) io" where
  "get_value bs = (case bs of
     [] \<Rightarrow> Inl (Fails EOF)
   | b # rest \<Rightarrow>
       if b = 0xc0 then Inr (MpNil, rest)
       else if b = 0xd3 then rbind (get_int bs) (\<lambda>(i, rest). Inr (MpInt64 i, rest))
       else rbind (get_bin bs) (\<lambda>(v, rest). Inr (MpBytes v, rest)))"

definition mp_intf :: "(mp_value, mp_w, nat \<times> byte list, byte list list) msg_intf" where
  "mp_intf = \<lparr>WriteIntf = (\<lambda>v. if mp_refused v then (\<lambda>w. Inl (Fails (IOError 8))) else put (mp_value v)),
     ReadIntf = nilable MpNil get_value,
     AppendIntf = (\<lambda>b v. if mp_refused v then Inl (Fails (IOError 8)) else Inr (b @ mp_value v)),
     ReadIntfBytes = (\<lambda>n bts. if n \<noteq> [] then Inr (MpNil, bts) else get_value bts),
     GuessSize = (\<lambda>v. int (length (mp_value v)))\<rparr>"

lemma fits_not_refused: "mp_fits v \<Longrightarrow> \<not> mp_refused v"
  by (cases v) (simp_all add: mp_fits_def mp_refused_def)

lemma get_value: "mp_fits v \<Longrightarrow> get_value (mp_value v @ xs) = Inr (mp_read_as v, xs)"
proof (cases v)
  case (MpInt i)
  moreover assume "mp_fits v"
  ultimately show ?thesis using get_int [of i xs] by (simp add: mp_fits_def mp_value_def mp_read_as_def get_value_def mp_int_def)
next
  case (MpInt64 i)
  moreover assume "mp_fits v"
  ultimately show ?thesis using get_int [of i xs] by (simp add: mp_fits_def mp_value_def mp_read_as_def get_value_def mp_int_def)
next
  case (MpBytes b)
  moreover assume "mp_fits v"
  ultimately show ?thesis using get_bin [of b xs] by (simp add: mp_fits_def mp_value_def mp_read_as_def get_value_def mp_bytes_def)
qed (simp_all add: mp_fits_def mp_value_def mp_read_as_def get_value_def)

interpretation mpi: msgp_intf_stream mp_format mp_writer "\<lambda>w. fst (snd w)" mp_reader "\<lambda>r. r" mp_intf mp_value mp_fits mp_read_as MpNil
  by unfold_locales (auto simp: mp_intf_def writes_def reads_def put_def nilable_def get_value fits_not_refused split: prod.splits)

interpretation mpib: msgp_intf_slices mp_format mp_slices mp_intf mp_value mp_fits mp_read_as MpNil mp_refused
  by unfold_locales (auto simp: mp_intf_def mp_slices_def get_value fits_not_refused)

section \<open>The properties\<close>

text \<open>
  C40. The wrapper of an interface value, of a type that the library can encode, round trips through both codecs, up to the Go type in
  which the library gives the value back (\<open>read_as\<close>: an \<open>int\<close> comes back as an \<open>int64\<close>): into any old receiver, and leaving what follows,
  the stream codec although it counts the type as a field, so that its number of missing fields wraps around. A value of a type that
  the library refuses makes \<open>MarshalMsg\<close> return the error.
\<close>

theorem green_wrapper_roundtrip:
  assumes "msgp_intf_stream F en out dc content I eIntf fits read_as nil" and "msgp_intf_slices F B I eIntf fits read_as nil refused"
  shows "(fits (Inside z) \<longrightarrow>
      (\<exists>w' X. GreenWrapp_EncodeMsg en I z w = Inr w' \<and> out w' = out w @ X \<and>
        (\<forall>r xs. content r = (0, X @ xs) \<longrightarrow>
          (\<exists>r'. GreenWrapp_DecodeMsg dc I y r = Inr (z\<lparr>Inside := read_as (Inside z)\<rparr>, r') \<and> content r' = (0, xs)))) \<and>
      (\<exists>X. GreenWrapp_MarshalMsg B I z b = Inr (b @ X) \<and>
        (\<forall>y xs. GreenWrapp_UnmarshalMsg B I y (X @ xs) = Inr (z\<lparr>Inside := read_as (Inside z)\<rparr>, xs)))) \<and>
    (refused (Inside z) \<longrightarrow> (\<exists>e. GreenWrapp_MarshalMsg B I z b = Inl e))"
proof (intro conjI impI)
  assume f: "fits (Inside z)"
  show "\<exists>w' X. GreenWrapp_EncodeMsg en I z w = Inr w' \<and> out w' = out w @ X \<and>
      (\<forall>r xs. content r = (0, X @ xs) \<longrightarrow>
        (\<exists>r'. GreenWrapp_DecodeMsg dc I y r = Inr (z\<lparr>Inside := read_as (Inside z)\<rparr>, r') \<and> content r' = (0, xs)))"
    using msgp_intf_stream.GreenWrapp_writes [OF assms(1) f, of w] msgp_intf_stream.GreenWrapp_reads [OF assms(1) f, where y = y]
    unfolding writes_def reads_def by metis
  show "\<exists>X. GreenWrapp_MarshalMsg B I z b = Inr (b @ X) \<and>
      (\<forall>y xs. GreenWrapp_UnmarshalMsg B I y (X @ xs) = Inr (z\<lparr>Inside := read_as (Inside z)\<rparr>, xs))"
    using msgp_intf_slices.GreenWrapp_marshal [OF assms(2) f, of b] msgp_intf_slices.GreenWrapp_unmarshal [OF assms(2) f] by blast
next
  assume "refused (Inside z)"
  then show "\<exists>e. GreenWrapp_MarshalMsg B I z b = Inl e" by (rule msgp_intf_slices.GreenWrapp_marshal_error [OF assms(2)])
qed

theorem green_wrapper_roundtrip_witness:
  "(\<exists>w' r'. GreenWrapp_EncodeMsg mp_writer mp_intf \<lparr>Inside = MpInt 5\<rparr> ([], [], []) = Inr w' \<and>
     GreenWrapp_DecodeMsg mp_reader mp_intf \<lparr>Inside = MpBytes [1]\<rparr> (0, fst (snd w') @ [7]) = Inr (\<lparr>Inside = MpInt64 5\<rparr>, r') \<and> r' = (0, [7])) \<and>
   (\<exists>e. GreenWrapp_MarshalMsg mp_slices mp_intf \<lparr>Inside = MpOther 3\<rparr> [] = Inl e)"
proof -
  have "mp_fits (Inside \<lparr>Inside = MpInt 5\<rparr>)" "mp_refused (Inside \<lparr>Inside = MpOther 3\<rparr>)" "mp_read_as (MpInt 5) = MpInt64 5"
    by (simp_all add: mp_fits_def fits_int_def mp_refused_def mp_read_as_def)
  then show ?thesis
    using green_wrapper_roundtrip [OF mpi.msgp_intf_stream_axioms mpib.msgp_intf_slices_axioms,
        where z = "\<lparr>Inside = MpInt 5\<rparr>" and w = "([], [], [])" and y = "\<lparr>Inside = MpBytes [1]\<rparr>" and b = "[]"]
      green_wrapper_roundtrip [OF mpi.msgp_intf_stream_axioms mpib.msgp_intf_slices_axioms, where z = "\<lparr>Inside = MpOther 3\<rparr>" and b = "[]"]
    by (auto dest: spec [of _ "[7]"])
qed

end
