(* ===== verification/OptimisticLock.thy ===== *)
theory OptimisticLock
  imports Prelude
begin

text \<open>
  The optimistic lock (\<open>optimistic_lock.go\<close>): a 64-bit word whose lowest bit says that the node is
  obsolete and whose second bit says that it is locked; the rest counts the updates. Adding two
  locks, adding two again unlocks and carries into the count, and the count wraps around.

  The operations come first, as functions of the values that their atomic loads see. Then they are
  steps of any number of threads on one lock: each step does one atomic access.
\<close>

unbundle bit_operations_syntax

section \<open>The operations\<close>

type_synonym olock = "64 word"

definition isObsolete :: "olock \<Rightarrow> bool" where
  "isObsolete version \<longleftrightarrow> version AND 1 = 1"

definition setLockedBit :: "olock \<Rightarrow> olock" where
  "setLockedBit version = version + 2"

definition olock_Unlock :: "olock \<Rightarrow> olock" where
  "olock_Unlock ol = ol + 2"

definition olock_UnlockObsolete :: "olock \<Rightarrow> olock" where
  "olock_UnlockObsolete ol = ol + 3"

text \<open>
  \<open>RUnlock\<close> and \<open>Upgrade\<close> take a second lock, or nil, which is unlocked when the version has changed.
  The first argument is the word that the atomic access sees.
\<close>

definition olock_RUnlock :: "olock \<Rightarrow> olock \<Rightarrow> olock option \<Rightarrow> olock option \<times> bool" where
  "olock_RUnlock ol version locked =
     (if ol \<noteq> version then (case locked of Some l \<Rightarrow> Some (olock_Unlock l) | None \<Rightarrow> None, True) else (locked, False))"

definition olock_Upgrade :: "olock \<Rightarrow> olock \<Rightarrow> olock option \<Rightarrow> olock \<times> olock option \<times> bool" where
  "olock_Upgrade ol version locked =
     (if ol \<noteq> version then (ol, case locked of Some l \<Rightarrow> Some (olock_Unlock l) | None \<Rightarrow> None, True)
      else (setLockedBit version, locked, False))"

definition olock_Check :: "olock \<Rightarrow> olock \<Rightarrow> bool" where
  "olock_Check ol version \<longleftrightarrow> \<not> ol = version"

text \<open>
  The loops read the word again and again while other threads change it: the argument is the list of
  the words the accesses see. \<open>None\<close> means that the loop is still running at the end of the list.
\<close>

fun waitUnlocked :: "olock list \<Rightarrow> (olock \<times> olock list) option" where
  "waitUnlocked [] = None"
| "waitUnlocked (version # loads) = (if version AND 2 \<noteq> 2 then Some (version, loads) else waitUnlocked loads)"

definition olock_RLock :: "olock list \<Rightarrow> ((olock \<times> bool) \<times> olock list) option" where
  "olock_RLock loads = (case waitUnlocked loads of None \<Rightarrow> None
     | Some (version, rest) \<Rightarrow> Some ((version, isObsolete version), rest))"

lemma waitUnlocked_shorter: "waitUnlocked loads = Some (v, rest) \<Longrightarrow> length rest < length loads"
  by (induction loads) (auto split: if_splits)

function olock_Lock :: "olock list \<Rightarrow> (olock \<times> olock list) option" where
  "olock_Lock loads = (case olock_RLock loads of None \<Rightarrow> None
     | Some ((version, obsolete), rest) \<Rightarrow>
         if obsolete then olock_Lock rest
         else (case rest of [] \<Rightarrow> None
           | ol # rest' \<Rightarrow> (case olock_Upgrade ol version None of
               (ol', _, obsolete) \<Rightarrow> if obsolete then olock_Lock rest' else Some (ol', rest'))))"
  by pat_completeness auto
termination
  by (relation "measure length") (auto simp: olock_RLock_def dest: waitUnlocked_shorter split: option.splits)

declare olock_Lock.simps [simp del]

section \<open>The bits of the word\<close>

definition isLocked :: "olock \<Rightarrow> bool" where
  "isLocked version \<longleftrightarrow> version AND 2 = 2"

lemma isLocked_bit: "isLocked v \<longleftrightarrow> bit v 1"
proof
  assume "isLocked v"
  then have "bit (v AND 2) 1 = bit (2 :: 64 word) 1" by (simp add: isLocked_def)
  then show "bit v 1" by (simp add: bit_and_iff bit_2_iff)
next
  assume "bit v 1"
  then show "isLocked v" unfolding isLocked_def by (intro bit_word_eqI) (auto simp: bit_and_iff bit_2_iff)
qed

lemma isObsolete_bit: "isObsolete v \<longleftrightarrow> bit v 0"
proof
  assume "isObsolete v"
  then have "bit (v AND 1) 0 = bit (1 :: 64 word) 0" by (simp add: isObsolete_def)
  then show "bit v 0" by (simp add: bit_and_iff)
next
  assume "bit v 0"
  then show "isObsolete v" unfolding isObsolete_def by (intro bit_word_eqI) (auto simp: bit_and_iff bit_1_iff)
qed

lemma isLocked_unat: "isLocked v \<longleftrightarrow> unat v mod 4 = 2 \<or> unat v mod 4 = 3"
proof -
  have "bit v 1 \<longleftrightarrow> bit (unat v) 1" by (simp add: bit_unsigned_iff possible_bit_def)
  also have "\<dots> \<longleftrightarrow> odd (unat v div 2)" by (simp add: bit_iff_odd)
  finally show ?thesis unfolding isLocked_bit by presburger
qed

lemma isObsolete_unat: "isObsolete v \<longleftrightarrow> unat v mod 4 = 1 \<or> unat v mod 4 = 3"
proof -
  have "bit v 0 \<longleftrightarrow> bit (unat v) 0" by (simp add: bit_unsigned_iff possible_bit_def del: bit_0)
  also have "\<dots> \<longleftrightarrow> odd (unat v)" by (simp add: bit_iff_odd)
  finally show ?thesis unfolding isObsolete_bit by presburger
qed

lemma unat_add_mod4: "unat (v + of_nat k :: 64 word) mod 4 = (unat v + k) mod 4"
proof -
  have "unat (v + of_nat k :: 64 word) = (unat v + k) mod 2 ^ 64" by (simp add: unat_word_ariths unat_of_nat mod_add_right_eq)
  then show ?thesis by (simp add: mod_mod_cancel)
qed

text \<open>What the three additions do to the two bits, wherever the count is.\<close>

lemma add_two: "unat (v + 2 :: 64 word) mod 4 = (unat v mod 4 + 2) mod 4"
  using unat_add_mod4 [of v 2] unfolding of_nat_numeral by (simp only: mod_add_left_eq)

lemma add_three: "unat (v + 3 :: 64 word) mod 4 = (unat v mod 4 + 3) mod 4"
  using unat_add_mod4 [of v 3] unfolding of_nat_numeral by (simp only: mod_add_left_eq)

lemma mod_four: "(n :: nat) mod 4 = 0 \<or> n mod 4 = 1 \<or> n mod 4 = 2 \<or> n mod 4 = 3"
  by presburger

lemma lock_bits:
  assumes "\<not> isLocked v" and "\<not> isObsolete v"
  shows "isLocked (setLockedBit v)" "\<not> isObsolete (setLockedBit v)"
  using assms mod_four [of "unat v"] by (auto simp: isLocked_unat isObsolete_unat setLockedBit_def add_two)

lemma unlock_bits:
  assumes "isLocked v" and "\<not> isObsolete v"
  shows "\<not> isLocked (olock_Unlock v)" "\<not> isObsolete (olock_Unlock v)"
    "\<not> isLocked (olock_UnlockObsolete v)" "isObsolete (olock_UnlockObsolete v)"
  using assms by (auto simp: isLocked_unat isObsolete_unat olock_Unlock_def olock_UnlockObsolete_def add_two add_three)

section \<open>Threads\<close>

text \<open>
  Where a thread is. A reader remembers the version it got, as the code's caller does, and, for the
  statement of what it may conclude, how much had been added to the word by then.
\<close>

datatype goal = ForRead | ForLock

datatype pc = Idle | Waiting goal | Reading olock nat | Upgrading olock | Writing

record shared =
  word :: olock
  added :: nat
  pcs :: "nat \<Rightarrow> pc"

definition go_to :: "shared \<Rightarrow> nat \<Rightarrow> pc \<Rightarrow> shared" where
  "go_to s t p = s\<lparr>pcs := (pcs s)(t := p)\<rparr>"

definition store :: "shared \<Rightarrow> olock \<Rightarrow> nat \<Rightarrow> shared" where
  "store s w k = s\<lparr>word := w, added := added s + k\<rparr>"

text \<open>A caller that is told that the version is obsolete discards it, as the comments require.\<close>

inductive ostep :: "shared \<Rightarrow> shared \<Rightarrow> bool" where
  begin_read: "pcs s t = Idle \<Longrightarrow> ostep s (go_to s t (Waiting ForRead))"
| begin_lock: "pcs s t = Idle \<Longrightarrow> ostep s (go_to s t (Waiting ForLock))"
| spin: "pcs s t = Waiting g \<Longrightarrow> waitUnlocked [word s] = None \<Longrightarrow> ostep s s"
| read_load: "pcs s t = Waiting ForRead \<Longrightarrow> olock_RLock [word s] = Some ((v, obsolete), []) \<Longrightarrow>
    ostep s (go_to s t (if obsolete then Idle else Reading v (added s)))"
| lock_load: "pcs s t = Waiting ForLock \<Longrightarrow> olock_RLock [word s] = Some ((v, obsolete), []) \<Longrightarrow>
    ostep s (go_to s t (if obsolete then Waiting ForLock else Upgrading v))"
| lock_cas: "pcs s t = Upgrading v \<Longrightarrow> olock_Upgrade (word s) v None = (w, None, restart) \<Longrightarrow>
    ostep s (if restart then go_to s t (Waiting ForLock) else go_to (store s w 2) t Writing)"
| read_upgrade: "pcs s t = Reading v g \<Longrightarrow> olock_Upgrade (word s) v None = (w, None, restart) \<Longrightarrow>
    ostep s (if restart then go_to s t Idle else go_to (store s w 2) t Writing)"
| read_unlock: "pcs s t = Reading v g \<Longrightarrow> ostep s (go_to s t Idle)"
| unlock: "pcs s t = Writing \<Longrightarrow> ostep s (go_to (store s (olock_Unlock (word s)) 2) t Idle)"
| unlock_obsolete: "pcs s t = Writing \<Longrightarrow> ostep s (go_to (store s (olock_UnlockObsolete (word s)) 3) t Idle)"

inductive_cases ostepE: "ostep s s'"

definition ostart :: shared where
  "ostart = \<lparr>word = 0, added = 0, pcs = (\<lambda>_. Idle)\<rparr>"

inductive oreach :: "shared \<Rightarrow> bool" where
  oreach_start: "oreach ostart"
| oreach_step: "oreach s \<Longrightarrow> ostep s s' \<Longrightarrow> oreach s'"

section \<open>The invariant\<close>

definition writers :: "shared \<Rightarrow> nat set" where
  "writers s = {t. pcs s t = Writing}"

definition oinv :: "shared \<Rightarrow> bool" where
  "oinv s \<longleftrightarrow> (if isLocked (word s) then (\<exists>t. writers s = {t}) \<and> \<not> isObsolete (word s) else writers s = {}) \<and>
     word s = of_nat (added s) \<and>
     (\<forall>t v. pcs s t = Upgrading v \<longrightarrow> \<not> isLocked v \<and> \<not> isObsolete v) \<and>
     (\<forall>t v g. pcs s t = Reading v g \<longrightarrow> \<not> isLocked v \<and> \<not> isObsolete v \<and> v = of_nat g \<and> g \<le> added s)"

lemma shared_sel [simp]:
  "word (go_to s t p) = word s" "added (go_to s t p) = added s" "pcs (go_to s t p) = (pcs s)(t := p)"
  "word (store s w k) = w" "added (store s w k) = added s + k" "pcs (store s w k) = pcs s"
  by (simp_all add: go_to_def store_def)

lemma writers_go:
  "writers (go_to s t p) = (if p = Writing then insert t (writers s) else writers s - {t})"
  "writers (store s w k) = writers s"
  by (auto simp: writers_def)

lemma waitUnlocked_one: "waitUnlocked [v] = (if isLocked v then None else Some (v, []))"
  by (simp add: isLocked_def)

lemma RLock_one: "olock_RLock [v] = Some ((w, obsolete), []) \<longleftrightarrow> \<not> isLocked v \<and> w = v \<and> obsolete = isObsolete v"
  by (auto simp: olock_RLock_def waitUnlocked_one simp del: waitUnlocked.simps)

lemma Upgrade_one: "olock_Upgrade w v None = (w', None, restart) \<longleftrightarrow>
    (if w = v then w' = setLockedBit v \<and> \<not> restart else w' = w \<and> restart)"
  by (auto simp: olock_Upgrade_def)

lemma oinv_move:
  assumes "oinv s" and "p \<noteq> Writing" and "pcs s t \<noteq> Writing"
    and "\<And>v. p = Upgrading v \<Longrightarrow> \<not> isLocked v \<and> \<not> isObsolete v"
    and "\<And>v g. p = Reading v g \<Longrightarrow> \<not> isLocked v \<and> \<not> isObsolete v \<and> v = of_nat g \<and> g \<le> added s"
  shows "oinv (go_to s t p)"
proof -
  have "writers (go_to s t p) = writers s" using assms(2,3) by (auto simp: writers_go writers_def)
  with assms show ?thesis by (auto simp: oinv_def)
qed

lemma oinv_lock:
  assumes i: "oinv s" and v: "\<not> isLocked v" "\<not> isObsolete v" and w: "word s = v"
  shows "oinv (go_to (store s (setLockedBit v) 2) t Writing)"
proof -
  have "writers s = {}" using i v w by (simp add: oinv_def)
  then have "writers (go_to (store s (setLockedBit v) 2) t Writing) = {t}" by (simp add: writers_go)
  with i lock_bits [OF v] w show ?thesis by (auto simp: oinv_def setLockedBit_def) (blast intro: le_SucI)+
qed

lemma oinv_unlock:
  assumes i: "oinv s" and t: "pcs s t = Writing"
  shows "oinv (go_to (store s (olock_Unlock (word s)) 2) t Idle)"
    and "oinv (go_to (store s (olock_UnlockObsolete (word s)) 3) t Idle)"
proof -
  have "t \<in> writers s" using t by (simp add: writers_def)
  then have w: "isLocked (word s)" "\<not> isObsolete (word s)" "writers s = {t}"
    using i by (auto simp: oinv_def split: if_splits)
  then have "writers (go_to (store s x k) t Idle) = {}" for x k by (simp add: writers_go)
  with i unlock_bits [OF w(1,2)] show "oinv (go_to (store s (olock_Unlock (word s)) 2) t Idle)"
    "oinv (go_to (store s (olock_UnlockObsolete (word s)) 3) t Idle)"
    by (auto simp: oinv_def olock_Unlock_def olock_UnlockObsolete_def) (blast intro: le_SucI trans_le_add1)+
qed

lemma ostep_inv: "ostep s s' \<Longrightarrow> oinv s \<Longrightarrow> oinv s'"
proof (induction rule: ostep.induct)
  case (read_load s t v obsolete)
  then show ?case by (intro oinv_move) (auto simp: RLock_one oinv_def split: if_splits)
next
  case (lock_load s t v obsolete)
  then show ?case by (intro oinv_move) (auto simp: RLock_one split: if_splits)
next
  case (lock_cas s t v w restart)
  then have v: "\<not> isLocked v" "\<not> isObsolete v" by (auto simp: oinv_def)
  show ?case
  proof (cases "word s = v")
    case True
    with lock_cas oinv_lock [OF lock_cas.prems v True, of t] show ?thesis by (simp add: Upgrade_one)
  next
    case False
    with lock_cas show ?thesis by (auto simp: Upgrade_one intro!: oinv_move)
  qed
next
  case (read_upgrade s t v g w restart)
  then have v: "\<not> isLocked v" "\<not> isObsolete v" by (auto simp: oinv_def)
  show ?case
  proof (cases "word s = v")
    case True
    with read_upgrade oinv_lock [OF read_upgrade.prems v True, of t] show ?thesis by (simp add: Upgrade_one)
  next
    case False
    with read_upgrade show ?thesis by (auto simp: Upgrade_one intro!: oinv_move)
  qed
qed (auto intro: oinv_move oinv_unlock)

lemma oreach_inv: "oreach s \<Longrightarrow> oinv s"
proof (induction rule: oreach.induct)
  case oreach_start
  have "\<not> isLocked 0" by (simp add: isLocked_def)
  then show ?case by (simp add: oinv_def ostart_def writers_def)
next
  case (oreach_step s s')
  then show ?case by (blast intro: ostep_inv)
qed

text \<open>Nothing changes the word of an obsolete lock: whoever could add to it holds it.\<close>

lemma obsolete_step:
  assumes "oreach s" and "isObsolete (word s)" and "ostep s s'"
  shows "word s' = word s"
proof -
  note inv = oreach_inv [OF assms(1), unfolded oinv_def]
  have w: "writers s = {}" using inv assms(2) by (auto split: if_splits)
  show ?thesis
    using assms(3) inv assms(2) w
    by (cases rule: ostepE) (auto simp: writers_def Upgrade_one RLock_one split: if_splits)
qed

text \<open>The count wraps around after \<open>2 ^ 64\<close>: an equal word means an equal count within that bound.\<close>

lemma of_nat_word_inj:
  assumes "(of_nat a :: 64 word) = of_nat b" and "a \<le> b" and "b - a < 2 ^ 64"
  shows "a = b"
proof -
  have "(of_nat (b - a) :: 64 word) = 0" using assms(1,2) by (simp add: of_nat_diff)
  then have "unat (of_nat (b - a) :: 64 word) = 0" by simp
  then have "b - a = 0" using assms(3) by (simp add: unat_of_nat take_bit_nat_eq_self)
  then show ?thesis using assms(2) by simp
qed

section \<open>The loops\<close>

lemma waitUnlocked_append: "\<forall>v \<in> set ls. isLocked v \<Longrightarrow> waitUnlocked (ls @ rest) = waitUnlocked rest"
  by (induction ls) (auto simp: isLocked_def)

lemma Lock_locked:
  assumes "\<forall>x \<in> set ls. isLocked x"
  shows "olock_Lock (ls @ rest) = olock_Lock rest"
  using assms by (subst (1 2) olock_Lock.simps) (simp add: olock_RLock_def waitUnlocked_append)

lemma Lock_obsolete: "isObsolete v \<Longrightarrow> olock_Lock (replicate n v) = None"
proof (induction n)
  case 0
  show ?case by (simp add: olock_Lock.simps olock_RLock_def)
next
  case (Suc n)
  show ?case
  proof (cases "isLocked v")
    case True
    then have "waitUnlocked (replicate (Suc n) v) = None"
      using waitUnlocked_append [of "replicate (Suc n) v" "[]"] by simp
    then show ?thesis by (simp add: olock_Lock.simps olock_RLock_def)
  next
    case False
    then have "olock_RLock (replicate (Suc n) v) = Some ((v, True), replicate n v)"
      using Suc.prems by (simp add: olock_RLock_def isLocked_def)
    with Suc show ?thesis by (simp add: olock_Lock.simps [of "replicate (Suc n) v"] del: replicate_Suc)
  qed
qed

section \<open>Properties\<close>

text \<open>
  A history of two threads: the first locks, unlocks, and reads; then the second locks and discards
  the object. The states after the read began and at the end are the examples below.
\<close>

definition sample_reading :: shared where
  "sample_reading = go_to (go_to ostart 0 (Waiting ForRead)) 0 (Reading 0 0)"

definition sample_locked :: shared where
  "sample_locked = go_to (store (go_to (go_to sample_reading 1 (Waiting ForLock)) 1 (Upgrading 0)) 2 2) 1 Writing"

definition sample_obsolete :: shared where
  "sample_obsolete = go_to (store sample_locked 5 3) 1 Idle"

lemma sample_reading_reach: "oreach sample_reading"
proof -
  let ?s = "go_to ostart 0 (Waiting ForRead)"
  have "oreach ?s" by (rule oreach_step [OF oreach_start begin_read]) (simp add: ostart_def)
  moreover have "olock_RLock [word ?s] = Some ((0, False), [])"
    by (simp add: RLock_one ostart_def isLocked_def isObsolete_def)
  then have "ostep ?s (go_to ?s 0 (if False then Idle else Reading 0 (added ?s)))" by (intro read_load) simp_all
  ultimately show ?thesis using oreach_step by (fastforce simp: sample_reading_def ostart_def)
qed

lemma sample_locked_reach: "oreach sample_locked"
proof -
  let ?s = "go_to sample_reading 1 (Waiting ForLock)"
  let ?u = "go_to ?s 1 (Upgrading 0)"
  have w: "word sample_reading = 0" "pcs sample_reading 1 = Idle" by (simp_all add: sample_reading_def ostart_def)
  have "oreach ?s" by (rule oreach_step [OF sample_reading_reach begin_lock]) (rule w)
  moreover have "olock_RLock [word ?s] = Some ((0, False), [])" by (simp add: RLock_one w isLocked_def isObsolete_def)
  then have "ostep ?s (go_to ?s 1 (if False then Waiting ForLock else Upgrading 0))" by (intro lock_load) simp_all
  ultimately have "oreach ?u" using oreach_step by fastforce
  moreover have "olock_Upgrade (word ?u) 0 None = (2, None, False)" by (simp add: Upgrade_one w setLockedBit_def)
  then have "ostep ?u (if False then go_to ?u 1 (Waiting ForLock) else go_to (store ?u 2 2) 1 Writing)"
    by (intro lock_cas) simp_all
  ultimately show ?thesis using oreach_step by (fastforce simp: sample_locked_def)
qed

lemma sample_obsolete_reach: "oreach sample_obsolete"
proof -
  have w: "word sample_locked = 2" "pcs sample_locked 1 = Writing" by (simp_all add: sample_locked_def)
  then have "olock_UnlockObsolete (word sample_locked) = 5" by (simp add: olock_UnlockObsolete_def)
  then have "ostep sample_locked (go_to (store sample_locked 5 3) 1 Idle)"
    using unlock_obsolete [OF w(2)] by simp
  then show ?thesis using oreach_step [OF sample_locked_reach] by (simp add: sample_obsolete_def)
qed

text \<open>
  C13. Mutual exclusion: in every reachable state of any number of threads at most one thread holds the
  write lock, the lock bit is set exactly when one does, and while it is held the lock is not obsolete.
\<close>

theorem olock_excludes:
  assumes "oreach s"
  shows "(isLocked (word s) \<longleftrightarrow> (\<exists>t. pcs s t = Writing)) \<and>
    (pcs s t = Writing \<longrightarrow> pcs s u = Writing \<longrightarrow> t = u) \<and>
    (pcs s t = Writing \<longrightarrow> \<not> isObsolete (word s))"
proof -
  note inv = oreach_inv [OF assms, unfolded oinv_def]
  show ?thesis
  proof (cases "isLocked (word s)")
    case True
    then obtain x where "writers s = {x}" "\<not> isObsolete (word s)" using inv by auto
    then show ?thesis using True by (auto simp: writers_def set_eq_iff)
  next
    case False
    then have "writers s = {}" using inv by simp
    then show ?thesis using False by (auto simp: writers_def)
  qed
qed

theorem olock_excludes_witness:
  "isLocked (word sample_locked) \<and> pcs sample_locked 0 \<noteq> Writing"
proof -
  have "pcs sample_locked 1 = Writing" by (simp add: sample_locked_def)
  then show ?thesis using olock_excludes [OF sample_locked_reach, of 0 1] by auto
qed

text \<open>
  C14. An optimistic read is valid: when \<open>RUnlock\<close> does not report a change, no writer has locked or
  unlocked since the version was read, as long as fewer than \<open>2 ^ 64\<close> has been added to the word.
\<close>

theorem read_valid:
  assumes "oreach s" and "pcs s t = Reading v g" and "added s - g < 2 ^ 64"
    and "olock_RUnlock (word s) v locked = (locked', False)"
  shows "added s = g \<and> writers s = {}"
proof -
  have i: "v = of_nat g" "g \<le> added s" "word s = of_nat (added s)" "\<not> isLocked v"
    using oreach_inv [OF assms(1)] assms(2) by (auto simp: oinv_def)
  moreover have w: "word s = v" using assms(4) by (auto simp: olock_RUnlock_def split: if_splits)
  moreover have "writers s = {}" using i(4) w oreach_inv [OF assms(1)] by (simp add: oinv_def)
  ultimately show ?thesis using of_nat_word_inj [of g "added s"] assms(3) by simp
qed

theorem read_valid_witness: "added sample_reading = 0 \<and> writers sample_reading = {}"
  using read_valid [OF sample_reading_reach, of 0 0 0 None None]
  by (simp add: sample_reading_def ostart_def olock_RUnlock_def)

text \<open>
  A lock that is obsolete stays so: from then on no step of any thread changes its word, and no
  thread holds it.
\<close>

theorem obsolete_stays:
  assumes "oreach s" and "isObsolete (word s)" and "ostep\<^sup>*\<^sup>* s s'"
  shows "word s' = word s \<and> writers s' = {}"
proof -
  have "oreach s' \<and> word s' = word s" using assms(3)
  proof (induction rule: rtranclp_induct)
    case (step y z)
    then show ?case using obsolete_step [of y z] assms(2) oreach_step by auto
  qed (simp add: assms(1))
  moreover from this have "writers s' = {}" using oreach_inv [of s'] assms(2) by (auto simp: oinv_def split: if_splits)
  ultimately show ?thesis by simp
qed

text \<open>
  C16. \<open>Lock\<close> returns once its accesses see a word that is neither locked nor obsolete and that nobody
  changes between the load and the swap, and it adds the lock bit to that word; it never returns on
  a word that is obsolete, however long it runs.
\<close>

theorem lock_returns:
  assumes "\<forall>x \<in> set ls. isLocked x"
  shows "if isObsolete v then olock_Lock (ls @ replicate n v) = None
    else \<not> isLocked v \<longrightarrow> olock_Lock (ls @ v # v # rest) = Some (setLockedBit v, rest)"
proof (cases "isObsolete v")
  case False
  have "olock_Lock (ls @ v # v # rest) = Some (setLockedBit v, rest)" if "\<not> isLocked v"
  proof -
    have "olock_RLock (ls @ v # v # rest) = Some ((v, False), v # rest)"
      using assms False that by (simp add: olock_RLock_def waitUnlocked_append isLocked_def)
    then show ?thesis by (subst olock_Lock.simps) (simp add: olock_Upgrade_def)
  qed
  with False show ?thesis by simp
next
  case True
  then show ?thesis using Lock_obsolete [OF True, of n] Lock_locked [OF assms, of "replicate n v"] by simp
qed

theorem lock_returns_witness: "olock_Lock [2, 2, 4, 4] = Some (6, [])"
  using lock_returns [of "[2, 2]" 4 0 "[]"] by (simp add: isLocked_def isObsolete_def setLockedBit_def)

lemma lock_when_free:
  assumes "pcs s t = Waiting ForLock" and "\<not> isLocked (word s)" and "\<not> isObsolete (word s)"
  shows "\<exists>s'. ostep\<^sup>*\<^sup>* s s' \<and> pcs s' t = Writing"
proof -
  let ?u = "go_to s t (Upgrading (word s))"
  let ?w = "go_to (store ?u (setLockedBit (word s)) 2) t Writing"
  have "olock_RLock [word s] = Some ((word s, False), [])" using assms by (simp add: RLock_one)
  then have "ostep s (go_to s t (if False then Waiting ForLock else Upgrading (word s)))" using assms(1) by (intro lock_load)
  then have "ostep s ?u" by simp
  moreover have "olock_Upgrade (word ?u) (word s) None = (setLockedBit (word s), None, False)" by (simp add: Upgrade_one)
  then have "ostep ?u (if False then go_to ?u t (Waiting ForLock) else ?w)" by (intro lock_cas) simp_all
  then have "ostep ?u ?w" by simp
  ultimately have "ostep\<^sup>*\<^sup>* s ?w" by (meson converse_rtranclp_into_rtranclp rtranclp.rtrancl_refl)
  moreover have "pcs ?w t = Writing" by simp
  ultimately show ?thesis by blast
qed

text \<open>
  C15. No deadlock: from every reachable state in which the lock is not obsolete a thread that waits for
  the write lock can get it, after the steps of at most the thread that holds it and its own.
\<close>

theorem lock_reachable:
  assumes "oreach s" and "pcs s t = Waiting ForLock" and "\<not> isObsolete (word s)"
  shows "\<exists>s'. ostep\<^sup>*\<^sup>* s s' \<and> pcs s' t = Writing"
proof (cases "isLocked (word s)")
  case True
  note inv = oreach_inv [OF assms(1), unfolded oinv_def]
  obtain u where u: "writers s = {u}" using inv True by auto
  then have pu: "pcs s u = Writing" "u \<noteq> t" using assms(2) by (auto simp: writers_def set_eq_iff dest: spec [of _ t])
  let ?s = "go_to (store s (olock_Unlock (word s)) 2) u Idle"
  have "ostep s ?s" using pu(1) by (rule unlock)
  moreover have "\<exists>s'. ostep\<^sup>*\<^sup>* ?s s' \<and> pcs s' t = Writing"
    using unlock_bits [OF True assms(3)] pu(2) assms(2) by (intro lock_when_free) simp_all
  ultimately show ?thesis by (meson converse_rtranclp_into_rtranclp)
qed (use lock_when_free assms in blast)

theorem lock_reachable_witness:
  "\<exists>s. ostep\<^sup>*\<^sup>* (go_to sample_locked 0 (Waiting ForLock)) s \<and> pcs s 0 = Writing"
proof -
  let ?s = "go_to (go_to sample_locked 0 Idle) 0 (Waiting ForLock)"
  have p: "pcs sample_locked 0 = Reading 0 0" by (simp add: sample_locked_def sample_reading_def)
  have "oreach ?s"
    by (rule oreach_step [OF oreach_step [OF sample_locked_reach read_unlock] begin_lock]) (simp_all add: p)
  moreover have "\<not> isObsolete (word ?s)" by (simp add: sample_locked_def isObsolete_def)
  moreover have "?s = go_to sample_locked 0 (Waiting ForLock)" by (simp add: go_to_def)
  ultimately show ?thesis using lock_reachable [of ?s 0] by (simp only: shared_sel fun_upd_same simp_thms)
qed

end
