(* ===== verification/Mutex.thy ===== *)
theory Mutex
  imports Prelude
begin

unbundle bit_operations_syntax

text \<open>
  The mutex that the copies of the concurrent maps were written with (\<open>attic/isync/mutex.go\<close>): a word with the bits locked, woken
  and starving and the number of the waiters, and a semaphore of the runtime on which they sleep.

  The first half translates the code: \<open>mutex_Lock\<close>, \<open>mutex_TryLock\<close> and \<open>mutex_Unlock\<close> run from the call to its
  first atomic access, and \<open>advance\<close> runs one atomic access and the computation that follows, up to the next one. A \<open>goroutine\<close> is the
  place in the code with the local variables. Clock and spinning come from the runtime: what \<open>runtime_nanotime\<close> and
  \<open>runtime_canSpin\<close> return is an argument. The semaphore wakes any of those that sleep on it, whatever their order in its queue. The calls
  for the race detector are left out. The second half runs any number of goroutines.
\<close>

section \<open>The code\<close>

record mutex =
  mx_state :: "32 word"
  mx_sema :: nat

definition mutexLocked :: "32 word" where
  "mutexLocked = 1"

definition mutexWoken :: "32 word" where
  "mutexWoken = 2"

definition mutexStarving :: "32 word" where
  "mutexStarving = 4"

definition mutexWaiterShift :: nat where
  "mutexWaiterShift = 3"

definition starvationThresholdNs :: int where
  "starvationThresholdNs = 1000000"

text \<open>\<open>old >> mutexWaiterShift\<close> on a signed word, and \<open>1 << mutexWaiterShift\<close>.\<close>

definition waiters_in :: "32 word \<Rightarrow> int" where
  "waiters_in old = drop_bit mutexWaiterShift (sint old)"

definition one_waiter :: "32 word" where
  "one_waiter = push_bit mutexWaiterShift 1"

text \<open>The local variables of \<open>lockSlow\<close>.\<close>

record lock_vars =
  waitStartTime :: int
  starving :: bool
  awoke :: bool
  iter :: int
  old :: "32 word"

text \<open>
  Where a goroutine is: outside, before an atomic access, holding the mutex, or stopped by \<open>throw\<close> or \<open>fatal\<close>. The flag
  of \<open>Acquire\<close> is \<open>queueLifo\<close>, the one of \<open>Release\<close> is \<open>handoff\<close>; \<open>Acquired\<close> is after the sleep.
\<close>

datatype goroutine =
    Idle
  | TryCAS "32 word"
  | SlowLoad
  | SpinCAS lock_vars
  | SpinLoad lock_vars
  | LockCAS lock_vars "32 word"
  | Reload lock_vars
  | Acquire lock_vars bool
  | Acquired lock_vars
  | Handoff "32 word"
  | Holding
  | UnlockCAS "32 word" "32 word"
  | UnlockLoad
  | Release bool
  | Thrown string

text \<open>The new word that \<open>lockSlow\<close> tries to write.\<close>

definition lock_new :: "lock_vars \<Rightarrow> string + 32 word" where
  "lock_new lv = (let o1 = old lv;
       n1 = (if o1 AND mutexStarving = 0 then o1 OR mutexLocked else o1);
       n2 = (if o1 AND (mutexLocked OR mutexStarving) \<noteq> 0 then n1 + one_waiter else n1);
       n3 = (if starving lv \<and> o1 AND mutexLocked \<noteq> 0 then n2 OR mutexStarving else n2)
     in if awoke lv then
          if n3 AND mutexWoken = 0 then Inl ''sync: inconsistent mutex state'' else Inr (n3 AND NOT mutexWoken)
        else Inr n3)"

text \<open>The round of the loop after a load of the word.\<close>

definition lock_round :: "bool \<Rightarrow> lock_vars \<Rightarrow> goroutine" where
  "lock_round canSpin lv =
     (if old lv AND (mutexLocked OR mutexStarving) = mutexLocked \<and> canSpin then
        if \<not> awoke lv \<and> old lv AND mutexWoken = 0 \<and> waiters_in (old lv) \<noteq> 0 then SpinCAS lv else SpinLoad lv
      else case lock_new lv of Inl e \<Rightarrow> Thrown e | Inr new \<Rightarrow> LockCAS lv new)"

text \<open>The code after the sleep, with the word just loaded.\<close>

definition after_sleep :: "bool \<Rightarrow> lock_vars \<Rightarrow> goroutine" where
  "after_sleep canSpin lv =
     (if old lv AND mutexStarving \<noteq> 0 then
        if old lv AND (mutexLocked OR mutexWoken) \<noteq> 0 \<or> waiters_in (old lv) = 0 then Thrown ''sync: inconsistent mutex state''
        else let delta = mutexLocked - one_waiter
          in Handoff (if \<not> starving lv \<or> waiters_in (old lv) = 1 then delta - mutexStarving else delta)
      else lock_round canSpin (lv\<lparr>awoke := True, iter := 0\<rparr>))"

definition unlock_round :: "32 word \<Rightarrow> goroutine" where
  "unlock_round seen =
     (if waiters_in seen = 0 \<or> seen AND (mutexLocked OR mutexWoken OR mutexStarving) \<noteq> 0 then Idle
      else UnlockCAS seen ((seen - one_waiter) OR mutexWoken))"

definition unlockSlow :: "32 word \<Rightarrow> goroutine" where
  "unlockSlow new =
     (if (new + mutexLocked) AND mutexLocked = 0 then Thrown ''sync: unlock of unlocked mutex''
      else if new AND mutexStarving = 0 then unlock_round new else Release True)"

definition mutex_Lock :: "mutex \<Rightarrow> mutex \<times> goroutine" where
  "mutex_Lock m = (if mx_state m = 0 then (m\<lparr>mx_state := mutexLocked\<rparr>, Holding) else (m, SlowLoad))"

definition mutex_TryLock :: "mutex \<Rightarrow> mutex \<times> goroutine" where
  "mutex_TryLock m = (let seen = mx_state m in
     if seen AND (mutexLocked OR mutexStarving) \<noteq> 0 then (m, Idle) else (m, TryCAS seen))"

definition mutex_Unlock :: "mutex \<Rightarrow> mutex \<times> goroutine" where
  "mutex_Unlock m = (let new = mx_state m - mutexLocked in
     (m\<lparr>mx_state := new\<rparr>, if new \<noteq> 0 then unlockSlow new else Idle))"

text \<open>One atomic access and what follows it; \<open>None\<close> for a goroutine that has no access to make, or that sleeps.\<close>

fun advance :: "bool \<Rightarrow> int \<Rightarrow> mutex \<Rightarrow> goroutine \<Rightarrow> (mutex \<times> goroutine) option" where
  "advance canSpin now m (TryCAS seen) =
     Some (if mx_state m = seen then (m\<lparr>mx_state := seen OR mutexLocked\<rparr>, Holding) else (m, Idle))"
| "advance canSpin now m SlowLoad =
     Some (m, lock_round canSpin \<lparr>waitStartTime = 0, starving = False, awoke = False, iter = 0, old = mx_state m\<rparr>)"
| "advance canSpin now m (SpinCAS lv) =
     Some (if mx_state m = old lv then (m\<lparr>mx_state := old lv OR mutexWoken\<rparr>, SpinLoad (lv\<lparr>awoke := True\<rparr>)) else (m, SpinLoad lv))"
| "advance canSpin now m (SpinLoad lv) = Some (m, lock_round canSpin (lv\<lparr>iter := iter lv + 1, old := mx_state m\<rparr>))"
| "advance canSpin now m (LockCAS lv new) =
     Some (if mx_state m = old lv then
         (m\<lparr>mx_state := new\<rparr>,
          if old lv AND (mutexLocked OR mutexStarving) = 0 then Holding
          else Acquire (lv\<lparr>waitStartTime := if waitStartTime lv = 0 then now else waitStartTime lv\<rparr>) (waitStartTime lv \<noteq> 0))
       else (m, Reload lv))"
| "advance canSpin now m (Reload lv) = Some (m, lock_round canSpin (lv\<lparr>old := mx_state m\<rparr>))"
| "advance canSpin now m (Acquire lv queueLifo) =
     (if mx_sema m > 0 then Some (m\<lparr>mx_sema := mx_sema m - 1\<rparr>, Acquired lv) else None)"
| "advance canSpin now m (Acquired lv) =
     Some (m, after_sleep canSpin (lv\<lparr>starving := starving lv \<or> now - waitStartTime lv > starvationThresholdNs, old := mx_state m\<rparr>))"
| "advance canSpin now m (Handoff delta) = Some (m\<lparr>mx_state := mx_state m + delta\<rparr>, Holding)"
| "advance canSpin now m (UnlockCAS seen new) =
     Some (if mx_state m = seen then (m\<lparr>mx_state := new\<rparr>, Release False) else (m, UnlockLoad))"
| "advance canSpin now m UnlockLoad = Some (m, unlock_round (mx_state m))"
| "advance canSpin now m (Release handoff) = Some (m\<lparr>mx_sema := mx_sema m + 1\<rparr>, Idle)"
| "advance canSpin now m g = None"

section \<open>Goroutines\<close>

text \<open>Any goroutine that is idle may call \<open>Lock\<close> or \<open>TryLock\<close>; the one that holds the mutex may call \<open>Unlock\<close>.\<close>

definition new_mutex :: "nat \<Rightarrow> mutex \<times> goroutine list" where
  "new_mutex N = (\<lparr>mx_state = 0, mx_sema = 0\<rparr>, replicate N Idle)"

inductive mx_step :: "mutex \<times> goroutine list \<Rightarrow> mutex \<times> goroutine list \<Rightarrow> bool" where
  lock: "i < length gs \<Longrightarrow> gs ! i = Idle \<Longrightarrow> mutex_Lock m = (m', g) \<Longrightarrow> mx_step (m, gs) (m', gs[i := g])"
| try_lock: "i < length gs \<Longrightarrow> gs ! i = Idle \<Longrightarrow> mutex_TryLock m = (m', g) \<Longrightarrow> mx_step (m, gs) (m', gs[i := g])"
| unlock: "i < length gs \<Longrightarrow> gs ! i = Holding \<Longrightarrow> mutex_Unlock m = (m', g) \<Longrightarrow> mx_step (m, gs) (m', gs[i := g])"
| access: "i < length gs \<Longrightarrow> advance canSpin now m (gs ! i) = Some (m', g) \<Longrightarrow> mx_step (m, gs) (m', gs[i := g])"

inductive mx_reach :: "nat \<Rightarrow> mutex \<times> goroutine list \<Rightarrow> bool" for N where
  start: "mx_reach N (new_mutex N)"
| next_access: "mx_reach N w \<Longrightarrow> mx_step w w' \<Longrightarrow> mx_reach N w'"

inductive_cases mx_stepE: "mx_step (m, gs) p"

text \<open>A schedule: which goroutine moves, and how. It runs the step relation on examples.\<close>

datatype mx_move = MoveLock nat | MoveTryLock nat | MoveUnlock nat | MoveAccess nat bool int

fun mx_exec :: "mutex \<times> goroutine list \<Rightarrow> mx_move \<Rightarrow> (mutex \<times> goroutine list) option" where
  "mx_exec (m, gs) (MoveLock i) = (if i < length gs \<and> gs ! i = Idle then case mutex_Lock m of (m', g) \<Rightarrow> Some (m', gs[i := g]) else None)"
| "mx_exec (m, gs) (MoveTryLock i) = (if i < length gs \<and> gs ! i = Idle then case mutex_TryLock m of (m', g) \<Rightarrow> Some (m', gs[i := g]) else None)"
| "mx_exec (m, gs) (MoveUnlock i) = (if i < length gs \<and> gs ! i = Holding then case mutex_Unlock m of (m', g) \<Rightarrow> Some (m', gs[i := g]) else None)"
| "mx_exec (m, gs) (MoveAccess i canSpin now) =
     (if i < length gs then map_option (\<lambda>(m', g). (m', gs[i := g])) (advance canSpin now m (gs ! i)) else None)"

fun mx_run :: "mutex \<times> goroutine list \<Rightarrow> mx_move list \<Rightarrow> (mutex \<times> goroutine list) option" where
  "mx_run p [] = Some p"
| "mx_run p (a # as) = (case mx_exec p a of None \<Rightarrow> None | Some p' \<Rightarrow> mx_run p' as)"

lemma mx_exec_step: "mx_exec p a = Some p' \<Longrightarrow> mx_step p p'"
  by (cases p; cases a) (auto split: if_splits prod.splits intro: mx_step.intros)

lemma mx_run_reach: "mx_run p as = Some p' \<Longrightarrow> mx_reach N p \<Longrightarrow> mx_reach N p'"
  by (induction p as rule: mx_run.induct) (auto split: option.splits intro: next_access mx_exec_step)

end
