(* ===== verification/MutexCorrect.thy ===== *)
theory MutexCorrect
  imports Mutex
begin

unbundle bit_operations_syntax

text \<open>
  The mutex of \<open>attic/isync/mutex.go\<close> excludes, wakes its waiters and hands over in the starvation mode: the bits and the count in its word, the
  invariant that says what each of them stands for, and the properties.
\<close>

section \<open>The word\<close>

definition mx_bits :: "bool \<Rightarrow> bool \<Rightarrow> bool \<Rightarrow> nat" where
  "mx_bits l w s = of_bool l + 2 * of_bool w + 4 * of_bool s"

definition mx_word :: "bool \<Rightarrow> bool \<Rightarrow> bool \<Rightarrow> nat \<Rightarrow> 32 word" where
  "mx_word l w s n = of_nat (8 * n + mx_bits l w s)"

lemma take_low: "c < 8 \<Longrightarrow> take_bit 3 (8 * n + c) = c" "c < 8 \<Longrightarrow> drop_bit 3 (8 * n + c) = n" for n c :: nat
  by (simp_all add: take_bit_eq_mod drop_bit_eq_div)

lemma low_and: "(8 * n + c) AND m = c AND m" if "m < 8" "c < 8" for n c m :: nat
proof -
  have m: "take_bit 3 m = m" using that by (simp add: take_bit_eq_mod)
  have "take_bit 3 ((8 * n + c) AND m) = c AND m" using that by (simp add: take_low m)
  moreover have "take_bit 3 ((8 * n + c) AND m) = (8 * n + c) AND m"
    using m by (metis take_bit_nat_eq_self_iff AND_upper2 and_nat_def le_less_trans nat_le_iff of_nat_0_le_iff take_bit_nat_less_exp and_less_eq and.commute)
  ultimately show ?thesis by simp
qed

lemma low_or: "(8 * n + c) OR m = 8 * n + (c OR m)" if "m < 8" "c < 8" for n c m :: nat
proof -
  have m: "take_bit 3 m = m" "take_bit 3 c = c" using that by (simp_all add: take_bit_eq_mod)
  have "(8 * n + c) OR m = push_bit 3 (drop_bit 3 ((8 * n + c) OR m)) + take_bit 3 ((8 * n + c) OR m)" by (metis bits_ident)
  also have "\<dots> = 8 * n + (c OR m)"
    unfolding drop_bit_or take_bit_or take_low [OF that(2)] m by (simp add: push_bit_eq_mult drop_bit_eq_div that)
  finally show ?thesis .
qed

lemma mx_bits_less [simp]: "mx_bits l w s < 8"
  by (simp add: mx_bits_def of_bool_def)

lemma mx_word_and: "m < 8 \<Longrightarrow> mx_word l w s n AND of_nat m = of_nat (mx_bits l w s AND m)"
  by (simp only: mx_word_def of_nat_and_eq [symmetric] low_and mx_bits_less)

lemma mx_word_or: "m < 8 \<Longrightarrow> mx_word l w s n OR of_nat m = of_nat (8 * n + (mx_bits l w s OR m))"
  by (simp only: mx_word_def of_nat_or_eq [symmetric] low_or mx_bits_less)

lemma mx_word_range: "8 * n + mx_bits l w s < 2 ^ 31" if "n < 2 ^ 28"
proof -
  have "n < 268435456" "mx_bits l w s < 8" using that by simp_all
  then have "8 * n + mx_bits l w s < 2147483648" by linarith
  then show ?thesis by simp
qed

lemma mx_bits_simps [simp]:
  "mx_bits False False False = 0" "mx_bits True False False = 1" "mx_bits False True False = 2" "mx_bits True True False = 3"
  "mx_bits False False True = 4" "mx_bits True False True = 5" "mx_bits False True True = 6" "mx_bits True True True = 7"
  by (simp_all add: mx_bits_def)

lemma mx_bits_masks:
  "mx_bits l w s AND 1 = of_bool l" "mx_bits l w s AND 2 = 2 * of_bool w" "mx_bits l w s AND 3 = of_bool l + 2 * of_bool w"
  "mx_bits l w s AND 4 = 4 * of_bool s" "mx_bits l w s AND 5 = of_bool l + 4 * of_bool s" "mx_bits l w s AND 7 = mx_bits l w s"
  "mx_bits l w s OR 1 = mx_bits True w s" "mx_bits l w s OR 2 = mx_bits l True s" "mx_bits l w s OR 4 = mx_bits l w True"
  by (cases l; cases w; cases s; simp)+

lemma mx_word_mask: "mx_bits l w s AND m = k \<Longrightarrow> m < 8 \<Longrightarrow> mx_word l w s n AND of_nat m = of_nat k"
  by (simp only: mx_word_and)

lemma mx_word_masks:
  "mx_word l w s n AND 1 = of_bool l" "mx_word l w s n AND 2 = 2 * of_bool w" "mx_word l w s n AND 3 = of_bool l + 2 * of_bool w"
  "mx_word l w s n AND 4 = 4 * of_bool s" "mx_word l w s n AND 5 = of_bool l + 4 * of_bool s"
  "mx_word l w s n AND 7 = of_nat (mx_bits l w s)"
  using mx_bits_masks(1-6) [of l w s, THEN mx_word_mask, where n = n] by simp_all

lemma mx_word_set: "mx_bits l w s OR m = mx_bits l' w' s' \<Longrightarrow> m < 8 \<Longrightarrow> mx_word l w s n OR of_nat m = mx_word l' w' s' n"
  by (subst mx_word_or, assumption) (simp add: mx_word_def)

lemma mx_word_sets:
  "mx_word l w s n OR 1 = mx_word True w s n" "mx_word l w s n OR 2 = mx_word l True s n" "mx_word l w s n OR 4 = mx_word l w True n"
  using mx_bits_masks(7-9) [of l w s, THEN mx_word_set, where n = n] by simp_all

lemma mx_word_clear: "mx_word l w s n AND NOT 2 = mx_word l False s n"
proof -
  have "(y OR z) AND NOT 2 = y" if "y AND 2 = 0" "z AND NOT 2 = 0" for y z :: "32 word"
    using that by (metis (no_types) bit.conj_disj_distrib2 bit.de_Morgan_conj bit.disj_zero_right bit.double_compl and.commute bit.conj_cancel_right or.commute bit.disj_conj_distrib and.right_idem and.right_neutral)
  from this [of "mx_word l False s n" "2 * of_bool w"] show ?thesis
    using mx_word_masks(2) [of l False s n] mx_word_sets(2) [of l False s n] by (cases w) simp_all
qed

lemma mx_word_add: "mx_word l w s n + 8 = mx_word l w s (Suc n)" "mx_word l w s (Suc n) - 8 = mx_word l w s n"
  by (simp_all add: mx_word_def)

lemma mx_word_unlock: "mx_word True w s n - 1 = mx_word False w s n"
  by (cases w; cases s) (simp_all add: mx_word_def)

lemma mx_word_inject: "mx_word l w s n = mx_word l' w' s' n' \<longleftrightarrow> l = l' \<and> w = w' \<and> s = s' \<and> n = n'"
  if "n < 2 ^ 28" "n' < 2 ^ 28"
proof
  have u: "unat (mx_word l w s n) = 8 * n + mx_bits l w s" if "n < 2 ^ 28" for l w s n
    unfolding mx_word_def by (rule of_nat_inverse [OF refl]) (use mx_word_range [OF that, of l w s] in simp)
  assume "mx_word l w s n = mx_word l' w' s' n'"
  then have "8 * n + mx_bits l w s = 8 * n' + mx_bits l' w' s'" using u that by metis
  moreover from this have "n = n'" using mx_bits_less [of l w s] mx_bits_less [of l' w' s'] by linarith
  ultimately have "n = n'" "mx_bits l w s = mx_bits l' w' s'" by simp_all
  then show "l = l' \<and> w = w' \<and> s = s' \<and> n = n'" by (cases l; cases w; cases s; cases l'; cases w'; cases s') simp_all
qed simp

lemma mx_word_waiters: "waiters_in (mx_word l w s n) = int n" if "n < 2 ^ 28"
proof -
  have "sint (mx_word l w s n) = int (8 * n + mx_bits l w s)" unfolding mx_word_def signed_of_nat
    using mx_word_range [OF that, of l w s] by (simp add: signed_take_bit_int_eq_self)
  then show ?thesis using mx_bits_less [of l w s] by (simp add: waiters_in_def mutexWaiterShift_def drop_bit_eq_div)
qed

lemma mx_word_zero: "n < 2 ^ 28 \<Longrightarrow> mx_word l w s n = 0 \<longleftrightarrow> \<not> l \<and> \<not> w \<and> \<not> s \<and> n = 0"
  using mx_word_inject [of n 0 l w s False False False] by (simp add: mx_word_def)

lemma mx_word_handoff: "mx_word False w s (Suc n) + (1 - 8) = mx_word True w s n" "mx_word False w True (Suc n) + (1 - 8 - 4) = mx_word True w False n"
  by (cases w; cases s; simp add: mx_word_def)+

lemmas mutex_consts = mutexLocked_def mutexWoken_def mutexStarving_def one_waiter_def mutexWaiterShift_def

lemma or_masks: "(1 :: 32 word) OR 4 = 5" "(1 :: 32 word) OR 2 = 3" "(1 :: 32 word) OR 2 OR 4 = 7" "push_bit 3 1 = (8 :: 32 word)"
  by (simp_all add: push_bit_eq_mult)

lemma lock_new_word:
  "old lv = mx_word l w s n \<Longrightarrow> lock_new lv =
     (if awoke lv \<and> \<not> w then Inl ''sync: inconsistent mutex state''
      else Inr (mx_word (l \<or> \<not> s) (w \<and> \<not> awoke lv) (s \<or> starving lv \<and> l) (if l \<or> s then Suc n else n)))"
  by (cases l; cases w; cases s)
    (simp_all add: lock_new_def Let_def mutex_consts or_masks mx_word_masks mx_word_sets mx_word_add mx_word_clear [simplified])

lemma lock_round_word:
  "old lv = mx_word l w s n \<Longrightarrow> n < 2 ^ 28 \<Longrightarrow> lock_round canSpin lv =
     (if l \<and> \<not> s \<and> canSpin then (if \<not> awoke lv \<and> \<not> w \<and> n \<noteq> 0 then SpinCAS lv else SpinLoad lv)
      else if awoke lv \<and> \<not> w then Thrown ''sync: inconsistent mutex state''
      else LockCAS lv (mx_word (l \<or> \<not> s) (w \<and> \<not> awoke lv) (s \<or> starving lv \<and> l) (if l \<or> s then Suc n else n)))"
  by (cases l; cases w; cases s)
    (simp_all add: lock_round_def lock_new_word mutex_consts or_masks mx_word_masks mx_word_waiters)

lemma unlock_round_word:
  "n < 2 ^ 28 \<Longrightarrow> unlock_round (mx_word l w s n) =
     (if n = 0 \<or> l \<or> w \<or> s then Idle else UnlockCAS (mx_word l w s n) (mx_word False True False (n - 1)))"
  by (cases l; cases w; cases s; cases n)
    (simp_all add: unlock_round_def mutex_consts or_masks mx_word_masks mx_word_waiters mx_word_sets mx_word_add)

lemma after_sleep_word:
  "old lv = mx_word l w s n \<Longrightarrow> n < 2 ^ 28 \<Longrightarrow> s \<Longrightarrow> \<not> l \<Longrightarrow> \<not> w \<Longrightarrow> n \<noteq> 0 \<Longrightarrow>
   after_sleep canSpin lv = Handoff (if \<not> starving lv \<or> n = 1 then 1 - 8 - 4 else 1 - 8)"
  by (simp add: after_sleep_def mutex_consts or_masks mx_word_masks mx_word_waiters)

section \<open>The invariant\<close>

definition tally :: "(goroutine \<Rightarrow> bool) \<Rightarrow> goroutine list \<Rightarrow> nat" where
  "tally P gs = length (filter P gs)"

lemma tally_update:
  assumes "i < length gs"
  shows "tally P (gs[i := g]) + of_bool (P (gs ! i)) = tally P gs + of_bool (P g)"
proof -
  have "tally P gs = tally P (take i gs @ gs ! i # drop (Suc i) gs)" using id_take_nth_drop [OF assms] by simp
  then show ?thesis using assms by (simp add: tally_def upd_conv_take_nth_drop)
qed

lemma tally_zero: "tally P gs = 0 \<longleftrightarrow> (\<forall>g \<in> set gs. \<not> P g)"
  by (simp add: tally_def filter_empty_conv)

lemma tally_sum: "(\<And>g. \<not> (P g \<and> Q g)) \<Longrightarrow> tally P gs + tally Q gs \<le> length gs"
  unfolding tally_def by (induction gs) (auto simp: le_Suc_eq)

text \<open>
  What is known of a goroutine at its place: the new word it holds follows from the word it saw, it starves only after it was woken, and
  who hands the mutex on without leaving the starvation mode leaves a waiter behind.
\<close>

fun place_ok :: "nat \<Rightarrow> goroutine \<Rightarrow> bool" where
  "place_ok n (TryCAS seen) \<longleftrightarrow> seen AND 5 = 0"
| "place_ok n (SpinCAS lv) \<longleftrightarrow> \<not> awoke lv \<and> \<not> starving lv \<and> (\<exists>k. k < 2 ^ 28 \<and> old lv = mx_word True False False k)"
| "place_ok n (SpinLoad lv) \<longleftrightarrow> (starving lv \<longrightarrow> awoke lv)"
| "place_ok n (LockCAS lv new) \<longleftrightarrow> (starving lv \<longrightarrow> awoke lv) \<and> lock_new lv = Inr new"
| "place_ok n (Reload lv) \<longleftrightarrow> (starving lv \<longrightarrow> awoke lv)"
| "place_ok n (Handoff delta) \<longleftrightarrow> delta = 1 - 8 - 4 \<or> delta = 1 - 8 \<and> 2 \<le> n"
| "place_ok n (UnlockCAS seen new) \<longleftrightarrow> unlock_round seen = UnlockCAS seen new"
| "place_ok n (Thrown e) \<longleftrightarrow> False"
| "place_ok n g \<longleftrightarrow> True"

fun awake :: "goroutine \<Rightarrow> bool" where
  "awake (SpinCAS lv) = awoke lv"
| "awake (SpinLoad lv) = awoke lv"
| "awake (LockCAS lv new) = awoke lv"
| "awake (Reload lv) = awoke lv"
| "awake g = False"

fun asleep :: "goroutine \<Rightarrow> bool" where
  "asleep (Acquire lv lifo) = True"
| "asleep g = False"

fun roused :: "goroutine \<Rightarrow> bool" where
  "roused (Acquired lv) = True"
| "roused g = False"

fun handed :: "goroutine \<Rightarrow> bool" where
  "handed (Handoff delta) = True"
| "handed g = False"

fun leaving :: "goroutine \<Rightarrow> bool" where
  "leaving (UnlockCAS seen new) = True"
| "leaving UnlockLoad = True"
| "leaving g = False"

text \<open>
  The bits of the word say what goes on. In the normal mode the bit woken stands for one that was or is being woken, or that spins; in the
  starvation mode a mutex without the bit locked is on its way to a waiter. The waiters are those that sleep, less the one being woken.
\<close>

definition mx_counts :: "bool \<Rightarrow> bool \<Rightarrow> bool \<Rightarrow> nat \<Rightarrow> nat \<Rightarrow> goroutine list \<Rightarrow> bool" where
  "mx_counts l w s n sema gs \<longleftrightarrow>
     tally (\<lambda>g. g = Holding) gs = of_bool l \<and>
     (if s then \<not> w \<and> 0 < n \<and> tally awake gs + tally (\<lambda>g. g = Release False) gs = 0 \<and>
        sema + tally roused gs + tally (\<lambda>g. g = Release True) gs + tally handed gs = of_bool (\<not> l) \<and>
        n = tally asleep gs + tally roused gs + tally handed gs
      else tally (\<lambda>g. g = Release True) gs + tally handed gs = 0 \<and>
        sema + tally roused gs + tally (\<lambda>g. g = Release False) gs + tally awake gs = of_bool w \<and>
        tally asleep gs = n + sema + tally (\<lambda>g. g = Release False) gs) \<and>
     (l \<or> w \<or> s \<or> n = 0 \<or> 0 < tally leaving gs)"

definition mx_inv :: "mutex \<times> goroutine list \<Rightarrow> bool" where
  "mx_inv p \<longleftrightarrow> (case p of (m, gs) \<Rightarrow> \<exists>l w s n. mx_state m = mx_word l w s n \<and> mx_counts l w s n (mx_sema m) gs \<and>
     (\<forall>g \<in> set gs. place_ok n g))"

lemma tally_le: "tally P gs \<le> length gs"
  by (simp add: tally_def)

lemma mx_counts_bound: "n \<le> length gs" if "mx_counts l w s n sema gs"
proof -
  have "tally asleep gs + tally roused gs + tally handed gs \<le> length gs" unfolding tally_def
  proof (induction gs)
    case (Cons g gs)
    then show ?case by (cases g) simp_all
  qed simp
  then show ?thesis using that by (auto simp: mx_counts_def split: if_splits)
qed

text \<open>A step of one goroutine.\<close>

lemma mx_inv_step:
  assumes "i < length gs" "mx_counts l w s n sema gs" "\<forall>g \<in> set gs. place_ok n g" "length gs < 2 ^ 28"
    and "place_ok n' g" "mx_state m' = mx_word l' w' s' n'" "n \<le> n' \<or> (\<forall>j < length gs. j = i \<or> \<not> handed (gs ! j))"
    and "mx_counts l w s n sema gs \<Longrightarrow> mx_counts l' w' s' n' (mx_sema m') (gs[i := g])"
  shows "mx_inv (m', gs[i := g])"
proof -
  have "place_ok n' (gs[i := g] ! j)" if "j < length gs" for j
  proof (cases "j = i")
    case False
    have ok: "place_ok n (gs ! j)" using assms(3) that by simp
    have "n \<le> n' \<or> \<not> handed (gs ! j)" using assms(7) that False by blast
    then have "place_ok n' (gs ! j)" using ok by (cases "gs ! j") auto
    then show ?thesis using False by simp
  qed (use assms in simp)
  then show ?thesis using assms(2,6,8) unfolding mx_inv_def by (auto simp: all_set_conv_all_nth)
qed

lemma tally_move:
  "i < length gs \<Longrightarrow> tally P (gs[i := g]) = (if P (gs ! i) = P g then tally P gs else if P g then Suc (tally P gs) else tally P gs - 1)"
  "i < length gs \<Longrightarrow> P (gs ! i) \<Longrightarrow> 0 < tally P gs"
  using tally_update [of i gs P g] tally_zero [of P gs] by (auto split: if_splits)

lemma mx_tokens:
  assumes "i < length gs" "mx_counts l w s n sema gs"
  shows "awake (gs ! i) \<Longrightarrow> w \<and> \<not> s \<and> tally awake gs = 1" "gs ! i = Holding \<Longrightarrow> l \<and> tally (\<lambda>g. g = Holding) gs = 1"
    "roused (gs ! i) \<Longrightarrow> tally roused gs = 1 \<and> sema = 0 \<and> (if s then \<not> l \<and> \<not> w \<and> 0 < n else w)"
    "handed (gs ! i) \<Longrightarrow> tally handed gs = 1 \<and> sema = 0 \<and> tally roused gs = 0 \<and> s \<and> \<not> l \<and> \<not> w \<and> 0 < n"
proof -
  note t = tally_move(2) [OF assms(1)]
  show "awake (gs ! i) \<Longrightarrow> w \<and> \<not> s \<and> tally awake gs = 1"
    using t [of awake] assms(2) by (cases s; cases w) (simp_all add: mx_counts_def)
  show "gs ! i = Holding \<Longrightarrow> l \<and> tally (\<lambda>g. g = Holding) gs = 1"
    using t [of "\<lambda>g. g = Holding"] assms(2) by (cases l) (simp_all add: mx_counts_def)
  show "roused (gs ! i) \<Longrightarrow> tally roused gs = 1 \<and> sema = 0 \<and> (if s then \<not> l \<and> \<not> w \<and> 0 < n else w)"
    using t [of roused] assms(2) by (cases s; cases w; cases l) (simp_all add: mx_counts_def)
  show "handed (gs ! i) \<Longrightarrow> tally handed gs = 1 \<and> sema = 0 \<and> tally roused gs = 0 \<and> s \<and> \<not> l \<and> \<not> w \<and> 0 < n"
    using t [of handed] assms(2) by (cases s; cases w; cases l) (simp_all add: mx_counts_def)
qed

lemma mx_counts_place:
  assumes "i < length gs" "awake g = awake g'" "asleep g = asleep g'" "roused g = roused g'" "handed g = handed g'"
    "leaving g = leaving g'" "g = Holding \<longleftrightarrow> g' = Holding" "g = Release False \<longleftrightarrow> g' = Release False" "g = Release True \<longleftrightarrow> g' = Release True"
  shows "mx_counts l w s n sema (gs[i := g]) = mx_counts l w s n sema (gs[i := g'])"
proof -
  have t: "tally P (gs[i := g]) = tally P (gs[i := g'])" if "P g = P g'" for P unfolding tally_move(1) [OF assms(1)] that ..
  show ?thesis unfolding mx_counts_def t [of awake, OF assms(2)] t [of asleep, OF assms(3)] t [of roused, OF assms(4)] t [of handed, OF assms(5)]
    t [of leaving, OF assms(6)] t [of "\<lambda>g. g = Holding", OF assms(7)] t [of "\<lambda>g. g = Release False", OF assms(8)]
    t [of "\<lambda>g. g = Release True", OF assms(9)] ..
qed

lemma mx_inv_lock_round:
  assumes inv: "i < length gs" "mx_counts l w s n (mx_sema m) gs" "\<forall>g \<in> set gs. place_ok n g" "length gs < 2 ^ 28"
    and m: "mx_state m = mx_word l w s n" "old lv = mx_word l w s n"
    and counts: "mx_counts l w s n (mx_sema m) (gs[i := SpinLoad lv])" "awoke lv \<Longrightarrow> w" "starving lv \<Longrightarrow> awoke lv"
  shows "mx_inv (m, gs[i := lock_round canSpin lv])"
proof -
  have n: "n < 2 ^ 28" using mx_counts_bound [OF inv(2)] inv(4) by simp
  have "mx_counts l w s n (mx_sema m) (gs[i := lock_round canSpin lv]) = mx_counts l w s n (mx_sema m) (gs[i := SpinLoad lv])"
    by (rule mx_counts_place [OF inv(1)]) (use counts(2) m(2) n in \<open>auto simp: lock_round_word\<close>)
  moreover have "place_ok n (lock_round canSpin lv)"
    using counts(2,3) m n by (cases w) (auto simp: lock_round_word lock_new_word)
  ultimately show ?thesis using counts(1) by (intro mx_inv_step [OF inv _ m(1)]) auto
qed

text \<open>One atomic access keeps the invariant: for each place in the code, what the access does to the word and the counts.\<close>

lemma mx_counts_stay:
  assumes "i < length gs" "awake g = awake (gs ! i)" "asleep g = asleep (gs ! i)" "roused g = roused (gs ! i)" "handed g = handed (gs ! i)"
    "leaving g = leaving (gs ! i)" "g = Holding \<longleftrightarrow> gs ! i = Holding" "g = Release False \<longleftrightarrow> gs ! i = Release False"
    "g = Release True \<longleftrightarrow> gs ! i = Release True"
  shows "mx_counts l w s n sema (gs[i := g]) = mx_counts l w s n sema gs"
  using mx_counts_place [OF assms] by simp

lemma one_handed:
  assumes "tally handed gs = 1" "i < length gs" "handed (gs ! i)" "j < length gs" "j \<noteq> i"
  shows "\<not> handed (gs ! j)"
proof -
  have "tally handed (gs[i := Idle]) = 0" using assms(1,3) tally_move(1) [OF assms(2), of handed Idle] by simp
  then have "\<not> handed (gs[i := Idle] ! j)" using assms(4) by (simp add: tally_zero)
  then show ?thesis using assms(5) by simp
qed

lemma mx_access:
  assumes inv: "i < length gs" "mx_counts l w s n (mx_sema m) gs" "\<forall>g \<in> set gs. place_ok n g" "length gs < 2 ^ 28"
    and m: "mx_state m = mx_word l w s n" and step: "advance canSpin now m (gs ! i) = Some (m', g)"
  shows "mx_inv (m', gs[i := g])"
proof -
  have n: "n < 2 ^ 28" "Suc n \<le> 2 ^ 28" using mx_counts_bound [OF inv(2)] inv(4) by simp_all
  have ok: "place_ok n (gs ! i)" using inv(1,3) by simp
  note move = tally_move(1) [OF inv(1)] and token = mx_tokens [OF inv(1,2)]
  note there = tally_move(2) [OF inv(1)]
  note go = mx_inv_step [OF inv, where l' = l and w' = w and s' = s and n' = n]
  note word_simps = mutex_consts or_masks mx_word_masks mx_word_sets mx_word_add mx_word_waiters
  show ?thesis
  proof (cases "gs ! i")
    case (TryCAS seen)
    show ?thesis
    proof (cases "mx_state m = seen")
      case True
      then have f: "\<not> l" "\<not> s" using TryCAS ok m by (auto simp: mx_word_masks of_bool_def split: if_splits)
      show ?thesis using TryCAS True step m f
        by (intro mx_inv_step [OF inv, where l' = True and w' = w and s' = s and n' = n])
          (auto simp: word_simps mx_counts_def move)
    next
      case False
      then have "m' = m" "g = Idle" using TryCAS step by auto
      then show ?thesis using TryCAS m inv by (intro go) (auto simp: mx_counts_stay)
    qed
  next
    case SlowLoad
    have "mx_counts l w s n (mx_sema m) (gs[i := SpinLoad \<lparr>waitStartTime = 0, starving = False, awoke = False, iter = 0, old = mx_state m\<rparr>])"
      using inv SlowLoad by (simp add: mx_counts_stay)
    moreover have "m' = m" "g = lock_round canSpin \<lparr>waitStartTime = 0, starving = False, awoke = False, iter = 0, old = mx_state m\<rparr>"
      using SlowLoad step by auto
    ultimately show ?thesis using m by (simp only:) (rule mx_inv_lock_round [OF inv m]; simp add: m)
  next
    case (SpinCAS lv)
    then obtain k where lv: "\<not> awoke lv" "\<not> starving lv" "k < 2 ^ 28" "old lv = mx_word True False False k" using ok by auto
    show ?thesis
    proof (cases "mx_state m = old lv")
      case True
      then have f: "l" "\<not> w" "\<not> s" "n = k" using lv m mx_word_inject n(1) by metis+
      show ?thesis using SpinCAS True step m f lv
        by (intro mx_inv_step [OF inv, where l' = True and w' = True and s' = False and n' = n])
          (auto simp: word_simps mx_counts_def move)
    next
      case False
      then have "m' = m" "g = SpinLoad lv" using SpinCAS step by auto
      then show ?thesis using SpinCAS m inv lv by (intro go) (auto simp: mx_counts_stay)
    qed
  next
    case (SpinLoad lv)
    have "mx_counts l w s n (mx_sema m) (gs[i := SpinLoad (lv\<lparr>iter := iter lv + 1, old := mx_state m\<rparr>)])"
      using inv SpinLoad by (simp add: mx_counts_stay)
    then show ?thesis using SpinLoad step m ok token(1) mx_inv_lock_round [OF inv m, of "lv\<lparr>iter := iter lv + 1, old := mx_state m\<rparr>"] by auto
  next
    case (Reload lv)
    have "mx_counts l w s n (mx_sema m) (gs[i := SpinLoad (lv\<lparr>old := mx_state m\<rparr>)])"
      using inv Reload by (simp add: mx_counts_stay)
    then show ?thesis using Reload step m ok token(1) mx_inv_lock_round [OF inv m, of "lv\<lparr>old := mx_state m\<rparr>"] by auto
  next
    case (Acquire lv lifo)
    then have a: "0 < mx_sema m" "m' = m\<lparr>mx_sema := mx_sema m - 1\<rparr>" "g = Acquired lv" using step by (auto split: if_splits)
    have "mx_counts l w s n (mx_sema m') (gs[i := g])"
      using inv(2) Acquire a there [of asleep] by (cases l; cases w; cases s) (auto simp: mx_counts_def move)
    then show ?thesis using a m by (intro go) auto
  next
    case UnlockLoad
    then have a: "m' = m" "g = unlock_round (mx_word l w s n)" using step m by auto
    have "mx_counts l w s n (mx_sema m) (gs[i := g])"
    proof (cases "n = 0 \<or> l \<or> w \<or> s")
      case True
      then show ?thesis using inv(2) UnlockLoad a(2) n(1) by (auto simp: unlock_round_word mx_counts_def move)
    next
      case False
      then show ?thesis using inv UnlockLoad a(2) n(1) by (simp add: unlock_round_word mx_counts_stay)
    qed
    moreover have "place_ok n g" using a n(1) by (simp add: unlock_round_word)
    ultimately show ?thesis using a m by (intro go) auto
  next
    case (Release handoff)
    have "mx_counts l w s n (Suc (mx_sema m)) (gs[i := Idle])"
      using inv(2) Release there [of "\<lambda>g. g = Release handoff"] by (cases l; cases w; cases s; cases handoff) (auto simp: mx_counts_def move)
    then show ?thesis using step m Release by (intro go) auto
  next
    case (LockCAS lv new)
    show ?thesis
    proof (cases "mx_state m = old lv")
      case False
      then have "m' = m" "g = Reload lv" using LockCAS step by auto
      then show ?thesis using LockCAS m inv ok by (intro go) (auto simp: mx_counts_stay)
    next
      case True
      then have o: "old lv = mx_word l w s n" using m by simp
      then have new: "\<not> (awoke lv \<and> \<not> w)" "new = mx_word (l \<or> \<not> s) (w \<and> \<not> awoke lv) (s \<or> starving lv \<and> l) (if l \<or> s then Suc n else n)"
        using ok LockCAS by (auto simp: lock_new_word split: if_splits)
      have aw: "awoke lv \<Longrightarrow> w \<and> \<not> s \<and> tally awake gs = 1" "starving lv \<Longrightarrow> awoke lv" using token(1) ok LockCAS by auto
      show ?thesis
      proof (cases "l \<or> s")
        case False
        then have "m' = m\<lparr>mx_state := mx_word True (w \<and> \<not> awoke lv) False n\<rparr>" "g = Holding"
          using LockCAS step True new o by (auto simp: word_simps)
        then show ?thesis using False LockCAS aw
          by (intro mx_inv_step [OF inv, where l' = True and w' = "w \<and> \<not> awoke lv" and s' = False and n' = n])
            (auto simp: mx_counts_def move)
      next
        case locked: True
        have z: "mx_word l w s n AND 5 \<noteq> 0" using locked by (cases l; cases s) (simp_all add: mx_word_masks)
        obtain lv' lifo where "m' = m\<lparr>mx_state := mx_word l (w \<and> \<not> awoke lv) (s \<or> starving lv) (Suc n)\<rparr>" "g = Acquire lv' lifo"
          using LockCAS step True new o locked aw z by (auto simp: mutex_consts or_masks)
        then show ?thesis using locked LockCAS aw
          by (intro mx_inv_step [OF inv, where l' = l and w' = "w \<and> \<not> awoke lv" and s' = "s \<or> starving lv" and n' = "Suc n"])
            (auto simp: mx_counts_def move)
      qed
    qed
  next
    case (Acquired lv)
    define lv' where "lv' = lv\<lparr>starving := starving lv \<or> now - waitStartTime lv > starvationThresholdNs, old := mx_state m\<rparr>"
    have a: "m' = m" "g = after_sleep canSpin lv'" "old lv' = mx_word l w s n" using Acquired step m by (simp_all add: lv'_def)
    show ?thesis
    proof (cases s)
      case True
      then have f: "\<not> l" "\<not> w" "0 < n" "tally roused gs = 1" using token(3) Acquired by auto
      have g: "g = Handoff (if \<not> starving lv' \<or> n = 1 then 1 - 8 - 4 else 1 - 8)" using after_sleep_word [OF a(3) n(1) True f(1,2)] f(3) a(2) by simp
      have "mx_counts l w s n (mx_sema m) (gs[i := g])" using inv(2) f True Acquired g by (auto simp: mx_counts_def move)
      moreover have "place_ok n g" unfolding g using f(3) by auto
      ultimately show ?thesis using a(1) m by (intro go) auto
    next
      case False
      then have f: "w" "tally roused gs = 1" using token(3) Acquired by auto
      have g: "g = lock_round canSpin (lv'\<lparr>awoke := True, iter := 0\<rparr>)" using a False by (simp add: after_sleep_def word_simps)
      have "mx_counts l w s n (mx_sema m) (gs[i := SpinLoad (lv'\<lparr>awoke := True, iter := 0\<rparr>)])"
        using inv(2) f False Acquired by (auto simp: mx_counts_def move)
      then show ?thesis unfolding a(1) g using a(3) f by (intro mx_inv_lock_round [OF inv m]) auto
    qed
  next
    case (Handoff delta)
    then have f: "tally handed gs = 1" "mx_sema m = 0" "tally roused gs = 0" "s" "\<not> l" "\<not> w" "0 < n" using token(4) by auto
    obtain k where k: "n = Suc k" using f(7) by (cases n) auto
    define s' where "s' \<longleftrightarrow> delta \<noteq> 1 - 8 - 4"
    have d: "mx_state m + delta = mx_word True False s' k" "s' \<Longrightarrow> 0 < k"
      using ok Handoff m f k mx_word_handoff(1) [of w s k] mx_word_handoff(2) [of w k] by (auto simp: s'_def)
    have "\<not> handed (gs ! j)" if "j < length gs" "j \<noteq> i" for j using one_handed [OF f(1) inv(1) _ that] Handoff by simp
    then show ?thesis using step Handoff d f k
      by (intro mx_inv_step [OF inv, where l' = True and w' = False and s' = s' and n' = k]) (auto simp: mx_counts_def move)
  next
    case (UnlockCAS seen new)
    show ?thesis
    proof (cases "mx_state m = seen")
      case False
      then have "m' = m" "g = UnlockLoad" using UnlockCAS step by auto
      then show ?thesis using UnlockCAS m inv by (intro go) (auto simp: mx_counts_stay)
    next
      case True
      then have f: "n \<noteq> 0" "\<not> l" "\<not> w" "\<not> s" "new = mx_word False True False (n - 1)"
        using ok UnlockCAS m n(1) by (auto simp: unlock_round_word split: if_splits)
      have a: "m' = m\<lparr>mx_state := new\<rparr>" "g = Release False" using step UnlockCAS True by auto
      have "tally handed gs = 0" using inv(2) f by (simp add: mx_counts_def)
      then have "\<not> handed (gs ! j)" if "j < length gs" for j using that by (simp add: tally_zero)
      then show ?thesis using f a UnlockCAS
        by (intro mx_inv_step [OF inv, where l' = False and w' = True and s' = False and n' = "n - 1"]) (auto simp: mx_counts_def move)
    qed
  qed (use step in simp_all)
qed

lemma mutex_Unlock_word:
  assumes "mx_state m = mx_word True w s n" "n < 2 ^ 28"
  shows "mutex_Unlock m = (m\<lparr>mx_state := mx_word False w s n\<rparr>,
    if s then Release True else if n = 0 \<or> w then Idle else UnlockCAS (mx_word False w s n) (mx_word False True False (n - 1)))"
proof -
  define new where "new = mx_word False w s n"
  have "new + 1 = mx_word True w s n" using mx_word_unlock [of w s n] unfolding new_def by (metis diff_add_cancel)
  then have facts: "mx_state m - 1 = new" "(new + 1) AND 1 = 1" "new AND 4 = 4 * of_bool s" "new = 0 \<longleftrightarrow> \<not> w \<and> \<not> s \<and> n = 0"
    "unlock_round new = (if n = 0 \<or> w \<or> s then Idle else UnlockCAS new (mx_word False True False (n - 1)))"
    using assms mx_word_unlock [of w s n] mx_word_masks(1) [of True w s n] mx_word_masks(4) [of False w s n] mx_word_zero [OF assms(2), of False w s]
      unlock_round_word [OF assms(2), of False w s] by (simp_all add: new_def)
  show ?thesis unfolding new_def [symmetric]
    by (cases s; cases "n = 0"; cases w) (simp_all add: mutex_Unlock_def Let_def unlockSlow_def mutexLocked_def mutexStarving_def facts)
qed

lemma mx_inv_preserved:
  assumes "mx_inv (m, gs)" "length gs < 2 ^ 28" "mx_step (m, gs) p"
  shows "mx_inv p"
proof -
  from assms(1) obtain l w s n where m: "mx_state m = mx_word l w s n" and c: "mx_counts l w s n (mx_sema m) gs"
    and ok: "\<forall>g \<in> set gs. place_ok n g" unfolding mx_inv_def by blast
  have n: "n < 2 ^ 28" using mx_counts_bound [OF c] assms(2) by simp
  from assms(3) show ?thesis
  proof (cases rule: mx_step.cases)
    case (lock i m' g)
    note inv = lock(2) c ok assms(2) and move = tally_move(1) [OF lock(2)]
    show ?thesis
    proof (cases "mx_state m = 0")
      case True
      then have f: "\<not> l" "\<not> w" "\<not> s" "n = 0" "m' = m\<lparr>mx_state := 1\<rparr>" "g = Holding"
        using lock m mx_word_zero [OF n] by (auto simp: mutex_Lock_def mutexLocked_def)
      have "(1 :: 32 word) = mx_word True False False 0" by (simp add: mx_word_def)
      then show ?thesis unfolding lock(1) using f lock(3)
        by (intro mx_inv_step [OF inv, where l' = True and w' = False and s' = False and n' = 0]) (auto simp: mx_counts_def move)
    next
      case False
      then have "m' = m" "g = SlowLoad" using lock by (auto simp: mutex_Lock_def)
      then show ?thesis unfolding lock(1) using lock(2,3) m
        by (intro mx_inv_step [OF inv, where l' = l and w' = w and s' = s and n' = n]) (auto simp: mx_counts_stay)
    qed
  next
    case (try_lock i m' g)
    note inv = try_lock(2) c ok assms(2)
    have f: "m' = m" "g = Idle \<or> (g = TryCAS (mx_state m) \<and> mx_state m AND 5 = 0)"
      using try_lock by (auto simp: mutex_TryLock_def Let_def mutex_consts or_masks split: if_splits)
    then have "mx_counts l w s n (mx_sema m) (gs[i := g])" using try_lock(2,3) c by (auto simp: mx_counts_stay)
    moreover have "place_ok n g" using f by auto
    ultimately show ?thesis unfolding try_lock(1) using m f(1)
      by (intro mx_inv_step [OF inv, where l' = l and w' = w and s' = s and n' = n]) auto
  next
    case (unlock i m' g)
    note inv = unlock(2) c ok assms(2) and move = tally_move(1) [OF unlock(2)]
    have l: "l" "tally (\<lambda>g. g = Holding) gs = 1" using mx_tokens(2) [OF unlock(2) c unlock(3)] by simp_all
    have a: "m' = m\<lparr>mx_state := mx_word False w s n\<rparr>"
      "g = (if s then Release True else if n = 0 \<or> w then Idle else UnlockCAS (mx_word False w s n) (mx_word False True False (n - 1)))"
      using unlock(4) m l(1) n by (simp_all add: mutex_Unlock_word)
    have "mx_counts False w s n (mx_sema m) (gs[i := g])"
    proof (cases s)
      case True
      then have "g = Release True" using a(2) by simp
      then show ?thesis using c l unlock(3) True by (simp add: mx_counts_def move)
    next
      case False
      show ?thesis
      proof (cases "n = 0 \<or> w")
        case True
        then have "g = Idle" using a(2) False by simp
        then show ?thesis using c l unlock(3) False by (simp add: mx_counts_def move) (use True in blast)
      next
        case waits: False
        then have "g = UnlockCAS (mx_word False w s n) (mx_word False True False (n - 1))" using a(2) False by simp
        then show ?thesis using c l unlock(3) waits False by (simp add: mx_counts_def move)
      qed
    qed
    moreover have "place_ok n g" using a(2) n by (auto simp: unlock_round_word)
    ultimately show ?thesis unfolding unlock(1) using a(1)
      by (intro mx_inv_step [OF inv, where l' = False and w' = w and s' = s and n' = n]) auto
  next
    case (access i canSpin now m' g)
    show ?thesis unfolding access(1) by (rule mx_access [OF access(2) c ok assms(2) m access(3)])
  qed
qed

lemma mx_reach_length: "mx_reach N p \<Longrightarrow> length (snd p) = N"
  by (induction rule: mx_reach.induct) (auto simp: new_mutex_def elim!: mx_step.cases)

lemma mx_reach_inv: "mx_reach N p \<Longrightarrow> N < 2 ^ 28 \<Longrightarrow> mx_inv p"
proof (induction rule: mx_reach.induct)
  case start
  have z: "tally P (replicate N Idle) = 0" if "\<not> P Idle" for P using that by (simp add: tally_zero)
  have "0 = mx_word False False False 0" by (simp add: mx_word_def)
  then show ?case unfolding mx_inv_def split new_mutex_def
    by (intro exI [of _ False] exI [of _ 0]) (simp add: mx_counts_def z)
next
  case (next_access w w')
  then show ?case using mx_reach_length [OF next_access(1)] mx_inv_preserved [of "fst w" "snd w" w'] by simp
qed

text \<open>\<open>Unlock\<close> ends in \<open>fatal\<close> exactly when the bit locked is not set.\<close>

lemma unlock_unlocked_fatal:
  "(\<exists>e. snd (mutex_Unlock m) = Thrown e) \<longleftrightarrow> mx_state m AND mutexLocked = 0"
proof -
  have "unlock_round w \<noteq> Thrown e" for w e by (simp add: unlock_round_def)
  moreover have "mx_state m - 1 = 0 \<Longrightarrow> mx_state m AND 1 \<noteq> 0" by simp
  ultimately show ?thesis by (auto simp: mutex_Unlock_def unlockSlow_def Let_def mutexLocked_def)
qed

lemma advance_enabled: "roused g \<or> handed g \<or> awake g \<or> leaving g \<or> g = Release b \<Longrightarrow> g \<noteq> Idle \<and> advance canSpin now m g \<noteq> None"
  by (cases g) auto

section \<open>Examples\<close>

text \<open>Two goroutines: the second waits while the first holds the mutex; then it is woken, loses the mutex to the first, and is starving.\<close>

definition waiting_world :: "mutex \<times> goroutine list" where
  "waiting_world = (\<lparr>mx_state = 9, mx_sema = 0\<rparr>,
     [Holding, Acquire \<lparr>waitStartTime = 1, starving = False, awoke = False, iter = 0, old = 1\<rparr> False])"

definition unlocking_world :: "mutex \<times> goroutine list" where
  "unlocking_world = (\<lparr>mx_state = 8, mx_sema = 0\<rparr>,
     [UnlockCAS 8 2, Acquire \<lparr>waitStartTime = 1, starving = False, awoke = False, iter = 0, old = 1\<rparr> False])"

definition starving_world :: "mutex \<times> goroutine list" where
  "starving_world = (\<lparr>mx_state = 12, mx_sema = 0\<rparr>, [Idle, Handoff (1 - 8 - 4)])"

lemma waiting_reached: "mx_reach 2 waiting_world"
proof -
  have "mx_run (new_mutex 2) [MoveLock 0, MoveLock 1, MoveAccess 1 False 1, MoveAccess 1 False 1] = Some waiting_world" by code_simp
  then show ?thesis by (rule mx_run_reach) (rule mx_reach.start)
qed

lemma unlocking_reached: "mx_reach 2 unlocking_world"
proof -
  have "mx_run waiting_world [MoveUnlock 0] = Some unlocking_world" by code_simp
  then show ?thesis using waiting_reached by (rule mx_run_reach)
qed

lemma starving_reached: "mx_reach 2 starving_world"
proof -
  have "mx_run unlocking_world [MoveAccess 0 False 1, MoveAccess 0 False 1, MoveLock 0, MoveAccess 0 False 1,
    MoveAccess 0 False 1, MoveAccess 1 False 9000000, MoveAccess 1 False 9000000, MoveAccess 1 False 9000000,
    MoveUnlock 0, MoveAccess 0 False 1, MoveAccess 1 False 9000001, MoveAccess 1 False 9000001] = Some starving_world" by code_simp
  then show ?thesis using unlocking_reached by (rule mx_run_reach)
qed

section \<open>The properties\<close>

text \<open>
  C31. At most one goroutine holds the mutex, and one does exactly when the bit locked is set; no \<open>throw\<close> or \<open>fatal\<close> is reached; and the
  number of waiters in the word stays between 0 and the number of goroutines, when these are fewer than \<open>2 ^ 28\<close>.
\<close>

theorem mutex_excludes:
  assumes "mx_reach N (m, gs)" and "N < 2 ^ 28"
  shows "length (filter (\<lambda>g. g = Holding) gs) = (if mx_state m AND mutexLocked = 0 then 0 else 1) \<and>
    (\<forall>e. Thrown e \<notin> set gs) \<and> 0 \<le> waiters_in (mx_state m) \<and> waiters_in (mx_state m) \<le> int N"
proof -
  obtain l w s n where m: "mx_state m = mx_word l w s n" and c: "mx_counts l w s n (mx_sema m) gs"
    and ok: "\<forall>g \<in> set gs. place_ok n g" using mx_reach_inv [OF assms] unfolding mx_inv_def by blast
  have n: "n \<le> N" "n < 2 ^ 28" using mx_counts_bound [OF c] mx_reach_length [OF assms(1)] assms(2) by simp_all
  have "length (filter (\<lambda>g. g = Holding) gs) = of_bool l" using c by (simp add: mx_counts_def tally_def)
  moreover have "Thrown e \<notin> set gs" for e using ok by force
  ultimately show ?thesis using n mx_word_masks(1) [of l w s n] mx_word_waiters [OF n(2), of l w s] by (auto simp: m mutexLocked_def)
qed

theorem mutex_excludes_witness:
  "length (filter (\<lambda>g. g = Holding) (snd waiting_world)) = 1 \<and> waiters_in (mx_state (fst waiting_world)) \<le> 2"
  using mutex_excludes [of 2 "fst waiting_world" "snd waiting_world"] waiting_reached
  by (simp add: waiting_world_def mutexLocked_def)

text \<open>
  C32. No wake-up is lost: when a goroutine sleeps on the semaphore, some goroutine holds the mutex, or one that is not outside the methods can
  go on, whatever the clock and the scheduler say.
\<close>

theorem mutex_no_lost_wakeup:
  assumes "mx_reach N (m, gs)" and "N < 2 ^ 28" and "Acquire lv lifo \<in> set gs"
  shows "Holding \<in> set gs \<or> (\<exists>i < N. gs ! i \<noteq> Idle \<and> advance canSpin now m (gs ! i) \<noteq> None)"
proof -
  obtain l w s n where c: "mx_counts l w s n (mx_sema m) gs"
    and ok: "\<forall>g \<in> set gs. place_ok n g" using mx_reach_inv [OF assms(1,2)] unfolding mx_inv_def by blast
  have N: "length gs = N" using mx_reach_length [OF assms(1)] by simp
  have a: "0 < tally asleep gs" using assms(3) tally_zero [of asleep gs] by force
  have pos: "\<exists>g \<in> set gs. P g" if "0 < tally P gs" for P using that tally_zero [of P gs] by auto
  have tokens: "l \<or> 0 < mx_sema m \<or> 0 < tally roused gs \<or> 0 < tally (\<lambda>g. g = Release True) gs \<or> 0 < tally handed gs \<or>
    0 < tally (\<lambda>g. g = Release False) gs \<or> 0 < tally awake gs \<or> 0 < tally leaving gs"
    using c a by (cases l; cases w; cases s) (auto simp: mx_counts_def)
  let ?runs = "\<exists>g \<in> set gs. g \<noteq> Idle \<and> advance canSpin now m g \<noteq> None"
  have run: ?runs if k: "0 < tally P gs" "\<And>g. P g \<Longrightarrow> roused g \<or> handed g \<or> awake g \<or> leaving g \<or> g = Release b" for P b
  proof -
    obtain g where "g \<in> set gs" "P g" using pos [OF k(1)] by blast
    then show ?thesis using advance_enabled k(2) by blast
  qed
  have "0 < tally roused gs \<Longrightarrow> ?runs" "0 < tally handed gs \<Longrightarrow> ?runs" "0 < tally awake gs \<Longrightarrow> ?runs" "0 < tally leaving gs \<Longrightarrow> ?runs"
    "0 < tally (\<lambda>g. g = Release b) gs \<Longrightarrow> ?runs" for b
    by (erule run, simp)+
  then have "l \<or> 0 < mx_sema m \<or> ?runs" using tokens by (elim disjE) simp_all
  then consider "l" | "0 < mx_sema m" | ?runs by (elim disjE)
  then show ?thesis
  proof cases
    case 1
    then have "0 < tally (\<lambda>g. g = Holding) gs" using c by (simp add: mx_counts_def)
    then show ?thesis using pos by blast
  next
    case 2
    then have "Acquire lv lifo \<noteq> Idle \<and> advance canSpin now m (Acquire lv lifo) \<noteq> None" by simp
    then show ?thesis using assms(3) N by (metis in_set_conv_nth)
  next
    case 3
    then show ?thesis using N by (metis in_set_conv_nth)
  qed
qed

theorem mutex_no_lost_wakeup_witness:
  "\<exists>i < 2. snd unlocking_world ! i \<noteq> Idle \<and> advance False 5 (fst unlocking_world) (snd unlocking_world ! i) \<noteq> None"
proof -
  have "Holding \<notin> set (snd unlocking_world)" by (simp add: unlocking_world_def)
  moreover have "Holding \<in> set (snd unlocking_world) \<or>
    (\<exists>i < 2. snd unlocking_world ! i \<noteq> Idle \<and> advance False 5 (fst unlocking_world) (snd unlocking_world ! i) \<noteq> None)"
    by (rule mutex_no_lost_wakeup [where lv = "\<lparr>waitStartTime = 1, starving = False, awoke = False, iter = 0, old = 1\<rparr>" and lifo = False])
      (use unlocking_reached in \<open>simp_all add: unlocking_world_def\<close>)
  ultimately show ?thesis by blast
qed

text \<open>
  C33. In the starvation mode the mutex goes from the one that unlocks it to a waiter: the only goroutine that comes to hold it is one that
  slept and got it handed over, never a newcomer.
\<close>

theorem starving_handoff:
  assumes "mx_reach N (m, gs)" and "N < 2 ^ 28" and "mx_state m AND mutexStarving \<noteq> 0"
    and "mx_step (m, gs) (m', gs')" and "i < N" and "gs ! i \<noteq> Holding" and "gs' ! i = Holding"
  shows "\<exists>delta. gs ! i = Handoff delta"
proof -
  obtain l w s n where m: "mx_state m = mx_word l w s n"
    and ok: "\<forall>g \<in> set gs. place_ok n g" using mx_reach_inv [OF assms(1,2)] unfolding mx_inv_def by blast
  have s: "mx_state m AND 5 \<noteq> 0" using assms(3) m by (cases l; cases s) (auto simp: mutexStarving_def mx_word_masks)
  moreover have "mx_state m \<noteq> 0" using assms(3) by auto
  ultimately have s: "mx_state m AND 5 \<noteq> 0" "mx_state m \<noteq> 0" by simp_all
  from assms(4) show ?thesis
  proof (cases rule: mx_step.cases)
    case (access j canSpin now g)
    then have j: "j = i" using assms(5-7) by (metis nth_list_update_neq)
    have "place_ok n (gs ! i)" using ok access j by simp
    then show ?thesis using access j assms(6,7) s
      by (cases "gs ! i") (auto simp: lock_round_def after_sleep_def unlock_round_def mutex_consts or_masks Let_def split: if_splits sum.splits)
  next
    case (lock j g)
    then show ?thesis using assms(5-7) s by (cases "j = i") (auto simp: mutex_Lock_def)
  next
    case (try_lock j g)
    then show ?thesis using assms(5-7) by (cases "j = i") (auto simp: mutex_TryLock_def Let_def split: if_splits)
  next
    case (unlock j g)
    then show ?thesis using assms(5-7) by (cases "j = i") auto
  qed
qed

theorem starving_handoff_witness:
  "\<exists>delta. snd starving_world ! 1 = Handoff delta"
proof (rule starving_handoff)
  show "mx_reach 2 (fst starving_world, snd starving_world)" using starving_reached by simp
  show "mx_state (fst starving_world) AND mutexStarving \<noteq> 0" by (simp add: starving_world_def mutexStarving_def)
  show "mx_step (fst starving_world, snd starving_world) (\<lparr>mx_state = 1, mx_sema = 0\<rparr>, [Idle, Holding])"
    by (rule mx_exec_step [of _ "MoveAccess 1 False 9000002"]) code_simp
qed (simp_all add: starving_world_def)

end
