(* ===== verification/SyncMap.thy ===== *)
theory SyncMap
  imports MapSpec "HOL-Library.AList"
begin

text \<open>
  \<open>Map\<close> (\<open>attic/syncmap/map.go\<close>): a read-only map that is read without a lock, and a dirty map of all live keys that
  is made when a new key comes and takes the place of the read-only map after enough misses. The
  two maps share their entries: an entry is an address, an index of the list \<open>entries\<close>.

  The model runs one operation at a time. A compare-and-swap on a pointer that was just loaded then
  succeeds, so each retry loop runs once, and the second look under the mutex sees what the first saw. A Go map is an
  association list with distinct keys; the code ranges over maps in an order that Go leaves open, the model
  in that of the list. \<open>nilv\<close> is the nil interface.
\<close>

section \<open>Entries\<close>

text \<open>The pointer of an entry: nil, \<open>expunged\<close>, or to a value.\<close>

datatype 'v eptr = PNil | PExpunged | PVal 'v

definition entry_load :: "'v eptr \<Rightarrow> 'v option" where
  "entry_load p = (case p of PVal v \<Rightarrow> Some v | _ \<Rightarrow> None)"

definition tryCompareAndSwap :: "'v \<Rightarrow> 'v \<Rightarrow> 'v eptr \<Rightarrow> 'v eptr \<times> bool" where
  "tryCompareAndSwap old new p = (if p = PNil \<or> p = PExpunged \<or> p \<noteq> PVal old then (p, False) else (PVal new, True))"

definition unexpungeLocked :: "'v eptr \<Rightarrow> 'v eptr \<times> bool" where
  "unexpungeLocked p = (if p = PExpunged then (PNil, True) else (p, False))"

definition swapLocked :: "'v \<Rightarrow> 'v eptr \<Rightarrow> 'v eptr \<times> 'v eptr" where
  "swapLocked i p = (PVal i, p)"

definition tryLoadOrStore :: "'v \<Rightarrow> 'v \<Rightarrow> 'v eptr \<Rightarrow> 'v eptr \<times> 'v \<times> bool \<times> bool" where
  "tryLoadOrStore nilv i p = (case p of
     PExpunged \<Rightarrow> (p, nilv, False, False)
   | PVal v \<Rightarrow> (p, v, True, True)
   | PNil \<Rightarrow> (PVal i, i, False, True))"

definition entry_delete :: "'v eptr \<Rightarrow> 'v eptr \<times> 'v option" where
  "entry_delete p = (case p of PVal v \<Rightarrow> (PNil, Some v) | _ \<Rightarrow> (p, None))"

definition trySwap :: "'v \<Rightarrow> 'v eptr \<Rightarrow> 'v eptr \<times> 'v eptr option" where
  "trySwap i p = (if p = PExpunged then (p, None) else (PVal i, Some p))"

definition tryExpungeLocked :: "'v eptr \<Rightarrow> 'v eptr \<times> bool" where
  "tryExpungeLocked p = (if p = PNil then (PExpunged, True) else (p, p = PExpunged))"

section \<open>The map\<close>

record 'k read_only =
  ro_m :: "('k \<times> nat) list"
  amended :: bool

record ('k, 'v) sync_map =
  read_ptr :: "'k read_only option"
  dirty :: "('k \<times> nat) list option"
  misses :: nat
  entries :: "'v eptr list"

definition new_sync_map :: "('k, 'v) sync_map" where
  "new_sync_map = \<lparr>read_ptr = None, dirty = None, misses = 0, entries = []\<rparr>"

definition loadReadOnly :: "('k, 'v) sync_map \<Rightarrow> 'k read_only" where
  "loadReadOnly m = (case read_ptr m of Some r \<Rightarrow> r | None \<Rightarrow> \<lparr>ro_m = [], amended = False\<rparr>)"

text \<open>Reading, and the length of, a nil map are those of an empty one. Writing to it panics.\<close>

definition dirty_map :: "('k, 'v) sync_map \<Rightarrow> ('k \<times> nat) list" where
  "dirty_map m = (case dirty m of Some d \<Rightarrow> d | None \<Rightarrow> [])"

definition set_dirty :: "'k \<Rightarrow> nat \<Rightarrow> ('k, 'v) sync_map \<Rightarrow> ('k, 'v) sync_map res" where
  "set_dirty key e m = (case dirty m of
     None \<Rightarrow> Inl (PanicMessage ''assignment to entry in nil map'')
   | Some d \<Rightarrow> Inr (m\<lparr>dirty := Some (AList.update key e d)\<rparr>))"

definition newEntry :: "'v \<Rightarrow> ('k, 'v) sync_map \<Rightarrow> ('k, 'v) sync_map \<times> nat" where
  "newEntry i m = (m\<lparr>entries := entries m @ [PVal i]\<rparr>, length (entries m))"

text \<open>An operation on the pointer of an entry.\<close>

definition at_entry :: "nat \<Rightarrow> ('v eptr \<Rightarrow> 'v eptr \<times> 'r) \<Rightarrow> ('k, 'v) sync_map \<Rightarrow> ('k, 'v) sync_map \<times> 'r" where
  "at_entry e f m = (case f (entries m ! e) of (p, r) \<Rightarrow> (m\<lparr>entries := (entries m)[e := p]\<rparr>, r))"

definition missLocked :: "('k, 'v) sync_map \<Rightarrow> ('k, 'v) sync_map" where
  "missLocked m0 = (let m = m0\<lparr>misses := misses m0 + 1\<rparr> in
     if misses m < length (dirty_map m) then m
     else m\<lparr>read_ptr := Some \<lparr>ro_m = dirty_map m, amended = False\<rparr>, dirty := None, misses := 0\<rparr>)"

definition dirty_round :: "'k \<times> nat \<Rightarrow> 'v eptr list \<times> ('k \<times> nat) list \<Rightarrow> 'v eptr list \<times> ('k \<times> nat) list" where
  "dirty_round ke s = (case (ke, s) of ((k, e), (es, d)) \<Rightarrow> case tryExpungeLocked (es ! e) of
     (p, isExpunged) \<Rightarrow> (es[e := p], if isExpunged then d else AList.update k e d))"

definition dirtyLocked :: "('k, 'v) sync_map \<Rightarrow> ('k, 'v) sync_map" where
  "dirtyLocked m = (if dirty m \<noteq> None then m
     else case fold dirty_round (ro_m (loadReadOnly m)) (entries m, []) of
       (es, d) \<Rightarrow> m\<lparr>entries := es, dirty := Some d\<rparr>)"

definition sm_Load :: "'k \<Rightarrow> ('k, 'v) sync_map \<Rightarrow> ('k, 'v) sync_map \<times> 'v option" where
  "sm_Load key m = (case map_of (ro_m (loadReadOnly m)) key of
     Some e \<Rightarrow> (m, entry_load (entries m ! e))
   | None \<Rightarrow>
       if amended (loadReadOnly m) then
         (let e = map_of (dirty_map m) key; m1 = missLocked m
          in (m1, case e of None \<Rightarrow> None | Some e \<Rightarrow> entry_load (entries m1 ! e)))
       else (m, None))"

definition sm_Clear :: "('k, 'v) sync_map \<Rightarrow> ('k, 'v) sync_map" where
  "sm_Clear m = (let read = loadReadOnly m in
     if ro_m read = [] \<and> \<not> amended read then m
     else m\<lparr>read_ptr := Some \<lparr>ro_m = [], amended = False\<rparr>, dirty := map_option (\<lambda>_. []) (dirty m), misses := 0\<rparr>)"

text \<open>The last branch of \<open>Swap\<close> and \<open>LoadOrStore\<close>: a key that neither map has.\<close>

definition add_key :: "'k \<Rightarrow> 'v \<Rightarrow> ('k, 'v) sync_map \<Rightarrow> ('k, 'v) sync_map res" where
  "add_key key v m = (let read = loadReadOnly m;
       m1 = (if \<not> amended read then (dirtyLocked m)\<lparr>read_ptr := Some \<lparr>ro_m = ro_m read, amended = True\<rparr>\<rparr> else m);
       (m2, e) = newEntry v m1
     in set_dirty key e m2)"

text \<open>
  \<open>unexpungeLocked\<close> on an entry of the read-only map, which then goes into the dirty map. After that, and in
  the dirty map, no pointer is \<open>expunged\<close>, so what \<open>swapLocked\<close> returns is nil or a value.
\<close>

definition unexpunge :: "'k \<Rightarrow> nat \<Rightarrow> ('k, 'v) sync_map \<Rightarrow> ('k, 'v) sync_map res" where
  "unexpunge key e m = (case at_entry e unexpungeLocked m of
     (m1, wasExpunged) \<Rightarrow> if wasExpunged then set_dirty key e m1 else Inr m1)"

definition sm_LoadOrStore :: "'v \<Rightarrow> 'k \<Rightarrow> 'v \<Rightarrow> ('k, 'v) sync_map \<Rightarrow> (('k, 'v) sync_map \<times> 'v \<times> bool) res" where
  "sm_LoadOrStore nilv key v m =
     (let locked = (\<lambda>m. case map_of (ro_m (loadReadOnly m)) key of
          Some e \<Rightarrow> rbind (unexpunge key e m) (\<lambda>m1.
            case at_entry e (tryLoadOrStore nilv v) m1 of (m2, actual, loaded, ok) \<Rightarrow> Inr (m2, actual, loaded))
        | None \<Rightarrow> (case map_of (dirty_map m) key of
            Some e \<Rightarrow> (case at_entry e (tryLoadOrStore nilv v) m of (m1, actual, loaded, ok) \<Rightarrow> Inr (missLocked m1, actual, loaded))
          | None \<Rightarrow> rbind (add_key key v m) (\<lambda>m1. Inr (m1, v, False))))
      in case map_of (ro_m (loadReadOnly m)) key of
        Some e \<Rightarrow> (case at_entry e (tryLoadOrStore nilv v) m of
          (m1, actual, loaded, ok) \<Rightarrow> if ok then Inr (m1, actual, loaded) else locked m1)
      | None \<Rightarrow> locked m)"

definition sm_LoadAndDelete :: "'k \<Rightarrow> ('k, 'v) sync_map \<Rightarrow> ('k, 'v) sync_map \<times> 'v option" where
  "sm_LoadAndDelete key m = (case map_of (ro_m (loadReadOnly m)) key of
     Some e \<Rightarrow> at_entry e entry_delete m
   | None \<Rightarrow>
       if amended (loadReadOnly m) then
         (let e = map_of (dirty_map m) key;
              m1 = missLocked (m\<lparr>dirty := map_option (AList.delete key) (dirty m)\<rparr>)
          in case e of Some e \<Rightarrow> at_entry e entry_delete m1 | None \<Rightarrow> (m1, None))
       else (m, None))"

definition sm_Delete :: "'k \<Rightarrow> ('k, 'v) sync_map \<Rightarrow> ('k, 'v) sync_map" where
  "sm_Delete key m = fst (sm_LoadAndDelete key m)"

definition sm_Swap :: "'k \<Rightarrow> 'v \<Rightarrow> ('k, 'v) sync_map \<Rightarrow> (('k, 'v) sync_map \<times> 'v option) res" where
  "sm_Swap key v m =
     (let locked = (\<lambda>m. case map_of (ro_m (loadReadOnly m)) key of
          Some e \<Rightarrow> rbind (unexpunge key e m) (\<lambda>m1.
            case at_entry e (swapLocked v) m1 of (m2, p) \<Rightarrow> Inr (m2, if p \<noteq> PNil then entry_load p else None))
        | None \<Rightarrow> (case map_of (dirty_map m) key of
            Some e \<Rightarrow> (case at_entry e (swapLocked v) m of (m1, p) \<Rightarrow> Inr (m1, if p \<noteq> PNil then entry_load p else None))
          | None \<Rightarrow> rbind (add_key key v m) (\<lambda>m1. Inr (m1, None))))
      in case map_of (ro_m (loadReadOnly m)) key of
        Some e \<Rightarrow> (case at_entry e (trySwap v) m of
          (m1, Some p) \<Rightarrow> Inr (m1, if p = PNil then None else entry_load p)
        | (m1, None) \<Rightarrow> locked m1)
      | None \<Rightarrow> locked m)"

definition sm_Store :: "'k \<Rightarrow> 'v \<Rightarrow> ('k, 'v) sync_map \<Rightarrow> ('k, 'v) sync_map res" where
  "sm_Store key v m = rbind (sm_Swap key v m) (\<lambda>(m1, r). Inr m1)"

definition sm_CompareAndSwap :: "'k \<Rightarrow> 'v \<Rightarrow> 'v \<Rightarrow> ('k, 'v) sync_map \<Rightarrow> ('k, 'v) sync_map \<times> bool" where
  "sm_CompareAndSwap key old new m = (case map_of (ro_m (loadReadOnly m)) key of
     Some e \<Rightarrow> at_entry e (tryCompareAndSwap old new) m
   | None \<Rightarrow>
       if \<not> amended (loadReadOnly m) then (m, False)
       else case map_of (dirty_map m) key of
         Some e \<Rightarrow> (case at_entry e (tryCompareAndSwap old new) m of (m1, swapped) \<Rightarrow> (missLocked m1, swapped))
       | None \<Rightarrow> (m, False))"

definition compare_delete :: "'v \<Rightarrow> 'v eptr \<Rightarrow> 'v eptr \<times> bool" where
  "compare_delete old p = (if p = PNil \<or> p = PExpunged \<or> p \<noteq> PVal old then (p, False) else (PNil, True))"

definition sm_CompareAndDelete :: "'k \<Rightarrow> 'v \<Rightarrow> ('k, 'v) sync_map \<Rightarrow> ('k, 'v) sync_map \<times> bool" where
  "sm_CompareAndDelete key old m = (case map_of (ro_m (loadReadOnly m)) key of
     Some e \<Rightarrow> at_entry e (compare_delete old) m
   | None \<Rightarrow>
       if amended (loadReadOnly m) then
         (let e = map_of (dirty_map m) key; m1 = missLocked m
          in case e of Some e \<Rightarrow> at_entry e (compare_delete old) m1 | None \<Rightarrow> (m1, False))
       else (m, False))"

text \<open>\<open>Range\<close> with a consumer that has a state of its own and does not call the map.\<close>

fun range_loop :: "('k \<Rightarrow> 'v \<Rightarrow> 'a \<Rightarrow> 'a \<times> bool) \<Rightarrow> 'v eptr list \<Rightarrow> ('k \<times> nat) list \<Rightarrow> 'a \<Rightarrow> 'a" where
  "range_loop f es [] a = a"
| "range_loop f es ((k, e) # kes) a = (case entry_load (es ! e) of
     None \<Rightarrow> range_loop f es kes a
   | Some v \<Rightarrow> (case f k v a of (a1, again) \<Rightarrow> if again then range_loop f es kes a1 else a1))"

definition sm_Range :: "('k \<Rightarrow> 'v \<Rightarrow> 'a \<Rightarrow> 'a \<times> bool) \<Rightarrow> ('k, 'v) sync_map \<Rightarrow> 'a \<Rightarrow> ('k, 'v) sync_map \<times> 'a" where
  "sm_Range f m a = (let read = loadReadOnly m;
       m1 = (if amended read then m\<lparr>read_ptr := Some \<lparr>ro_m = dirty_map m, amended = False\<rparr>, dirty := None, misses := 0\<rparr> else m)
     in (m1, range_loop f (entries m1) (ro_m (loadReadOnly m1)) a))"

fun sm_run :: "'v \<Rightarrow> ('k, 'v) sync_map \<Rightarrow> ('k, 'v) map_call \<Rightarrow> (('k, 'v) sync_map \<times> 'v map_result) res" where
  "sm_run nilv s (MLoad k) = (case sm_Load k s of (s', r) \<Rightarrow> Inr (s', RFound r))"
| "sm_run nilv s (MStore k v) = rbind (sm_Store k v s) (\<lambda>s'. Inr (s', RNone))"
| "sm_run nilv s (MLoadOrStore k v) = rbind (sm_LoadOrStore nilv k v s) (\<lambda>(s', w, b). Inr (s', RLoaded w b))"
| "sm_run nilv s (MSwap k v) = rbind (sm_Swap k v s) (\<lambda>(s', r). Inr (s', RFound r))"
| "sm_run nilv s (MCompareAndSwap k old new) = (case sm_CompareAndSwap k old new s of (s', b) \<Rightarrow> Inr (s', RFlag b))"
| "sm_run nilv s (MLoadAndDelete k) = (case sm_LoadAndDelete k s of (s', r) \<Rightarrow> Inr (s', RFound r))"
| "sm_run nilv s (MDelete k) = Inr (sm_Delete k s, RNone)"
| "sm_run nilv s (MCompareAndDelete k old) = (case sm_CompareAndDelete k old s of (s', b) \<Rightarrow> Inr (s', RFlag b))"
| "sm_run nilv s MClear = Inr (sm_Clear s, RNone)"

end
