(* ===== verification/HashTrie.thy ===== *)
theory HashTrie
  imports MapSpec
begin

unbundle bit_operations_syntax

text \<open>
  \<open>HashTrieMap\<close> (\<open>attic/isync/hashtriemap.go\<close>): a trie of 16-way nodes over the bits of a hash, four bits a level
  from the top, with chains of entries for equal hashes.

  The model runs one operation at a time. The atomic pointers and the mutexes of the nodes are then plain
  fields, the second look under the mutex sees what the first saw, so each search loop runs once, and the
  flag \<open>dead\<close> is set on nodes that nothing reaches any more. The hash function, the equality of
  values (nil for values that cannot be compared), the zero value and the random number for the seed come from Go's
  runtime: they are the fields of \<open>map_type\<close>.
\<close>

section \<open>Nodes\<close>

datatype ('k, 'v) entry = Entry (entry_key: 'k) (entry_value: 'v) (overflow: "('k, 'v) entry option")

text \<open>\<open>node\<close> is an entry or an \<open>indirect\<close>; the parent of an \<open>indirect\<close> is where the recursion comes from.\<close>

datatype ('k, 'v) trie_node = EntryNode "('k, 'v) entry" | Indirect "('k, 'v) trie_node option list"

type_synonym ('k, 'v) children = "('k, 'v) trie_node option list"

definition newIndirectNode :: "('k, 'v) children" where
  "newIndirectNode = replicate 16 None"

definition indirect_empty :: "('k, 'v) children \<Rightarrow> bool" where
  "indirect_empty ch \<longleftrightarrow> (\<forall>n \<in> set ch. n = None)"

definition newEntryNode :: "'k \<Rightarrow> 'v \<Rightarrow> ('k, 'v) entry" where
  "newEntryNode key v = Entry key v None"

section \<open>Chains of entries\<close>

fun lookup :: "'k \<Rightarrow> ('k, 'v) entry option \<Rightarrow> 'v option" where
  "lookup key None = None"
| "lookup key (Some (Entry k v ov)) = (if k = key then Some v else lookup key ov)"

fun lookupWithValue :: "'k \<Rightarrow> 'v \<Rightarrow> ('v \<Rightarrow> 'v \<Rightarrow> bool) option \<Rightarrow> ('k, 'v) entry option \<Rightarrow> 'v option" where
  "lookupWithValue key v eq None = None"
| "lookupWithValue key v eq (Some (Entry k w ov)) =
     (if k = key \<and> (case eq of None \<Rightarrow> True | Some f \<Rightarrow> f w v) then Some w else lookupWithValue key v eq ov)"

text \<open>
  The four operations that change a chain test the head and then loop over the rest: the loop, which gives
  the chain after the change and what it found, and the method.
\<close>

fun swap_rest :: "'k \<Rightarrow> 'v \<Rightarrow> ('k, 'v) entry option \<Rightarrow> ('k, 'v) entry option \<times> 'v option" where
  "swap_rest key new None = (None, None)"
| "swap_rest key new (Some (Entry k v ov)) =
     (if k = key then (Some (Entry key new ov), Some v)
      else case swap_rest key new ov of (ov', r) \<Rightarrow> (Some (Entry k v ov'), r))"

definition swap :: "'k \<Rightarrow> 'v \<Rightarrow> ('k, 'v) entry \<Rightarrow> ('k, 'v) entry \<times> 'v option" where
  "swap key new h =
     (if entry_key h = key then (Entry key new (overflow h), Some (entry_value h))
      else case swap_rest key new (overflow h) of (ov, r) \<Rightarrow> (Entry (entry_key h) (entry_value h) ov, r))"

fun cas_rest :: "'k \<Rightarrow> 'v \<Rightarrow> 'v \<Rightarrow> ('v \<Rightarrow> 'v \<Rightarrow> bool) \<Rightarrow> ('k, 'v) entry option \<Rightarrow> ('k, 'v) entry option \<times> bool" where
  "cas_rest key old new eq None = (None, False)"
| "cas_rest key old new eq (Some (Entry k v ov)) =
     (if k = key \<and> eq v old then (Some (Entry key new ov), True)
      else case cas_rest key old new eq ov of (ov', r) \<Rightarrow> (Some (Entry k v ov'), r))"

definition compareAndSwap :: "'k \<Rightarrow> 'v \<Rightarrow> 'v \<Rightarrow> ('v \<Rightarrow> 'v \<Rightarrow> bool) \<Rightarrow> ('k, 'v) entry \<Rightarrow> ('k, 'v) entry \<times> bool" where
  "compareAndSwap key old new eq h =
     (if entry_key h = key \<and> eq (entry_value h) old then (Entry key new (overflow h), True)
      else case cas_rest key old new eq (overflow h) of (ov, r) \<Rightarrow> (Entry (entry_key h) (entry_value h) ov, r))"

fun delete_rest :: "'k \<Rightarrow> ('k, 'v) entry option \<Rightarrow> ('k, 'v) entry option \<times> 'v option" where
  "delete_rest key None = (None, None)"
| "delete_rest key (Some (Entry k v ov)) =
     (if k = key then (ov, Some v) else case delete_rest key ov of (ov', r) \<Rightarrow> (Some (Entry k v ov'), r))"

definition loadAndDelete :: "'k \<Rightarrow> ('k, 'v) entry \<Rightarrow> 'v option \<times> ('k, 'v) entry option" where
  "loadAndDelete key h =
     (if entry_key h = key then (Some (entry_value h), overflow h)
      else case delete_rest key (overflow h) of (ov, r) \<Rightarrow> (r, Some (Entry (entry_key h) (entry_value h) ov)))"

fun cad_rest :: "'k \<Rightarrow> 'v \<Rightarrow> ('v \<Rightarrow> 'v \<Rightarrow> bool) \<Rightarrow> ('k, 'v) entry option \<Rightarrow> ('k, 'v) entry option \<times> bool" where
  "cad_rest key old eq None = (None, False)"
| "cad_rest key old eq (Some (Entry k v ov)) =
     (if k = key \<and> eq v old then (ov, True) else case cad_rest key old eq ov of (ov', r) \<Rightarrow> (Some (Entry k v ov'), r))"

definition compareAndDelete :: "'k \<Rightarrow> 'v \<Rightarrow> ('v \<Rightarrow> 'v \<Rightarrow> bool) \<Rightarrow> ('k, 'v) entry \<Rightarrow> ('k, 'v) entry option \<times> bool" where
  "compareAndDelete key old eq h =
     (if entry_key h = key \<and> eq (entry_value h) old then (overflow h, True)
      else case cad_rest key old eq (overflow h) of (ov, r) \<Rightarrow> (Some (Entry (entry_key h) (entry_value h) ov), r))"

section \<open>The trie\<close>

text \<open>\<open>(hash >> hashShift) & nChildrenMask\<close>\<close>

definition child_index :: "64 word \<Rightarrow> nat \<Rightarrow> nat" where
  "child_index hash shift = unat (drop_bit shift hash AND 15)"

definition out_of_bits :: "string \<Rightarrow> panic" where
  "out_of_bits what = PanicMessage (''internal/sync.HashTrieMap: ran out of hash bits while '' @ what)"

text \<open>A trie that was not used yet has no root.\<close>

record ('k, 'v) hash_trie =
  inited :: bool
  trie_root :: "('k, 'v) children"
  seed :: "64 word"

definition new_hash_trie :: "('k, 'v) hash_trie" where
  "new_hash_trie = \<lparr>inited = False, trie_root = [], seed = 0\<rparr>"

definition initSlow :: "64 word \<Rightarrow> ('k, 'v) hash_trie \<Rightarrow> ('k, 'v) hash_trie" where
  "initSlow rand ht = (if inited ht then ht else \<lparr>inited = True, trie_root = newIndirectNode, seed = rand\<rparr>)"

definition trie_init :: "64 word \<Rightarrow> ('k, 'v) hash_trie \<Rightarrow> ('k, 'v) hash_trie" where
  "trie_init rand ht = (if \<not> inited ht then initSlow rand ht else ht)"

function load_loop :: "'k \<Rightarrow> 64 word \<Rightarrow> nat \<Rightarrow> ('k, 'v) children \<Rightarrow> 'v option res" where
  "load_loop key hash shift ch =
     (if shift = 0 then Inl (out_of_bits ''iterating'')
      else let s = shift - 4 in
        case slot ch (child_index hash s) of
          None \<Rightarrow> Inr None
        | Some (EntryNode e) \<Rightarrow> Inr (lookup key (Some e))
        | Some (Indirect ch') \<Rightarrow> load_loop key hash s ch')"
  by pat_completeness auto
termination by (relation "measure (\<lambda>(key, hash, shift, ch). shift)") auto

declare load_loop.simps [simp del]

text \<open>
  The search for a slot that is nil or holds an entry, with what is done there (\<open>act\<close>, a function of the shift
  and the slot) and, where that empties the slot, the removal of the nodes that are then empty, up to the
  root. The code has these loops in \<open>LoadOrStore\<close>, \<open>Swap\<close>, \<open>find\<close>, \<open>LoadAndDelete\<close> and \<open>CompareAndDelete\<close>. The flag of the
  result is that of the loop up: the last removal emptied the slot.
\<close>

function at_slot :: "64 word \<Rightarrow> (nat \<Rightarrow> ('k, 'v) trie_node option \<Rightarrow> (('k, 'v) trie_node option \<times> 'r) res)
    \<Rightarrow> nat \<Rightarrow> ('k, 'v) children \<Rightarrow> (('k, 'v) children \<times> bool \<times> 'r) res" where
  "at_slot hash act shift ch =
     (if shift = 0 then Inl (out_of_bits ''iterating'')
      else let s = shift - 4; j = child_index hash s; n = slot ch j in
        case n of
          Some (Indirect ch') \<Rightarrow> rbind (at_slot hash act s ch') (\<lambda>(ch1, removed, r).
            Inr (if removed \<and> indirect_empty ch1 then (ch[j := None], True, r)
                 else (ch[j := Some (Indirect ch1)], False, r)))
        | _ \<Rightarrow> rbind (act s n) (\<lambda>(n', r). Inr (ch[j := n'], n \<noteq> None \<and> n' = None, r)))"
  by pat_completeness auto
termination by (relation "measure (\<lambda>(hash, act, shift, ch). shift)") auto

declare at_slot.simps [simp del]

text \<open>\<open>expand\<close>: a subtree for two entries that met in a slot.\<close>

function expand_loop :: "64 word \<Rightarrow> 64 word \<Rightarrow> ('k, 'v) entry \<Rightarrow> ('k, 'v) entry \<Rightarrow> nat \<Rightarrow> ('k, 'v) trie_node res" where
  "expand_loop oldHash newHash oldEntry newEntry shift =
     (if shift = 0 then Inl (out_of_bits ''inserting'')
      else let s = shift - 4; oi = child_index oldHash s; ni = child_index newHash s in
        if oi \<noteq> ni then Inr (Indirect (newIndirectNode[oi := Some (EntryNode oldEntry), ni := Some (EntryNode newEntry)]))
        else rbind (expand_loop oldHash newHash oldEntry newEntry s) (\<lambda>nextIndirect.
          Inr (Indirect (newIndirectNode[oi := Some nextIndirect]))))"
  by pat_completeness auto
termination by (relation "measure (\<lambda>(oh, nh, oe, ne, shift). shift)") auto

declare expand_loop.simps [simp del]

definition expand :: "('k \<Rightarrow> 64 word) \<Rightarrow> ('k, 'v) entry \<Rightarrow> ('k, 'v) entry \<Rightarrow> 64 word \<Rightarrow> nat \<Rightarrow> ('k, 'v) trie_node res" where
  "expand hash oldEntry newEntry newHash shift = (let oldHash = hash (entry_key oldEntry) in
     if oldHash = newHash then Inr (EntryNode (Entry (entry_key newEntry) (entry_value newEntry) (Some oldEntry)))
     else expand_loop oldHash newHash oldEntry newEntry shift)"

section \<open>The methods\<close>

record ('k, 'v) map_type =
  keyHash :: "'k \<Rightarrow> 64 word \<Rightarrow> 64 word"
  valEqual :: "('v \<Rightarrow> 'v \<Rightarrow> bool) option"
  zeroValue :: 'v
  runtime_rand :: "64 word"

definition ht_hash :: "('k, 'v) map_type \<Rightarrow> ('k, 'v) hash_trie \<Rightarrow> 'k \<Rightarrow> 64 word" where
  "ht_hash T ht key = keyHash T key (seed ht)"

definition ht_Load :: "('k, 'v) map_type \<Rightarrow> 'k \<Rightarrow> ('k, 'v) hash_trie \<Rightarrow> (('k, 'v) hash_trie \<times> 'v option) res" where
  "ht_Load T key ht0 = (let ht = trie_init (runtime_rand T) ht0 in
     rbind (load_loop key (ht_hash T ht key) 64 (trie_root ht)) (\<lambda>r. Inr (ht, r)))"

text \<open>A method that works on one slot.\<close>

definition on_slot :: "('k, 'v) map_type \<Rightarrow> 'k \<Rightarrow> (64 word \<Rightarrow> nat \<Rightarrow> ('k, 'v) trie_node option \<Rightarrow> (('k, 'v) trie_node option \<times> 'r) res)
    \<Rightarrow> ('k, 'v) hash_trie \<Rightarrow> (('k, 'v) hash_trie \<times> 'r) res" where
  "on_slot T key act ht = (let hash = ht_hash T ht key in
     rbind (at_slot hash (act hash) 64 (trie_root ht)) (\<lambda>(ch, removed, r). Inr (ht\<lparr>trie_root := ch\<rparr>, r)))"

definition store_act :: "('k \<Rightarrow> 64 word) \<Rightarrow> 'k \<Rightarrow> 'v \<Rightarrow> 64 word \<Rightarrow> nat \<Rightarrow> ('k, 'v) trie_node option \<Rightarrow>
    (('k, 'v) trie_node option \<times> 'v \<times> bool) res" where
  "store_act H key v hash shift n = (case n of
     Some (EntryNode e) \<Rightarrow> (case lookup key (Some e) of
       Some w \<Rightarrow> Inr (n, w, True)
     | None \<Rightarrow> rbind (expand H e (newEntryNode key v) hash shift) (\<lambda>n'. Inr (Some n', v, False)))
   | _ \<Rightarrow> Inr (Some (EntryNode (newEntryNode key v)), v, False))"

definition ht_LoadOrStore :: "('k, 'v) map_type \<Rightarrow> 'k \<Rightarrow> 'v \<Rightarrow> ('k, 'v) hash_trie \<Rightarrow> (('k, 'v) hash_trie \<times> 'v \<times> bool) res" where
  "ht_LoadOrStore T key v ht0 = (let ht = trie_init (runtime_rand T) ht0 in on_slot T key (store_act (ht_hash T ht) key v) ht)"

definition swap_act :: "('k \<Rightarrow> 64 word) \<Rightarrow> 'k \<Rightarrow> 'v \<Rightarrow> 64 word \<Rightarrow> nat \<Rightarrow> ('k, 'v) trie_node option \<Rightarrow>
    (('k, 'v) trie_node option \<times> 'v option) res" where
  "swap_act H key new hash shift n = (case n of
     Some (EntryNode e) \<Rightarrow> (case swap key new e of
       (e', Some old) \<Rightarrow> Inr (Some (EntryNode e'), Some old)
     | (e', None) \<Rightarrow> rbind (expand H e (newEntryNode key new) hash shift) (\<lambda>n'. Inr (Some n', None)))
   | _ \<Rightarrow> Inr (Some (EntryNode (newEntryNode key new)), None))"

definition ht_Swap :: "('k, 'v) map_type \<Rightarrow> 'k \<Rightarrow> 'v \<Rightarrow> ('k, 'v) hash_trie \<Rightarrow> (('k, 'v) hash_trie \<times> 'v option) res" where
  "ht_Swap T key new ht0 = (let ht = trie_init (runtime_rand T) ht0 in on_slot T key (swap_act (ht_hash T ht) key new) ht)"

definition ht_Store :: "('k, 'v) map_type \<Rightarrow> 'k \<Rightarrow> 'v \<Rightarrow> ('k, 'v) hash_trie \<Rightarrow> ('k, 'v) hash_trie res" where
  "ht_Store T key old ht = rbind (ht_Swap T key old ht) (\<lambda>(ht', r). Inr ht')"

text \<open>
  \<open>find\<close> with the test of the entry that it makes: an entry that does not match counts as not found, and then
  nothing is done.
\<close>

definition found_act :: "'k \<Rightarrow> ('v \<Rightarrow> 'v \<Rightarrow> bool) option \<Rightarrow> 'v \<Rightarrow> (('k, 'v) entry \<Rightarrow> ('k, 'v) trie_node option \<times> 'r) \<Rightarrow> 'r \<Rightarrow>
    ('k, 'v) trie_node option \<Rightarrow> (('k, 'v) trie_node option \<times> 'r) res" where
  "found_act key eq v act absent n = (case n of
     Some (EntryNode e) \<Rightarrow> (case lookupWithValue key v eq (Some e) of None \<Rightarrow> Inr (n, absent) | Some _ \<Rightarrow> Inr (act e))
   | _ \<Rightarrow> Inr (n, absent))"

definition ht_CompareAndSwap :: "('k, 'v) map_type \<Rightarrow> 'k \<Rightarrow> 'v \<Rightarrow> 'v \<Rightarrow> ('k, 'v) hash_trie \<Rightarrow> (('k, 'v) hash_trie \<times> bool) res" where
  "ht_CompareAndSwap T key old new ht0 = (let ht = trie_init (runtime_rand T) ht0 in
     case valEqual T of
       None \<Rightarrow> Inl (PanicMessage ''called CompareAndSwap when value is not of comparable type'')
     | Some eq \<Rightarrow> on_slot T key (\<lambda>hash shift n. found_act key (Some eq) old
         (\<lambda>e. case compareAndSwap key old new eq e of (e', swapped) \<Rightarrow>
           if swapped then (Some (EntryNode e'), True) else (Some (EntryNode e), False)) False n) ht)"

definition ht_LoadAndDelete :: "('k, 'v) map_type \<Rightarrow> 'k \<Rightarrow> ('k, 'v) hash_trie \<Rightarrow> (('k, 'v) hash_trie \<times> 'v option) res" where
  "ht_LoadAndDelete T key ht0 = (let ht = trie_init (runtime_rand T) ht0 in
     on_slot T key (\<lambda>hash shift n. found_act key None (zeroValue T)
       (\<lambda>e. case loadAndDelete key e of
          (None, e') \<Rightarrow> (Some (EntryNode e), None)
        | (Some v, None) \<Rightarrow> (None, Some v)
        | (Some v, Some e') \<Rightarrow> (Some (EntryNode e'), Some v)) None n) ht)"

definition ht_Delete :: "('k, 'v) map_type \<Rightarrow> 'k \<Rightarrow> ('k, 'v) hash_trie \<Rightarrow> ('k, 'v) hash_trie res" where
  "ht_Delete T key ht = rbind (ht_LoadAndDelete T key ht) (\<lambda>(ht', r). Inr ht')"

definition ht_CompareAndDelete :: "('k, 'v) map_type \<Rightarrow> 'k \<Rightarrow> 'v \<Rightarrow> ('k, 'v) hash_trie \<Rightarrow> (('k, 'v) hash_trie \<times> bool) res" where
  "ht_CompareAndDelete T key old ht0 = (let ht = trie_init (runtime_rand T) ht0 in
     case valEqual T of
       None \<Rightarrow> Inl (PanicMessage ''called CompareAndDelete when value is not of comparable type'')
     | Some eq \<Rightarrow> on_slot T key (\<lambda>hash shift n. found_act key None (zeroValue T)
         (\<lambda>e. case compareAndDelete key old eq e of
            (e', False) \<Rightarrow> (Some (EntryNode e), False)
          | (None, True) \<Rightarrow> (None, True)
          | (Some e', True) \<Rightarrow> (Some (EntryNode e'), True)) False n) ht)"

definition ht_Clear :: "('k, 'v) map_type \<Rightarrow> ('k, 'v) hash_trie \<Rightarrow> ('k, 'v) hash_trie" where
  "ht_Clear T ht0 = (trie_init (runtime_rand T) ht0)\<lparr>trie_root := newIndirectNode\<rparr>"

text \<open>\<open>iter\<close>, with the state of the consumer threaded through.\<close>

fun iter_chain :: "('k \<Rightarrow> 'v \<Rightarrow> 'a \<Rightarrow> 'a \<times> bool) \<Rightarrow> ('k, 'v) entry option \<Rightarrow> 'a \<Rightarrow> 'a \<times> bool" where
  "iter_chain f None a = (a, True)"
| "iter_chain f (Some (Entry k v ov)) a = (case f k v a of (a1, again) \<Rightarrow> if again then iter_chain f ov a1 else (a1, False))"

fun iter_node :: "('k \<Rightarrow> 'v \<Rightarrow> 'a \<Rightarrow> 'a \<times> bool) \<Rightarrow> ('k, 'v) trie_node \<Rightarrow> 'a \<Rightarrow> 'a \<times> bool"
  and iter_children :: "('k \<Rightarrow> 'v \<Rightarrow> 'a \<Rightarrow> 'a \<times> bool) \<Rightarrow> ('k, 'v) children \<Rightarrow> 'a \<Rightarrow> 'a \<times> bool" where
  "iter_node f (EntryNode e) a = iter_chain f (Some e) a"
| "iter_node f (Indirect ch) a = iter_children f ch a"
| "iter_children f [] a = (a, True)"
| "iter_children f (None # ns) a = iter_children f ns a"
| "iter_children f (Some n # ns) a = (case iter_node f n a of (a1, again) \<Rightarrow> if again then iter_children f ns a1 else (a1, False))"

definition ht_Range :: "('k, 'v) map_type \<Rightarrow> ('k \<Rightarrow> 'v \<Rightarrow> 'a \<Rightarrow> 'a \<times> bool) \<Rightarrow> ('k, 'v) hash_trie \<Rightarrow> 'a \<Rightarrow> ('k, 'v) hash_trie \<times> 'a" where
  "ht_Range T f ht0 a = (let ht = trie_init (runtime_rand T) ht0 in (ht, fst (iter_children f (trie_root ht) a)))"

text \<open>\<open>All\<close> initialises the map when it is called and reads the root when its result is run.\<close>

definition ht_All :: "('k, 'v) map_type \<Rightarrow> ('k, 'v) hash_trie \<Rightarrow>
    ('k, 'v) hash_trie \<times> (('k, 'v) hash_trie \<Rightarrow> ('k \<Rightarrow> 'v \<Rightarrow> 'a \<Rightarrow> 'a \<times> bool) \<Rightarrow> 'a \<Rightarrow> 'a)" where
  "ht_All T ht0 = (trie_init (runtime_rand T) ht0, \<lambda>ht f a. fst (iter_children f (trie_root ht) a))"

fun ht_run :: "('k, 'v) map_type \<Rightarrow> ('k, 'v) hash_trie \<Rightarrow> ('k, 'v) map_call \<Rightarrow> (('k, 'v) hash_trie \<times> 'v map_result) res" where
  "ht_run T s (MLoad k) = rbind (ht_Load T k s) (\<lambda>(s', r). Inr (s', RFound r))"
| "ht_run T s (MStore k v) = rbind (ht_Store T k v s) (\<lambda>s'. Inr (s', RNone))"
| "ht_run T s (MLoadOrStore k v) = rbind (ht_LoadOrStore T k v s) (\<lambda>(s', w, b). Inr (s', RLoaded w b))"
| "ht_run T s (MSwap k v) = rbind (ht_Swap T k v s) (\<lambda>(s', r). Inr (s', RFound r))"
| "ht_run T s (MCompareAndSwap k old new) = rbind (ht_CompareAndSwap T k old new s) (\<lambda>(s', b). Inr (s', RFlag b))"
| "ht_run T s (MLoadAndDelete k) = rbind (ht_LoadAndDelete T k s) (\<lambda>(s', r). Inr (s', RFound r))"
| "ht_run T s (MDelete k) = rbind (ht_Delete T k s) (\<lambda>s'. Inr (s', RNone))"
| "ht_run T s (MCompareAndDelete k old) = rbind (ht_CompareAndDelete T k old s) (\<lambda>(s', b). Inr (s', RFlag b))"
| "ht_run T s MClear = Inr (ht_Clear T s, RNone)"

end
