(* ===== verification/HashTrieMap.thy ===== *)
theory HashTrieMap
  imports HashTrie
begin

unbundle bit_operations_syntax

text \<open>
  The hash trie refines a map: the invariant of its nodes, what the work on one slot does to the map, the
  interpretation of the contract, and iteration.
\<close>

section \<open>Chains\<close>

fun chain :: "('k, 'v) entry option \<Rightarrow> ('k \<times> 'v) list" where
  "chain None = []"
| "chain (Some (Entry k v ov)) = (k, v) # chain ov"

abbreviation keys_of_chain :: "('k, 'v) entry option \<Rightarrow> 'k list" where
  "keys_of_chain e \<equiv> map fst (chain e)"

lemma chain_Some: "chain (Some e) = (entry_key e, entry_value e) # chain (overflow e)"
  by (cases e) simp

lemma lookup_map: "lookup key e = map_of (chain e) key"
  by (induction key e rule: lookup.induct) auto

lemma lookupWithValue_key: "lookupWithValue key v None e = map_of (chain e) key"
  by (induction e rule: chain.induct) auto

lemma chain_absent: "key \<notin> set (keys_of_chain e) \<longleftrightarrow> map_of (chain e) key = None"
  by (simp add: map_of_eq_None_iff)

lemma lookupWithValue_eq: "distinct (keys_of_chain e) \<Longrightarrow>
    lookupWithValue key v (Some (=)) e = (if map_of (chain e) key = Some v then Some v else None)"
proof (induction e rule: chain.induct)
  case (2 k w ov)
  then have "map_of (chain ov) k = None" by (simp add: map_of_eq_None_iff)
  with 2 show ?case by auto
qed simp

text \<open>
  The loops keep the order of the keys, and change the map as the map is changed; they leave the
  chain alone where they find nothing.
\<close>

lemma swap_rest_chain: "distinct (keys_of_chain e) \<Longrightarrow>
    snd (swap_rest key new e) = map_of (chain e) key \<and> keys_of_chain (fst (swap_rest key new e)) = keys_of_chain e \<and>
    map_of (chain (fst (swap_rest key new e))) =
      (if map_of (chain e) key = None then map_of (chain e) else (map_of (chain e))(key \<mapsto> new))"
proof (induction e rule: chain.induct)
  case (2 k w ov)
  then show ?case by (cases "k = key") (auto simp: split_beta fun_eq_iff)
qed simp

lemma cas_rest_chain: "distinct (keys_of_chain e) \<Longrightarrow>
    (snd (cas_rest key old new (=) e) \<longleftrightarrow> map_of (chain e) key = Some old) \<and>
    keys_of_chain (fst (cas_rest key old new (=) e)) = keys_of_chain e \<and>
    map_of (chain (fst (cas_rest key old new (=) e))) =
      (if map_of (chain e) key = Some old then (map_of (chain e))(key \<mapsto> new) else map_of (chain e))"
proof (induction e rule: chain.induct)
  case (2 k w ov)
  then have "map_of (chain ov) k = None" by (simp add: map_of_eq_None_iff)
  with 2 show ?case by (cases "k = key") (auto simp: split_beta fun_eq_iff)
qed simp

lemma delete_rest_chain: "distinct (keys_of_chain e) \<Longrightarrow>
    snd (delete_rest key e) = map_of (chain e) key \<and> keys_of_chain (fst (delete_rest key e)) = remove1 key (keys_of_chain e) \<and>
    map_of (chain (fst (delete_rest key e))) = (map_of (chain e))(key := None)"
proof (induction e rule: chain.induct)
  case (2 k w ov)
  then have "map_of (chain ov) k = None" by (simp add: map_of_eq_None_iff)
  with 2 show ?case by (cases "k = key") (auto simp: split_beta fun_eq_iff)
qed (simp add: fun_eq_iff)

lemma cad_rest_chain: "distinct (keys_of_chain e) \<Longrightarrow>
    (snd (cad_rest key old (=) e) \<longleftrightarrow> map_of (chain e) key = Some old) \<and>
    keys_of_chain (fst (cad_rest key old (=) e)) =
      (if map_of (chain e) key = Some old then remove1 key (keys_of_chain e) else keys_of_chain e) \<and>
    map_of (chain (fst (cad_rest key old (=) e))) =
      (if map_of (chain e) key = Some old then (map_of (chain e))(key := None) else map_of (chain e))"
proof (induction e rule: chain.induct)
  case (2 k w ov)
  then have "map_of (chain ov) k = None" by (simp add: map_of_eq_None_iff)
  with 2 show ?case by (cases "k = key") (auto simp: split_beta fun_eq_iff)
qed simp

text \<open>The methods, with the head, are the loops from the head on.\<close>

lemma swap_rest_Some: "swap key new h = (e', r) \<Longrightarrow> swap_rest key new (Some h) = (Some e', r)"
  by (cases h) (auto simp: swap_def split: if_splits prod.splits)

lemma cas_rest_Some: "compareAndSwap key old new eq h = (e', r) \<Longrightarrow> cas_rest key old new eq (Some h) = (Some e', r)"
  by (cases h) (auto simp: compareAndSwap_def split: if_splits prod.splits)

lemma delete_rest_Some: "loadAndDelete key h = (r, e') \<Longrightarrow> delete_rest key (Some h) = (e', r)"
  by (cases h) (auto simp: loadAndDelete_def split: if_splits prod.splits)

lemma cad_rest_Some: "compareAndDelete key old eq h = (e', r) \<Longrightarrow> cad_rest key old eq (Some h) = (e', r)"
  by (cases h) (auto simp: compareAndDelete_def split: if_splits prod.splits)

section \<open>The invariant\<close>

fun node_pairs :: "('k, 'v) trie_node \<Rightarrow> ('k \<times> 'v) list"
  and children_pairs :: "('k, 'v) children \<Rightarrow> ('k \<times> 'v) list" where
  "node_pairs (EntryNode e) = chain (Some e)"
| "node_pairs (Indirect ch) = children_pairs ch"
| "children_pairs [] = []"
| "children_pairs (None # ns) = children_pairs ns"
| "children_pairs (Some n # ns) = node_pairs n @ children_pairs ns"

definition slot_pairs :: "('k, 'v) trie_node option \<Rightarrow> ('k \<times> 'v) list" where
  "slot_pairs n = (case n of None \<Rightarrow> [] | Some n \<Rightarrow> node_pairs n)"

lemma slot_pairs_simps [simp]: "slot_pairs None = []" "slot_pairs (Some n) = node_pairs n"
  by (simp_all add: slot_pairs_def)

lemma children_pairs_concat: "children_pairs ch = concat (map slot_pairs ch)"
proof (induction ch)
  case (Cons n ch)
  then show ?case by (cases n) auto
qed simp

abbreviation slot_keys :: "('k, 'v) trie_node option \<Rightarrow> 'k set" where
  "slot_keys n \<equiv> fst ` set (slot_pairs n)"

text \<open>
  \<open>node_ok H s n\<close> for a node in a slot that is read at shift \<open>s\<close>: in a chain all hashes are equal and the keys
  distinct; each child of an indirect node, which is not empty, has only keys whose hash leads to it.
\<close>

inductive node_ok :: "('k \<Rightarrow> 64 word) \<Rightarrow> nat \<Rightarrow> ('k, 'v) trie_node \<Rightarrow> bool" for H where
  entry: "distinct (keys_of_chain (Some e)) \<Longrightarrow> \<forall>k \<in> set (keys_of_chain (Some e)). H k = H (entry_key e) \<Longrightarrow> node_ok H s (EntryNode e)"
| indirect: "length ch = 16 \<Longrightarrow> \<not> indirect_empty ch \<Longrightarrow>
    (\<forall>j n. j < 16 \<longrightarrow> ch ! j = Some n \<longrightarrow> node_ok H s n \<and> (\<forall>k \<in> fst ` set (node_pairs n). child_index (H k) s = j)) \<Longrightarrow>
    node_ok H (s + 4) (Indirect ch)"

inductive_cases node_ok_EntryE: "node_ok H s (EntryNode e)"
inductive_cases node_ok_IndirectE: "node_ok H s (Indirect ch)"
inductive_simps node_ok_Entry: "node_ok H s (EntryNode e)"

definition children_ok :: "('k \<Rightarrow> 64 word) \<Rightarrow> nat \<Rightarrow> ('k, 'v) children \<Rightarrow> bool" where
  "children_ok H s ch \<longleftrightarrow> length ch = 16 \<and>
     (\<forall>j n. j < 16 \<longrightarrow> ch ! j = Some n \<longrightarrow> node_ok H s n \<and> (\<forall>k \<in> fst ` set (node_pairs n). child_index (H k) s = j))"

lemma node_ok_Indirect: "node_ok H (s + 4) (Indirect ch) \<longleftrightarrow> children_ok H s ch \<and> \<not> indirect_empty ch"
  unfolding children_ok_def by (rule iffI) (erule node_ok_IndirectE, simp, simp add: node_ok.indirect)

lemma node_ok_Indirect_shift: "node_ok H t (Indirect ch) \<Longrightarrow> \<exists>s. t = s + 4"
  by (auto elim: node_ok_IndirectE)

section \<open>Bits of the hash\<close>

lemma child_index_take: "child_index h s = unat (take_bit 4 (drop_bit s h))"
proof -
  have "(15 :: 64 word) = mask 4" by (simp add: mask_eq_exp_minus_1)
  then show ?thesis unfolding child_index_def by (simp only: take_bit_eq_mask)
qed

lemma child_index_less [simp]: "child_index h s < 16"
  using take_bit_nat_less_exp [of 4 "unat (drop_bit s h)"] by (simp add: child_index_take unsigned_take_bit_eq)

text \<open>Two hashes agree from a bit on iff they agree from four bits higher on and have the same child index there.\<close>

lemma agree_step: "drop_bit s h = drop_bit s h' \<longleftrightarrow>
    drop_bit (s + 4) h = drop_bit (s + 4) h' \<and> child_index h s = child_index h' s"
proof -
  have split: "drop_bit s x = push_bit 4 (drop_bit (s + 4) x) + take_bit 4 (drop_bit s x)" for x :: "64 word"
    by (simp add: bits_ident add.commute [of s] flip: drop_bit_drop_bit)
  have up: "drop_bit (s + 4) x = drop_bit 4 (drop_bit s x)" for x :: "64 word" by (simp add: add.commute)
  show ?thesis
  proof
    assume "drop_bit s h = drop_bit s h'"
    then show "drop_bit (s + 4) h = drop_bit (s + 4) h' \<and> child_index h s = child_index h' s" unfolding up child_index_take by simp
  next
    assume "drop_bit (s + 4) h = drop_bit (s + 4) h' \<and> child_index h s = child_index h' s"
    then have "drop_bit (s + 4) h = drop_bit (s + 4) h'" "take_bit 4 (drop_bit s h) = take_bit 4 (drop_bit s h')"
      by (simp_all add: child_index_take unat_inj)
    then show "drop_bit s h = drop_bit s h'" by (metis split)
  qed
qed

lemma agree_all [simp]: "drop_bit 64 (h :: 64 word) = 0"
  by (rule bit_eqI) (simp add: bit_drop_bit_eq)

section \<open>One slot of an indirect node\<close>

lemma map_of_concat_at:
  assumes "j < length xs" and "\<And>i. i < length xs \<Longrightarrow> i \<noteq> j \<Longrightarrow> key \<notin> fst ` set (xs ! i)"
  shows "map_of (concat xs) key = map_of (xs ! j) key"
  using assms
proof (induction xs arbitrary: j)
  case (Cons x xs)
  show ?case
  proof (cases j)
    case 0
    have "key \<notin> fst ` set (concat xs)" using Cons.prems(2) 0 by (force simp: in_set_conv_nth)
    then have "map_of (concat xs) key = None" by (simp add: map_of_eq_None_iff del: set_concat)
    with 0 show ?thesis by (simp add: map_add_def split: option.split)
  next
    case (Suc i)
    have "key \<notin> fst ` set x" using Cons.prems(2) [of 0] Suc by simp
    then have "map_of x key = None" by (simp add: map_of_eq_None_iff)
    moreover have "map_of (concat xs) key = map_of (xs ! i) key"
    proof (rule Cons.IH)
      show "i < length xs" using Cons.prems(1) Suc by simp
      show "key \<notin> fst ` set (xs ! i')" if "i' < length xs" "i' \<noteq> i" for i' using Cons.prems(2) [of "Suc i'"] Suc that by simp
    qed
    ultimately show ?thesis using Suc by (simp add: map_add_def)
  qed
qed simp

definition trie_map :: "('k, 'v) children \<Rightarrow> 'k \<rightharpoonup> 'v" where
  "trie_map ch = map_of (children_pairs ch)"

lemma trie_map_slot:
  assumes "children_ok H s ch"
  shows "trie_map ch key = map_of (slot_pairs (ch ! child_index (H key) s)) key"
  unfolding trie_map_def children_pairs_concat
proof (subst map_of_concat_at [of "child_index (H key) s"])
  show "key \<notin> fst ` set (map slot_pairs ch ! i)" if "i < length (map slot_pairs ch)" "i \<noteq> child_index (H key) s" for i
    using assms that unfolding children_ok_def by (cases "ch ! i") (auto, metis fst_conv)
qed (use assms in \<open>simp_all add: children_ok_def\<close>)

definition slot_ok :: "('k \<Rightarrow> 64 word) \<Rightarrow> nat \<Rightarrow> nat \<Rightarrow> ('k, 'v) trie_node option \<Rightarrow> bool" where
  "slot_ok H s j n \<longleftrightarrow> (\<forall>x. n = Some x \<longrightarrow> node_ok H s x) \<and> (\<forall>k \<in> slot_keys n. child_index (H k) s = j)"

lemma slot_other: "slot_ok H s j n \<Longrightarrow> child_index (H k) s \<noteq> j \<Longrightarrow> map_of (slot_pairs n) k = None"
  unfolding slot_ok_def map_of_eq_None_iff by metis

lemma slot_of_children: "children_ok H s ch \<Longrightarrow> j < 16 \<Longrightarrow> slot_ok H s j (ch ! j) \<and> slot ch j = ch ! j"
  unfolding children_ok_def slot_ok_def by (cases "ch ! j") (auto simp: slot_def)

lemma update_slot:
  assumes "children_ok H s ch" and "slot_ok H s j n" and "j < 16"
  shows "children_ok H s (ch[j := n])"
    and "trie_map (ch[j := n]) = (\<lambda>k. if child_index (H k) s = j then map_of (slot_pairs n) k else trie_map ch k)"
proof -
  show c: "children_ok H s (ch[j := n])"
    using assms unfolding children_ok_def slot_ok_def by (auto simp: nth_list_update split: if_splits)
  show "trie_map (ch[j := n]) = (\<lambda>k. if child_index (H k) s = j then map_of (slot_pairs n) k else trie_map ch k)"
    using assms(1,3) by (auto simp: fun_eq_iff trie_map_slot [OF c] trie_map_slot [OF assms(1)] nth_list_update children_ok_def)
qed

lemma indirect_empty_upd: "j < length ch \<Longrightarrow> \<not> indirect_empty (ch[j := Some n])"
  unfolding indirect_empty_def by (metis set_update_memI option.distinct(1))

lemma length_new [simp]: "length newIndirectNode = 16"
  by (simp add: newIndirectNode_def)

lemma children_ok_new: "children_ok H s newIndirectNode"
  by (simp add: children_ok_def newIndirectNode_def)

lemma trie_map_new [simp]: "trie_map newIndirectNode = Map.empty"
  by (auto simp: trie_map_def children_pairs_concat newIndirectNode_def)

lemma trie_map_keys: "dom (trie_map ch) = fst ` set (children_pairs ch)"
  by (simp add: trie_map_def dom_map_of_conv_image_fst)

section \<open>Search, insertion of a second entry, and the work on a slot\<close>

text \<open>One level of the three loops.\<close>

lemma load_step: "load_loop key hash (s + 4) ch = (case slot ch (child_index hash s) of
    None \<Rightarrow> Inr None | Some (EntryNode e) \<Rightarrow> Inr (lookup key (Some e)) | Some (Indirect ch') \<Rightarrow> load_loop key hash s ch')"
  by (subst load_loop.simps) (simp add: Let_def)

lemma at_slot_step: "at_slot hash act (s + 4) ch = (case slot ch (child_index hash s) of
    Some (Indirect ch') \<Rightarrow> rbind (at_slot hash act s ch') (\<lambda>(ch1, removed, r).
      Inr (if removed \<and> indirect_empty ch1 then (ch[child_index hash s := None], True, r)
           else (ch[child_index hash s := Some (Indirect ch1)], False, r)))
  | n \<Rightarrow> rbind (act s n) (\<lambda>(n', r). Inr (ch[child_index hash s := n'], n \<noteq> None \<and> n' = None, r)))"
  by (subst at_slot.simps) (simp add: Let_def split: option.split trie_node.split)

lemma expand_step: "expand_loop oldHash newHash e f (s + 4) =
    (let oi = child_index oldHash s; ni = child_index newHash s in
      if oi \<noteq> ni then Inr (Indirect (newIndirectNode[oi := Some (EntryNode e), ni := Some (EntryNode f)]))
      else rbind (expand_loop oldHash newHash e f s) (\<lambda>n. Inr (Indirect (newIndirectNode[oi := Some n]))))"
  by (subst expand_loop.simps) (simp add: Let_def)

text \<open>Below the last four bits there are only entries.\<close>

lemma slot_cases:
  assumes "children_ok H s ch"
  obtains (nil) "slot ch (child_index h s) = None" "ch ! child_index h s = None"
  | (entry) e where "slot ch (child_index h s) = Some (EntryNode e)" "ch ! child_index h s = Some (EntryNode e)"
      "slot_ok H s (child_index h s) (Some (EntryNode e))"
  | (indirect) ch' t where "slot ch (child_index h s) = Some (Indirect ch')" "ch ! child_index h s = Some (Indirect ch')"
      "s = t + 4" "children_ok H t ch'" "\<not> indirect_empty ch'" "slot_ok H s (child_index h s) (Some (Indirect ch'))"
proof -
  have s: "slot ch (child_index h s) = ch ! child_index h s" "slot_ok H s (child_index h s) (ch ! child_index h s)"
    using slot_of_children [OF assms, of "child_index h s"] by simp_all
  show thesis
  proof (cases "ch ! child_index h s")
    case (Some n)
    show ?thesis
    proof (cases n)
      case (Indirect ch')
      with s Some obtain t where "s = t + 4" by (auto simp: slot_ok_def dest!: node_ok_Indirect_shift)
      with s Some Indirect show ?thesis by (intro indirect [of ch' t]) (simp_all add: slot_ok_def node_ok_Indirect)
    qed (use s Some entry in auto)
  qed (use s nil in auto)
qed

lemma load_loop_correct:
  "children_ok H s ch \<Longrightarrow> load_loop key (H key) (s + 4) ch = Inr (trie_map ch key)"
proof (induction s arbitrary: ch rule: less_induct)
  case (less s)
  from less.prems show ?case
  proof (cases rule: slot_cases [where h = "H key"])
    case nil
    then show ?thesis by (simp add: load_step trie_map_slot [OF less.prems])
  next
    case (entry e)
    then show ?thesis by (simp add: load_step trie_map_slot [OF less.prems] lookup_map)
  next
    case (indirect ch' t)
    have "load_loop key (H key) s ch' = Inr (trie_map ch' key)" using less.IH [of t ch'] indirect(3,4) by simp
    moreover have "trie_map ch key = trie_map ch' key" using trie_map_slot [OF less.prems, of key] indirect(2) by (simp add: trie_map_def)
    ultimately show ?thesis by (simp only: load_step indirect(1) option.case trie_node.case)
  qed
qed

text \<open>
  Two entries whose hashes differ, but not from bit \<open>4 * m\<close> on, part at some level below: \<open>expand\<close> ends without running out
  of bits, and its subtree holds the two chains.
\<close>

lemma expand_loop_correct:
  assumes "drop_bit (4 * m) (H (entry_key e)) = drop_bit (4 * m) (H (entry_key f))" and "H (entry_key e) \<noteq> H (entry_key f)"
    and "node_ok H 0 (EntryNode e)" and "node_ok H 0 (EntryNode f)"
  shows "\<exists>n. expand_loop (H (entry_key e)) (H (entry_key f)) e f (4 * m) = Inr n \<and> node_ok H (4 * m) n \<and>
    map_of (node_pairs n) = map_of (chain (Some e)) ++ map_of (chain (Some f)) \<and>
    fst ` set (node_pairs n) = set (keys_of_chain (Some e)) \<union> set (keys_of_chain (Some f))"
  using assms(1)
proof (induction m)
  case 0
  then show ?case using assms(2) by simp
next
  case (Suc m)
  let ?s = "4 * m" and ?e = "H (entry_key e)" and ?f = "H (entry_key f)"
  let ?i = "child_index ?e ?s" and ?j = "child_index ?f ?s"
  have s4: "4 * Suc m = ?s + 4" by simp
  have he: "slot_ok H ?s ?i (Some (EntryNode e))" and hf: "slot_ok H ?s ?j (Some (EntryNode f))"
    using assms(3,4) by (auto simp: slot_ok_def node_ok_Entry)
  have part: "child_index (H k) ?s = ?i" if "k \<in> set (keys_of_chain (Some e))" for k using he that unfolding slot_ok_def by (metis list.set_map node_pairs.simps(1) slot_pairs_simps(2))
  have part': "child_index (H k) ?s = ?j" if "k \<in> set (keys_of_chain (Some f))" for k using hf that unfolding slot_ok_def by (metis list.set_map node_pairs.simps(1) slot_pairs_simps(2))
  note n0 = children_ok_new [of H ?s]
  have absent: "map_of (chain (Some e)) k = None" if "child_index (H k) ?s \<noteq> ?i" for k using part [of k] that by (auto simp: map_of_eq_None_iff)
  have absent': "map_of (chain (Some f)) k = None" if "child_index (H k) ?s \<noteq> ?j" for k using part' [of k] that by (auto simp: map_of_eq_None_iff)
  show ?case
  proof (cases "?i = ?j")
    case False
    let ?n = "newIndirectNode[?i := Some (EntryNode e), ?j := Some (EntryNode f)]"
    note n1 = update_slot [OF n0 he child_index_less] and n2 = update_slot [OF update_slot(1) [OF n0 he child_index_less] hf child_index_less]
    have m: "trie_map ?n = map_of (chain (Some e)) ++ map_of (chain (Some f))"
      unfolding n2(2) n1(2) using False by (auto simp: fun_eq_iff map_add_def absent absent' split: option.split)
    have "fst ` set (children_pairs ?n) = dom (trie_map ?n)" by (simp add: trie_map_keys)
    then have "fst ` set (children_pairs ?n) = set (keys_of_chain (Some e)) \<union> set (keys_of_chain (Some f))"
      unfolding m dom_map_add by (auto simp: dom_map_of_conv_image_fst)
    moreover have "\<not> indirect_empty ?n" by (rule indirect_empty_upd) simp
    ultimately show ?thesis using False m n2(1)
      unfolding s4 expand_step by (simp add: Let_def node_ok_Indirect trie_map_def)
  next
    case True
    then have "drop_bit ?s ?e = drop_bit ?s ?f" using Suc.prems agree_step [of ?s ?e ?f] by (simp add: add.commute)
    from Suc.IH [OF this] obtain n where n: "expand_loop ?e ?f e f ?s = Inr n" "node_ok H ?s n"
      "map_of (node_pairs n) = map_of (chain (Some e)) ++ map_of (chain (Some f))"
      "fst ` set (node_pairs n) = set (keys_of_chain (Some e)) \<union> set (keys_of_chain (Some f))" by blast
    have "child_index (H k) ?s = ?i" if "k \<in> slot_keys (Some n)" for k
    proof -
      have "k \<in> set (keys_of_chain (Some e)) \<or> k \<in> set (keys_of_chain (Some f))" using that n(4) by simp
      then show ?thesis using part part' True by metis
    qed
    then have hn: "slot_ok H ?s ?i (Some n)" using n(2) by (auto simp: slot_ok_def)
    let ?n = "newIndirectNode[?i := Some n]"
    note n1 = update_slot [OF n0 hn child_index_less]
    have m: "trie_map ?n = map_of (node_pairs n)"
      unfolding n1(2) using slot_other [OF hn] by (auto simp: fun_eq_iff)
    have "fst ` set (children_pairs ?n) = dom (trie_map ?n)" by (simp add: trie_map_keys)
    then have "fst ` set (children_pairs ?n) = fst ` set (node_pairs n)" unfolding m by (simp add: dom_map_of_conv_image_fst)
    moreover have "\<not> indirect_empty ?n" by (rule indirect_empty_upd) simp
    ultimately show ?thesis using True m n n1(1)
      unfolding s4 expand_step by (simp add: Let_def node_ok_Indirect trie_map_def)
  qed
qed

text \<open>
  What is done at a slot is \<open>good\<close> when it always ends, keeps the slot in order, and does to the map that \<open>upd\<close>
  says for the key, whatever the shift is.
\<close>

definition agrees :: "('k \<Rightarrow> 64 word) \<Rightarrow> nat \<Rightarrow> 'k \<Rightarrow> ('k, 'v) trie_node option \<Rightarrow> bool" where
  "agrees H s key n \<longleftrightarrow> (\<forall>k \<in> slot_keys n. drop_bit s (H k) = drop_bit s (H key))"

definition plain_slot :: "('k, 'v) trie_node option \<Rightarrow> bool" where
  "plain_slot n \<longleftrightarrow> (\<forall>ch. n \<noteq> Some (Indirect ch))"

definition good :: "('k \<Rightarrow> 64 word) \<Rightarrow> 'k \<Rightarrow> ('v option \<Rightarrow> 'v option) \<Rightarrow> ('v option \<Rightarrow> 'r) \<Rightarrow>
    (nat \<Rightarrow> ('k, 'v) trie_node option \<Rightarrow> (('k, 'v) trie_node option \<times> 'r) res) \<Rightarrow> bool" where
  "good H key upd res act \<longleftrightarrow> (\<forall>m n. plain_slot n \<longrightarrow> (\<forall>x. n = Some x \<longrightarrow> node_ok H (4 * m) x) \<longrightarrow> agrees H (4 * m) key n \<longrightarrow>
     (\<exists>n'. act (4 * m) n = Inr (n', res (map_of (slot_pairs n) key)) \<and> (\<forall>x. n' = Some x \<longrightarrow> node_ok H (4 * m) x) \<and>
       agrees H (4 * m) key n' \<and> map_of (slot_pairs n') = (map_of (slot_pairs n))(key := upd (map_of (slot_pairs n) key))))"

lemma agrees_child:
  assumes "children_ok H s ch" and "agrees H (s + 4) key (Some (Indirect ch))"
  shows "agrees H s key (ch ! child_index (H key) s)"
proof -
  let ?j = "child_index (H key) s"
  have "drop_bit s (H k) = drop_bit s (H key)" if "k \<in> slot_keys (ch ! ?j)" for k
  proof -
    have "ch ! ?j \<in> set ch" using assms(1) by (simp add: children_ok_def)
    then have "k \<in> fst ` set (children_pairs ch)" using that by (auto simp: children_pairs_concat)
    then have "drop_bit (s + 4) (H k) = drop_bit (s + 4) (H key)" using assms(2) unfolding agrees_def by (metis node_pairs.simps(2) slot_pairs_simps(2))
    moreover have "child_index (H k) s = ?j" using slot_of_children [OF assms(1), of ?j] that unfolding slot_ok_def by (metis child_index_less)
    ultimately show ?thesis by (simp add: agree_step [of s])
  qed
  then show ?thesis by (simp add: agrees_def)
qed

lemma agrees_slot: "agrees H s key n \<Longrightarrow> \<forall>x. n = Some x \<longrightarrow> node_ok H s x \<Longrightarrow> slot_ok H s (child_index (H key) s) n"
  unfolding agrees_def slot_ok_def by (metis agree_step)

lemma agrees_up: "agrees H s key n \<Longrightarrow> k \<in> slot_keys n \<Longrightarrow> drop_bit (s + 4) (H k) = drop_bit (s + 4) (H key)"
  unfolding agrees_def by (metis agree_step)

lemma slot_changed:
  assumes c: "children_ok H s ch" and j: "j = child_index (H key) s" and n: "\<forall>x. n = Some x \<longrightarrow> node_ok H s x" "agrees H s key n"
    and m: "map_of (slot_pairs n) = (map_of (slot_pairs (ch ! j)))(key := v)"
  shows "children_ok H s (ch[j := n])" and "trie_map (ch[j := n]) = (trie_map ch)(key := v)"
proof -
  have ok: "slot_ok H s j n" and j16: "j < 16" using agrees_slot [OF n(2,1)] by (simp_all add: j)
  show "children_ok H s (ch[j := n])" by (rule update_slot(1) [OF c ok j16])
  show "trie_map (ch[j := n]) = (trie_map ch)(key := v)"
    unfolding update_slot(2) [OF c ok j16] m using trie_map_slot [OF c] j by (auto simp: fun_eq_iff)
qed

lemma agrees_Indirect: "agrees H s key (Some (Indirect ch)) \<longleftrightarrow> (\<forall>k \<in> dom (trie_map ch). drop_bit s (H k) = drop_bit s (H key))"
  unfolding agrees_def trie_map_keys by (simp add: slot_pairs_def)

lemma agrees_changed:
  "agrees H s key (Some (Indirect ch)) \<Longrightarrow> trie_map ch' = (trie_map ch)(key := v) \<Longrightarrow> agrees H s key (Some (Indirect ch'))"
  unfolding agrees_Indirect by (auto split: if_splits)

lemma empty_trie_map: "indirect_empty ch \<Longrightarrow> trie_map ch = Map.empty"
proof -
  assume "indirect_empty ch"
  then have "children_pairs ch = []" by (auto simp: indirect_empty_def children_pairs_concat)
  then show ?thesis by (simp add: trie_map_def)
qed

definition slot_work :: "('k \<Rightarrow> 64 word) \<Rightarrow> 'k \<Rightarrow> ('v option \<Rightarrow> 'v option) \<Rightarrow> ('v option \<Rightarrow> 'r) \<Rightarrow>
    (nat \<Rightarrow> ('k, 'v) trie_node option \<Rightarrow> (('k, 'v) trie_node option \<times> 'r) res) \<Rightarrow> nat \<Rightarrow> ('k, 'v) children \<Rightarrow> bool" where
  "slot_work H key upd res act s ch \<longleftrightarrow> (\<exists>ch' removed. at_slot (H key) act (s + 4) ch = Inr (ch', removed, res (trie_map ch key)) \<and>
     children_ok H s ch' \<and> trie_map ch' = (trie_map ch)(key := upd (trie_map ch key)) \<and>
     (\<not> indirect_empty ch \<longrightarrow> \<not> removed \<longrightarrow> \<not> indirect_empty ch'))"

lemma at_slot_plain:
  assumes g: "good H key upd res act" and c: "children_ok H (4 * m) ch" and a: "agrees H (4 * m + 4) key (Some (Indirect ch))"
    and p: "plain_slot (ch ! child_index (H key) (4 * m))"
  shows "slot_work H key upd res act (4 * m) ch"
proof -
  let ?s = "4 * m" let ?j = "child_index (H key) ?s" let ?n = "ch ! ?j"
  have v: "trie_map ch key = map_of (slot_pairs ?n) key" by (rule trie_map_slot [OF c])
  have s: "slot ch ?j = ?n" "\<forall>x. ?n = Some x \<longrightarrow> node_ok H ?s x" using slot_of_children [OF c, of ?j] by (simp_all add: slot_ok_def)
  obtain n' where n': "act ?s ?n = Inr (n', res (trie_map ch key))" "\<forall>x. n' = Some x \<longrightarrow> node_ok H ?s x" "agrees H ?s key n'"
    "map_of (slot_pairs n') = (map_of (slot_pairs ?n))(key := upd (trie_map ch key))"
    using g p s(2) agrees_child [OF c a] unfolding good_def v by meson
  have "at_slot (H key) act (?s + 4) ch = Inr (ch[?j := n'], ?n \<noteq> None \<and> n' = None, res (trie_map ch key))"
  proof (cases ?n)
    case (Some x)
    with p obtain e where "?n = Some (EntryNode e)" by (cases x) (simp_all add: plain_slot_def)
    with n'(1) show ?thesis by (simp add: at_slot_step s(1))
  qed (use n'(1) in \<open>simp add: at_slot_step s(1)\<close>)
  moreover have "\<not> indirect_empty (ch[?j := n'])" if "\<not> indirect_empty ch" "\<not> (?n \<noteq> None \<and> n' = None)"
  proof (cases n')
    case None
    with that(2) have "ch[?j := n'] = ch" by (metis list_update_id)
    with that(1) show ?thesis by simp
  next
    case (Some x)
    have "?j < length ch" using c by (simp add: children_ok_def)
    then show ?thesis unfolding Some by (rule indirect_empty_upd)
  qed
  ultimately show ?thesis unfolding slot_work_def using slot_changed [OF c refl n'(2,3,4)] by blast
qed

lemma at_slot_correct:
  assumes g: "good H key upd res act"
  shows "children_ok H (4 * m) ch \<Longrightarrow> agrees H (4 * m + 4) key (Some (Indirect ch)) \<Longrightarrow> slot_work H key upd res act (4 * m) ch"
proof (induction m arbitrary: ch)
  case 0
  from 0(1) have "plain_slot (ch ! child_index (H key) (4 * 0))"
    by (cases rule: slot_cases [where h = "H key"]) (simp_all add: plain_slot_def)
  then show ?case by (rule at_slot_plain [OF g 0])
next
  case (Suc m)
  let ?s = "4 * Suc m" let ?j = "child_index (H key) ?s"
  note c = Suc.prems(1) and a = Suc.prems(2)
  from c show ?case
  proof (cases rule: slot_cases [where h = "H key"])
    case (indirect ch0 t)
    then have t: "t = 4 * m" by simp
    have "agrees H (4 * m + 4) key (Some (Indirect ch0))" using agrees_child [OF c a] indirect(2) by (simp add: add.commute)
    with Suc.IH indirect(4) have "slot_work H key upd res act (4 * m) ch0" unfolding t by blast
    then obtain ch1 removed where r: "at_slot (H key) act ?s ch0 = Inr (ch1, removed, res (trie_map ch0 key))"
      "children_ok H (4 * m) ch1" "trie_map ch1 = (trie_map ch0)(key := upd (trie_map ch0 key))"
      "\<not> removed \<longrightarrow> \<not> indirect_empty ch1" using indirect(5) unfolding slot_work_def by (auto simp: add.commute)
    have v: "trie_map ch key = trie_map ch0 key" using trie_map_slot [OF c, of key] indirect(2) by (simp add: trie_map_def)
    let ?gone = "removed \<and> indirect_empty ch1"
    define n where "n = (if ?gone then None else Some (Indirect ch1))"
    have at: "at_slot (H key) act (?s + 4) ch = Inr (ch[?j := n], ?gone, res (trie_map ch key))"
      unfolding n_def by (simp add: at_slot_step indirect(1) r(1) v del: mult_Suc_right)
    have m: "map_of (slot_pairs n) = (map_of (slot_pairs (ch ! ?j)))(key := upd (trie_map ch key))"
      using r(3) empty_trie_map [of ch1] indirect(2) v by (simp add: n_def trie_map_def)
    have ok: "\<forall>x. n = Some x \<longrightarrow> node_ok H ?s x" using r(2,4) node_ok_Indirect [of H "4 * m" ch1] by (auto simp: n_def add.commute)
    have "agrees H ?s key (Some (Indirect ch1))"
      using agrees_child [OF c a] agrees_changed [OF _ r(3)] indirect(2) by metis
    then have ag: "agrees H ?s key n" by (simp add: n_def agrees_def)
    have "\<not> indirect_empty (ch[?j := n])" if "\<not> ?gone"
    proof -
      have "n = Some (Indirect ch1)" using that by (simp only: n_def if_False)
      then show ?thesis using c indirect_empty_upd [of ?j ch] by (simp add: children_ok_def)
    qed
    with at slot_changed [OF c refl ok ag m] show ?thesis unfolding slot_work_def by blast
  qed (rule at_slot_plain [OF g c a], simp add: plain_slot_def)+
qed

section \<open>What the methods do at the slot\<close>

text \<open>A slot with a new entry, and a slot whose chain keeps or loses keys.\<close>

definition chain_ok :: "('k \<Rightarrow> 64 word) \<Rightarrow> nat \<Rightarrow> 'k \<Rightarrow> ('k, 'v) entry option \<Rightarrow> bool" where
  "chain_ok H s key c \<longleftrightarrow> distinct (keys_of_chain c) \<and> (\<exists>h. \<forall>k \<in> set (keys_of_chain c). H k = h) \<and>
     (\<forall>k \<in> set (keys_of_chain c). drop_bit s (H k) = drop_bit s (H key))"

definition slot_of_chain :: "('k, 'v) entry option \<Rightarrow> ('k, 'v) trie_node option" where
  "slot_of_chain c = map_option EntryNode c"

lemma slot_pairs_chain [simp]: "slot_pairs (slot_of_chain c) = chain c"
  by (cases c) (simp_all add: slot_of_chain_def)

lemma chain_ok_slot: "chain_ok H s key c \<longleftrightarrow>
    (\<forall>x. slot_of_chain c = Some x \<longrightarrow> node_ok H s x) \<and> agrees H s key (slot_of_chain c)"
proof (cases c)
  case (Some e)
  show ?thesis unfolding Some chain_ok_def agrees_def slot_pairs_chain
    by (auto simp: slot_of_chain_def node_ok_Entry chain_Some simp del: chain.simps)
qed (simp add: chain_ok_def agrees_def slot_of_chain_def)

lemma chain_ok_sub: "chain_ok H s key c \<Longrightarrow> distinct (keys_of_chain c') \<Longrightarrow> set (keys_of_chain c') \<subseteq> set (keys_of_chain c) \<Longrightarrow>
    chain_ok H s key c'"
  unfolding chain_ok_def by blast

lemma chain_ok_new: "chain_ok H s key (Some (newEntryNode key v))"
  by (auto simp: chain_ok_def newEntryNode_def)

lemma goodI:
  fixes upd :: "'v option \<Rightarrow> 'v option" and H :: "'k \<Rightarrow> 64 word"
  assumes "\<And>m c. chain_ok H (4 * m) key c \<Longrightarrow> \<exists>n'. act (4 * m) (slot_of_chain c) = Inr (n', res (map_of (chain c) key)) \<and>
    (\<forall>x. n' = Some x \<longrightarrow> node_ok H (4 * m) x) \<and> agrees H (4 * m) key n' \<and>
    map_of (slot_pairs n') = (map_of (chain c))(key := upd (map_of (chain c) key))"
  shows "good H key upd res act"
  unfolding good_def
proof (intro allI impI)
  fix m and n :: "('k, 'v) trie_node option"
  assume p: "plain_slot n" and n: "\<forall>x. n = Some x \<longrightarrow> node_ok H (4 * m) x" "agrees H (4 * m) key n"
  obtain c where c: "n = slot_of_chain c"
  proof (cases n)
    case None
    then show ?thesis using that [of None] by (simp add: slot_of_chain_def)
  next
    case (Some x)
    with p obtain e where "x = EntryNode e" by (cases x) (simp_all add: plain_slot_def)
    with Some show ?thesis using that [of "Some e"] by (simp add: slot_of_chain_def)
  qed
  from assms [of m c] n show "\<exists>n'. act (4 * m) n = Inr (n', res (map_of (slot_pairs n) key)) \<and>
      (\<forall>x. n' = Some x \<longrightarrow> node_ok H (4 * m) x) \<and> agrees H (4 * m) key n' \<and>
      map_of (slot_pairs n') = (map_of (slot_pairs n))(key := upd (map_of (slot_pairs n) key))"
    unfolding c chain_ok_slot slot_pairs_chain by blast
qed

text \<open>The work of \<open>find\<close>: a chain after it.\<close>

lemma goodI_chain:
  fixes upd :: "'v option \<Rightarrow> 'v option" and H :: "'k \<Rightarrow> 64 word"
  assumes "\<And>m c. chain_ok H (4 * m) key c \<Longrightarrow> \<exists>c'. act (4 * m) (slot_of_chain c) = Inr (slot_of_chain c', res (map_of (chain c) key)) \<and>
    chain_ok H (4 * m) key c' \<and> map_of (chain c') = (map_of (chain c))(key := upd (map_of (chain c) key))"
  shows "good H key upd res act"
proof (rule goodI)
  fix m and c :: "('k, 'v) entry option"
  assume "chain_ok H (4 * m) key c"
  from assms [OF this] obtain c' where "act (4 * m) (slot_of_chain c) = Inr (slot_of_chain c', res (map_of (chain c) key))"
    "chain_ok H (4 * m) key c'" "map_of (chain c') = (map_of (chain c))(key := upd (map_of (chain c) key))" by blast
  then show "\<exists>n'. act (4 * m) (slot_of_chain c) = Inr (n', res (map_of (chain c) key)) \<and> (\<forall>x. n' = Some x \<longrightarrow> node_ok H (4 * m) x) \<and>
      agrees H (4 * m) key n' \<and> map_of (slot_pairs n') = (map_of (chain c))(key := upd (map_of (chain c) key))"
    unfolding chain_ok_slot by (intro exI [of _ "slot_of_chain c'"]) simp
qed

text \<open>A second key in a slot.\<close>

lemma expand_correct:
  assumes c: "chain_ok H (4 * m) key (Some e)" and k: "map_of (chain (Some e)) key = None"
  shows "\<exists>n. expand H e (newEntryNode key v) (H key) (4 * m) = Inr n \<and> node_ok H (4 * m) n \<and> agrees H (4 * m) key (Some n) \<and>
    map_of (node_pairs n) = (map_of (chain (Some e)))(key \<mapsto> v)"
proof (cases "H (entry_key e) = H key")
  case True
  let ?c = "Some (Entry key v (Some e))"
  have "entry_key e \<in> set (keys_of_chain (Some e))" by (simp add: chain_Some)
  with c have "\<forall>k \<in> set (keys_of_chain (Some e)). H k = H key" using True unfolding chain_ok_def by metis
  moreover have "key \<notin> set (keys_of_chain (Some e))" using k by (simp add: map_of_eq_None_iff del: chain.simps)
  ultimately have "chain_ok H (4 * m) key ?c" using c by (simp add: chain_ok_def)
  then have "node_ok H (4 * m) (EntryNode (Entry key v (Some e))) \<and> agrees H (4 * m) key (Some (EntryNode (Entry key v (Some e))))"
    unfolding chain_ok_slot by (simp add: slot_of_chain_def)
  with True show ?thesis by (simp add: expand_def newEntryNode_def)
next
  case False
  let ?f = "newEntryNode key v"
  have f: "entry_key ?f = key" "chain (Some ?f) = [(key, v)]" by (simp_all add: newEntryNode_def)
  have "entry_key e \<in> set (keys_of_chain (Some e))" by (simp add: chain_Some)
  then have a: "drop_bit (4 * m) (H (entry_key e)) = drop_bit (4 * m) (H (entry_key ?f))" using c unfolding chain_ok_def f by blast
  have e: "node_ok H 0 (EntryNode e)" using c unfolding chain_ok_slot slot_of_chain_def by (simp add: node_ok_Entry)
  have g: "node_ok H 0 (EntryNode ?f)" by (auto simp: node_ok_Entry newEntryNode_def)
  obtain n where n: "expand_loop (H (entry_key e)) (H key) e ?f (4 * m) = Inr n" "node_ok H (4 * m) n"
    "map_of (node_pairs n) = map_of (chain (Some e)) ++ map_of (chain (Some ?f))"
    "fst ` set (node_pairs n) = set (keys_of_chain (Some e)) \<union> set (keys_of_chain (Some ?f))"
    using expand_loop_correct [OF a _ e g] False unfolding f(1) by blast
  have "agrees H (4 * m) key (Some n)" using c unfolding agrees_def chain_ok_def slot_pairs_simps n(4) f(2) by auto
  with n False show ?thesis by (simp add: expand_def f)
qed

lemma store_good: "good H key (\<lambda>x. Some (case x of None \<Rightarrow> v | Some w \<Rightarrow> w))
    (\<lambda>x. case x of None \<Rightarrow> (v, False) | Some w \<Rightarrow> (w, True)) (store_act H key v (H key))"
proof (rule goodI)
  fix m and c :: "('a, 'b) entry option"
  assume c: "chain_ok H (4 * m) key c"
  show "\<exists>n'. store_act H key v (H key) (4 * m) (slot_of_chain c) = Inr (n', case map_of (chain c) key of None \<Rightarrow> (v, False) | Some w \<Rightarrow> (w, True)) \<and>
    (\<forall>x. n' = Some x \<longrightarrow> node_ok H (4 * m) x) \<and> agrees H (4 * m) key n' \<and>
    map_of (slot_pairs n') = (map_of (chain c))(key := Some (case map_of (chain c) key of None \<Rightarrow> v | Some w \<Rightarrow> w))"
  proof (cases c)
    case None
    have "chain_ok H (4 * m) key (Some (newEntryNode key v))" by (rule chain_ok_new)
    with None show ?thesis unfolding chain_ok_slot by (simp add: store_act_def slot_of_chain_def newEntryNode_def fun_eq_iff)
  next
    case (Some e)
    show ?thesis
    proof (cases "map_of (chain (Some e)) key")
      case None
      with expand_correct [of H m key e v] c show ?thesis unfolding Some
        by (auto simp: store_act_def slot_of_chain_def lookup_map)
    next
      case (Some w)
      then show ?thesis using c unfolding \<open>c = Some e\<close> chain_ok_slot
        by (simp add: store_act_def slot_of_chain_def lookup_map fun_upd_idem)
    qed
  qed
qed

lemma swap_good: "good H key (\<lambda>x. Some v) (\<lambda>x. x) (swap_act H key v (H key))"
proof (rule goodI)
  fix m and c :: "('a, 'b) entry option"
  assume c: "chain_ok H (4 * m) key c"
  show "\<exists>n'. swap_act H key v (H key) (4 * m) (slot_of_chain c) = Inr (n', map_of (chain c) key) \<and>
    (\<forall>x. n' = Some x \<longrightarrow> node_ok H (4 * m) x) \<and> agrees H (4 * m) key n' \<and> map_of (slot_pairs n') = (map_of (chain c))(key := Some v)"
  proof (cases c)
    case None
    have "chain_ok H (4 * m) key (Some (newEntryNode key v))" by (rule chain_ok_new)
    with None show ?thesis unfolding chain_ok_slot by (simp add: swap_act_def slot_of_chain_def newEntryNode_def fun_eq_iff)
  next
    case (Some e)
    obtain e' r where s: "swap key v e = (e', r)" by (cases "swap key v e")
    have d: "distinct (keys_of_chain (Some e))" using c Some by (simp add: chain_ok_def)
    have w: "r = map_of (chain (Some e)) key" "keys_of_chain (Some e') = keys_of_chain (Some e)"
      "map_of (chain (Some e')) = (if r = None then map_of (chain (Some e)) else (map_of (chain (Some e)))(key \<mapsto> v))"
      using swap_rest_chain [OF d, of key v] unfolding swap_rest_Some [OF s] by auto
    show ?thesis
    proof (cases r)
      case None
      with expand_correct [of H m key e v] c w(1) s show ?thesis unfolding Some by (auto simp: swap_act_def slot_of_chain_def)
    next
      case (Some o')
      have "chain_ok H (4 * m) key (Some e')" using chain_ok_sub [of H "4 * m" key c "Some e'"] c d w(2) \<open>c = Some e\<close> by simp
      with Some w s \<open>c = Some e\<close> show ?thesis unfolding chain_ok_slot by (simp add: swap_act_def slot_of_chain_def)
    qed
  qed
qed

lemma found_good:
  fixes H :: "'k \<Rightarrow> 64 word" and upd :: "'v option \<Rightarrow> 'v option"
  assumes look: "\<And>e. distinct (keys_of_chain (Some e)) \<Longrightarrow> lookupWithValue key w eq (Some e) = None \<Longrightarrow>
      upd (map_of (chain (Some e)) key) = map_of (chain (Some e)) key \<and> res (map_of (chain (Some e)) key) = absent"
    and nil: "upd None = None" "res None = absent"
    and act: "\<And>e. distinct (keys_of_chain (Some e)) \<Longrightarrow> lookupWithValue key w eq (Some e) \<noteq> None \<Longrightarrow>
      \<exists>c'. act e = (slot_of_chain c', res (map_of (chain (Some e)) key)) \<and> distinct (keys_of_chain c') \<and>
        set (keys_of_chain c') \<subseteq> set (keys_of_chain (Some e)) \<and>
        map_of (chain c') = (map_of (chain (Some e)))(key := upd (map_of (chain (Some e)) key))"
  shows "good H key upd res (\<lambda>shift. found_act key eq w act absent)"
proof (rule goodI_chain)
  fix m and c :: "('k, 'v) entry option"
  assume c: "chain_ok H (4 * m) key c"
  show "\<exists>c'. found_act key eq w act absent (slot_of_chain c) = Inr (slot_of_chain c', res (map_of (chain c) key)) \<and>
    chain_ok H (4 * m) key c' \<and> map_of (chain c') = (map_of (chain c))(key := upd (map_of (chain c) key))"
  proof (cases c)
    case None
    with c nil show ?thesis by (intro exI [of _ None]) (simp add: found_act_def slot_of_chain_def fun_eq_iff)
  next
    case (Some e)
    have d: "distinct (keys_of_chain (Some e))" using c Some by (simp add: chain_ok_def)
    show ?thesis
    proof (cases "lookupWithValue key w eq (Some e)")
      case None
      with look [OF d None] c \<open>c = Some e\<close> show ?thesis
        by (intro exI [of _ "Some e"]) (simp add: found_act_def slot_of_chain_def fun_upd_idem)
    next
      case (Some x)
      with act [OF d] obtain c' where "act e = (slot_of_chain c', res (map_of (chain c) key))" "distinct (keys_of_chain c')"
        "set (keys_of_chain c') \<subseteq> set (keys_of_chain c)" "map_of (chain c') = (map_of (chain c))(key := upd (map_of (chain c) key))"
        unfolding \<open>c = Some e\<close> by blast
      with Some chain_ok_sub [OF c] \<open>c = Some e\<close> show ?thesis
        by (intro exI [of _ c']) (simp add: found_act_def slot_of_chain_def)
    qed
  qed
qed

lemma cas_good: "good H key (\<lambda>x. if x = Some old then Some new else x) (\<lambda>x. x = Some old)
    (\<lambda>shift. found_act key (Some (=)) old (\<lambda>e. case compareAndSwap key old new (=) e of (e', swapped) \<Rightarrow>
      if swapped then (Some (EntryNode e'), True) else (Some (EntryNode e), False)) False)"
proof (rule found_good)
  fix e :: "('a, 'b) entry"
  assume d: "distinct (keys_of_chain (Some e))"
  show "(if map_of (chain (Some e)) key = Some old then Some new else map_of (chain (Some e)) key) = map_of (chain (Some e)) key \<and>
      (map_of (chain (Some e)) key = Some old) = False" if "lookupWithValue key old (Some (=)) (Some e) = None"
    using that lookupWithValue_eq [OF d] by (simp split: if_splits)
  assume "lookupWithValue key old (Some (=)) (Some e) \<noteq> None"
  then have old: "map_of (chain (Some e)) key = Some old" using lookupWithValue_eq [OF d] by (simp split: if_splits)
  obtain e' r where s: "compareAndSwap key old new (=) e = (e', r)" by (cases "compareAndSwap key old new (=) e")
  from cas_rest_chain [OF d, of key old new] old show "\<exists>c'. (case compareAndSwap key old new (=) e of (e', swapped) \<Rightarrow>
      if swapped then (Some (EntryNode e'), True) else (Some (EntryNode e), False)) = (slot_of_chain c', map_of (chain (Some e)) key = Some old) \<and>
      distinct (keys_of_chain c') \<and> set (keys_of_chain c') \<subseteq> set (keys_of_chain (Some e)) \<and>
      map_of (chain c') = (map_of (chain (Some e)))(key := if map_of (chain (Some e)) key = Some old then Some new else map_of (chain (Some e)) key)"
    unfolding cas_rest_Some [OF s] by (intro exI [of _ "Some e'"]) (simp add: s d slot_of_chain_def del: set_map)
qed simp_all

lemma lad_good: "good H key (\<lambda>x. None) (\<lambda>x. x) (\<lambda>shift. found_act key None z (\<lambda>e. case loadAndDelete key e of
      (None, e') \<Rightarrow> (Some (EntryNode e), None) | (Some v, None) \<Rightarrow> (None, Some v) | (Some v, Some e') \<Rightarrow> (Some (EntryNode e'), Some v)) None)"
proof (rule found_good)
  fix e :: "('a, 'b) entry"
  assume d: "distinct (keys_of_chain (Some e))"
  show "None = map_of (chain (Some e)) key \<and> map_of (chain (Some e)) key = None" if "lookupWithValue key z None (Some e) = None"
    using that by (simp add: lookupWithValue_key)
  assume "lookupWithValue key z None (Some e) \<noteq> None"
  then obtain v where v: "map_of (chain (Some e)) key = Some v" by (auto simp: lookupWithValue_key)
  obtain r c' where s: "loadAndDelete key e = (r, c')" by (cases "loadAndDelete key e")
  from delete_rest_chain [OF d, of key] v show "\<exists>c'. (case loadAndDelete key e of
      (None, e') \<Rightarrow> (Some (EntryNode e), None) | (Some v, None) \<Rightarrow> (None, Some v) | (Some v, Some e') \<Rightarrow> (Some (EntryNode e'), Some v)) =
      (slot_of_chain c', map_of (chain (Some e)) key) \<and> distinct (keys_of_chain c') \<and>
      set (keys_of_chain c') \<subseteq> set (keys_of_chain (Some e)) \<and> map_of (chain c') = (map_of (chain (Some e)))(key := None)"
    unfolding delete_rest_Some [OF s]
    by (intro exI [of _ c']) (cases c'; simp add: s d distinct_remove1 set_remove1_subset slot_of_chain_def del: set_map)
qed simp_all

lemma cad_good: "good H key (\<lambda>x. if x = Some old then None else x) (\<lambda>x. x = Some old)
    (\<lambda>shift. found_act key None z (\<lambda>e. case compareAndDelete key old (=) e of
      (e', False) \<Rightarrow> (Some (EntryNode e), False) | (None, True) \<Rightarrow> (None, True) | (Some e', True) \<Rightarrow> (Some (EntryNode e'), True)) False)"
proof (rule found_good)
  fix e :: "('a, 'b) entry"
  assume d: "distinct (keys_of_chain (Some e))"
  show "(if map_of (chain (Some e)) key = Some old then None else map_of (chain (Some e)) key) = map_of (chain (Some e)) key \<and>
      (map_of (chain (Some e)) key = Some old) = False" if "lookupWithValue key z None (Some e) = None"
    using that by (simp add: lookupWithValue_key)
  obtain c' r where s: "compareAndDelete key old (=) e = (c', r)" by (cases "compareAndDelete key old (=) e")
  let ?c = "if r then c' else Some e"
  from cad_rest_chain [OF d, of key old] show "\<exists>c'. (case compareAndDelete key old (=) e of
      (e', False) \<Rightarrow> (Some (EntryNode e), False) | (None, True) \<Rightarrow> (None, True) | (Some e', True) \<Rightarrow> (Some (EntryNode e'), True)) =
      (slot_of_chain c', map_of (chain (Some e)) key = Some old) \<and> distinct (keys_of_chain c') \<and>
      set (keys_of_chain c') \<subseteq> set (keys_of_chain (Some e)) \<and>
      map_of (chain c') = (map_of (chain (Some e)))(key := if map_of (chain (Some e)) key = Some old then None else map_of (chain (Some e)) key)"
    unfolding cad_rest_Some [OF s]
    by (intro exI [of _ ?c]) (cases r; cases c'; simp add: s d distinct_remove1 set_remove1_subset slot_of_chain_def fun_upd_idem del: set_map)
qed simp_all

section \<open>The map\<close>

definition trie_inv :: "('k, 'v) map_type \<Rightarrow> ('k, 'v) hash_trie \<Rightarrow> bool" where
  "trie_inv T ht \<longleftrightarrow> (inited ht \<longrightarrow> children_ok (ht_hash T ht) 60 (trie_root ht))"

definition trie_content :: "('k, 'v) hash_trie \<Rightarrow> 'k \<rightharpoonup> 'v" where
  "trie_content ht = (if inited ht then trie_map (trie_root ht) else Map.empty)"

lemma trie_init_ok:
  assumes "trie_inv T ht"
  shows "inited (trie_init r ht)" and "trie_inv T (trie_init r ht)" and "trie_content (trie_init r ht) = trie_content ht"
  using assms by (auto simp: trie_init_def initSlow_def trie_inv_def trie_content_def ht_hash_def children_ok_new)

lemma on_slot_correct:
  assumes s: "trie_inv T s" and ht: "ht = trie_init (runtime_rand T) s" and g: "good (ht_hash T ht) key upd res (act (ht_hash T ht key))"
  shows "\<exists>ht'. on_slot T key act ht = Inr (ht', res (trie_content s key)) \<and> trie_inv T ht' \<and>
    trie_content ht' = (trie_content s)(key := upd (trie_content s key))"
proof -
  note i = trie_init_ok [OF s, of "runtime_rand T", folded ht]
  let ?H = "ht_hash T ht" and ?ch = "trie_root ht"
  have c: "children_ok ?H (4 * 15) ?ch" using i(1,2) by (simp add: trie_inv_def)
  have "agrees ?H (4 * 15 + 4) key (Some (Indirect ?ch))" by (simp add: agrees_def)
  from at_slot_correct [OF g c this] obtain ch' removed where r: "at_slot (?H key) (act (?H key)) 64 ?ch = Inr (ch', removed, res (trie_map ?ch key))"
    "children_ok ?H 60 ch'" "trie_map ch' = (trie_map ?ch)(key := upd (trie_map ?ch key))" by (auto simp: slot_work_def)
  let ?ht = "ht\<lparr>trie_root := ch'\<rparr>"
  have "ht_hash T ?ht = ?H" by (simp add: ht_hash_def fun_eq_iff)
  moreover have "trie_content s = trie_map ?ch" using i(1,3) by (simp add: trie_content_def)
  ultimately have "on_slot T key act ht = Inr (?ht, res (trie_content s key)) \<and> trie_inv T ?ht \<and>
      trie_content ?ht = (trie_content s)(key := upd (trie_content s key))"
    using r i(1) by (simp add: on_slot_def trie_inv_def) (simp add: trie_content_def)
  then show ?thesis by blast
qed

lemma ht_Load_correct:
  assumes "trie_inv T s"
  shows "\<exists>s'. ht_Load T key s = Inr (s', trie_content s key) \<and> trie_inv T s' \<and> trie_content s' = trie_content s"
proof -
  let ?s = "trie_init (runtime_rand T) s"
  note i = trie_init_ok [OF assms, of "runtime_rand T"]
  have c: "children_ok (ht_hash T ?s) 60 (trie_root ?s)" using i(1,2) by (simp add: trie_inv_def)
  have "trie_content s = trie_map (trie_root ?s)" using i(1,3) by (simp add: trie_content_def)
  with load_loop_correct [OF c, of key] i show ?thesis by (intro exI [of _ ?s]) (simp add: ht_Load_def Let_def)
qed

lemma ht_LoadOrStore_correct:
  assumes "trie_inv T s"
  shows "\<exists>s'. ht_LoadOrStore T key v s = Inr (s', case trie_content s key of None \<Rightarrow> (v, False) | Some w \<Rightarrow> (w, True)) \<and> trie_inv T s' \<and>
    trie_content s' = (trie_content s)(key := Some (case trie_content s key of None \<Rightarrow> v | Some w \<Rightarrow> w))"
  unfolding ht_LoadOrStore_def Let_def
  by (rule on_slot_correct [OF assms(1) refl, where res = "\<lambda>x. case x of None \<Rightarrow> (v, False) | Some w \<Rightarrow> (w, True)" and upd = "\<lambda>x. Some (case x of None \<Rightarrow> v | Some w \<Rightarrow> w)"]) (rule store_good)

lemma ht_Swap_correct:
  assumes "trie_inv T s"
  shows "\<exists>s'. ht_Swap T key v s = Inr (s', trie_content s key) \<and> trie_inv T s' \<and>
    trie_content s' = (trie_content s)(key := Some v)"
  unfolding ht_Swap_def Let_def
  by (rule on_slot_correct [OF assms(1) refl, where res = "\<lambda>x. x" and upd = "\<lambda>x. Some v"]) (rule swap_good)

lemma ht_CompareAndSwap_correct:
  assumes "trie_inv T s" and "valEqual T = Some (=)"
  shows "\<exists>s'. ht_CompareAndSwap T key old new s = Inr (s', trie_content s key = Some old) \<and> trie_inv T s' \<and>
    trie_content s' = (trie_content s)(key := if trie_content s key = Some old then Some new else trie_content s key)"
  unfolding ht_CompareAndSwap_def Let_def assms(2) option.case
  by (rule on_slot_correct [OF assms(1) refl, where res = "\<lambda>x. x = Some old" and upd = "\<lambda>x. if x = Some old then Some new else x"]) (rule cas_good)

lemma ht_LoadAndDelete_correct:
  assumes "trie_inv T s"
  shows "\<exists>s'. ht_LoadAndDelete T key s = Inr (s', trie_content s key) \<and> trie_inv T s' \<and>
    trie_content s' = (trie_content s)(key := None)"
  unfolding ht_LoadAndDelete_def Let_def
  by (rule on_slot_correct [OF assms(1) refl, where res = "\<lambda>x. x" and upd = "\<lambda>x. None"]) (rule lad_good)

lemma ht_CompareAndDelete_correct:
  assumes "trie_inv T s" and "valEqual T = Some (=)"
  shows "\<exists>s'. ht_CompareAndDelete T key old s = Inr (s', trie_content s key = Some old) \<and> trie_inv T s' \<and>
    trie_content s' = (trie_content s)(key := if trie_content s key = Some old then None else trie_content s key)"
  unfolding ht_CompareAndDelete_def Let_def assms(2) option.case
  by (rule on_slot_correct [OF assms(1) refl, where res = "\<lambda>x. x = Some old" and upd = "\<lambda>x. if x = Some old then None else x"]) (rule cad_good)

lemma ht_Clear_correct: "trie_inv T (ht_Clear T s) \<and> trie_content (ht_Clear T s) = Map.empty"
  by (auto simp: ht_Clear_def trie_inv_def trie_content_def children_ok_new)

lemma ht_run_correct:
  assumes "trie_inv T s" and "valEqual T = Some (=)"
  shows "\<exists>s'. ht_run T s c = Inr (s', snd (map_spec (trie_content s) c)) \<and> trie_inv T s' \<and>
    trie_content s' = fst (map_spec (trie_content s) c)"
proof (cases c)
  case (MLoad k)
  then show ?thesis using ht_Load_correct [OF assms(1), of k] by auto
next
  case (MStore k v)
  then show ?thesis using ht_Swap_correct [OF assms(1), of k v] by (auto simp: ht_Store_def)
next
  case (MLoadOrStore k v)
  then show ?thesis using ht_LoadOrStore_correct [OF assms(1), of k v] by (cases "trie_content s k") (auto simp: fun_upd_idem)
next
  case (MSwap k v)
  then show ?thesis using ht_Swap_correct [OF assms(1), of k v] by auto
next
  case (MCompareAndSwap k old new)
  then show ?thesis using ht_CompareAndSwap_correct [OF assms, of k old new] by (auto simp: fun_upd_idem)
next
  case (MLoadAndDelete k)
  then show ?thesis using ht_LoadAndDelete_correct [OF assms(1), of k] by auto
next
  case (MDelete k)
  then show ?thesis using ht_LoadAndDelete_correct [OF assms(1), of k] by (auto simp: ht_Delete_def)
next
  case (MCompareAndDelete k old)
  then show ?thesis using ht_CompareAndDelete_correct [OF assms, of k old] by (auto simp: fun_upd_idem)
next
  case MClear
  then show ?thesis using ht_Clear_correct [of T s] by simp
qed

text \<open>A map type whose values can be compared.\<close>

definition comparable :: "('k \<Rightarrow> 64 word \<Rightarrow> 64 word) \<Rightarrow> 'v \<Rightarrow> 64 word \<Rightarrow> ('k, 'v) map_type" where
  "comparable h z r = \<lparr>keyHash = h, valEqual = Some (=), zeroValue = z, runtime_rand = r\<rparr>"

interpretation ht: map_impl "ht_run (comparable h z r)" "trie_inv (comparable h z r)" trie_content new_hash_trie for h z r
proof unfold_locales
  show "trie_inv (comparable h z r) new_hash_trie" by (simp add: trie_inv_def new_hash_trie_def)
  show "trie_content new_hash_trie = Map.empty" by (simp add: trie_content_def new_hash_trie_def)
  show "trie_inv (comparable h z r) s \<Longrightarrow> \<exists>s'. ht_run (comparable h z r) s c = Inr (s', snd (map_spec (trie_content s) c)) \<and>
    trie_inv (comparable h z r) s' \<and> trie_content s' = fst (map_spec (trie_content s) c)" for s c
    by (rule ht_run_correct) (simp_all add: comparable_def)
qed

section \<open>Iteration\<close>

lemma iter_chain_pairs: "iter_chain f c a = yield_all f (chain c) a"
  by (induction f c a rule: iter_chain.induct) (auto split: prod.splits)

lemma iter_pairs:
  "iter_node f n a = yield_all f (node_pairs n) a"
  "iter_children f ch a = yield_all f (children_pairs ch) a"
  by (induction f n a and f ch a rule: iter_node_iter_children.induct)
    (auto simp: iter_chain_pairs yield_all_append split: prod.splits)

lemma distinct_pairs:
  "node_ok H s n \<Longrightarrow> distinct (map fst (node_pairs n))"
proof (induction rule: node_ok.induct)
  case (indirect ch s)
  have "distinct (map fst (concat (map slot_pairs ds)))" if "\<forall>i < length ds. \<forall>n. ds ! i = Some n \<longrightarrow>
      distinct (map fst (node_pairs n)) \<and> (\<forall>k \<in> fst ` set (node_pairs n). child_index (H k) s = j + i)" for j ds
    using that
  proof (induction ds arbitrary: j)
    case (Cons d ds)
    have "\<forall>i < length ds. \<forall>n. ds ! i = Some n \<longrightarrow>
        distinct (map fst (node_pairs n)) \<and> (\<forall>k \<in> fst ` set (node_pairs n). child_index (H k) s = Suc j + i)"
      using Cons.prems by (metis Suc_less_eq add_Suc add_Suc_right length_Cons nth_Cons_Suc)
    note tl = this
    have later: "child_index (H k) s \<noteq> j" if k: "k \<in> fst ` set (concat (map slot_pairs ds))" for k
    proof -
      obtain x where x: "x \<in> set ds" "k \<in> slot_keys x" using k by auto
      from x(2) obtain n where "x = Some n" by (cases x) simp_all
      with x obtain i where "i < length ds" "ds ! i = Some n" "k \<in> fst ` set (node_pairs n)"
        by (auto simp: in_set_conv_nth)
      with tl have "child_index (H k) s = Suc j + i" by blast
      then show ?thesis by simp
    qed
    have first: "child_index (H k) s = j" if "k \<in> slot_keys d" for k
      using Cons.prems [rule_format, of 0] that by (cases d) auto
    have "distinct (map fst (slot_pairs d))" using Cons.prems [rule_format, of 0] by (cases d) auto
    moreover have "distinct (map fst (concat (map slot_pairs ds)))" by (rule Cons.IH [OF tl])
    ultimately show ?case using later first by (auto simp: image_iff)
  qed simp
  from this [of ch 0] indirect show ?case by (simp add: children_pairs_concat)
qed simp

text \<open>The pairs of a trie, in the order of iteration, are its map.\<close>

lemma trie_pairs:
  assumes "trie_inv T ht" and "inited ht"
  shows "distinct (map fst (children_pairs (trie_root ht)))" and "map_of (children_pairs (trie_root ht)) = trie_content ht"
proof -
  have c: "children_ok (ht_hash T ht) 60 (trie_root ht)" using assms by (simp add: trie_inv_def)
  show "distinct (map fst (children_pairs (trie_root ht)))"
  proof (cases "indirect_empty (trie_root ht)")
    case True
    then have "children_pairs (trie_root ht) = []" by (auto simp: indirect_empty_def children_pairs_concat)
    then show ?thesis by simp
  next
    case False
    with c have "node_ok (ht_hash T ht) (60 + 4) (Indirect (trie_root ht))" by (intro node_ok_Indirect [THEN iffD2] conjI)
    from distinct_pairs [OF this] show ?thesis by simp
  qed
  show "map_of (children_pairs (trie_root ht)) = trie_content ht" using assms(2) by (simp add: trie_content_def trie_map_def)
qed

section \<open>Properties\<close>

text \<open>
  C25. Every history of calls on a new \<open>HashTrieMap\<close>, whatever the hash function, returns what the same calls return
  on a map, and never panics: the loops do not run out of hash bits, and chains hold the keys with equal hashes. The type of the values
  is comparable, as the methods \<open>CompareAndSwap\<close> and \<open>CompareAndDelete\<close> document: on other types they panic.
\<close>

theorem hash_trie_refines_map:
  "\<exists>s. run_calls (ht_run (comparable h z r)) new_hash_trie cs = Inr (s, snd (map_specs Map.empty cs)) \<and>
    trie_content s = fst (map_specs Map.empty cs)"
  using ht.history_refines [of h z r cs] by blast

text \<open>
  C26. \<open>Range\<close>, after any history of calls on a new \<open>HashTrieMap\<close> whose values are of a comparable type, calls the consumer with each
  key of the map and its value, no key twice, until it returns false.
\<close>

theorem hash_trie_range:
  "\<exists>s ps. run_calls (ht_run (comparable h z r)) new_hash_trie cs = Inr (s, snd (map_specs Map.empty cs)) \<and>
    distinct (map fst ps) \<and> map_of ps = fst (map_specs Map.empty cs) \<and>
    (\<forall>f a. snd (ht_Range (comparable h z r) f s a) = fst (yield_all f ps a))"
proof -
  let ?T = "comparable h z r"
  obtain s where s: "run_calls (ht_run ?T) new_hash_trie cs = Inr (s, snd (map_specs Map.empty cs))" "trie_inv ?T s"
    "trie_content s = fst (map_specs Map.empty cs)" using ht.history_refines [of h z r cs] by blast
  let ?s = "trie_init (runtime_rand ?T) s"
  note i = trie_init_ok [OF s(2), of "runtime_rand ?T"]
  have "snd (ht_Range ?T f s a) = fst (yield_all f (children_pairs (trie_root ?s)) a)" for f a
    by (simp add: ht_Range_def Let_def iter_pairs)
  with s trie_pairs [OF i(2,1)] i(3) show ?thesis by metis
qed

lemma take_bit_step: "take_bit (s + 4) h = take_bit (s + 4) h' \<longleftrightarrow> take_bit s h = take_bit s h' \<and> child_index h s = child_index h' s"
  for h :: "64 word"
proof -
  have split: "take_bit (s + 4) x = take_bit s x OR push_bit s (take_bit 4 (drop_bit s x))" for x :: "64 word"
    by (rule bit_eqI) (auto simp: bit_simps)
  have low: "take_bit s x = take_bit s (take_bit (s + 4) x)" and high: "take_bit 4 (drop_bit s x) = drop_bit s (take_bit (s + 4) x)" for x :: "64 word"
    by (rule bit_eqI; auto simp: bit_simps)+
  have "child_index h s = child_index h' s \<longleftrightarrow> take_bit 4 (drop_bit s h) = take_bit 4 (drop_bit s h')"
    unfolding child_index_take by (auto dest: unat_inj)
  then show ?thesis by (metis split low high)
qed

text \<open>
  C27. \<open>expand\<close> panics exactly when the two hashes differ and their lowest bits, those below the shift it is given,
  do not: so never from the top, and never for two entries that met on the way down.
\<close>

theorem expand_panics:
  "(\<exists>p. expand H e f hash (4 * m) = Inl p) \<longleftrightarrow> H (entry_key e) \<noteq> hash \<and> take_bit (4 * m) (H (entry_key e)) = take_bit (4 * m) hash"
proof -
  have "(\<exists>p. expand_loop h h' e f (4 * m) = Inl p) \<longleftrightarrow> take_bit (4 * m) h = take_bit (4 * m) h'" for h h'
  proof (induction m)
    case 0
    then show ?case by (subst expand_loop.simps) simp
  next
    case (Suc m)
    have s: "4 * Suc m = 4 * m + 4" by simp
    show ?case unfolding s take_bit_step expand_step Let_def
      by (cases "expand_loop h h' e f (4 * m)") (use Suc.IH in auto)
  qed
  then show ?thesis by (simp add: expand_def Let_def)
qed

end
