(* ===== verification/SyncMapCorrect.thy ===== *)
theory SyncMapCorrect
  imports SyncMap HashTrieMap
begin

text \<open>
  \<open>Map\<close> refines a map: the invariant that ties the read-only map, the dirty map and the entries, what each
  step keeps of it, the interpretation of the contract, and \<open>Range\<close>.
\<close>

section \<open>The invariant\<close>

abbreviation rd :: "('k, 'v) sync_map \<Rightarrow> 'k \<rightharpoonup> nat" where
  "rd m \<equiv> map_of (ro_m (loadReadOnly m))"

abbreviation dd :: "('k, 'v) sync_map \<Rightarrow> 'k \<rightharpoonup> nat" where
  "dd m \<equiv> map_of (dirty_map m)"

abbreviation amd :: "('k, 'v) sync_map \<Rightarrow> bool" where
  "amd m \<equiv> amended (loadReadOnly m)"

text \<open>
  The relation of the two maps, given the pointers: a live entry of the read-only map is also in the dirty map when
  there is one, an expunged one is not, and there is none without a dirty map. The dirty map has keys that the read-only
  map lacks only when the latter is marked as amended. An entry belongs to one key.
\<close>

definition maps_ok :: "('k \<rightharpoonup> nat) \<Rightarrow> ('k \<rightharpoonup> nat) \<Rightarrow> bool \<Rightarrow> bool \<Rightarrow> (nat \<Rightarrow> 'v eptr) \<Rightarrow> nat \<Rightarrow> bool" where
  "maps_ok r d am has_dirty p n \<longleftrightarrow>
     (\<forall>k e. r k = Some e \<or> d k = Some e \<longrightarrow> e < n) \<and>
     (\<forall>k k' e. (r k = Some e \<or> d k = Some e) \<and> (r k' = Some e \<or> d k' = Some e) \<longrightarrow> k = k') \<and>
     (\<forall>k e. d k = Some e \<longrightarrow> p e \<noteq> PExpunged) \<and>
     (has_dirty \<longrightarrow> (\<forall>k e. r k = Some e \<longrightarrow> d k = (if p e = PExpunged then None else Some e))) \<and>
     (\<not> has_dirty \<longrightarrow> \<not> am \<and> d = Map.empty \<and> (\<forall>k e. r k = Some e \<longrightarrow> p e \<noteq> PExpunged)) \<and>
     (\<not> am \<longrightarrow> (\<forall>k. r k = None \<longrightarrow> d k = None))"

definition sm_inv :: "('k, 'v) sync_map \<Rightarrow> bool" where
  "sm_inv m \<longleftrightarrow> distinct (map fst (ro_m (loadReadOnly m))) \<and> distinct (map fst (dirty_map m)) \<and>
     maps_ok (rd m) (dd m) (amd m) (dirty m \<noteq> None) ((!) (entries m)) (length (entries m))"

definition entry_of :: "('k, 'v) sync_map \<Rightarrow> 'k \<Rightarrow> nat option" where
  "entry_of m k = (case rd m k of Some e \<Rightarrow> Some e | None \<Rightarrow> dd m k)"

definition sm_content :: "('k, 'v) sync_map \<Rightarrow> 'k \<rightharpoonup> 'v" where
  "sm_content m k = (case entry_of m k of Some e \<Rightarrow> entry_load (entries m ! e) | None \<Rightarrow> None)"

lemma sel [simp]:
  "loadReadOnly (m\<lparr>entries := es\<rparr>) = loadReadOnly m" "dirty_map (m\<lparr>entries := es\<rparr>) = dirty_map m"
  "loadReadOnly (m\<lparr>dirty := d\<rparr>) = loadReadOnly m" "loadReadOnly (m\<lparr>misses := n\<rparr>) = loadReadOnly m"
  "dirty_map (m\<lparr>misses := n\<rparr>) = dirty_map m" "dirty_map (m\<lparr>read_ptr := p\<rparr>) = dirty_map m"
  "loadReadOnly (m\<lparr>read_ptr := Some q\<rparr>) = q" "dirty_map (m\<lparr>dirty := Some l\<rparr>) = l" "dirty_map (m\<lparr>dirty := None\<rparr>) = []"
  by (simp_all add: loadReadOnly_def dirty_map_def)

lemma dirty_cleared [simp]: "dirty_map (m\<lparr>dirty := map_option (\<lambda>_. []) d\<rparr>) = []"
  by (simp add: dirty_map_def split: option.split)

lemma entry_load_simps [simp]: "entry_load PNil = None" "entry_load PExpunged = None" "entry_load (PVal v) = Some v"
  by (simp_all add: entry_load_def)

section \<open>Steps on the two maps\<close>

lemma maps_okI:
  assumes "\<And>k e. r k = Some e \<or> d k = Some e \<Longrightarrow> e < n"
    and "\<And>k k' e. r k = Some e \<or> d k = Some e \<Longrightarrow> r k' = Some e \<or> d k' = Some e \<Longrightarrow> k = k'"
    and "\<And>k e. d k = Some e \<Longrightarrow> p e \<noteq> PExpunged"
    and "\<And>k e. h \<Longrightarrow> r k = Some e \<Longrightarrow> d k = (if p e = PExpunged then None else Some e)"
    and "\<not> h \<Longrightarrow> \<not> am \<and> d = Map.empty" and "\<And>k e. \<not> h \<Longrightarrow> r k = Some e \<Longrightarrow> p e \<noteq> PExpunged"
    and "\<And>k. \<not> am \<Longrightarrow> r k = None \<Longrightarrow> d k = None"
  shows "maps_ok r d am h p n"
  unfolding maps_ok_def using assms by blast

lemma maps_okD:
  assumes "maps_ok r d am h p n"
  shows "r k = Some e \<or> d k = Some e \<Longrightarrow> e < n"
    and "r k = Some e \<or> d k = Some e \<Longrightarrow> r k' = Some e \<or> d k' = Some e \<Longrightarrow> k = k'"
    and "d k = Some e \<Longrightarrow> p e \<noteq> PExpunged"
    and "h \<Longrightarrow> r k = Some e \<Longrightarrow> d k = (if p e = PExpunged then None else Some e)"
    and "\<not> h \<Longrightarrow> \<not> am" and "\<not> h \<Longrightarrow> d = Map.empty" and "\<not> h \<Longrightarrow> r k = Some e \<Longrightarrow> p e \<noteq> PExpunged"
    and "\<not> am \<Longrightarrow> r k = None \<Longrightarrow> d k = None"
  using assms unfolding maps_ok_def by blast+

lemma ok_promote: "maps_ok r d am True p n \<Longrightarrow> maps_ok d Map.empty False False p n"
  by (rule maps_okI) (auto dest: maps_okD)

lemma ok_pointers:
  assumes "maps_ok r d am h p n" and "\<And>k e. r k = Some e \<or> d k = Some e \<Longrightarrow> p' e = PExpunged \<longleftrightarrow> p e = PExpunged"
  shows "maps_ok r d am h p' n"
proof (rule maps_okI)
  note ok = maps_okD [OF assms(1)]
  show "d k = Some e \<Longrightarrow> p' e \<noteq> PExpunged" "\<not> h \<Longrightarrow> r k = Some e \<Longrightarrow> p' e \<noteq> PExpunged" for k e using ok(3,7) assms(2) by blast+
  show "h \<Longrightarrow> r k = Some e \<Longrightarrow> d k = (if p' e = PExpunged then None else Some e)" for k e
    using ok(4) [of k e] assms(2) [of k e] by simp
qed (use maps_okD [OF assms(1)] in blast)+

lemma ok_unexpunge:
  assumes "maps_ok r d am h p n" and k: "r k = Some e" "p e = PExpunged"
    and p': "p' e \<noteq> PExpunged" "\<And>e'. e' \<noteq> e \<Longrightarrow> p' e' = p e'"
  shows "h" and "maps_ok r (d(k \<mapsto> e)) am True p' n"
proof -
  note ok = maps_okD [OF assms(1)]
  show h: h using ok(7) k by blast
  have sub: "r k' = Some e' \<or> d k' = Some e'" if "(d(k \<mapsto> e)) k' = Some e'" for k' e'
    using that k(1) by (auto split: if_splits)
  show "maps_ok r (d(k \<mapsto> e)) am True p' n"
  proof (rule maps_okI)
    show "e' < n" if "r k' = Some e' \<or> (d(k \<mapsto> e)) k' = Some e'" for k' e' using that sub ok(1) by blast
    show "k' = k''" if "r k' = Some e' \<or> (d(k \<mapsto> e)) k' = Some e'" "r k'' = Some e' \<or> (d(k \<mapsto> e)) k'' = Some e'" for k' k'' e'
      using that sub ok(2) by blast
    show "p' e' \<noteq> PExpunged" if "(d(k \<mapsto> e)) k' = Some e'" for k' e'
    proof (cases "e' = e")
      case False
      then have "d k' = Some e'" using that by (auto split: if_splits)
      with ok(3) p'(2) [OF False] show ?thesis by simp
    qed (use p'(1) in simp)
    show "(d(k \<mapsto> e)) k' = (if p' e' = PExpunged then None else Some e')" if r: "r k' = Some e'" for k' e'
    proof (cases "k' = k")
      case False
      then have "e' \<noteq> e" using ok(2) k(1) r by blast
      with False ok(4) [OF h r] p'(2) show ?thesis by simp
    qed (use r k(1) p'(1) in simp)
    show "(d(k \<mapsto> e)) k' = None" if "\<not> am" "r k' = None" for k' using ok(8) [OF that] that(2) k(1) by auto
  qed simp_all
qed

lemma ok_new:
  assumes "maps_ok r d True True p n" and k: "r k = None" "d k = None" and p: "p' n \<noteq> PExpunged" "\<And>e. e < n \<Longrightarrow> p' e = p e"
  shows "maps_ok r (d(k \<mapsto> n)) True True p' (Suc n)"
proof -
  note ok = maps_okD [OF assms(1)]
  have sub: "k' = k \<and> e = n \<or> k' \<noteq> k \<and> d k' = Some e \<and> e < n" if "(d(k \<mapsto> n)) k' = Some e" for k' e
    using that ok(1) [of k' e] by (auto split: if_splits)
  have rd: "k' \<noteq> k \<and> e < n" if "r k' = Some e" for k' e using that k(1) ok(1) by auto
  show ?thesis
  proof (rule maps_okI)
    show "e < Suc n" if "r k' = Some e \<or> (d(k \<mapsto> n)) k' = Some e" for k' e
      using that
    proof
      assume "(d(k \<mapsto> n)) k' = Some e"
      from sub [OF this] show ?thesis by auto
    qed (use rd in \<open>simp add: less_Suc_eq\<close>)
    show "k' = k''" if "r k' = Some e \<or> (d(k \<mapsto> n)) k' = Some e" "r k'' = Some e \<or> (d(k \<mapsto> n)) k'' = Some e" for k' k'' e
    proof (cases "e = n")
      case True
      with that sub rd show ?thesis by blast
    next
      case False
      then have "r k' = Some e \<or> d k' = Some e" "r k'' = Some e \<or> d k'' = Some e" using that sub by blast+
      with ok(2) show ?thesis by blast
    qed
    show "p' e \<noteq> PExpunged" if "(d(k \<mapsto> n)) k' = Some e" for k' e
    proof -
      from sub [OF that] consider "e = n" | "d k' = Some e" "e < n" by blast
      then show ?thesis
      proof cases
        case 2
        with ok(3) p(2) show ?thesis by simp
      qed (use p(1) in simp)
    qed
    show "(d(k \<mapsto> n)) k' = (if p' e = PExpunged then None else Some e)" if r: "r k' = Some e" for k' e
      using ok(4) [OF _ r] rd [OF r] p(2) by simp
  qed simp_all
qed

lemma ok_delete:
  assumes "maps_ok r d am h p n" and k: "r k = None"
  shows "maps_ok r (d(k := None)) am h p n"
proof -
  note ok = maps_okD [OF assms(1)]
  have sub: "d k' = Some e" if "(d(k := None)) k' = Some e" for k' e using that by (auto split: if_splits)
  show ?thesis
  proof (rule maps_okI)
    show "(d(k := None)) k' = (if p e = PExpunged then None else Some e)" if h and r: "r k' = Some e" for k' e
      using ok(4) [OF that] k r by auto
    show "\<not> am \<and> d(k := None) = Map.empty" if "\<not> h" using ok(5,6) [OF that] by auto
    show "(d(k := None)) k' = None" if "\<not> am" "r k' = None" for k' using ok(8) [OF that] by simp
  qed (use ok(1,2,3,7) sub in blast)+
qed

lemma ok_dirty:
  assumes "maps_ok r d am False p n"
    and d': "\<And>k. d' k = (case r k of Some e \<Rightarrow> if p e = PNil then None else Some e | None \<Rightarrow> None)"
    and p': "\<And>k e. r k = Some e \<Longrightarrow> p' e = (if p e = PNil then PExpunged else p e)"
  shows "maps_ok r d' True True p' n"
proof -
  note ok = maps_okD [OF assms(1)]
  have d: "r k = Some e" "p e \<noteq> PNil" if "d' k = Some e" for k e using that unfolding d' by (simp_all split: option.splits if_splits)
  have live: "p e \<noteq> PExpunged" if "r k = Some e" for k e using ok(7) that by blast
  show ?thesis
  proof (rule maps_okI)
    show "d' k = (if p' e = PExpunged then None else Some e)" if r: "r k = Some e" for k e
      using d' [of k] p' [OF r] r live [OF r] by simp
    show "p' e \<noteq> PExpunged" if "d' k = Some e" for k e using d [OF that] p' [OF d(1) [OF that]] live by simp
  qed (use ok(1,2) d in \<open>blast | simp\<close>)+
qed

lemma ok_clear: "maps_ok Map.empty Map.empty False h p n"
  unfolding maps_ok_def by simp

section \<open>Steps\<close>

lemma sm_ok: "sm_inv m \<Longrightarrow> maps_ok (rd m) (dd m) (amd m) (dirty m \<noteq> None) ((!) (entries m)) (length (entries m))"
  by (simp add: sm_inv_def)

lemma entry_of_Some: "entry_of m k = Some e \<Longrightarrow> rd m k = Some e \<or> dd m k = Some e"
  by (auto simp: entry_of_def split: option.splits)

lemma entry_bound: "sm_inv m \<Longrightarrow> rd m k = Some e \<or> dd m k = Some e \<Longrightarrow> e < length (entries m)"
  using sm_ok [of m] unfolding maps_ok_def by blast

lemma entry_one: "sm_inv m \<Longrightarrow> rd m k = Some e \<or> dd m k = Some e \<Longrightarrow> rd m k' = Some e \<or> dd m k' = Some e \<Longrightarrow> k' = k"
  using sm_ok [of m] unfolding maps_ok_def by blast

lemma missLocked_ok:
  assumes m: "sm_inv m" and h: "dirty m \<noteq> None"
  shows "sm_inv (missLocked m)" and "sm_content (missLocked m) = sm_content m" and "entries (missLocked m) = entries m"
    and "entry_of (missLocked m) k = Some e \<Longrightarrow> entry_of m k = Some e"
    and "rd m k = None \<Longrightarrow> entry_of (missLocked m) k = entry_of m k"
proof -
  note ok = sm_ok [OF m]
  show "entries (missLocked m) = entries m" by (simp add: missLocked_def Let_def)
  have live: "dd m k = (if entries m ! e = PExpunged then None else Some e)" if "rd m k = Some e" for k e
    using ok h that unfolding maps_ok_def by blast
  consider (no) "missLocked m = m\<lparr>misses := misses m + 1\<rparr>"
    | (yes) "missLocked m = m\<lparr>misses := 0, read_ptr := Some \<lparr>ro_m = dirty_map m, amended = False\<rparr>, dirty := None\<rparr>"
    unfolding missLocked_def Let_def by (cases "misses m + 1 < length (dirty_map m)") simp_all
  then have "sm_inv (missLocked m) \<and> sm_content (missLocked m) = sm_content m \<and>
    (entry_of (missLocked m) k = Some e \<longrightarrow> entry_of m k = Some e) \<and> (rd m k = None \<longrightarrow> entry_of (missLocked m) k = entry_of m k)"
  proof cases
    case no
    have e: "entry_of (missLocked m) = entry_of m" unfolding no by (simp add: fun_eq_iff entry_of_def split: option.split)
    then have "sm_content (missLocked m) = sm_content m" unfolding sm_content_def e by (simp add: no fun_eq_iff split: option.split)
    moreover have "sm_inv (missLocked m)" using m unfolding no sm_inv_def by simp
    ultimately show ?thesis using e by simp
  next
    case yes
    have e: "entry_of (missLocked m) = dd m" unfolding yes by (simp add: fun_eq_iff entry_of_def split: option.split)
    have "maps_ok (dd m) Map.empty False False ((!) (entries m)) (length (entries m))" using ok_promote ok h by simp
    then have "sm_inv (missLocked m)" using m unfolding yes sm_inv_def by simp
    moreover have "sm_content (missLocked m) = sm_content m"
      unfolding sm_content_def e by (auto simp: yes entry_of_def fun_eq_iff live split: option.split)
    moreover have "entry_of (missLocked m) k = Some e \<longrightarrow> entry_of m k = Some e"
      unfolding e by (auto simp: entry_of_def live split: option.split if_splits)
    ultimately show ?thesis unfolding e by (simp add: entry_of_def)
  qed
  then show "sm_inv (missLocked m)" "sm_content (missLocked m) = sm_content m" "entry_of (missLocked m) k = Some e \<Longrightarrow> entry_of m k = Some e"
    "rd m k = None \<Longrightarrow> entry_of (missLocked m) k = entry_of m k" by blast+
qed

lemma entries_sel [simp]: "entry_of (m\<lparr>entries := es\<rparr>) = entry_of m"
  by (simp add: fun_eq_iff entry_of_def split: option.split)

text \<open>A change of a pointer that leaves it, as it was, not expunged.\<close>

lemma entry_changed:
  assumes m: "sm_inv m" and e: "entry_of m k = Some e" and p: "entries m ! e \<noteq> PExpunged" "q \<noteq> PExpunged"
  shows "sm_inv (m\<lparr>entries := (entries m)[e := q]\<rparr>)"
    and "sm_content (m\<lparr>entries := (entries m)[e := q]\<rparr>) = (sm_content m)(k := entry_load q)"
proof -
  note len = entry_bound [OF m entry_of_Some [OF e]]
  have exp: "(entries m)[e := q] ! e' = PExpunged \<longleftrightarrow> entries m ! e' = PExpunged" for e'
    using p len by (cases "e' = e") simp_all
  show "sm_inv (m\<lparr>entries := (entries m)[e := q]\<rparr>)"
    using m ok_pointers [OF sm_ok [OF m], of "(!) ((entries m)[e := q])"] exp by (simp add: sm_inv_def)
  show "sm_content (m\<lparr>entries := (entries m)[e := q]\<rparr>) = (sm_content m)(k := entry_load q)"
  proof
    fix k'
    show "sm_content (m\<lparr>entries := (entries m)[e := q]\<rparr>) k' = ((sm_content m)(k := entry_load q)) k'"
    proof (cases "k' = k")
      case True
      then show ?thesis using e len by (simp add: sm_content_def)
    next
      case False
      then have "entry_of m k' \<noteq> Some e" using entry_one [OF m entry_of_Some [OF e] entry_of_Some] by blast
      with False show ?thesis by (simp add: sm_content_def split: option.split) (metis nth_list_update_neq)
    qed
  qed
qed

text \<open>A change of an entry that no key has.\<close>

lemma orphan_changed:
  assumes m: "sm_inv m" and e: "\<And>k. rd m k \<noteq> Some e \<and> dd m k \<noteq> Some e"
  shows "sm_inv (m\<lparr>entries := (entries m)[e := q]\<rparr>)" and "sm_content (m\<lparr>entries := (entries m)[e := q]\<rparr>) = sm_content m"
proof -
  have other: "(entries m)[e := q] ! e' = entries m ! e'" if "rd m k = Some e' \<or> dd m k = Some e'" for k e'
    using e that by (cases "e' = e") auto
  have "maps_ok (rd m) (dd m) (amd m) (dirty m \<noteq> None) ((!) ((entries m)[e := q])) (length (entries m))"
    by (rule ok_pointers [OF sm_ok [OF m]]) (drule other, simp)
  then show "sm_inv (m\<lparr>entries := (entries m)[e := q]\<rparr>)" using m by (simp add: sm_inv_def)
  show "sm_content (m\<lparr>entries := (entries m)[e := q]\<rparr>) = sm_content m"
  proof
    fix k
    show "sm_content (m\<lparr>entries := (entries m)[e := q]\<rparr>) k = sm_content m k"
    proof (cases "entry_of m k")
      case (Some e')
      with other [OF entry_of_Some [OF Some]] show ?thesis by (simp add: sm_content_def)
    qed (simp add: sm_content_def)
  qed
qed

text \<open>An operation on the pointer of a key, in terms of the content.\<close>

lemma at_entry_ok:
  assumes m: "sm_inv m" and e: "entry_of m k = Some e" and p: "entries m ! e \<noteq> PExpunged"
    and f: "f (entries m ! e) = (q, r)" "q \<noteq> PExpunged"
  shows "\<exists>m'. at_entry e f m = (m', r) \<and> sm_inv m' \<and> sm_content m' = (sm_content m)(k := entry_load q) \<and>
    (dirty m \<noteq> None \<longrightarrow> dirty m' \<noteq> None)"
  using entry_changed [OF m e p f(2)] f(1) by (simp add: at_entry_def)

lemma content_entry: "entry_of m k = Some e \<Longrightarrow> sm_content m k = entry_load (entries m ! e)"
  by (simp add: sm_content_def)

text \<open>A live key of the read-only map, or a key that only the dirty map has.\<close>

lemma dirty_entry:
  assumes m: "sm_inv m" and r: "rd m k = None" and d: "dd m k = Some e"
  shows "entry_of m k = Some e" and "entries m ! e \<noteq> PExpunged" and "amd m" and "dirty m \<noteq> None"
proof -
  note ok = maps_okD [OF sm_ok [OF m]]
  show "entry_of m k = Some e" using r d by (simp add: entry_of_def)
  show "entries m ! e \<noteq> PExpunged" by (rule ok(3) [OF d])
  show "amd m" using ok(8) r d by force
  show "dirty m \<noteq> None" using d by (cases "dirty m") (simp_all add: dirty_map_def)
qed

lemma amended_dirty: "sm_inv m \<Longrightarrow> amd m \<Longrightarrow> dirty m \<noteq> None"
  using maps_okD(5) [OF sm_ok] by blast

lemma absent_content: "rd m k = None \<Longrightarrow> dd m k = None \<Longrightarrow> sm_content m k = None"
  by (simp add: sm_content_def entry_of_def)

lemma unamended_absent: "sm_inv m \<Longrightarrow> \<not> amd m \<Longrightarrow> rd m k = None \<Longrightarrow> dd m k = None"
  by (rule maps_okD(8) [OF sm_ok])

text \<open>\<open>unexpunge\<close> changes no value and makes the pointer one that can be written.\<close>

lemma unexpunge_ok:
  assumes m: "sm_inv m" and r: "rd m k = Some e"
  shows "\<exists>m'. unexpunge k e m = Inr m' \<and> sm_inv m' \<and> sm_content m' = sm_content m \<and> entry_of m' k = Some e \<and>
    entries m' ! e \<noteq> PExpunged"
proof -
  have e: "entry_of m k = Some e" using r by (simp add: entry_of_def)
  have len: "e < length (entries m)" using entry_bound [OF m] r by blast
  show ?thesis
  proof (cases "entries m ! e = PExpunged")
    case False
    then show ?thesis using m e by (simp add: unexpunge_def at_entry_def unexpungeLocked_def)
  next
    case True
    let ?es = "(entries m)[e := PNil]"
    have p: "?es ! e \<noteq> PExpunged" "e' \<noteq> e \<Longrightarrow> ?es ! e' = entries m ! e'" for e' using len by simp_all
    note u = ok_unexpunge [OF sm_ok [OF m] r True p]
    obtain d where d: "dirty m = Some d" using u(1) by blast
    let ?m = "m\<lparr>entries := ?es, dirty := Some (AList.update k e d)\<rparr>"
    have dd: "dd m = map_of d" by (simp add: dirty_map_def d)
    have "sm_inv ?m" using m u(2) unfolding sm_inv_def
      by (simp add: dirty_map_def d update_conv' distinct_update)
    moreover have en: "entry_of ?m k' = entry_of m k'" for k' using r by (simp add: entry_of_def dd update_conv' split: option.split)
    moreover have "sm_content ?m = sm_content m"
    proof
      fix k'
      have "entry_load (?es ! e') = entry_load (entries m ! e')" for e' using True len by (cases "e' = e") simp_all
      then show "sm_content ?m k' = sm_content m k'" by (simp add: sm_content_def en split: option.split)
    qed
    ultimately show ?thesis using True len e d
      by (intro exI [of _ ?m]) (simp add: unexpunge_def at_entry_def unexpungeLocked_def set_dirty_def)
  qed
qed

section \<open>A new key\<close>

lemma distinct_values:
  assumes "distinct (map fst xs)" and "\<And>k k' e. map_of xs k = Some e \<Longrightarrow> map_of xs k' = Some e \<Longrightarrow> k = k'"
  shows "distinct (map snd xs)"
proof -
  have "inj_on snd (set xs)"
  proof (rule inj_onI)
    fix x y assume "x \<in> set xs" "y \<in> set xs" and e: "snd x = snd y"
    then have "map_of xs (fst x) = Some (snd x)" "map_of xs (fst y) = Some (snd y)"
      using map_of_is_SomeI [OF assms(1)] by (metis prod.collapse)+
    with assms(2) [of "fst x" "snd x" "fst y"] e show "x = y" by (simp add: prod_eq_iff)
  qed
  then show ?thesis using assms(1) by (simp add: distinct_map)
qed

text \<open>The loop of \<open>dirtyLocked\<close>: nil pointers become expunged, the keys of the others go into the dirty map.\<close>

lemma fold_dirty_round:
  assumes "distinct (map fst kes)" and "distinct (map snd kes)" and "\<forall>ke \<in> set kes. snd ke < length es \<and> es ! snd ke \<noteq> PExpunged"
    and "distinct (map fst d)"
  shows "\<exists>es' d'. fold dirty_round kes (es, d) = (es', d') \<and> length es' = length es \<and> distinct (map fst d') \<and>
    (\<forall>i. es' ! i = (if i \<in> snd ` set kes \<and> es ! i = PNil then PExpunged else es ! i)) \<and>
    (\<forall>k. map_of d' k = (case map_of kes k of Some e \<Rightarrow> if es ! e = PNil then map_of d k else Some e | None \<Rightarrow> map_of d k))"
  using assms
proof (induction kes arbitrary: es d)
  case (Cons ke kes)
  obtain k e where ke: "ke = (k, e)" by (cases ke)
  let ?nil = "es ! e = PNil"
  let ?es = "es[e := if ?nil then PExpunged else es ! e]" and ?d = "if ?nil then d else AList.update k e d"
  have e: "e < length es" "es ! e \<noteq> PExpunged" "e \<notin> snd ` set kes" "k \<notin> fst ` set kes" using Cons.prems by (auto simp: ke)
  have r: "dirty_round ke (es, d) = (?es, ?d)" using e(2) by (simp add: ke dirty_round_def tryExpungeLocked_def)
  have other: "?es ! i = es ! i" if "i \<noteq> e" for i using that by simp
  have pre: "\<forall>x \<in> set kes. snd x < length ?es \<and> ?es ! snd x \<noteq> PExpunged"
  proof
    fix x assume x: "x \<in> set kes"
    then have "snd x \<noteq> e" using e(3) by force
    with x Cons.prems(3) other show "snd x < length ?es \<and> ?es ! snd x \<noteq> PExpunged" by simp
  qed
  have kes: "distinct (map fst kes)" "distinct (map snd kes)" "distinct (map fst ?d)"
    using Cons.prems by (simp_all add: distinct_update)
  obtain es' d' where i: "fold dirty_round kes (?es, ?d) = (es', d')" "length es' = length ?es" "distinct (map fst d')"
    "\<forall>i. es' ! i = (if i \<in> snd ` set kes \<and> ?es ! i = PNil then PExpunged else ?es ! i)"
    "\<forall>k. map_of d' k = (case map_of kes k of Some e \<Rightarrow> if ?es ! e = PNil then map_of ?d k else Some e | None \<Rightarrow> map_of ?d k)"
    using Cons.IH [OF kes(1,2) pre kes(3)] by blast
  have "es' ! j = (if j \<in> snd ` set (ke # kes) \<and> es ! j = PNil then PExpunged else es ! j)" for j
    using i(4) [rule_format, of j] e other [of j] by (cases "j = e") (simp_all add: ke)
  moreover have "map_of d' k' = (case map_of (ke # kes) k' of Some e \<Rightarrow> if es ! e = PNil then map_of d k' else Some e | None \<Rightarrow> map_of d k')" for k'
  proof (cases "k' = k")
    case True
    have "map_of kes k = None" using e(4) by (simp add: map_of_eq_None_iff)
    with True i(5) show ?thesis by (simp add: ke update_conv')
  next
    case False
    show ?thesis
    proof (cases "map_of kes k'")
      case None
      with False i(5) show ?thesis by (simp add: ke update_conv')
    next
      case (Some e')
      have "e' \<in> snd ` set kes" using map_of_SomeD [OF Some] by force
      then have "?es ! e' = es ! e'" using e(3) other by metis
      with False i(5) Some show ?thesis by (simp only: ke map_of.simps fun_upd_apply fst_conv if_False option.case) (simp add: update_conv')
    qed
  qed
  moreover have "fold dirty_round (ke # kes) (es, d) = (es', d')" using i(1) by (simp add: r)
  moreover have "length es' = length es" using i(2) by simp
  ultimately show ?case using i(3) by blast
qed simp

lemma ok_amend: "maps_ok r d am True p n \<Longrightarrow> maps_ok r d True True p n"
  unfolding maps_ok_def by simp

text \<open>The first half of \<open>add_key\<close>: there is a dirty map and the read-only map is marked as amended.\<close>

lemma make_dirty_ok:
  assumes m: "sm_inv m" and am: "\<not> amd m" and k: "rd m k = None"
  defines "m1 \<equiv> (dirtyLocked m)\<lparr>read_ptr := Some \<lparr>ro_m = ro_m (loadReadOnly m), amended = True\<rparr>\<rparr>"
  shows "sm_inv m1" and "amd m1" and "rd m1 = rd m" and "dd m1 k = None" and "sm_content m1 = sm_content m"
proof -
  note ok = sm_ok [OF m]
  have dk: "dd m k = None" by (rule unamended_absent [OF m am k])
  show "amd m1" "rd m1 = rd m" by (simp_all add: m1_def)
  have "sm_inv m1 \<and> dd m1 k = None \<and> sm_content m1 = sm_content m"
  proof (cases "dirty m")
    case (Some d)
    then have m1: "m1 = m\<lparr>read_ptr := Some \<lparr>ro_m = ro_m (loadReadOnly m), amended = True\<rparr>\<rparr>" by (simp add: m1_def dirtyLocked_def)
    have "maps_ok (rd m) (dd m) True True ((!) (entries m)) (length (entries m))" by (rule ok_amend) (use ok Some in simp)
    then have "sm_inv m1" using m Some by (simp add: m1 sm_inv_def)
    moreover have "entry_of m1 = entry_of m" by (simp add: fun_eq_iff entry_of_def m1 split: option.split)
    moreover have "entries m1 = entries m" by (simp add: m1)
    ultimately have "sm_inv m1" "sm_content m1 = sm_content m" by (simp_all add: fun_eq_iff sm_content_def split: option.split)
    then show ?thesis using dk by (simp add: m1)
  next
    case None
    let ?r = "ro_m (loadReadOnly m)"
    note d = maps_okD [OF ok]
    have dr: "distinct (map fst ?r)" using m by (simp add: sm_inv_def)
    have dv: "distinct (map snd ?r)" using dr d(2) by (intro distinct_values) blast+
    have live: "\<forall>ke \<in> set ?r. snd ke < length (entries m) \<and> entries m ! snd ke \<noteq> PExpunged"
      using d(1,7) None dr by (metis map_of_eq_Some_iff prod.collapse)
    obtain es' d' where f: "fold dirty_round ?r (entries m, []) = (es', d')" "length es' = length (entries m)" "distinct (map fst d')"
      "\<And>i. es' ! i = (if i \<in> snd ` set ?r \<and> entries m ! i = PNil then PExpunged else entries m ! i)"
      "\<And>k. map_of d' k = (case map_of ?r k of Some e \<Rightarrow> if entries m ! e = PNil then None else Some e | None \<Rightarrow> None)"
      using fold_dirty_round [OF dr dv live, of "[]"] by (auto cong: option.case_cong if_cong)
    have m1: "m1 = m\<lparr>entries := es', dirty := Some d', read_ptr := Some \<lparr>ro_m = ?r, amended = True\<rparr>\<rparr>"
      using None f(1) by (simp add: m1_def dirtyLocked_def)
    have p': "es' ! e = (if entries m ! e = PNil then PExpunged else entries m ! e)" if "rd m k' = Some e" for k' e
    proof -
      have "e \<in> snd ` set ?r" using map_of_SomeD [OF that] by force
      then show ?thesis by (simp add: f(4))
    qed
    have "maps_ok (rd m) (map_of d') True True ((!) es') (length (entries m))"
      using ok None f(5) p' by (intro ok_dirty [of "rd m" "dd m" "amd m" "(!) (entries m)"]) simp_all
    then have "sm_inv m1" using m f(2,3) by (simp add: m1 sm_inv_def)
    moreover have "dd m1 k = None" using k by (simp add: m1 f(5))
    moreover have "sm_content m1 k' = sm_content m k'" for k'
    proof (cases "rd m k'")
      case None
      then show ?thesis using unamended_absent [OF m am None] by (simp add: sm_content_def entry_of_def m1 f(5))
    next
      case (Some e)
      then show ?thesis using p' [OF Some] by (simp add: sm_content_def entry_of_def m1)
    qed
    ultimately show ?thesis by blast
  qed
  then show "sm_inv m1" "dd m1 k = None" "sm_content m1 = sm_content m" by blast+
qed

lemma add_key_ok:
  assumes m: "sm_inv m" and k: "rd m k = None" "dd m k = None"
  shows "\<exists>m'. add_key k v m = Inr m' \<and> sm_inv m' \<and> sm_content m' = (sm_content m)(k \<mapsto> v)"
proof -
  define m1 where "m1 = (if \<not> amd m then (dirtyLocked m)\<lparr>read_ptr := Some \<lparr>ro_m = ro_m (loadReadOnly m), amended = True\<rparr>\<rparr> else m)"
  have m1: "sm_inv m1" "amd m1" "rd m1 k = None" "dd m1 k = None" "sm_content m1 = sm_content m"
    using make_dirty_ok [OF m _ k(1)] m k by (cases "amd m"; simp add: m1_def)+
  note ok = sm_ok [OF m1(1)]
  obtain d where d: "dirty m1 = Some d" using amended_dirty [OF m1(1,2)] by blast
  have dd: "dd m1 = map_of d" by (simp add: dirty_map_def d)
  let ?n = "length (entries m1)" and ?es = "entries m1 @ [PVal v]"
  let ?m = "m1\<lparr>entries := ?es, dirty := Some (AList.update k ?n d)\<rparr>"
  have "maps_ok (rd m1) ((dd m1)(k \<mapsto> ?n)) True True ((!) ?es) (Suc ?n)"
    using ok m1 d by (intro ok_new [where p = "(!) (entries m1)"]) (simp_all add: nth_append)
  then have inv: "sm_inv ?m" using m1(1,2) unfolding sm_inv_def by (simp add: dirty_map_def d update_conv' distinct_update)
  have "sm_content ?m k' = ((sm_content m1)(k \<mapsto> v)) k'" for k'
  proof (cases "k' = k")
    case True
    then show ?thesis using m1(3) by (simp add: sm_content_def entry_of_def update_conv' nth_append)
  next
    case False
    then have "entry_of ?m k' = entry_of m1 k'" by (simp add: entry_of_def dd update_conv' split: option.split)
    moreover have "?es ! e = entries m1 ! e" if "entry_of m1 k' = Some e" for e
      using entry_bound [OF m1(1) entry_of_Some [OF that]] by (simp add: nth_append)
    ultimately show ?thesis using False by (simp add: sm_content_def split: option.split)
  qed
  then have "sm_content ?m = (sm_content m)(k \<mapsto> v)" using m1(5) by (simp add: fun_eq_iff)
  moreover have "add_key k v m = Inr ?m" unfolding add_key_def Let_def by (simp add: m1_def [symmetric] newEntry_def set_dirty_def d)
  ultimately show ?thesis using inv by blast
qed

section \<open>The methods\<close>

lemma read_entry: "rd m k = Some e \<Longrightarrow> entry_of m k = Some e"
  by (simp add: entry_of_def)

lemma missLocked_content:
  "sm_inv m \<Longrightarrow> amd m \<Longrightarrow> sm_inv (missLocked m) \<and> sm_content (missLocked m) = sm_content m \<and> entries (missLocked m) = entries m"
  using missLocked_ok(1,2,3) [of m] amended_dirty [of m] by simp

lemma at_entry_same: "f (entries m ! e) = (entries m ! e, x) \<Longrightarrow> at_entry e f m = (m, x)"
  by (simp add: at_entry_def)

lemma sm_Load_ok:
  assumes m: "sm_inv m"
  shows "\<exists>m'. sm_Load k m = (m', sm_content m k) \<and> sm_inv m' \<and> sm_content m' = sm_content m"
proof (cases "rd m k")
  case (Some e)
  with m show ?thesis by (simp add: sm_Load_def content_entry [OF read_entry])
next
  case r: None
  show ?thesis
  proof (cases "amd m")
    case True
    note c = missLocked_content [OF m True]
    have "sm_content m k = (case dd m k of None \<Rightarrow> None | Some e \<Rightarrow> entry_load (entries m ! e))"
      using r by (simp add: sm_content_def entry_of_def)
    with c r True show ?thesis by (simp add: sm_Load_def Let_def cong: option.case_cong)
  next
    case False
    with m r show ?thesis using absent_content [OF r unamended_absent [OF m False r]] by (simp add: sm_Load_def)
  qed
qed

text \<open>An operation on the entry of a key that only the dirty map has, followed by a miss.\<close>

lemma at_dirty_ok:
  assumes m: "sm_inv m" and r: "rd m k = None" and d: "dd m k = Some e" and f: "f (entries m ! e) = (q, x)" "q \<noteq> PExpunged"
  shows "\<exists>m'. at_entry e f m = (m', x) \<and> sm_inv m' \<and> sm_content m' = (sm_content m)(k := entry_load q) \<and>
    sm_inv (missLocked m') \<and> sm_content (missLocked m') = (sm_content m)(k := entry_load q)"
proof -
  note de = dirty_entry [OF m r d]
  obtain m' where m': "at_entry e f m = (m', x)" "sm_inv m'" "sm_content m' = (sm_content m)(k := entry_load q)"
    "dirty m \<noteq> None \<longrightarrow> dirty m' \<noteq> None" using at_entry_ok [where f = f, OF m de(1,2) f] by blast
  with missLocked_ok [OF m'(2)] de(4) show ?thesis by simp
qed

lemma locked_value:
  assumes m: "sm_inv m" and r: "rd m k = Some e" and f: "\<And>p. p \<noteq> PExpunged \<Longrightarrow> \<exists>q x. f p = (q, x) \<and> q \<noteq> PExpunged"
  shows "\<exists>m1 m2 q x p. unexpunge k e m = Inr m1 \<and> p \<noteq> PExpunged \<and> entry_load p = sm_content m k \<and> f p = (q, x) \<and> at_entry e f m1 = (m2, x) \<and>
    sm_inv m2 \<and> sm_content m2 = (sm_content m)(k := entry_load q)"
proof -
  obtain m1 where m1: "unexpunge k e m = Inr m1" "sm_inv m1" "sm_content m1 = sm_content m" "entry_of m1 k = Some e" "entries m1 ! e \<noteq> PExpunged"
    using unexpunge_ok [OF m r] by blast
  obtain q x where f': "f (entries m1 ! e) = (q, x)" "q \<noteq> PExpunged" using f [OF m1(5)] by blast
  obtain m2 where "at_entry e f m1 = (m2, x)" "sm_inv m2" "sm_content m2 = (sm_content m1)(k := entry_load q)"
    using at_entry_ok [where f = f, OF m1(2,4,5) f'] by blast
  with m1 f' content_entry [OF m1(4)] show ?thesis by metis
qed

lemma sm_Swap_ok:
  assumes m: "sm_inv m"
  shows "\<exists>m'. sm_Swap k v m = Inr (m', sm_content m k) \<and> sm_inv m' \<and> sm_content m' = (sm_content m)(k \<mapsto> v)"
proof (cases "rd m k")
  case r: (Some e)
  show ?thesis
  proof (cases "entries m ! e = PExpunged")
    case False
    then obtain m' where "at_entry e (trySwap v) m = (m', Some (entries m ! e))" "sm_inv m'" "sm_content m' = (sm_content m)(k \<mapsto> v)"
      using at_entry_ok [OF m read_entry [OF r] False, of "trySwap v"] by (auto simp: trySwap_def)
    then show ?thesis using r content_entry [OF read_entry [OF r]] False
      by (cases "entries m ! e") (simp_all add: sm_Swap_def Let_def)
  next
    case True
    have "at_entry e (trySwap v) m = (m, None)" using True by (intro at_entry_same) (simp add: trySwap_def)
    moreover obtain m1 m2 p where "unexpunge k e m = Inr m1" "p \<noteq> PExpunged" "entry_load p = sm_content m k" "at_entry e (swapLocked v) m1 = (m2, p)"
      "sm_inv m2" "sm_content m2 = (sm_content m)(k \<mapsto> v)"
      using locked_value [OF m r, of "swapLocked v"] by (auto simp: swapLocked_def)
    ultimately show ?thesis using r by (cases p) (auto simp: sm_Swap_def Let_def)
  qed
next
  case r: None
  show ?thesis
  proof (cases "dd m k")
    case d: (Some e)
    note de = dirty_entry [OF m r d]
    obtain m' where "at_entry e (swapLocked v) m = (m', entries m ! e)" "sm_inv m'" "sm_content m' = (sm_content m)(k \<mapsto> v)"
      using at_dirty_ok [OF m r d, of "swapLocked v"] by (auto simp: swapLocked_def)
    then show ?thesis using r d content_entry [OF de(1)] de(2)
      by (cases "entries m ! e") (simp_all add: sm_Swap_def Let_def)
  next
    case None
    with add_key_ok [OF m r None, of v] absent_content [OF r None] r show ?thesis by (auto simp: sm_Swap_def Let_def)
  qed
qed

lemma tryLoadOrStore_live: "p \<noteq> PExpunged \<Longrightarrow>
    tryLoadOrStore nilv v p = (PVal (case entry_load p of None \<Rightarrow> v | Some w \<Rightarrow> w), case entry_load p of None \<Rightarrow> (v, False, True) | Some w \<Rightarrow> (w, True, True))"
  by (cases p) (simp_all add: tryLoadOrStore_def)

lemma sm_LoadOrStore_ok:
  assumes m: "sm_inv m"
  shows "\<exists>m'. sm_LoadOrStore nilv k v m = Inr (m', case sm_content m k of None \<Rightarrow> (v, False) | Some w \<Rightarrow> (w, True)) \<and> sm_inv m' \<and>
    sm_content m' = (sm_content m)(k \<mapsto> case sm_content m k of None \<Rightarrow> v | Some w \<Rightarrow> w)"
proof (cases "rd m k")
  case r: (Some e)
  show ?thesis
  proof (cases "entries m ! e = PExpunged")
    case False
    obtain m' where "at_entry e (tryLoadOrStore nilv v) m = (m', case sm_content m k of None \<Rightarrow> (v, False, True) | Some w \<Rightarrow> (w, True, True))"
      "sm_inv m'" "sm_content m' = (sm_content m)(k \<mapsto> case sm_content m k of None \<Rightarrow> v | Some w \<Rightarrow> w)"
      using at_entry_ok [where f = "tryLoadOrStore nilv v", OF m read_entry [OF r] False tryLoadOrStore_live [OF False]] content_entry [OF read_entry [OF r]] by auto
    with r show ?thesis by (cases "sm_content m k") (simp_all add: sm_LoadOrStore_def Let_def)
  next
    case True
    have t: "at_entry e (tryLoadOrStore nilv v) m = (m, nilv, False, False)" using True by (intro at_entry_same) (simp add: tryLoadOrStore_def)
    have live: "\<exists>q x. tryLoadOrStore nilv v p = (q, x) \<and> q \<noteq> PExpunged" if "p \<noteq> PExpunged" for p
      using that by (cases p) (auto simp: tryLoadOrStore_def)
    obtain m1 m2 q x p where l: "unexpunge k e m = Inr m1" "p \<noteq> PExpunged" "entry_load p = sm_content m k" "tryLoadOrStore nilv v p = (q, x)"
      "at_entry e (tryLoadOrStore nilv v) m1 = (m2, x)" "sm_inv m2" "sm_content m2 = (sm_content m)(k := entry_load q)"
      using locked_value [where f = "tryLoadOrStore nilv v", OF m r live] by blast
    from tryLoadOrStore_live [OF l(2), of nilv v] have "q = PVal (case sm_content m k of None \<Rightarrow> v | Some w \<Rightarrow> w)"
      "x = (case sm_content m k of None \<Rightarrow> (v, False, True) | Some w \<Rightarrow> (w, True, True))" using l(3,4) by simp_all
    with l have "unexpunge k e m = Inr m1" "sm_inv m2"
      "at_entry e (tryLoadOrStore nilv v) m1 = (m2, case sm_content m k of None \<Rightarrow> (v, False, True) | Some w \<Rightarrow> (w, True, True))"
      "sm_content m2 = (sm_content m)(k \<mapsto> case sm_content m k of None \<Rightarrow> v | Some w \<Rightarrow> w)"
      by simp_all
    with r t show ?thesis by (cases "sm_content m k") (simp_all add: sm_LoadOrStore_def Let_def)
  qed
next
  case r: None
  show ?thesis
  proof (cases "dd m k")
    case d: (Some e)
    note de = dirty_entry [OF m r d]
    obtain m' where "at_entry e (tryLoadOrStore nilv v) m = (m', case sm_content m k of None \<Rightarrow> (v, False, True) | Some w \<Rightarrow> (w, True, True))"
      "sm_inv (missLocked m')" "sm_content (missLocked m') = (sm_content m)(k \<mapsto> case sm_content m k of None \<Rightarrow> v | Some w \<Rightarrow> w)"
      using at_dirty_ok [where f = "tryLoadOrStore nilv v", OF m r d tryLoadOrStore_live [OF de(2)]] content_entry [OF de(1)] by auto
    with r d show ?thesis by (cases "sm_content m k") (simp_all add: sm_LoadOrStore_def Let_def)
  next
    case None
    with add_key_ok [OF m r None, of v] absent_content [OF r None] r show ?thesis by (auto simp: sm_LoadOrStore_def Let_def)
  qed
qed

lemma sm_CompareAndSwap_ok:
  assumes m: "sm_inv m"
  shows "\<exists>m'. sm_CompareAndSwap k old new m = (m', sm_content m k = Some old) \<and> sm_inv m' \<and>
    sm_content m' = (if sm_content m k = Some old then (sm_content m)(k \<mapsto> new) else sm_content m)"
proof -
  have same: "at_entry e (tryCompareAndSwap old new) m = (m, False)" if "entry_load (entries m ! e) \<noteq> Some old" for e
    using that by (intro at_entry_same) (auto simp: tryCompareAndSwap_def)
  have live: "tryCompareAndSwap old new (entries m ! e) = (PVal new, True)" "entries m ! e \<noteq> PExpunged" if "entry_load (entries m ! e) = Some old" for e
    using that by (cases "entries m ! e"; simp add: tryCompareAndSwap_def)+
  show ?thesis
  proof (cases "rd m k")
    case r: (Some e)
    note c = content_entry [OF read_entry [OF r]]
    show ?thesis
    proof (cases "sm_content m k = Some old")
      case True
      note l = live [OF True [unfolded c]]
      from at_entry_ok [where f = "tryCompareAndSwap old new", OF m read_entry [OF r] l(2,1)] True r
      show ?thesis by (auto simp: sm_CompareAndSwap_def)
    qed (use m r c same in \<open>simp add: sm_CompareAndSwap_def\<close>)
  next
    case r: None
    show ?thesis
    proof (cases "dd m k")
      case d: (Some e)
      note de = dirty_entry [OF m r d]
      note c = content_entry [OF de(1)]
      show ?thesis
      proof (cases "sm_content m k = Some old")
        case True
        note l = live [OF True [unfolded c]]
        from at_dirty_ok [where f = "tryCompareAndSwap old new", OF m r d l(1)] True r d de(3)
        show ?thesis by (auto simp: sm_CompareAndSwap_def)
      qed (use missLocked_content [OF m de(3)] r d de(3) c same in \<open>simp add: sm_CompareAndSwap_def\<close>)
    next
      case None
      with m r absent_content [OF r None] show ?thesis by (simp add: sm_CompareAndSwap_def)
    qed
  qed
qed

text \<open>
  \<open>CompareAndDelete\<close> counts the miss before it changes the entry. The entry is then in the map that took the place of the dirty
  map.
\<close>

lemma sm_CompareAndDelete_ok:
  fixes m :: "('k, 'v) sync_map"
  assumes m: "sm_inv m"
  shows "\<exists>m'. sm_CompareAndDelete k old m = (m', sm_content m k = Some old) \<and> sm_inv m' \<and>
    sm_content m' = (if sm_content m k = Some old then (sm_content m)(k := None) else sm_content m)"
proof -
  have same: "at_entry e (compare_delete old) m = (m, False)" if "entry_load (entries m ! e) \<noteq> Some old"
    for e and m :: "('k, 'v) sync_map"
    using that by (intro at_entry_same) (auto simp: compare_delete_def)
  have live: "compare_delete old (entries m ! e) = (PNil, True)" "entries m ! e \<noteq> PExpunged" if "entry_load (entries m ! e) = Some old" for e m
    using that by (cases "entries m ! e"; simp add: compare_delete_def)+
  have on: "\<exists>m'. at_entry e (compare_delete old) m = (m', sm_content m k = Some old) \<and> sm_inv m' \<and>
      sm_content m' = (if sm_content m k = Some old then (sm_content m)(k := None) else sm_content m)"
    if m: "sm_inv m" and e: "entry_of m k = Some e" for m e
  proof (cases "sm_content m k = Some old")
    case True
    note l = live [OF True [unfolded content_entry [OF e]]]
    from at_entry_ok [where f = "compare_delete old", OF m e l(2,1)] True show ?thesis by auto
  qed (use same content_entry [OF e] m in simp)
  show ?thesis
  proof (cases "rd m k")
    case r: (Some e)
    with on [OF m read_entry [OF r]] show ?thesis by (simp add: sm_CompareAndDelete_def)
  next
    case r: None
    show ?thesis
    proof (cases "amd m")
      case am: True
      note miss = missLocked_ok [OF m amended_dirty [OF m am]]
      show ?thesis
      proof (cases "dd m k")
        case None
        then show ?thesis using miss r am absent_content [OF r None] by (simp add: sm_CompareAndDelete_def Let_def)
      next
        case d: (Some e)
        have "entry_of (missLocked m) k = Some e" using miss(5) [OF r] dirty_entry(1) [OF m r d] by simp
        from on [OF miss(1) this, unfolded miss(2)] r d am show ?thesis by (simp add: sm_CompareAndDelete_def Let_def)
      qed
    next
      case False
      then show ?thesis using m r absent_content [OF r unamended_absent [OF m False r]] by (simp add: sm_CompareAndDelete_def)
    qed
  qed
qed

text \<open>\<open>LoadAndDelete\<close> of a key that only the dirty map has takes it out, and then works on an entry that is in neither map.\<close>

lemma remove_dirty_ok:
  assumes m: "sm_inv m" and r: "rd m k = None" and am: "amd m"
  defines "m1 \<equiv> m\<lparr>dirty := map_option (AList.delete k) (dirty m)\<rparr>"
  shows "sm_inv m1" and "sm_content m1 = (sm_content m)(k := None)" and "amd m1" and "entry_of m1 = (entry_of m)(k := None)"
    and "rd m1 = rd m" and "dd m1 = (dd m)(k := None)"
proof -
  obtain d where d: "dirty m = Some d" using amended_dirty [OF m am] by blast
  have dd: "dd m = map_of d" by (simp add: dirty_map_def d)
  have m1: "m1 = m\<lparr>dirty := Some (AList.delete k d)\<rparr>" by (simp add: m1_def d)
  show "amd m1" "rd m1 = rd m" by (simp_all add: m1 am)
  show dd1: "dd m1 = (dd m)(k := None)" by (simp add: m1 dd delete_conv')
  have "distinct (map fst d)" using m by (simp add: sm_inv_def dirty_map_def d)
  then show "sm_inv m1" using m ok_delete [OF sm_ok [OF m] r] unfolding sm_inv_def
    by (simp add: m1 dd delete_conv' distinct_delete d)
  show e: "entry_of m1 = (entry_of m)(k := None)"
    using r by (auto simp: fun_eq_iff entry_of_def m1 dd delete_conv' split: option.split)
  show "sm_content m1 = (sm_content m)(k := None)"
  proof
    fix k'
    have "entries m1 = entries m" by (simp add: m1)
    then show "sm_content m1 k' = ((sm_content m)(k := None)) k'" by (simp add: sm_content_def e cong: option.case_cong)
  qed
qed

lemma delete_entry: "entry_delete p = (if entry_load p = None then p else PNil, entry_load p)"
  by (cases p) (simp_all add: entry_delete_def)

lemma sm_LoadAndDelete_ok:
  assumes m: "sm_inv m"
  shows "\<exists>m'. sm_LoadAndDelete k m = (m', sm_content m k) \<and> sm_inv m' \<and> sm_content m' = (sm_content m)(k := None)"
proof (cases "rd m k")
  case r: (Some e)
  note e = read_entry [OF r]
  show ?thesis
  proof (cases "entry_load (entries m ! e)")
    case None
    then have "at_entry e entry_delete m = (m, None)" by (intro at_entry_same) (simp add: delete_entry)
    with m r None content_entry [OF e] show ?thesis by (simp add: sm_LoadAndDelete_def fun_upd_idem)
  next
    case (Some v)
    then have "entries m ! e \<noteq> PExpunged" "entry_delete (entries m ! e) = (PNil, Some v)" by (auto simp: delete_entry)
    from at_entry_ok [where f = entry_delete, OF m e this] Some content_entry [OF e] r show ?thesis by (auto simp: sm_LoadAndDelete_def)
  qed
next
  case r: None
  show ?thesis
  proof (cases "amd m")
    case am: True
    let ?m1 = "m\<lparr>dirty := map_option (AList.delete k) (dirty m)\<rparr>"
    note rem = remove_dirty_ok [OF m r am]
    note miss = missLocked_ok [OF rem(1) amended_dirty [OF rem(1,3)]]
    show ?thesis
    proof (cases "dd m k")
      case None
      then show ?thesis using miss rem(2) r am absent_content [OF r None] by (simp add: sm_LoadAndDelete_def Let_def)
    next
      case d: (Some e)
      note de = dirty_entry [OF m r d]
      have gone: "rd ?m1 k' \<noteq> Some e \<and> dd ?m1 k' \<noteq> Some e" for k'
      proof (cases "k' = k")
        case False
        have "\<not> (rd m k' = Some e \<or> dd m k' = Some e)" using entry_one [OF m, of k e k'] d False by blast
        then show ?thesis using False by (simp only: rem(5,6) fun_upd_apply) simp
      qed (use r in \<open>simp only: rem(5,6) fun_upd_apply\<close>, simp)
      have orphan: "rd (missLocked ?m1) k' \<noteq> Some e \<and> dd (missLocked ?m1) k' \<noteq> Some e" for k'
        using gone [of k'] by (auto simp: missLocked_def Let_def)
      have en: "entries (missLocked ?m1) ! e = entries m ! e" using miss(3) by simp
      have "at_entry e entry_delete (missLocked ?m1) = ((missLocked ?m1)\<lparr>entries := (entries (missLocked ?m1))[e := fst (entry_delete (entries m ! e))]\<rparr>, sm_content m k)"
        using content_entry [OF de(1)] by (simp add: at_entry_def en delete_entry)
      with orphan_changed [OF miss(1) orphan] miss(2) rem(2) r d am show ?thesis by (simp add: sm_LoadAndDelete_def Let_def)
    qed
  next
    case False
    then show ?thesis using m r absent_content [OF r unamended_absent [OF m False r]] by (simp add: sm_LoadAndDelete_def fun_upd_idem)
  qed
qed

lemma sm_Clear_ok:
  assumes m: "sm_inv m"
  shows "sm_inv (sm_Clear m)" and "sm_content (sm_Clear m) = Map.empty"
proof -
  have "sm_inv (sm_Clear m) \<and> sm_content (sm_Clear m) = Map.empty"
  proof (cases "ro_m (loadReadOnly m) = [] \<and> \<not> amd m")
    case True
    then have "sm_content m k = None" for k using unamended_absent [OF m, of k] absent_content [of m k] by simp
    with True m show ?thesis by (simp add: sm_Clear_def Let_def fun_eq_iff)
  next
    case False
    let ?m = "m\<lparr>read_ptr := Some \<lparr>ro_m = [], amended = False\<rparr>, dirty := map_option (\<lambda>_. []) (dirty m), misses := 0\<rparr>"
    have "sm_inv ?m" using ok_clear by (simp add: sm_inv_def)
    moreover have "sm_content ?m = Map.empty" by (simp add: fun_eq_iff sm_content_def entry_of_def)
    moreover have "sm_Clear m = ?m" unfolding sm_Clear_def Let_def by (rule if_not_P [OF False])
    ultimately show ?thesis by metis
  qed
  then show "sm_inv (sm_Clear m)" "sm_content (sm_Clear m) = Map.empty" by blast+
qed

lemma sm_run_correct:
  assumes m: "sm_inv s"
  shows "\<exists>s'. sm_run nilv s c = Inr (s', snd (map_spec (sm_content s) c)) \<and> sm_inv s' \<and> sm_content s' = fst (map_spec (sm_content s) c)"
proof (cases c)
  case (MLoad k)
  then show ?thesis using sm_Load_ok [OF m, of k] by auto
next
  case (MStore k v)
  then show ?thesis using sm_Swap_ok [OF m, of k v] by (auto simp: sm_Store_def)
next
  case (MLoadOrStore k v)
  then show ?thesis using sm_LoadOrStore_ok [OF m, of nilv k v] by (cases "sm_content s k") (auto simp: fun_upd_idem)
next
  case (MSwap k v)
  then show ?thesis using sm_Swap_ok [OF m, of k v] by auto
next
  case (MCompareAndSwap k old new)
  then show ?thesis using sm_CompareAndSwap_ok [OF m, of k old new] by auto
next
  case (MLoadAndDelete k)
  then show ?thesis using sm_LoadAndDelete_ok [OF m, of k] by auto
next
  case (MDelete k)
  then show ?thesis using sm_LoadAndDelete_ok [OF m, of k] by (auto simp: sm_Delete_def)
next
  case (MCompareAndDelete k old)
  then show ?thesis using sm_CompareAndDelete_ok [OF m, of k old] by auto
next
  case MClear
  then show ?thesis using sm_Clear_ok [OF m] by simp
qed

lemma sm_inv_new: "sm_inv new_sync_map" "sm_content new_sync_map = Map.empty"
  using ok_clear by (simp_all add: sm_inv_def new_sync_map_def loadReadOnly_def dirty_map_def sm_content_def entry_of_def fun_eq_iff)

interpretation sm: map_impl "sm_run nilv" sm_inv sm_content new_sync_map for nilv
  by unfold_locales (simp_all add: sm_inv_new sm_run_correct)

section \<open>Range\<close>

definition live_pairs :: "'v eptr list \<Rightarrow> ('k \<times> nat) list \<Rightarrow> ('k \<times> 'v) list" where
  "live_pairs es kes = List.map_filter (\<lambda>(k, e). map_option (Pair k) (entry_load (es ! e))) kes"

lemma live_pairs_simps [simp]:
  "live_pairs es [] = []"
  "live_pairs es ((k, e) # kes) = (case entry_load (es ! e) of None \<Rightarrow> live_pairs es kes | Some v \<Rightarrow> (k, v) # live_pairs es kes)"
  by (simp_all add: live_pairs_def List.map_filter_def split: option.split)

lemma range_loop_pairs: "range_loop f es kes a = fst (yield_all f (live_pairs es kes) a)"
  by (induction f es kes a rule: range_loop.induct) (auto split: option.split prod.split)

lemma live_pairs_map:
  assumes "distinct (map fst kes)"
  shows "distinct (map fst (live_pairs es kes))" and "set (map fst (live_pairs es kes)) \<subseteq> set (map fst kes)"
    and "map_of (live_pairs es kes) k = (case map_of kes k of Some e \<Rightarrow> entry_load (es ! e) | None \<Rightarrow> None)"
proof -
  have sub: "set (map fst (live_pairs es kes)) \<subseteq> set (map fst kes)" for kes :: "('a \<times> nat) list"
  proof (induction kes)
    case (Cons ke kes)
    then show ?case by (cases ke) (simp split: option.split; blast)
  qed simp
  show "set (map fst (live_pairs es kes)) \<subseteq> set (map fst kes)" by (rule sub)
  show "distinct (map fst (live_pairs es kes))" using assms
  proof (induction kes)
    case (Cons ke kes)
    with sub [of kes] show ?case by (cases ke) (auto split: option.split)
  qed simp
  show "map_of (live_pairs es kes) k = (case map_of kes k of Some e \<Rightarrow> entry_load (es ! e) | None \<Rightarrow> None)"
    using assms
  proof (induction kes)
    case (Cons ke kes)
    obtain k' e where ke: "ke = (k', e)" by (cases ke)
    have "map_of kes k' = None" using Cons.prems by (simp add: ke map_of_eq_None_iff)
    with Cons show ?case by (auto simp: ke split: option.split)
  qed simp
qed

definition promoted :: "('k, 'v) sync_map \<Rightarrow> ('k, 'v) sync_map" where
  "promoted m = (if amd m then m\<lparr>read_ptr := Some \<lparr>ro_m = dirty_map m, amended = False\<rparr>, dirty := None, misses := 0\<rparr> else m)"

definition range_pairs :: "('k, 'v) sync_map \<Rightarrow> ('k \<times> 'v) list" where
  "range_pairs m = live_pairs (entries (promoted m)) (ro_m (loadReadOnly (promoted m)))"

lemma sm_Range_eq: "sm_Range f m a = (promoted m, fst (yield_all f (range_pairs m) a))"
  by (simp add: sm_Range_def Let_def promoted_def range_pairs_def range_loop_pairs)

lemma promoted_ok:
  assumes m: "sm_inv m"
  shows "sm_inv (promoted m)" and "\<not> amd (promoted m)" and "sm_content (promoted m) = sm_content m"
proof -
  have "sm_inv (promoted m) \<and> \<not> amd (promoted m) \<and> sm_content (promoted m) = sm_content m"
  proof (cases "amd m")
    case True
    let ?big = "m\<lparr>misses := length (dirty_map m)\<rparr>"
    have "entry_of ?big = entry_of m" by (simp add: fun_eq_iff entry_of_def split: option.split)
    then have c: "sm_content ?big = sm_content m" by (simp add: fun_eq_iff sm_content_def split: option.split)
    have big: "sm_inv ?big" "dirty ?big \<noteq> None" using m amended_dirty [OF m True] by (simp_all add: sm_inv_def)
    have "missLocked ?big = promoted m" using True by (simp add: promoted_def missLocked_def Let_def)
    with missLocked_ok [OF big] c True show ?thesis by (simp add: promoted_def)
  qed (use m in \<open>simp add: promoted_def\<close>)
  then show "sm_inv (promoted m)" "\<not> amd (promoted m)" "sm_content (promoted m) = sm_content m" by blast+
qed

lemma range_pairs_map:
  assumes m: "sm_inv m"
  shows "distinct (map fst (range_pairs m))" and "map_of (range_pairs m) = sm_content m"
proof -
  let ?m = "promoted m"
  note p = promoted_ok [OF m]
  have d: "distinct (map fst (ro_m (loadReadOnly ?m)))" using p(1) by (simp add: sm_inv_def)
  show "distinct (map fst (range_pairs m))" unfolding range_pairs_def by (rule live_pairs_map(1) [OF d])
  have "map_of (range_pairs m) k = sm_content ?m k" for k
    unfolding range_pairs_def live_pairs_map(3) [OF d]
  proof (cases "rd ?m k")
    case None
    then show "(case rd ?m k of None \<Rightarrow> None | Some e \<Rightarrow> entry_load (entries ?m ! e)) = sm_content ?m k"
      using absent_content [OF None unamended_absent [OF p(1,2) None]] by simp
  qed (simp add: sm_content_def entry_of_def)
  then show "map_of (range_pairs m) = sm_content m" using p(3) by (simp add: fun_eq_iff)
qed

section \<open>Properties\<close>

text \<open>
  C28. Every history of calls on a new \<open>Map\<close> returns what the same calls return on a map from keys to values, and never
  panics: in particular the code never writes to a nil dirty map. The values that \<open>CompareAndSwap\<close> and \<open>CompareAndDelete\<close> compare are
  comparable, as these methods document.
\<close>

theorem sync_map_refines_map:
  "\<exists>s. run_calls (sm_run nilv) new_sync_map cs = Inr (s, snd (map_specs Map.empty cs)) \<and> sm_content s = fst (map_specs Map.empty cs)"
  using sm.history_refines [of nilv cs] by blast

text \<open>
  The two implementations of \<open>Map\<close>, of which a build flag selects one, return the same results for every history of calls and
  then have the same content.
\<close>

theorem map_builds_agree:
  "\<exists>s s' rs. run_calls (sm_run nilv) new_sync_map cs = Inr (s, rs) \<and>
    run_calls (ht_run (comparable h z r)) new_hash_trie cs = Inr (s', rs) \<and> sm_content s = trie_content s'"
  using sm.history_refines [of nilv cs] ht.history_refines [of h z r cs] by metis

text \<open>
  C29. The relation of the two maps that the comments describe holds after every history: an expunged entry of the read-only map is not in
  the dirty map, which is then not nil; any other entry of it is in the dirty map unless that is nil; a key that only the dirty map has
  makes the read-only map amended, and no entry of the dirty map is expunged.
\<close>

theorem sync_map_documented:
  "\<exists>s rs. run_calls (sm_run nilv) new_sync_map cs = Inr (s, rs) \<and>
    (\<forall>k. case rd s k of None \<Rightarrow> dd s k = None \<or> amd s
       | Some e \<Rightarrow> if entries s ! e = PExpunged then dirty s \<noteq> None \<and> dd s k = None else dirty s = None \<or> dd s k = Some e) \<and>
    (\<forall>k. case dd s k of None \<Rightarrow> True | Some e \<Rightarrow> entries s ! e \<noteq> PExpunged)"
proof -
  obtain s rs where s: "run_calls (sm_run nilv) new_sync_map cs = Inr (s, rs)" "sm_inv s" using sm.history_refines [of nilv cs] by blast
  note ok = maps_okD [OF sm_ok [OF s(2)]]
  have "if entries s ! e = PExpunged then dirty s \<noteq> None \<and> dd s k = None else dirty s = None \<or> dd s k = Some e" if "rd s k = Some e" for k e
    using ok(4,7) [OF _ that] by (cases "dirty s") auto
  moreover have "dd s k = None \<or> amd s" if "rd s k = None" for k using ok(8) [of k] that by auto
  moreover have "entries s ! e \<noteq> PExpunged" if "dd s k = Some e" for k e using ok(3) [OF that] by auto
  ultimately show ?thesis using s(1) by (intro exI [of _ s] exI [of _ rs]) (auto split: option.split)
qed

text \<open>
  C30. \<open>Range\<close>, after any history of calls, calls the consumer with each key of the map and its value, no key twice, until it
  returns false, and leaves the content as it was.
\<close>

theorem sync_map_range:
  "\<exists>s ps. run_calls (sm_run nilv) new_sync_map cs = Inr (s, snd (map_specs Map.empty cs)) \<and>
    distinct (map fst ps) \<and> map_of ps = fst (map_specs Map.empty cs) \<and>
    (\<forall>f a. snd (sm_Range f s a) = fst (yield_all f ps a) \<and> sm_content (fst (sm_Range f s a)) = sm_content s)"
proof -
  obtain s where s: "run_calls (sm_run nilv) new_sync_map cs = Inr (s, snd (map_specs Map.empty cs))" "sm_inv s"
    "sm_content s = fst (map_specs Map.empty cs)" using sm.history_refines [of nilv cs] by blast
  with range_pairs_map [OF s(2)] promoted_ok [OF s(2)] show ?thesis
    by (intro exI [of _ s] exI [of _ "range_pairs s"]) (simp add: sm_Range_eq)
qed

end
