(* ===== verification/Spec2Isabelle.thy ===== *)
theory Spec2Isabelle
  imports Limits Roundtrips NodeCalls TreeLocks Process GreenWire OptimisticLock MutexCorrect SyncMapCorrect
begin

text \<open>
  The adaptive radix tree of \<open>github.com/glycerine/art-adaptive-radix-tree\<close>: an ordered map from byte
  strings to values, held in a radix tree whose inner nodes come in four sizes, and which is also an
  array of its leaves in key order.

  \<^bold>\<open>The program.\<close> A \<open>Tree\<close> (\<open>tree.go\<close>) has a root \<open>bnode\<close> and the number of its leaves. A \<open>bnode\<close>
  (\<open>node.go\<close>) is a \<open>Leaf\<close> (\<open>leaf.go\<close>) or an \<open>Inner\<close> node (\<open>inner.go\<close>) and holds the number of leaves before it
  in its parent (\<open>pren\<close>). An inner node has a compressed path, the number of leaves below it (\<open>SubN\<close>) and
  an \<open>Inode\<close>: one of \<open>node4\<close>, \<open>node16\<close>, \<open>node48\<close>, \<open>node256\<close> (\<open>n4.go\<close>, \<open>n16.go\<close>, \<open>n48.go\<close>, \<open>n256.go\<close>), which grow
  and shrink into each other. Searches for the next and the previous key are in \<open>gte.go\<close> and \<open>lte.go\<close>,
  iteration in \<open>iterator.go\<close>, saving and loading in \<open>saver.go\<close> with generated code in \<open>leaf_gen.go\<close> and
  \<open>tree_gen.go\<close>. \<open>optimistic_lock.go\<close> is a version lock for nodes.

  \<^bold>\<open>The theories.\<close>
  \<^item> \<open>Prelude\<close>: the result type \<open>res\<close> of code that may panic, bytes, keys and the order of keys.
  \<^item> \<open>Types\<close>: the structs as datatypes and records, with the names of the source.
  \<^item> \<open>Interface\<close>: the locale of what a caller relies on in a node: a map from bytes to children, with
    first, last, next and previous child. \<open>Children\<close>: the facts about such maps. \<open>SortedArray\<close>: the laws of
    the sorted arrays that \<open>node4\<close> and \<open>node16\<close> share.
  \<^item> \<open>NodeFour\<close>, \<open>NodeSixteen\<close>, \<open>NodeFortyEight\<close>, \<open>NodeTwoFiftySix\<close>, \<open>Resize\<close>: the operations of the four
    nodes, \<open>grow\<close> and \<open>shrink\<close>, and the interpretations of the locale. \<open>Inodes\<close>: the interface \<open>Inode\<close>.
    \<open>NodeCalls\<close>: histories of one node.
  \<^item> \<open>Shape\<close>: the well-formed trees: each leaf's key starts with the path to it, the nodes are neither
    too full nor too empty. \<open>LeafOps\<close>, \<open>InnerOps\<close>: the small operations of leaves and inner nodes and the
    exact search. \<open>Counts\<close>, \<open>Positions\<close>: exact counts, and the tree as an array.
  \<^item> \<open>Insertion\<close>, \<open>Deletion\<close>: \<open>insert\<close> and \<open>del\<close> of leaves, inner nodes and bnodes. \<open>Search\<close>, \<open>SearchGTE\<close>,
    \<open>SearchLTE\<close>: \<open>getGTE\<close> and \<open>getLTE\<close>; \<open>FindGTE\<close>, \<open>FindLTE\<close>: what they return.
  \<^item> \<open>TreeApi\<close>: the methods of \<open>Tree\<close>. \<open>Histories\<close>: sequences of calls and the map they refine. \<open>Loading\<close>:
    insertion in key order. \<open>TreeFind\<close>: \<open>Find\<close> with each modifier. \<open>Iterator\<close>: iteration. \<open>Traversal\<close>: the
    depth-first search and the loops to the first and last leaf. \<open>Samples\<close>: the concrete trees of the examples.
    \<open>Limits\<close>: what the code does with the inputs that the theorems leave out.
  \<^item> \<open>TreeLocks\<close>: any number of goroutines that share a tree and its \<open>Rwmut\<close>, as an inductive step relation: no two
    writers, and no reader beside a writer; linearisability against the map of \<open>Histories\<close>; no deadlock, but for
    \<open>LeafIndex\<close>, and a lock that \<open>At\<close> can leave behind. A writer that panics gives the lock back, and leaves any tree.
  \<^item> \<open>Printing\<close>: the strings that nodes and trees print themselves as. \<open>Process\<close>: stack dumps and the number of the running
    goroutine, log lines and exits (\<open>vprint.go\<close>, \<open>filterstacks.go\<close>), and the small unused parts.
  \<^item> \<open>Msgp\<close>: what the generated code uses of the \<open>msgp\<close> library, and the parts that the generated functions
    share. \<open>Codecs\<close>: the serializers of \<open>leaf_gen.go\<close>; \<open>Wire\<close>, \<open>WireBytes\<close>: the locales with the laws of the
    library, and that the serializers read back what they write. \<open>TreeCodec\<close>, \<open>TreeWire\<close>: the same for
    \<open>tree_gen.go\<close> and the hooks of \<open>Tree\<close>. \<open>Saver\<close>: \<open>TreeSaver\<close> and \<open>TreeLoader\<close>. \<open>MessagePack\<close>: an implementation
    of the library on which the locales are interpreted. \<open>Roundtrips\<close>: the properties of saving and loading.
    \<open>GreenWrap\<close>, \<open>GreenWire\<close>: the serializers of an interface value (\<open>serz/green_gen.go\<close>), with locales that extend those of \<open>msgp\<close>.
  \<^item> \<open>OptimisticLock\<close>: the lock as functions of the words its atomic accesses see, and any number of threads
    that use it as an inductive step relation, with its invariant. \<open>RaceLock\<close>: the same for the simulated
    lock of the builds with the race detector (\<open>attic/optimistic_lock_race.go\<close>).
  \<^item> \<open>MapSpec\<close>: the contract of the concurrent maps of \<open>attic\<close>. \<open>HashTrie\<close>, \<open>HashTrieMap\<close>: the trie over the bits of
    a hash (\<open>attic/isync/hashtriemap.go\<close>) and that it keeps the contract. \<open>SyncMap\<close>, \<open>SyncMapCorrect\<close>: the map of
    a read-only and a dirty map (\<open>attic/syncmap/map.go\<close>) likewise. \<open>Mutex\<close>, \<open>MutexCorrect\<close>: the mutex of
    \<open>attic/isync/mutex.go\<close>, one atomic access at a time.
  \<^item> this theory: the properties that span components.

  \<^bold>\<open>The abstraction.\<close> A tree is a value; a pointer to a node is the node, since the code keeps one pointer to
  each node, in its parent. A method that mutates its receiver returns the new receiver. A panic is
  a value \<open>Inl\<close> of the result. A leaf carries an address, as \<open>Leaf.insert\<close> compares pointers.
  \<open>tree_wf\<close> is the invariant of the shape, \<open>sized\<close> says that the size is the number of leaves,
  \<open>tree_counted\<close> and \<open>tree_cached\<close> say that \<open>SubN\<close> and \<open>pren\<close> are exact. The first two are kept by every
  operation. The last two hold after insertions in key order, but an update of an existing key, a
  removal of an absent one and an insertion below an inner child can break them: the theorems about
  positions have them as hypotheses, and the theorems about the map do not need them.

  \<^bold>\<open>Termination.\<close> The recursions over the tree end because the tree is smaller (\<open>size\<close>), the searches because
  of a measure of the phase they are in. The loops of the iterator are partial functions, and the theorems
  state that they return. The loops of the lock take the list of the words that they read.

  Steps of several goroutines are interleaved in \<open>TreeLocks\<close>, \<open>OptimisticLock\<close>, \<open>RaceLock\<close> and \<open>MutexCorrect\<close>; \<open>sync.RWMutex\<close> and the
  semaphores of the runtime are taken as documented.

  \<^bold>\<open>Not modelled.\<close> The random node identifiers, which nothing uses; changes of the tree while it is iterated over or printed
  (neither locks the tree); time zones, the clock, the call stack and signals, which the logging takes from the runtime, so that
  their texts are arguments; and the files without code of their own: \<open>bulk.go\<close>, \<open>green.go\<close>, the declarations of the runtime in
  \<open>attic/isync/runtime.go\<close>, and the demonstration and the commented-out code of \<open>attic/atomicpointer\<close>. The maps of \<open>attic\<close>
  run one operation at a time. What is left of the files beyond that are comments, imports and declarations.
\<close>

section \<open>The tree as a map\<close>

definition sample_history :: "call list" where
  "sample_history = [CallInsert [1, 2] (AnyInt 7), CallInsertX [1, 3] (AnyInt 8) [9], CallInsert [1, 2] (AnyInt 9),
     CallFindExact [1, 2], CallRemove [1, 3], CallRemove [5], CallSize, CallIsEmpty]"

text \<open>
  C1. Every history of calls of \<open>Insert\<close>, \<open>InsertX\<close>, \<open>Remove\<close>, \<open>FindExact\<close>, \<open>Size\<close> and \<open>IsEmpty\<close> on a new
  tree returns, without a panic, exactly what the same calls return on a map from keys to values,
  and leaves a tree that represents the map of the specification, under two conditions. No key that is inserted begins with another
  inserted key and a zero byte after it: the tree cannot tell such keys apart (\<open>zero_byte_hides\<close>, \<open>zero_byte_panics\<close> in \<open>Limits\<close>). And the empty
  key is not looked up with \<open>FindExact\<close>, which takes it for any key in a tree of one leaf; it may be inserted and removed.
\<close>

theorem history_refines_map:
  assumes "compat_set U" and "\<forall>c \<in> set cs. call_ok U c"
  shows "\<exists>a t. exec_all (0, NewArtTree) cs = Inr ((a, t), snd (spec_all Map.empty cs)) \<and>
    tree_wf t \<and> sized t \<and> values_of t = fst (spec_all Map.empty cs)"
proof -
  have "values_of NewArtTree = Map.empty" by simp
  with exec_all_refines [OF assms(1) world_empty assms(2), of 0] show ?thesis unfolding world_ok_def by fastforce
qed

theorem history_refines_map_witness:
  "\<exists>a t. exec_all (0, NewArtTree) sample_history = Inr ((a, t), snd (spec_all Map.empty sample_history)) \<and>
    tree_wf t \<and> sized t \<and> values_of t = fst (spec_all Map.empty sample_history)"
  by (rule history_refines_map [of "{[1, 2], [1, 3]}"])
    (simp_all add: compat_set_def key_compat_def sample_history_def)

text \<open>
  C3. \<open>InsertLeaf\<close> on a well-formed tree does not panic, keeps the tree well formed, stores the leaf
  under its key and changes no other key. It reports an update iff another leaf was stored under the
  key, and counts the leaf otherwise. Two conditions (\<open>storable\<close>): the key of the leaf does not begin with a key of the
  tree and a zero byte after it, nor does a key of the tree begin with the key of the leaf and a zero byte after it (\<open>Limits\<close> has what
  happens then); and a leaf that is in the tree at the same address is the same leaf.
\<close>

theorem insert_updates_map:
  assumes "tree_wf t" and "storable t lf"
  shows "\<exists>t' u. tree_InsertLeaf t lf = Inr (t', u) \<and> tree_wf t' \<and>
    tree_map t' = (tree_map t)(Key lf \<mapsto> unkeyed lf) \<and>
    (u \<longleftrightarrow> (\<exists>l. tree_map t (Key lf) = Some l \<and> lf_addr l \<noteq> lf_addr lf)) \<and>
    tree_size t' = tree_size t + (if u then 0 else 1)"
proof -
  obtain t' u where i: "tree_InsertLeaf t lf = Inr (t', u)" "tree_wf t'"
    "abs_set t' = insert (unkeyed lf) {l \<in> abs_set t. Key l \<noteq> Key lf}"
    "u \<longleftrightarrow> (\<exists>l \<in> abs_set t. Key l = Key lf \<and> lf_addr l \<noteq> lf_addr lf)"
    "tree_size t' = tree_size t + (if u then 0 else 1)"
    by (rule InsertLeaf_correct [OF assms]) (rule that)
  moreover have "tree_map t' = (tree_map t)(Key lf \<mapsto> unkeyed lf)"
    using tree_map_update [OF assms(1) i(2,3)] by simp
  ultimately show ?thesis using tree_map_Some [OF assms(1)] by blast
qed

theorem insert_updates_map_witness:
  "\<exists>t' u. tree_InsertLeaf sample_tree (NewLeaf 9 [1, 3, 5] (AnyInt 1) []) = Inr (t', u) \<and> tree_wf t' \<and>
    tree_map t' [1, 3, 5] = Some (NewLeaf 9 [1, 3, 5] (AnyInt 1) [])"
proof -
  let ?l = "NewLeaf 9 [1, 3, 5] (AnyInt 1) []"
  have "unkeyed ?l = ?l" "Key ?l = [1, 3, 5]" by (simp_all add: NewLeaf_def unkeyed_def)
  moreover have "storable sample_tree ?l" by (rule sample_storable) (simp_all add: NewLeaf_def key_compat_def)
  ultimately show ?thesis using insert_updates_map [OF sample_facts(1), of ?l] by auto
qed

text \<open>
  C4. \<open>Remove\<close> on a well-formed tree does not panic, keeps the tree well formed, removes the key and
  changes no other key. It reports whether the key was present, returns the value that was stored,
  and the size goes down by one exactly then.
\<close>

theorem remove_deletes_key:
  assumes "tree_wf t"
  shows "\<exists>t' d v. tree_Remove t K = Inr (t', d, v) \<and> tree_wf t' \<and> tree_map t' = (tree_map t)(K := None) \<and>
    (d \<longleftrightarrow> K \<in> dom (tree_map t)) \<and> v = (case tree_map t K of Some l \<Rightarrow> Value l | None \<Rightarrow> AnyNil) \<and>
    tree_size t' = tree_size t - (if d then 1 else 0)"
proof -
  obtain t' d v where r: "tree_Remove t K = Inr (t', d, v)" "tree_wf t'"
    "abs_set t' = {l \<in> abs_set t. Key l \<noteq> K}" "d \<longleftrightarrow> K \<in> tree_keys t"
    "d \<longrightarrow> (\<exists>l \<in> abs_set t. Key l = K \<and> v = Value l)" "\<not> d \<longrightarrow> v = AnyNil"
    "tree_size t' = tree_size t - (if d then 1 else 0)" by (rule Remove_correct [OF assms, of K]) (rule that)
  have d: "d \<longleftrightarrow> K \<in> dom (tree_map t)" using r(4) tree_keys_dom [OF assms] by (simp add: domIff)
  have "v = (case tree_map t K of Some l \<Rightarrow> Value l | None \<Rightarrow> AnyNil)"
  proof (cases d)
    case True
    with r(5) obtain l where "l \<in> abs_set t" "Key l = K" "v = Value l" by blast
    then show ?thesis using tree_map_Some [OF assms, of K l] by simp
  next
    case False
    then have "tree_map t K = None" using d by auto
    then show ?thesis using False r(6) by simp
  qed
  with r d tree_map_remove [OF assms r(2,3)] show ?thesis by blast
qed

theorem remove_deletes_key_witness:
  "\<exists>t' d v. tree_Remove sample_tree [1, 3, 5] = Inr (t', d, v) \<and> tree_wf t' \<and>
    tree_map t' = (tree_map sample_tree)([1, 3, 5] := None) \<and> d \<and> tree_size t' = 3"
proof -
  have "[1, 3, 5] \<in> dom (tree_map sample_tree)"
    using tree_keys_dom [OF sample_facts(1), of "[1, 3, 5]"] sample_key_set by (auto simp: domIff)
  moreover have "tree_size sample_tree = 4" using sample_facts(2) sample_keys(2) by (simp add: sized_def)
  ultimately show ?thesis using remove_deletes_key [OF sample_facts(1), of "[1, 3, 5]"] by auto
qed

text \<open>
  C5. In a well-formed tree an exact search for a key that is not empty finds it iff it is in the tree, and returns the leaf of the
  key; so does the search for the empty key unless the size is 1. In a tree with exact counts and exact cached sums the index that it
  returns is the position of the key in the order. In a tree of one leaf, whose size is 1, the search for the empty key finds that
  leaf, whatever its key is.
\<close>

theorem find_exact_correct:
  assumes "tree_wf t"
  shows "(K \<noteq> [] \<or> tree_size t \<noteq> 1 \<longrightarrow>
      (\<exists>v i f. tree_Find t Exact K = Inr (v, i, f) \<and> (f \<longleftrightarrow> K \<in> dom (tree_map t)) \<and>
        (f \<longrightarrow> map_option unkeyed v = tree_map t K \<and>
          (tree_counted t \<and> tree_cached t \<longrightarrow> 0 \<le> i \<and> i < int (length (tree_leaves t)) \<and> Key (tree_leaves t ! nat i) = K)))) \<and>
    (tree_leaves t = [l] \<and> tree_size t = 1 \<longrightarrow> tree_Find t Exact [] = Inr (Some l, 0, True))"
proof (intro conjI impI)
  assume size: "K \<noteq> [] \<or> tree_size t \<noteq> 1"
  obtain v i f where f: "tree_Find t Exact K = Inr (v, i, f)" "f \<longleftrightarrow> K \<in> tree_keys t"
    "f \<longrightarrow> (\<exists>l \<in> set (tree_leaves t). v = Some l \<and> Key l = K)"
    "f \<longrightarrow> tree_counted t \<longrightarrow> tree_cached t \<longrightarrow> 0 \<le> i \<and> i < int (length (tree_leaves t)) \<and> Key (tree_leaves t ! nat i) = K"
    by (rule Find_Exact_correct [OF assms size]) (rule that)
  have "map_option unkeyed v = tree_map t K" if f
  proof -
    obtain l where l: "l \<in> set (tree_leaves t)" "v = Some l" "Key l = K" using f(3) \<open>f\<close> by blast
    then show ?thesis using tree_map_Some [OF assms, of K "unkeyed l"] by (auto simp: abs_set_def)
  qed
  with f(1,2,4) tree_keys_dom [OF assms] show "\<exists>v i f. tree_Find t Exact K = Inr (v, i, f) \<and> (f \<longleftrightarrow> K \<in> dom (tree_map t)) \<and>
      (f \<longrightarrow> map_option unkeyed v = tree_map t K \<and>
        (tree_counted t \<and> tree_cached t \<longrightarrow> 0 \<le> i \<and> i < int (length (tree_leaves t)) \<and> Key (tree_leaves t ! nat i) = K))"
    by (auto simp: domIff)
next
  assume "tree_leaves t = [l] \<and> tree_size t = 1"
  then show "tree_Find t Exact [] = Inr (Some l, 0, True)" by (intro Find_one_leaf [OF assms]) simp_all
qed

theorem find_exact_correct_witness:
  "\<exists>v i f. tree_Find sample_tree Exact [1, 3, 5] = Inr (v, i, f) \<and> f \<and> map_option unkeyed v = tree_map sample_tree [1, 3, 5] \<and>
    Key (tree_leaves sample_tree ! nat i) = [1, 3, 5]"
proof -
  have "[1, 3, 5] \<in> dom (tree_map sample_tree)"
    using tree_keys_dom [OF sample_facts(1), of "[1, 3, 5]"] sample_key_set by (auto simp: domIff)
  with conjunct1 [OF find_exact_correct [OF sample_facts(1), where K = "[1, 3, 5]"]] sample_facts(3,4) show ?thesis by auto
qed

text \<open>
  C6. The leaves of a well-formed tree are in strictly increasing order of their keys. When the tree is not empty and the counts
  \<open>SubN\<close> of its nodes are exact, \<open>At\<close> returns the leaf at an index of that order, and nothing outside the bounds. (The counts are exact
  after insertions of new keys in their order, not after an update: \<open>update_breaks_At\<close> in \<open>Limits\<close>.) When the size is exact too,
  \<open>FirstLeaf\<close> and \<open>LastLeaf\<close>, the searches with a nil key, return the two ends of the order with their positions. On an empty tree \<open>At\<close>
  panics, unless the index is negative.
\<close>

theorem at_is_sorted_array:
  assumes "tree_wf t"
  shows "sorted_wrt (<) (map Key (tree_leaves t)) \<and>
    (tree_counted t \<and> root t \<noteq> None \<longrightarrow>
      tree_At t i = Inr (if 0 \<le> i \<and> i < int (length (tree_leaves t)) then (Some (tree_leaves t ! nat i), True) else (None, False)) \<and>
      (sized t \<longrightarrow> tree_FirstLeaf t = Inr (Some (hd (tree_leaves t)), 0, True) \<and>
        tree_LastLeaf t = Inr (Some (last (tree_leaves t)), int (length (tree_leaves t)) - 1, True))) \<and>
    (root t = None \<longrightarrow> tree_At t i = (if i < 0 then Inr (None, False) else Inl NilDereference))"
  using At_correct [OF assms, of i] tree_sorted [OF assms] Find_ends_correct [of t] assms by (simp add: tree_At_def)

theorem at_is_sorted_array_witness:
  "tree_At sample_tree 3 = Inr (Some (tree_leaves sample_tree ! 3), True) \<and> tree_At sample_tree 4 = Inr (None, False) \<and>
    tree_LastLeaf sample_tree = Inr (Some (last (tree_leaves sample_tree)), 3, True)"
  using at_is_sorted_array [OF sample_facts(1), of 3] at_is_sorted_array [OF sample_facts(1), of 4]
  by (simp add: sample_facts(2,3) sample_root sample_keys(2))

text \<open>
  C7. Inserting leaves in strictly increasing order of their keys, as the loader does, does not panic and gives a tree of exactly these
  leaves, in this order, whose size, counts and cached sums are all exact. Two more conditions (\<open>loadable\<close>): no key begins with
  another of them and a zero byte after it, and the leaves are at different addresses.
\<close>

theorem load_in_order:
  assumes "loadable ls"
  shows "\<exists>t. insert_all NewArtTree ls = Inr t \<and> tree_wf t \<and> sized t \<and> tree_counted t \<and> tree_cached t \<and>
    map unkeyed (tree_leaves t) = map unkeyed ls"
  using load_ascending [OF assms] by (auto simp: exact_def)

theorem load_in_order_witness:
  "\<exists>t. insert_all NewArtTree sample_leaves = Inr t \<and> tree_cached t \<and> map unkeyed (tree_leaves t) = map unkeyed sample_leaves"
  using load_in_order [OF sample_loadable] by blast

section \<open>Neighbouring keys\<close>

text \<open>
  C8. \<open>Find\<close> with \<open>GTE\<close> or \<open>GT\<close> in a well-formed tree without a \<open>node256\<close> does not panic. For a key that is not empty, and unless the
  modifier is \<open>GT\<close> and the tree has one leaf, it finds something iff there is a leaf at or above, or above, the key and also a leaf
  at or below the key; then it returns the smallest leaf at or above, or above, the key, and when counts and cached sums are exact its
  position as the index. So it does not find what is documented when the key is below all leaves. In a tree of one leaf both modifiers
  find the leaf iff its key is the key, also \<open>GT\<close>, against its documentation. The empty key gives the first leaf.
\<close>

theorem find_above_correct:
  assumes "tree_wf t" and "tree_no256 t" and "smod = GTE \<or> smod = GT"
  shows "(K \<noteq> [] \<and> (smod = GT \<longrightarrow> length (tree_leaves t) \<noteq> 1) \<longrightarrow>
      (\<exists>v i f. tree_Find t smod K = Inr (v, i, f) \<and>
        (f \<longleftrightarrow> (\<exists>l \<in> set (tree_leaves t). Key l \<le> K) \<and> found_above smod K t \<noteq> []) \<and>
        (f \<longrightarrow> v = Some (hd (found_above smod K t)) \<and>
          (tree_counted t \<and> tree_cached t \<longrightarrow> 0 \<le> i \<and> i < int (length (tree_leaves t)) \<and>
            tree_leaves t ! nat i = hd (found_above smod K t))))) \<and>
    (K \<noteq> [] \<and> tree_leaves t = [l] \<longrightarrow>
      (\<exists>v i f. tree_Find t smod K = Inr (v, i, f) \<and> (f \<longleftrightarrow> Key l = K) \<and> (f \<longrightarrow> v = Some l))) \<and>
    (sized t \<and> root t \<noteq> None \<longrightarrow> tree_Find t smod [] = Inr (Some (hd (tree_leaves t)), 0, True))"
  using Find_above_documented [OF assms(1,2) _ assms(3)] Find_above_one_leaf [OF assms(1,2) _ assms(3)] Find_nil_correct(1) [OF assms(1) _ _ assms(3)]
  by blast

theorem find_above_correct_witness:
  "\<exists>l i. tree_Find sample_tree GT [1, 3, 5] = Inr (Some l, i, True) \<and> Key l = [1, 3, 6]"
proof -
  have "map Key (found_above GT [1, 3, 5] sample_tree) = [[1, 3, 6], [4]]"
    by (rule sample_filter [where P = "\<lambda>K. [1, 3, 5] < K"]) (simp_all add: found_above_def sample_keys(2))
  then obtain l r where l: "found_above GT [1, 3, 5] sample_tree = l # r" "Key l = [1, 3, 6]" by auto
  have "\<exists>l \<in> set (tree_leaves sample_tree). Key l \<le> [1, 3, 5]"
    using sample_key_set by (intro sample_some_leaf [of "[1, 2]"]) simp_all
  with l conjunct1 [OF find_above_correct [OF sample_facts(1) sample_no256, where K = "[1, 3, 5]" and smod = GT]] sample_keys(2)
  show ?thesis by auto
qed

text \<open>
  C9. \<open>Find\<close> with \<open>LTE\<close> or \<open>LT\<close> in a well-formed tree without a \<open>node256\<close> does not panic. For a key that is not empty, and unless the
  modifier is \<open>LT\<close> and the tree has one leaf, it finds something iff there is a leaf at or below, or below, the key and also a leaf
  at or above the key; then it returns the largest leaf at or below, or below, the key. The index is its position when it is the key
  itself that was found, and counts and cached sums are exact. So it does not find what is documented when the key is above all leaves.
  In a tree of one leaf both modifiers find the leaf iff its key is the key, also \<open>LT\<close>, against its documentation. The empty key gives
  the last leaf.
\<close>

theorem find_below_correct:
  assumes "tree_wf t" and "tree_no256 t" and "smod = LTE \<or> smod = LT"
  shows "(K \<noteq> [] \<and> (smod = LT \<longrightarrow> length (tree_leaves t) \<noteq> 1) \<longrightarrow>
      (\<exists>v i f. tree_Find t smod K = Inr (v, i, f) \<and>
        (f \<longleftrightarrow> (\<exists>l \<in> set (tree_leaves t). K \<le> Key l) \<and> found_below smod K t \<noteq> []) \<and>
        (f \<longrightarrow> v = Some (last (found_below smod K t)) \<and>
          (tree_counted t \<and> tree_cached t \<and> Key (last (found_below smod K t)) = K \<longrightarrow>
            0 \<le> i \<and> i < int (length (tree_leaves t)) \<and> tree_leaves t ! nat i = last (found_below smod K t))))) \<and>
    (K \<noteq> [] \<and> tree_leaves t = [l] \<longrightarrow>
      (\<exists>v i f. tree_Find t smod K = Inr (v, i, f) \<and> (f \<longleftrightarrow> Key l = K) \<and> (f \<longrightarrow> v = Some l))) \<and>
    (sized t \<and> root t \<noteq> None \<longrightarrow> (\<exists>i. tree_Find t smod [] = Inr (Some (last (tree_leaves t)), i, True)))"
  using Find_below_documented [OF assms(1,2) _ assms(3)] Find_below_one_leaf [OF assms(1,2) _ assms(3)] Find_nil_correct(2) [OF assms(1) _ _ assms(3)]
  by blast

theorem find_below_correct_witness:
  "\<exists>l i. tree_Find sample_tree LT [1, 3, 6] = Inr (Some l, i, True) \<and> Key l = [1, 3, 5]"
proof -
  have "map Key (found_below LT [1, 3, 6] sample_tree) = [[1, 2], [1, 3, 5]]"
    by (rule sample_filter [where P = "\<lambda>K. K < [1, 3, 6]"]) (simp_all add: found_below_def sample_keys(2))
  then have l: "found_below LT [1, 3, 6] sample_tree \<noteq> []" "Key (last (found_below LT [1, 3, 6] sample_tree)) = [1, 3, 5]"
    by (auto simp: last_map [symmetric])
  have "\<exists>l \<in> set (tree_leaves sample_tree). [1, 3, 6] \<le> Key l"
    using sample_key_set by (intro sample_some_leaf [of "[4]"]) simp_all
  with l conjunct1 [OF find_below_correct [OF sample_facts(1) sample_no256, where K = "[1, 3, 6]" and smod = LT]] sample_keys(2)
  show ?thesis by auto
qed

section \<open>Iteration\<close>

text \<open>
  C10. Iterating forwards over a well-formed tree ends without a panic and calls the consumer on the
  leaves with a key above the first bound and at or below the second, in increasing key order,
  until the consumer asks to stop. An empty second bound is no bound; an empty first bound leaves out the empty key. This is not what
  the comment on \<open>Iterator\<close> documents, which is the range that has the first bound and not the second, as iteration backwards does.
\<close>

theorem ascend_visits_range:
  assumes "tree_wf t"
  shows "Ascend t beg endx yield s = Some (Inr (feed yield
    (filter (\<lambda>l. beg < Key l \<and> (endx = [] \<or> Key l \<le> endx)) (tree_leaves t)) s)) \<and>
    sorted_wrt (\<lambda>l l'. Key l < Key l') (tree_leaves t)"
  using Ascend_correct [OF assms] tree_sorted [OF assms] by (simp add: sorted_wrt_map)

theorem ascend_visits_range_witness:
  "Ascend sample_tree [1, 2] [1, 3, 6] (\<lambda>ks k v. (ks @ [k], True)) [] = Some (Inr [[1, 3, 5], [1, 3, 6]])"
proof -
  have f: "feed (\<lambda>ks k v. (ks @ [k], True)) ls acc = acc @ map Key ls" for ls acc by (induction ls arbitrary: acc) auto
  have "map Key (filter (\<lambda>l. [1, 2] < Key l \<and> ([1, 3, 6] = [] \<or> Key l \<le> [1, 3, 6])) (tree_leaves sample_tree)) = [[1, 3, 5], [1, 3, 6]]"
    by (rule sample_filter [OF refl]) simp
  then show ?thesis unfolding ascend_visits_range [OF sample_facts(1), THEN conjunct1] f by simp
qed

text \<open>
  C11. Iterating backwards over a well-formed tree without a \<open>node256\<close> ends without a panic and calls the consumer on
  the leaves with a key at or above the first bound and below the second, in decreasing key order, until the consumer asks to stop. An
  empty second bound is no bound.
\<close>

theorem descend_visits_range:
  assumes "tree_wf t" and "tree_no256 t"
  shows "ascend_loop yield (tree_ReverseIterator t start stop) s = Some (Inr (feed yield
    (rev (filter (\<lambda>l. start \<le> Key l \<and> (stop = [] \<or> Key l < stop)) (tree_leaves t))) s))"
  using assms by (rule Descend_correct)

theorem descend_visits_range_witness:
  "ascend_loop (\<lambda>ks k v. (ks @ [k], length ks = 0)) (tree_ReverseIterator sample_tree [1, 2] []) []
    = Some (Inr [[4], [1, 3, 6]])"
proof -
  have "map Key (filter (\<lambda>l. [1, 2] \<le> Key l \<and> (([] :: key) = [] \<or> Key l < [])) (tree_leaves sample_tree))
      = [[1, 2], [1, 3, 5], [1, 3, 6], [4]]" by (rule sample_filter [OF refl]) simp
  then obtain a b c d where l: "filter (\<lambda>l. [1, 2] \<le> Key l \<and> (([] :: key) = [] \<or> Key l < [])) (tree_leaves sample_tree) = [a, b, c, d]"
    "Key c = [1, 3, 6]" "Key d = [4]" by (auto simp: map_eq_Cons_conv)
  show ?thesis
    unfolding descend_visits_range [OF sample_facts(1) sample_no256] l(1) by (simp add: l(2,3))
qed

text \<open>
  C12. \<open>DeepSize\<close> ends and counts the leaves with a key that is not empty: it equals \<open>Size\<close> on a tree with
  an exact size unless the empty key is stored, which the iteration leaves out.
\<close>

theorem deep_size_counts:
  assumes "tree_wf t" and "sized t"
  shows "tree_DeepSize t = Some (Inr (tree_Size t - (if [] \<in> tree_keys t then 1 else 0)))"
  using assms by (rule DeepSize_Size)

theorem deep_size_counts_witness: "tree_DeepSize sample_tree = Some (Inr 4)"
  using deep_size_counts [OF sample_facts(1,2)] sample_facts(2) sample_keys(2) sample_key_set
  by (simp add: sized_def tree_Size_def)

end
